(* ===== verification/Prelude.thy ===== *)
theory Prelude
  imports Main "HOL-Library.Word" "HOL-Library.Multiset"
begin

text \<open>
  Shared vocabulary of the development: the ways a C function of the runtime can fail to
  return (\<open>c_abort\<close>), the result type of every fallible operation, the types that stand for
  C's scalars, and the generic lemmas on lists, arrays and results that the component
  theories use.
\<close>

unbundle bit_operations_syntax

subsection \<open>Results\<close>

text \<open>
  How a call leaves the program other than by returning: \<open>exit(-1)\<close> after an error message,
  a failed \<open>assert\<close>, \<open>abort()\<close>, a dereference of the null pointer (a crash), an access outside the
  object at hand (undefined behaviour), and a call that has not
  returned within the given number of nested calls or loop rounds.
\<close>

datatype c_abort = Exit_minus_1 | Assert_failed | Aborted | Null_deref | Wild_access | Out_of_fuel

type_synonym 'a result = "c_abort + 'a"

definition rbind :: "'a result \<Rightarrow> ('a \<Rightarrow> 'b result) \<Rightarrow> 'b result" where
  "rbind r f = (case r of Inl e \<Rightarrow> Inl e | Inr x \<Rightarrow> f x)"

named_theorems result_simps \<open>rewrite rules for results\<close>

lemma rbind_Inl [simp, result_simps]: "rbind (Inl e) f = Inl e"
  by (simp add: rbind_def)

lemma rbind_Inr [simp, result_simps]: "rbind (Inr x) f = f x"
  by (simp add: rbind_def)

lemma rbind_eq_Inr [result_simps]:
  "rbind r f = Inr y \<longleftrightarrow> (\<exists>x. r = Inr x \<and> f x = Inr y)"
  by (cases r) auto

lemma rbind_InrE:
  assumes "rbind r f = Inr y"
  obtains x where "r = Inr x" "f x = Inr y"
  using assms by (auto simp: rbind_eq_Inr)

lemma rbind_assoc: "rbind (rbind r f) g = rbind r (\<lambda>x. rbind (f x) g)"
  by (cases r) auto

lemma rbind_cong [fundef_cong]:
  "r = r' \<Longrightarrow> (\<And>x. r' = Inr x \<Longrightarrow> f x = f' x) \<Longrightarrow> rbind r f = rbind r' f'"
  by (cases r') auto

subsection \<open>Scalars\<close>

text \<open>
  Pointers are 64-bit words with \<open>NULL = 0\<close>; \<open>ctyp\<close> (\<open>typ\<close>, a \<open>long\<close> in cstrider_api.h) is a
  64-bit word whose signed reading is the C value; \<open>uint32_t\<close>, \<open>unsigned\<close>
  and \<open>int\<close> (read through \<open>sint\<close>) are 32-bit words.
\<close>

type_synonym addr = "64 word"
type_synonym ctyp = "64 word"
type_synonym u32 = "32 word"
type_synonym i32 = "32 word"
type_synonym byte = "8 word"

text \<open>
  The object representation of 32- and 64-bit integers on the little-endian machines the
  program runs on.
\<close>

definition bytes64 :: "64 word \<Rightarrow> byte list" where
  "bytes64 w = map (\<lambda>i. ucast (drop_bit (8 * i) w)) [0..<8]"

definition bytes32 :: "32 word \<Rightarrow> byte list" where
  "bytes32 w = map (\<lambda>i. ucast (drop_bit (8 * i) w)) [0..<4]"

lemma length_bytes64 [simp]: "length (bytes64 w) = 8"
  by (simp add: bytes64_def)

lemma length_bytes32 [simp]: "length (bytes32 w) = 4"
  by (simp add: bytes32_def)

subsection \<open>Lists\<close>

lemma nth_list_update_if: "i < length xs \<Longrightarrow> (xs[i := y]) ! j = (if i = j then y else xs ! j)"
  by simp

lemma foldl_invariant:
  assumes "I s" and "\<And>s x. I s \<Longrightarrow> x \<in> set xs \<Longrightarrow> I (f s x)"
  shows "I (foldl f s xs)"
  using assms by (induction xs arbitrary: s) auto

lemma map_upt_shift: "map f [a..<a + n] = map (\<lambda>i. f (a + i)) [0..<n]"
  by (induction n) auto

lemma mset_list_update_same:
  "i < length xs \<Longrightarrow> mset (xs[i := y]) = add_mset y (mset xs - {#xs ! i#})"
  by (rule mset_update)

lemma sum_list_concat_update:
  fixes f :: "'a \<Rightarrow> 'b list"
  assumes "i < length xs"
  shows "mset (concat (map f (xs[i := y]))) + mset (f (xs ! i))
       = mset (concat (map f xs)) + mset (f y)"
  using assms
proof (induction xs arbitrary: i)
  case Nil
  then show ?case by simp
next
  case (Cons x xs)
  then show ?case by (cases i) (auto simp: ac_simps)
qed

subsection \<open>Conversions between words\<close>

lemma unat_scast_nonneg:
  assumes "0 \<le> sint (n :: i32)"
  shows "unat (scast n :: 64 word) = nat (sint n)"
proof -
  have lt: "sint n < 2 ^ 31" using sint_lt [of n] by simp
  have "(scast n :: 64 word) = word_of_int (sint n)" by (rule scast_eq)
  then have "uint (scast n :: 64 word) = take_bit 64 (sint n)"
    by (simp only: uint_word_of_int_eq) simp
  also have "\<dots> = sint n" using assms lt by (intro take_bit_int_eq_self) simp_all
  finally show ?thesis by (simp flip: nat_uint_eq)
qed

lemma nonneg_i32_of_nat:
  assumes "k < 2 ^ 31"
  shows "sint (of_nat k :: i32) = int k" "unat (of_nat k :: i32) = k"
proof -
  show "unat (of_nat k :: i32) = k" using assms by (simp add: unat_of_nat take_bit_nat_eq_self)
  have "(of_nat k :: i32) = word_of_int (int k)" by simp
  then have "sint (of_nat k :: i32) = signed_take_bit 31 (int k)"
    by (simp only: sint_sbintrunc') simp
  also have "\<dots> = int k" using assms by (intro signed_take_bit_int_eq_self) simp_all
  finally show "sint (of_nat k :: i32) = int k" .
qed

lemma word_of_nat_div:
  assumes "n < 2 ^ 64" "k < 2 ^ 64"
  shows "(of_nat n :: 64 word) div of_nat k = of_nat (n div k)"
  using assms by (simp add: word_arith_nat_div unat_of_nat take_bit_nat_eq_self)

lemma scast_of_nat_i32: "k < 2 ^ 31 \<Longrightarrow> (scast (of_nat k :: i32) :: 64 word) = of_nat k"
  using nonneg_i32_of_nat(1) [of k] by (simp add: scast_eq)

lemma ucast_of_nat_64: "k < 2 ^ 64 \<Longrightarrow> (ucast (of_nat k :: 64 word) :: i32) = of_nat k"
  by (simp add: word_eq_iff_unsigned unsigned_ucast_eq unsigned_of_nat take_bit_nat_eq_self)

end
