(* ===== verification/Queue.thy ===== *)
theory Queue
  imports Prelude
begin

text \<open>
  The work queues of src/src/queue.c and src/src/queue.h: one bounded ring buffer per
  thread, the choice of a queue by its approximate count, the trylock loops of \<open>enqueue\<close>
  and \<open>dequeue\<close>, and the emptiness test \<open>allqempty\<close>. The code inside a critical section
  is a definition of its own (\<open>enqueue_locked\<close>, \<open>dequeue_locked\<close>), used by the whole
  operations here and by the steps of the concurrent model in theory \<open>Scheduler\<close>.
  A stored \<open>void *\<close> is an \<open>'a option\<close>: \<open>None\<close> is NULL.
\<close>

subsection \<open>State\<close>

definition QUEUESIZE :: int where
  "QUEUESIZE = 250000"

record 'a queue =
  slots :: "int \<Rightarrow> 'a option"
  queue_mutex :: "nat option"
  front :: int
  rear :: int
  thread_started :: int
  qcount :: int
  inflight :: int

definition init_queue :: "'a queue \<Rightarrow> 'a queue" where
  "init_queue q = q\<lparr>front := 0, rear := QUEUESIZE - 1, thread_started := 0,
     qcount := 0, inflight := 0, queue_mutex := None\<rparr>"

definition start_dequeue :: "'a queue \<Rightarrow> 'a queue" where
  "start_dequeue q = q\<lparr>thread_started := 1\<rparr>"

definition deq_task_finished :: "'a queue \<Rightarrow> 'a queue" where
  "deq_task_finished q = q\<lparr>inflight := inflight q - 1\<rparr>"

subsection \<open>Critical sections of enqueue and dequeue\<close>

definition enqueue_locked :: "'a option \<Rightarrow> 'a queue \<Rightarrow> 'a queue result" where
  "enqueue_locked x q =
     (if qcount q \<ge> QUEUESIZE then Inl Assert_failed
      else let r = (rear q + 1) mod QUEUESIZE
           in Inr (q\<lparr>rear := r, slots := (slots q)(r := x), qcount := qcount q + 1\<rparr>))"

definition dequeue_locked :: "'a queue \<Rightarrow> ('a option \<times> 'a queue) option" where
  "dequeue_locked q =
     (if qcount q = 0 then None
      else Some (slots q (front q),
                 q\<lparr>front := (front q + 1) mod QUEUESIZE, qcount := qcount q - 1\<rparr>))"

subsection \<open>Choosing a queue\<close>

definition lowest :: "'a queue list \<Rightarrow> nat \<Rightarrow> nat" where
  "lowest qa num_queues =
     fst (foldl (\<lambda>(lowqueue, lowcount) i.
            if qcount (qa ! i) < lowcount then (i, qcount (qa ! i)) else (lowqueue, lowcount))
          (0, QUEUESIZE) [0..<num_queues])"

definition highest :: "'a queue list \<Rightarrow> nat \<Rightarrow> nat" where
  "highest qa num_queues =
     fst (foldl (\<lambda>(highqueue, highcount) i.
            if qcount (qa ! i) > highcount then (i, qcount (qa ! i)) else (highqueue, highcount))
          (0, 0) [0..<num_queues])"

text \<open>
  \<open>pthread_mutex_trylock\<close> fails with EBUSY exactly when the mutex is held. The loop
  \<open>while (err == EBUSY) qnum = (qnum + 1) % num_queues\<close> is given a number of rounds; it
  finds the first free queue in cyclic order, or is still spinning (\<open>None\<close>).
\<close>

definition trylock_busy :: "'a queue \<Rightarrow> bool" where
  "trylock_busy q = (queue_mutex q \<noteq> None)"

fun trylock_loop :: "nat \<Rightarrow> 'a queue list \<Rightarrow> nat \<Rightarrow> nat \<Rightarrow> nat option" where
  "trylock_loop 0 qa num_queues qnum = None"
| "trylock_loop (Suc rounds) qa num_queues qnum =
     (if trylock_busy (qa ! qnum) then trylock_loop rounds qa num_queues ((qnum + 1) mod num_queues)
      else Some qnum)"

subsection \<open>Whole operations\<close>

text \<open>
  Both operations take and release the mutex of the queue they found, so the mutex is free
  again in the result. \<open>dequeue\<close> counts the task as in flight in the home queue of the
  calling thread, also when it came from another queue.
\<close>

definition enqueue :: "nat \<Rightarrow> 'a queue list \<Rightarrow> nat \<Rightarrow> 'a option \<Rightarrow> 'a queue list result" where
  "enqueue rounds qa num_queues x =
     (case trylock_loop rounds qa num_queues (lowest qa num_queues) of
        None \<Rightarrow> Inl Out_of_fuel
      | Some qnum \<Rightarrow> rbind (enqueue_locked x (qa ! qnum)) (\<lambda>q. Inr (qa[qnum := q])))"

definition dequeue_choose :: "nat \<Rightarrow> 'a queue list \<Rightarrow> nat \<Rightarrow> nat \<Rightarrow> nat option" where
  "dequeue_choose rounds qa num_queues homeq =
     (if trylock_busy (qa ! homeq)
      then trylock_loop rounds qa num_queues (highest qa num_queues)
      else Some homeq)"

definition dequeue ::
    "nat \<Rightarrow> 'a queue list \<Rightarrow> nat \<Rightarrow> nat \<Rightarrow> ('a option \<times> 'a queue list) result" where
  "dequeue rounds qa num_queues homeq =
     (case dequeue_choose rounds qa num_queues homeq of
        None \<Rightarrow> Inl Out_of_fuel
      | Some qnum \<Rightarrow>
          (case dequeue_locked (qa ! qnum) of
             None \<Rightarrow> Inr (None, qa)
           | Some (x, q) \<Rightarrow>
               let qa' = qa[qnum := q]
               in Inr (x, qa'[homeq := (qa' ! homeq)\<lparr>inflight := inflight (qa' ! homeq) + 1\<rparr>])))"

text \<open>
  \<open>allqempty\<close> run without interference: the cached answer, the first scan without locks,
  the second scan with all locks held, and the update of the global \<open>allqdone\<close>. It returns
  the answer and the new value of \<open>allqdone\<close>.
\<close>

definition scan_pending :: "'a queue \<Rightarrow> bool" where
  "scan_pending q = (thread_started q \<noteq> 1 \<or> inflight q > 0)"

definition check_nonempty :: "'a queue \<Rightarrow> bool" where
  "check_nonempty q = (inflight q \<noteq> 0 \<or> qcount q \<noteq> 0 \<or> thread_started q \<noteq> 1)"

definition allqempty :: "int \<Rightarrow> 'a queue list \<Rightarrow> nat \<Rightarrow> int \<times> int" where
  "allqempty allqdone qa num_queues =
     (if allqdone \<noteq> 0 then (allqdone, allqdone)
      else if list_ex scan_pending (take num_queues qa) then (0, allqdone)
      else if list_ex check_nonempty (take num_queues qa) then (0, allqdone)
      else (1, 1))"

subsection \<open>The ring buffer as a list\<close>

definition ring_inv :: "'a queue \<Rightarrow> bool" where
  "ring_inv q \<longleftrightarrow> 0 \<le> front q \<and> front q < QUEUESIZE \<and> 0 \<le> qcount q \<and> qcount q \<le> QUEUESIZE
     \<and> rear q = (front q + qcount q - 1) mod QUEUESIZE"

definition qlist :: "'a queue \<Rightarrow> 'a option list" where
  "qlist q = map (\<lambda>i. slots q ((front q + int i) mod QUEUESIZE)) [0..<nat (qcount q)]"

lemma QUEUESIZE_pos [simp]: "0 < QUEUESIZE"
  by (simp add: QUEUESIZE_def)

lemma QUEUESIZE_nonneg [simp]: "0 \<le> QUEUESIZE"
  by (simp add: QUEUESIZE_def)

lemma length_qlist [simp]: "length (qlist q) = nat (qcount q)"
  by (simp add: qlist_def)

lemma ring_inv_init [simp]: "ring_inv (init_queue q)"
proof -
  have "QUEUESIZE - 1 = (- 1) mod QUEUESIZE"
    by (simp add: QUEUESIZE_def)
  then show ?thesis
    by (simp add: ring_inv_def init_queue_def)
qed

lemma init_queue_fields [simp]:
  "qcount (init_queue q) = 0" "inflight (init_queue q) = 0"
  "thread_started (init_queue q) = 0" "queue_mutex (init_queue q) = None"
  by (simp_all add: init_queue_def)

lemma qlist_init [simp]: "qlist (init_queue q) = []"
  by (simp add: qlist_def init_queue_def)

lemma ring_inv_frame [simp]:
  "ring_inv (q\<lparr>inflight := i\<rparr>) = ring_inv q"
  "ring_inv (q\<lparr>thread_started := j\<rparr>) = ring_inv q"
  "ring_inv (q\<lparr>queue_mutex := m\<rparr>) = ring_inv q"
  by (simp_all add: ring_inv_def)

lemma qlist_frame [simp]:
  "qlist (q\<lparr>inflight := i\<rparr>) = qlist q"
  "qlist (q\<lparr>thread_started := j\<rparr>) = qlist q"
  "qlist (q\<lparr>queue_mutex := m\<rparr>) = qlist q"
  by (simp_all add: qlist_def)

lemma ring_next_index:
  assumes "ring_inv q"
  shows "(rear q + 1) mod QUEUESIZE = (front q + qcount q) mod QUEUESIZE"
  using assms by (simp add: ring_inv_def mod_add_left_eq)

lemma mod_window_inj:
  fixes a :: int
  assumes "(a + i) mod n = (a + j) mod n" "0 \<le> i" "i < n" "0 \<le> j" "j < n"
  shows "i = j"
proof -
  have "i mod n = j mod n"
    using assms(1) by (metis add_diff_cancel_left' mod_diff_left_eq)
  then show ?thesis using assms by simp
qed

lemma enqueue_locked_full:
  "ring_inv q \<Longrightarrow> length (qlist q) \<ge> nat QUEUESIZE \<Longrightarrow> enqueue_locked x q = Inl Assert_failed"
  by (auto simp: enqueue_locked_def ring_inv_def)

lemma enqueue_locked_ok:
  assumes inv: "ring_inv q" and room: "qcount q < QUEUESIZE"
  obtains q' where "enqueue_locked x q = Inr q'" "ring_inv q'" "qlist q' = qlist q @ [x]"
    "inflight q' = inflight q" "thread_started q' = thread_started q"
    "queue_mutex q' = queue_mutex q" "qcount q' = qcount q + 1"
proof
  let ?r = "(rear q + 1) mod QUEUESIZE"
  let ?q = "q\<lparr>rear := ?r, slots := (slots q)(?r := x), qcount := qcount q + 1\<rparr>"
  show "enqueue_locked x q = Inr ?q"
    using room by (simp add: enqueue_locked_def Let_def)
  show "ring_inv ?q"
    using inv room ring_next_index [OF inv] by (simp add: ring_inv_def)
  have pos: "0 \<le> qcount q" using inv by (simp add: ring_inv_def)
  then have split: "[0..<nat (qcount q + 1)] = [0..<nat (qcount q)] @ [nat (qcount q)]"
    by (simp add: nat_add_distrib)
  have other: "(front q + int i) mod QUEUESIZE \<noteq> ?r" if "i < nat (qcount q)" for i
  proof
    assume "(front q + int i) mod QUEUESIZE = ?r"
    then have "(front q + int i) mod QUEUESIZE = (front q + qcount q) mod QUEUESIZE"
      by (simp add: ring_next_index [OF inv])
    then have "int i = qcount q"
      by (rule mod_window_inj) (use that room pos in auto)
    then show False using that by simp
  qed
  show "qlist ?q = qlist q @ [x]"
    using pos other by (simp add: qlist_def split ring_next_index [OF inv])
qed simp_all

lemma dequeue_locked_empty:
  "ring_inv q \<Longrightarrow> qlist q = [] \<Longrightarrow> dequeue_locked q = None"
  using length_qlist [of q] by (auto simp: dequeue_locked_def ring_inv_def)

lemma dequeue_locked_ok:
  assumes inv: "ring_inv q" and cont: "qlist q = x # xs"
  obtains q' where "dequeue_locked q = Some (x, q')" "ring_inv q'" "qlist q' = xs"
    "inflight q' = inflight q" "thread_started q' = thread_started q"
    "queue_mutex q' = queue_mutex q" "qcount q' = qcount q - 1"
proof
  let ?q = "q\<lparr>front := (front q + 1) mod QUEUESIZE, qcount := qcount q - 1\<rparr>"
  have pos: "0 < qcount q"
    using cont length_qlist [of q] by (cases "0 < qcount q") auto
  then obtain n where n: "nat (qcount q) = Suc n" "nat (qcount q - 1) = n"
    by (cases "nat (qcount q)") auto
  have idx: "[0..<Suc n] = 0 # map Suc [0..<n]"
    by (simp add: map_Suc_upt upt_conv_Cons del: upt_Suc)
  have parts: "x = slots q (front q mod QUEUESIZE)"
    "xs = map (\<lambda>i. slots q ((front q + int (Suc i)) mod QUEUESIZE)) [0..<n]"
    using cont unfolding qlist_def n idx by (simp_all add: comp_def)
  show "dequeue_locked q = Some (x, ?q)"
    using pos parts(1) inv by (simp add: dequeue_locked_def ring_inv_def)
  have "((front q + 1) mod QUEUESIZE + (qcount q - 2)) mod QUEUESIZE
      = (front q + 1 + (qcount q - 2)) mod QUEUESIZE"
    by (rule mod_add_left_eq)
  then have "((front q + 1) mod QUEUESIZE + (qcount q - 1) - 1) mod QUEUESIZE
      = (front q + qcount q - 1) mod QUEUESIZE"
    by (simp add: algebra_simps)
  then show "ring_inv ?q"
    using inv pos by (simp add: ring_inv_def)
  show "qlist ?q = xs"
    using parts(2) n(2) by (simp add: qlist_def mod_simps algebra_simps)
qed simp_all


subsection \<open>The contract of one queue, and what follows from it\<close>

text \<open>
  A bounded first-in first-out queue: \<open>contents\<close> is the abstract list, \<open>enq\<close> fails
  exactly when the queue is full and \<open>deq\<close> has nothing to return exactly when it is empty.
\<close>

locale bounded_fifo =
  fixes enq :: "'x \<Rightarrow> 'q \<Rightarrow> 'q result"
    and deq :: "'q \<Rightarrow> ('x \<times> 'q) option"
    and contents :: "'q \<Rightarrow> 'x list"
    and inv :: "'q \<Rightarrow> bool"
    and cap :: nat
  assumes enq_room: "inv q \<Longrightarrow> length (contents q) < cap \<Longrightarrow>
      \<exists>q'. enq x q = Inr q' \<and> inv q' \<and> contents q' = contents q @ [x]"
    and enq_full: "inv q \<Longrightarrow> cap \<le> length (contents q) \<Longrightarrow> enq x q = Inl Assert_failed"
    and deq_none: "inv q \<Longrightarrow> contents q = [] \<Longrightarrow> deq q = None"
    and deq_some: "inv q \<Longrightarrow> contents q = x # xs \<Longrightarrow>
      \<exists>q'. deq q = Some (x, q') \<and> inv q' \<and> contents q' = xs"
begin

fun enq_all :: "'x list \<Rightarrow> 'q \<Rightarrow> 'q result" where
  "enq_all [] q = Inr q"
| "enq_all (x # xs) q = rbind (enq x q) (enq_all xs)"

fun deq_all :: "nat \<Rightarrow> 'q \<Rightarrow> 'x list \<times> 'q" where
  "deq_all 0 q = ([], q)"
| "deq_all (Suc n) q =
     (case deq q of
        None \<Rightarrow> ([], q)
      | Some (x, q') \<Rightarrow> (let (xs, q'') = deq_all n q' in (x # xs, q'')))"

lemma enq_all_contents:
  "inv q \<Longrightarrow> length (contents q) + length xs \<le> cap \<Longrightarrow>
   \<exists>q'. enq_all xs q = Inr q' \<and> inv q' \<and> contents q' = contents q @ xs"
proof (induction xs arbitrary: q)
  case Nil
  then show ?case by simp
next
  case (Cons x xs)
  then obtain q1 where q1: "enq x q = Inr q1" "inv q1" "contents q1 = contents q @ [x]"
    using enq_room [of q x] by auto
  with Cons.IH [of q1] Cons.prems(2) show ?case by auto
qed

lemma deq_all_contents:
  "inv q \<Longrightarrow> fst (deq_all n q) = take n (contents q) \<and> inv (snd (deq_all n q))
     \<and> contents (snd (deq_all n q)) = drop n (contents q)"
proof (induction n arbitrary: q)
  case 0
  then show ?case by simp
next
  case (Suc n)
  show ?case
  proof (cases "contents q")
    case Nil
    with Suc.prems deq_none show ?thesis by simp
  next
    case (Cons x xs)
    with Suc.prems deq_some obtain q' where "deq q = Some (x, q')" "inv q'" "contents q' = xs"
      by blast
    with Suc.IH [of q'] Cons show ?thesis by (auto split: prod.splits)
  qed
qed

lemma fifo_order:
  assumes "inv q" "contents q = []" "length xs \<le> cap"
  shows "\<exists>q'. enq_all xs q = Inr q' \<and> fst (deq_all (length xs) q') = xs"
  using enq_all_contents [OF assms(1), of xs] assms(2,3) deq_all_contents by fastforce

end

interpretation rq: bounded_fifo enqueue_locked dequeue_locked qlist ring_inv "nat QUEUESIZE"
proof unfold_locales
  fix q :: "'a queue" and x
  assume "ring_inv q" "length (qlist q) < nat QUEUESIZE"
  then show "\<exists>q'. enqueue_locked x q = Inr q' \<and> ring_inv q' \<and> qlist q' = qlist q @ [x]"
    using enqueue_locked_ok [of q x] by (fastforce simp: ring_inv_def)
next
  fix q :: "'a queue" and x xs
  assume "ring_inv q" "qlist q = x # xs"
  then show "\<exists>q'. dequeue_locked q = Some (x, q') \<and> ring_inv q' \<and> qlist q' = xs"
    using dequeue_locked_ok [of q x xs] by metis
qed (auto intro: enqueue_locked_full dequeue_locked_empty)

subsection \<open>Choice of a queue\<close>

lemma lowest_aux:
  fixes c :: "nat \<Rightarrow> int"
  defines "f \<equiv> \<lambda>(lq, lc) i. if c i < lc then (i, c i) else (lq, lc)"
  assumes "foldl f (0, L) [0..<n] = (lq, lc)"
  shows "(lc = L \<and> lq = 0 \<and> (\<forall>i<n. L \<le> c i))
       \<or> (lq < n \<and> lc = c lq \<and> c lq < L \<and> (\<forall>i<n. c lq \<le> c i) \<and> (\<forall>i<lq. c lq < c i))"
  using assms(2)
proof (induction n arbitrary: lq lc)
  case 0
  then show ?case by simp
next
  case (Suc n)
  obtain l0 c0 where prev: "foldl f (0, L) [0..<n] = (l0, c0)" by force
  then have now: "(lq, lc) = f (l0, c0) n" using Suc.prems by simp
  show ?case
    using Suc.IH [OF prev] now
    by (auto simp: f_def less_Suc_eq split: if_splits)
qed

lemma lowest_cases:
  "(lowest qa n = 0 \<and> (\<forall>i<n. QUEUESIZE \<le> qcount (qa ! i)))
   \<or> (lowest qa n < n \<and> qcount (qa ! lowest qa n) < QUEUESIZE
      \<and> (\<forall>i<n. qcount (qa ! lowest qa n) \<le> qcount (qa ! i))
      \<and> (\<forall>i<lowest qa n. qcount (qa ! lowest qa n) < qcount (qa ! i)))"
  using lowest_aux [where c = "\<lambda>i. qcount (qa ! i)" and L = QUEUESIZE and n = n]
  unfolding lowest_def by (metis (no_types, lifting) prod.collapse)

lemma lowest_less: "0 < n \<Longrightarrow> lowest qa n < n"
  using lowest_cases [of qa n] by auto

lemma highest_aux:
  fixes c :: "nat \<Rightarrow> int"
  defines "f \<equiv> \<lambda>(hq, hc) i. if c i > hc then (i, c i) else (hq, hc)"
  assumes "foldl f (0, L) [0..<n] = (hq, hc)"
  shows "(hc = L \<and> hq = 0 \<and> (\<forall>i<n. c i \<le> L))
       \<or> (hq < n \<and> hc = c hq \<and> L < c hq \<and> (\<forall>i<n. c i \<le> c hq))"
  using assms(2)
proof (induction n arbitrary: hq hc)
  case 0
  then show ?case by simp
next
  case (Suc n)
  obtain h0 c0 where prev: "foldl f (0, L) [0..<n] = (h0, c0)" by force
  then have now: "(hq, hc) = f (h0, c0) n" using Suc.prems by simp
  show ?case
    using Suc.IH [OF prev] now
    by (auto simp: f_def less_Suc_eq split: if_splits)
qed

lemma highest_cases:
  "(highest qa n = 0 \<and> (\<forall>i<n. qcount (qa ! i) \<le> 0))
   \<or> (highest qa n < n \<and> 0 < qcount (qa ! highest qa n)
      \<and> (\<forall>i<n. qcount (qa ! i) \<le> qcount (qa ! highest qa n)))"
  using highest_aux [where c = "\<lambda>i. qcount (qa ! i)" and L = 0 and n = n]
  unfolding highest_def by (metis (no_types, lifting) prod.collapse)

lemma highest_less: "0 < n \<Longrightarrow> highest qa n < n"
  using highest_cases [of qa n] by auto

subsection \<open>The trylock loops\<close>

lemma trylock_loop_Some:
  "trylock_loop k qa n j = Some i \<Longrightarrow> j < n \<Longrightarrow> i < n \<and> \<not> trylock_busy (qa ! i)"
  by (induction k qa n j rule: trylock_loop.induct) (auto split: if_splits)

lemma trylock_loop_reaches:
  "0 < n \<Longrightarrow> j < n \<Longrightarrow> d < k \<Longrightarrow> \<not> trylock_busy (qa ! ((j + d) mod n)) \<Longrightarrow>
   \<exists>i. trylock_loop k qa n j = Some i"
proof (induction d arbitrary: j k)
  case 0
  then show ?case by (cases k) auto
next
  case (Suc d)
  then obtain k' where k: "k = Suc k'" "d < k'" by (cases k) auto
  have "((j + 1) mod n + d) mod n = (j + Suc d) mod n"
    by (simp add: mod_add_left_eq)
  with Suc.IH [of "(j + 1) mod n" k'] Suc.prems k show ?case by auto
qed

lemma trylock_loop_enough:
  assumes "0 < n" "j < n" "i < n" "\<not> trylock_busy (qa ! i)"
  shows "\<exists>l. trylock_loop n qa n j = Some l"
proof -
  let ?d = "(i + (n - j)) mod n"
  have "(j + ?d) mod n = (j + (i + (n - j))) mod n"
    by (simp add: mod_add_right_eq)
  also have "\<dots> = (i + n) mod n" using assms(2) by (simp add: algebra_simps)
  finally have "(j + ?d) mod n = i" using assms(3) by simp
  then show ?thesis
    using trylock_loop_reaches [of n j ?d n qa] assms by auto
qed

subsection \<open>Properties of the operations on the array of queues\<close>

definition queues_ok :: "'a queue list \<Rightarrow> nat \<Rightarrow> bool" where
  "queues_ok qa n \<longleftrightarrow> 0 < n \<and> n \<le> length qa \<and> list_all ring_inv qa"

text \<open>The queues as the zeroed globals, before and after \<open>init_queue\<close>.\<close>

definition zero_queue :: "'a queue" where
  "zero_queue = \<lparr>slots = (\<lambda>_. None), queue_mutex = None, front = 0, rear = 0,
     thread_started = 0, qcount = 0, inflight = 0\<rparr>"

definition one_locked :: "nat queue list" where
  "one_locked = [(init_queue zero_queue)\<lparr>queue_mutex := Some 1\<rparr>, init_queue zero_queue]"

lemma queues_okD: "queues_ok qa n \<Longrightarrow> i < n \<Longrightarrow> ring_inv (qa ! i)"
  by (auto simp: queues_ok_def list_all_length)

lemma enqueue_at:
  assumes ok: "queues_ok qa n" and i: "trylock_loop n qa n (lowest qa n) = Some i"
    and room: "qcount (qa ! i) < QUEUESIZE"
  shows "\<exists>q. enqueue n qa n x = Inr (qa[i := q]) \<and> qlist q = qlist (qa ! i) @ [x]
    \<and> inflight q = inflight (qa ! i) \<and> queues_ok (qa[i := q]) n"
proof -
  have "i < n"
    using trylock_loop_Some [OF i] lowest_less [of n qa] ok by (simp add: queues_ok_def)
  then have inv: "ring_inv (qa ! i)" using ok by (simp add: queues_okD)
  obtain q where "enqueue_locked x (qa ! i) = Inr q" "ring_inv q" "qlist q = qlist (qa ! i) @ [x]"
    "inflight q = inflight (qa ! i)"
    using enqueue_locked_ok [OF inv room] by metis
  with ok i \<open>i < n\<close> show ?thesis
    by (auto simp: enqueue_def queues_ok_def list_all_length nth_list_update)
qed

lemma no_lock_lowest:
  assumes "queues_ok qa n" "\<forall>i<n. \<not> trylock_busy (qa ! i)"
  shows "trylock_loop n qa n (lowest qa n) = Some (lowest qa n)"
proof -
  have "lowest qa n < n" using assms(1) by (simp add: queues_ok_def lowest_less)
  then show ?thesis using assms by (cases n) auto
qed



text \<open>
  \<open>enqueue\<close> with no mutex held and room in some queue succeeds: it appends the element
  to the queue with the smallest count (the first of them), leaves every other queue and
  the in-flight counts alone and keeps every ring buffer well formed.
\<close>

theorem enqueue_lowest:
  assumes ok: "queues_ok qa n" and free: "\<forall>i<n. \<not> trylock_busy (qa ! i)"
    and room: "i < n" "qcount (qa ! i) < QUEUESIZE"
  shows "\<exists>q. enqueue n qa n x = Inr (qa[lowest qa n := q])
    \<and> qlist q = qlist (qa ! lowest qa n) @ [x] \<and> inflight q = inflight (qa ! lowest qa n)
    \<and> queues_ok (qa[lowest qa n := q]) n
    \<and> lowest qa n < n \<and> (\<forall>j<n. qcount (qa ! lowest qa n) \<le> qcount (qa ! j))
    \<and> (\<forall>j<lowest qa n. qcount (qa ! lowest qa n) < qcount (qa ! j))"
proof -
  have low: "lowest qa n < n \<and> qcount (qa ! lowest qa n) < QUEUESIZE
      \<and> (\<forall>j<n. qcount (qa ! lowest qa n) \<le> qcount (qa ! j))
      \<and> (\<forall>j<lowest qa n. qcount (qa ! lowest qa n) < qcount (qa ! j))"
    using lowest_cases [of qa n] room by force
  then show ?thesis using enqueue_at [OF ok no_lock_lowest [OF ok free]] by blast
qed

theorem enqueue_lowest_witness:
  "\<exists>q. enqueue 2 [init_queue zero_queue, init_queue zero_queue] 2 (Some (7 :: nat))
        = Inr ([init_queue zero_queue, init_queue zero_queue]
            [lowest [init_queue zero_queue, init_queue zero_queue :: nat queue] 2 := q])
     \<and> qlist q = [Some 7]"
  using enqueue_lowest [of "[init_queue zero_queue, init_queue zero_queue :: nat queue]" 2 0 "Some 7"]
  by (force simp: queues_ok_def trylock_busy_def less_2_cases_iff lowest_def upt_rec QUEUESIZE_def)

text \<open>
  Whatever mutexes are held, as long as one is free, the trylock loop of \<open>enqueue\<close>
  stops within one tour of the queues at a queue whose mutex is free; the element is
  appended there if that queue has room, and otherwise the assertion fails.
\<close>

theorem enqueue_rotates:
  assumes ok: "queues_ok qa n" and free: "i < n" "\<not> trylock_busy (qa ! i)"
  shows "\<exists>j<n. \<not> trylock_busy (qa ! j) \<and>
    (if qcount (qa ! j) < QUEUESIZE
     then \<exists>q. enqueue n qa n x = Inr (qa[j := q]) \<and> qlist q = qlist (qa ! j) @ [x]
     else enqueue n qa n x = Inl Assert_failed)"
proof -
  have n: "0 < n" using ok by (simp add: queues_ok_def)
  then obtain j where j: "trylock_loop n qa n (lowest qa n) = Some j"
    using trylock_loop_enough [OF n lowest_less free] by blast
  with n have jn: "j < n" "\<not> trylock_busy (qa ! j)"
    using trylock_loop_Some lowest_less by blast+
  have "\<not> qcount (qa ! j) < QUEUESIZE \<Longrightarrow> enqueue n qa n x = Inl Assert_failed"
    using j by (simp add: enqueue_def enqueue_locked_def)
  then show ?thesis using jn enqueue_at [OF ok j, of x] by (intro exI [of _ j]) auto
qed

theorem enqueue_rotates_witness:
  "\<exists>j<2. \<not> trylock_busy (one_locked ! j) \<and>
    (if qcount (one_locked ! j) < QUEUESIZE
     then \<exists>q. enqueue 2 one_locked 2 (Some 7) = Inr (one_locked[j := q])
         \<and> qlist q = qlist (one_locked ! j) @ [Some 7]
     else enqueue 2 one_locked 2 (Some 7) = Inl Assert_failed)"
  by (rule enqueue_rotates [where i = 1]) (simp_all add: one_locked_def queues_ok_def trylock_busy_def)

text \<open>
  \<open>dequeue\<close> by a thread whose home queue is free takes the oldest element of that queue
  and counts it as in flight there; on an empty home queue it returns NULL and changes
  nothing.
\<close>

theorem dequeue_home:
  assumes ok: "queues_ok qa n" and h: "h < n" "\<not> trylock_busy (qa ! h)"
  shows "case qlist (qa ! h) of
      [] \<Rightarrow> dequeue k qa n h = Inr (None, qa)
    | x # xs \<Rightarrow> \<exists>q. dequeue k qa n h = Inr (x, qa[h := q]) \<and> qlist q = xs \<and> ring_inv q
        \<and> inflight q = inflight (qa ! h) + 1"
proof (cases "qlist (qa ! h)")
  case Nil
  with ok h show ?thesis
    by (simp add: dequeue_def dequeue_choose_def dequeue_locked_empty queues_okD)
next
  case (Cons x xs)
  then obtain q where "dequeue_locked (qa ! h) = Some (x, q)" "ring_inv q" "qlist q = xs"
    "inflight q = inflight (qa ! h)"
    using dequeue_locked_ok [OF queues_okD [OF ok h(1)] Cons] by metis
  moreover have "h < length qa" using ok h(1) by (simp add: queues_ok_def)
  ultimately show ?thesis
    using Cons h(2)
    by (auto simp: dequeue_def dequeue_choose_def Let_def
        intro!: exI [of _ "q\<lparr>inflight := inflight (qa ! h) + 1\<rparr>"])
qed

theorem dequeue_home_witness:
  "dequeue 0 [init_queue zero_queue :: nat queue] 1 0 = Inr (None, [init_queue zero_queue])"
  using dequeue_home [of "[init_queue zero_queue :: nat queue]" 1 0 0]
  by (simp add: queues_ok_def trylock_busy_def)

text \<open>
  A thread that finds its home queue locked steals: \<open>dequeue\<close> moves one element from the
  front of a queue whose mutex is free to the thread and counts it as in flight in the
  thread's home queue, so that the sum of queued and in-flight tasks does not change.
\<close>

theorem dequeue_steals:
  assumes ok: "queues_ok qa n" and h: "h < n" "trylock_busy (qa ! h)"
    and free: "i < n" "\<not> trylock_busy (qa ! i)"
  shows "\<exists>j<n. \<not> trylock_busy (qa ! j) \<and> j \<noteq> h \<and>
    (case qlist (qa ! j) of
       [] \<Rightarrow> dequeue n qa n h = Inr (None, qa)
     | x # xs \<Rightarrow> \<exists>q. dequeue n qa n h =
           Inr (x, qa[j := q, h := (qa ! h)\<lparr>inflight := inflight (qa ! h) + 1\<rparr>]) \<and> qlist q = xs)"
proof -
  have n: "0 < n" "n \<le> length qa" using ok by (simp_all add: queues_ok_def)
  obtain j where j: "trylock_loop n qa n (highest qa n) = Some j"
    using trylock_loop_enough [OF n(1) highest_less free] n by blast
  then have jn: "j < n" "\<not> trylock_busy (qa ! j)"
    using trylock_loop_Some highest_less n by blast+
  then have "j \<noteq> h" using h(2) by auto
  show ?thesis
  proof (cases "qlist (qa ! j)")
    case Nil
    with ok jn j h \<open>j \<noteq> h\<close> show ?thesis
      by (intro exI [of _ j]) (simp add: dequeue_def dequeue_choose_def dequeue_locked_empty queues_okD)
  next
    case (Cons x xs)
    then obtain q where "dequeue_locked (qa ! j) = Some (x, q)" "qlist q = xs"
      using dequeue_locked_ok [OF queues_okD [OF ok jn(1)] Cons] by metis
    with Cons jn j h \<open>j \<noteq> h\<close> n show ?thesis
      by (intro exI [of _ j]) (auto simp: dequeue_def dequeue_choose_def Let_def)
  qed
qed

theorem dequeue_steals_witness:
  "\<exists>j<2. \<not> trylock_busy (one_locked ! j) \<and> j \<noteq> 0 \<and>
    (case qlist (one_locked ! j) of
       [] \<Rightarrow> dequeue 2 one_locked 2 0 = Inr (None, one_locked)
     | x # xs \<Rightarrow> \<exists>q. dequeue 2 one_locked 2 0 =
           Inr (x, one_locked[j := q, 0 := (one_locked ! 0)\<lparr>inflight := inflight (one_locked ! 0) + 1\<rparr>])
         \<and> qlist q = xs)"
  by (rule dequeue_steals [where i = 1]) (simp_all add: one_locked_def queues_ok_def trylock_busy_def)

text \<open>
  \<open>allqempty\<close>, run without interference and before any earlier success, answers 1 exactly
  when every queue is empty, no task is in flight and every thread has started, and it
  records the answer in \<open>allqdone\<close>; once \<open>allqdone\<close> is set the answer no longer depends
  on the queues.
\<close>

theorem allqempty_correct:
  "(fst (allqempty 0 qa (length qa)) = 1 \<longleftrightarrow>
      list_all (\<lambda>q. qcount q = 0 \<and> inflight q = 0 \<and> thread_started q = 1) qa)
   \<and> snd (allqempty 0 qa (length qa)) = fst (allqempty 0 qa (length qa))
   \<and> allqempty 1 qa (length qa) = (1, 1)"
  by (auto simp: allqempty_def list_ex_iff list_all_iff scan_pending_def check_nonempty_def)

end
