(* ===== verification/Scheduler.thy ===== *)
theory Scheduler
  imports Queue
begin

text \<open>
  The parallel traversal loop (\<open>processqueue\<close> of src/src/transform.c with its calls into
  src/src/queue.c) as a step relation. Every thread owns one queue; the last thread is the
  main thread, which enqueues the roots before it starts to dequeue. A critical section that
  holds one mutex is one step, enabled only while that mutex is free; \<open>allqempty\<close>, which
  holds several mutexes, takes, uses and releases them in steps of its own. Which queue an
  \<open>enqueue\<close> or \<open>dequeue\<close> gets depends on unsynchronised reads of the counts and on
  failed trylocks, so any queue with a free mutex may be chosen.
\<close>

subsection \<open>State\<close>

datatype 'a pc =
    NotStarted
  | Dequeueing
  | Working 'a
  | Testing
  | Scanning nat
  | Locking nat
  | Checking nat
  | Unlocking nat int
  | Finished

record 'a sched =
  nthreads :: nat
  queue_array :: "nat \<Rightarrow> 'a queue"
  allqdone :: int
  pcs :: "nat \<Rightarrow> 'a pc"
  aborted :: bool
  submitted :: "'a multiset"
  completed :: "'a multiset"

definition goto :: "nat \<Rightarrow> 'a pc \<Rightarrow> 'a sched \<Rightarrow> 'a sched" where
  "goto t p s = s\<lparr>pcs := (pcs s)(t := p)\<rparr>"

definition set_queue :: "nat \<Rightarrow> 'a queue \<Rightarrow> 'a sched \<Rightarrow> 'a sched" where
  "set_queue j q s = s\<lparr>queue_array := (queue_array s)(j := q)\<rparr>"

definition free_mutex :: "'a sched \<Rightarrow> nat \<Rightarrow> bool" where
  "free_mutex s j = (queue_mutex (queue_array s j) = None)"

definition may_enqueue :: "'a sched \<Rightarrow> nat \<Rightarrow> bool" where
  "may_enqueue s t =
     (case pcs s t of
        Working _ \<Rightarrow> True
      | NotStarted \<Rightarrow> Suc t = nthreads s
      | _ \<Rightarrow> False)"

definition home_inflight :: "nat \<Rightarrow> 'a sched \<Rightarrow> 'a sched" where
  "home_inflight t s =
     set_queue t ((queue_array s t)\<lparr>inflight := inflight (queue_array s t) + 1\<rparr>) s"

lemmas sched_defs = goto_def set_queue_def free_mutex_def home_inflight_def

subsection \<open>Steps\<close>

inductive sched_step :: "'a sched \<Rightarrow> 'a sched \<Rightarrow> bool" where
  start: "\<lbrakk>\<not> aborted s; t < nthreads s; pcs s t = NotStarted; free_mutex s t\<rbrakk> \<Longrightarrow>
    sched_step s (goto t Dequeueing (set_queue t (start_dequeue (queue_array s t)) s))"
| enq: "\<lbrakk>\<not> aborted s; t < nthreads s; may_enqueue s t; j < nthreads s; free_mutex s j;
     enqueue_locked (Some y) (queue_array s j) = Inr q\<rbrakk> \<Longrightarrow>
    sched_step s ((set_queue j q s)\<lparr>submitted := add_mset y (submitted s)\<rparr>)"
| enq_overflow: "\<lbrakk>\<not> aborted s; t < nthreads s; may_enqueue s t; j < nthreads s; free_mutex s j;
     enqueue_locked (Some y) (queue_array s j) = Inl e\<rbrakk> \<Longrightarrow>
    sched_step s (s\<lparr>aborted := True\<rparr>)"
| deq_task: "\<lbrakk>\<not> aborted s; t < nthreads s; pcs s t = Dequeueing; j < nthreads s; free_mutex s j;
     dequeue_locked (queue_array s j) = Some (Some y, q)\<rbrakk> \<Longrightarrow>
    sched_step s (goto t (Working y) (home_inflight t (set_queue j q s)))"
| deq_null: "\<lbrakk>\<not> aborted s; t < nthreads s; pcs s t = Dequeueing; j < nthreads s; free_mutex s j;
     dequeue_locked (queue_array s j) = Some (None, q)\<rbrakk> \<Longrightarrow>
    sched_step s (goto t Testing (home_inflight t (set_queue j q s)))"
| deq_empty: "\<lbrakk>\<not> aborted s; t < nthreads s; pcs s t = Dequeueing; j < nthreads s; free_mutex s j;
     dequeue_locked (queue_array s j) = None\<rbrakk> \<Longrightarrow>
    sched_step s (goto t Testing s)"
| task_finished: "\<lbrakk>\<not> aborted s; t < nthreads s; pcs s t = Working y; free_mutex s t\<rbrakk> \<Longrightarrow>
    sched_step s ((goto t Dequeueing (set_queue t (deq_task_finished (queue_array s t)) s))
      \<lparr>completed := add_mset y (completed s)\<rparr>)"
| test_cached: "\<lbrakk>\<not> aborted s; t < nthreads s; pcs s t = Testing; allqdone s \<noteq> 0\<rbrakk> \<Longrightarrow>
    sched_step s (goto t Finished s)"
| test_scan: "\<lbrakk>\<not> aborted s; t < nthreads s; pcs s t = Testing; allqdone s = 0\<rbrakk> \<Longrightarrow>
    sched_step s (goto t (Scanning 0) s)"
| scan_pending: "\<lbrakk>\<not> aborted s; t < nthreads s; pcs s t = Scanning k; k < nthreads s;
     scan_pending (queue_array s k)\<rbrakk> \<Longrightarrow>
    sched_step s (goto t Dequeueing s)"
| scan_next: "\<lbrakk>\<not> aborted s; t < nthreads s; pcs s t = Scanning k; k < nthreads s;
     \<not> scan_pending (queue_array s k)\<rbrakk> \<Longrightarrow>
    sched_step s (goto t (Scanning (Suc k)) s)"
| scan_done: "\<lbrakk>\<not> aborted s; t < nthreads s; pcs s t = Scanning (nthreads s)\<rbrakk> \<Longrightarrow>
    sched_step s (goto t (Locking 0) s)"
| lock: "\<lbrakk>\<not> aborted s; t < nthreads s; pcs s t = Locking k; k < nthreads s; free_mutex s k\<rbrakk> \<Longrightarrow>
    sched_step s (goto t (Locking (Suc k))
      (set_queue k ((queue_array s k)\<lparr>queue_mutex := Some t\<rparr>) s))"
| lock_done: "\<lbrakk>\<not> aborted s; t < nthreads s; pcs s t = Locking (nthreads s)\<rbrakk> \<Longrightarrow>
    sched_step s (goto t (Checking 0) s)"
| check_fail: "\<lbrakk>\<not> aborted s; t < nthreads s; pcs s t = Checking k; k < nthreads s;
     check_nonempty (queue_array s k)\<rbrakk> \<Longrightarrow>
    sched_step s (goto t (Unlocking 0 0) s)"
| check_next: "\<lbrakk>\<not> aborted s; t < nthreads s; pcs s t = Checking k; k < nthreads s;
     \<not> check_nonempty (queue_array s k)\<rbrakk> \<Longrightarrow>
    sched_step s (goto t (Checking (Suc k)) s)"
| check_empty: "\<lbrakk>\<not> aborted s; t < nthreads s; pcs s t = Checking (nthreads s)\<rbrakk> \<Longrightarrow>
    sched_step s (goto t (Unlocking 0 1) (s\<lparr>allqdone := 1\<rparr>))"
| unlock: "\<lbrakk>\<not> aborted s; t < nthreads s; pcs s t = Unlocking k r; k < nthreads s\<rbrakk> \<Longrightarrow>
    sched_step s (goto t (Unlocking (Suc k) r)
      (set_queue k ((queue_array s k)\<lparr>queue_mutex := None\<rparr>) s))"
| answer: "\<lbrakk>\<not> aborted s; t < nthreads s; pcs s t = Unlocking (nthreads s) r\<rbrakk> \<Longrightarrow>
    sched_step s (goto t (if r \<noteq> 0 then Finished else Dequeueing) s)"

text \<open>
  \<open>launch_helpers\<close> with the flag \<open>is_parallel\<close> set: all queues are initialised before any
  thread runs. The value of the global \<open>allqdone\<close> is the one left by earlier traversals.
\<close>

definition launch :: "nat \<Rightarrow> int \<Rightarrow> (nat \<Rightarrow> 'a queue) \<Rightarrow> 'a sched" where
  "launch n d qs = \<lparr>nthreads = n, queue_array = (\<lambda>j. init_queue (qs j)), allqdone = d,
     pcs = (\<lambda>_. NotStarted), aborted = False, submitted = {#}, completed = {#}\<rparr>"

inductive reachable :: "'a sched \<Rightarrow> 'a sched \<Rightarrow> bool" for s0 :: "'a sched" where
  reach_init: "reachable s0 s0"
| reach_step: "reachable s0 s \<Longrightarrow> sched_step s s' \<Longrightarrow> reachable s0 s'"

subsection \<open>Invariants\<close>

fun holds_mutex :: "'a pc \<Rightarrow> nat \<Rightarrow> bool" where
  "holds_mutex (Locking k) j = (j < k)"
| "holds_mutex (Checking k) j = True"
| "holds_mutex (Unlocking k r) j = (k \<le> j)"
| "holds_mutex _ j = False"

definition is_working :: "'a pc \<Rightarrow> bool" where
  "is_working p = (case p of Working _ \<Rightarrow> True | _ \<Rightarrow> False)"

definition inv_rings :: "'a sched \<Rightarrow> bool" where
  "inv_rings s \<longleftrightarrow> (\<forall>j < nthreads s. ring_inv (queue_array s j)
      \<and> None \<notin> set (qlist (queue_array s j)))"

definition inv_flags :: "'a sched \<Rightarrow> bool" where
  "inv_flags s \<longleftrightarrow> (\<forall>j < nthreads s.
      inflight (queue_array s j) = (if is_working (pcs s j) then 1 else 0)
      \<and> thread_started (queue_array s j) = (if pcs s j = NotStarted then 0 else 1))"

definition inv_mutex :: "'a sched \<Rightarrow> bool" where
  "inv_mutex s \<longleftrightarrow> (\<forall>j < nthreads s. \<forall>t. queue_mutex (queue_array s j) = Some t
      \<longleftrightarrow> t < nthreads s \<and> holds_mutex (pcs s t) j)"

definition quiet :: "'a sched \<Rightarrow> bool" where
  "quiet s \<longleftrightarrow> (\<forall>j < nthreads s. qcount (queue_array s j) = 0
      \<and> pcs s j \<noteq> NotStarted \<and> \<not> is_working (pcs s j))"

definition pc_ok :: "'a sched \<Rightarrow> 'a pc \<Rightarrow> bool" where
  "pc_ok s p = (case p of
       Scanning k \<Rightarrow> k \<le> nthreads s
     | Locking k \<Rightarrow> k \<le> nthreads s
     | Checking k \<Rightarrow> k \<le> nthreads s \<and> (\<forall>j<k. \<not> check_nonempty (queue_array s j))
     | Unlocking k r \<Rightarrow> k \<le> nthreads s \<and> (r \<noteq> 0 \<longrightarrow> allqdone s \<noteq> 0)
     | Finished \<Rightarrow> allqdone s \<noteq> 0
     | _ \<Rightarrow> True)"

definition inv_pcs :: "'a sched \<Rightarrow> bool" where
  "inv_pcs s \<longleftrightarrow> (\<forall>t < nthreads s. pc_ok s (pcs s t))"

definition inv_done :: "'a sched \<Rightarrow> bool" where
  "inv_done s \<longleftrightarrow> (allqdone s \<noteq> 0 \<longrightarrow> quiet s)"

definition task_of :: "'a pc \<Rightarrow> 'a multiset" where
  "task_of p = (case p of Working y \<Rightarrow> {#y#} | _ \<Rightarrow> {#})"

definition queued :: "'a queue \<Rightarrow> 'a multiset" where
  "queued q = mset (map the (qlist q))"

definition inv_tasks :: "'a sched \<Rightarrow> bool" where
  "inv_tasks s \<longleftrightarrow> submitted s = completed s
     + (\<Sum>j<nthreads s. queued (queue_array s j)) + (\<Sum>t<nthreads s. task_of (pcs s t))"

definition sched_inv :: "'a sched \<Rightarrow> bool" where
  "sched_inv s \<longleftrightarrow> inv_rings s \<and> inv_flags s \<and> inv_mutex s \<and> inv_pcs s \<and> inv_done s
     \<and> inv_tasks s"


subsection \<open>Critical sections seen from the scheduler\<close>

lemma enqueue_lockedD:
  assumes "enqueue_locked x q = Inr q'"
  shows "qcount q' = qcount q + 1" "inflight q' = inflight q"
    "thread_started q' = thread_started q" "queue_mutex q' = queue_mutex q"
    "ring_inv q \<Longrightarrow> ring_inv q' \<and> qlist q' = qlist q @ [x]"
  using assms enqueue_locked_ok [of q x]
  by (auto simp: enqueue_locked_def Let_def split: if_splits)

lemma dequeue_lockedD:
  assumes "dequeue_locked q = Some (x, q')"
  shows "qcount q \<noteq> 0" "inflight q' = inflight q"
    "thread_started q' = thread_started q" "queue_mutex q' = queue_mutex q"
  using assms by (auto simp: dequeue_locked_def split: if_splits)

lemma dequeue_locked_qlist:
  assumes "dequeue_locked q = Some (x, q')" "ring_inv q"
  shows "ring_inv q' \<and> qlist q = x # qlist q'"
proof (cases "qlist q")
  case Nil
  with assms show ?thesis using dequeue_locked_empty by fastforce
next
  case (Cons y ys)
  with assms show ?thesis by (elim dequeue_locked_ok [of q y ys]) auto
qed

lemma queue_step_frame [simp]:
  "qcount (start_dequeue q) = qcount q" "qcount (deq_task_finished q) = qcount q"
  "queue_mutex (start_dequeue q) = queue_mutex q"
  "queue_mutex (deq_task_finished q) = queue_mutex q"
  "inflight (start_dequeue q) = inflight q" "inflight (deq_task_finished q) = inflight q - 1"
  "thread_started (start_dequeue q) = 1"
  "thread_started (deq_task_finished q) = thread_started q"
  "ring_inv (start_dequeue q) = ring_inv q" "ring_inv (deq_task_finished q) = ring_inv q"
  "qlist (start_dequeue q) = qlist q" "qlist (deq_task_finished q) = qlist q"
  by (simp_all add: start_dequeue_def deq_task_finished_def)

lemma is_working_simps [simp]:
  "is_working (Working y)" "\<not> is_working NotStarted" "\<not> is_working Dequeueing"
  "\<not> is_working Testing" "\<not> is_working (Scanning k)" "\<not> is_working (Locking k)"
  "\<not> is_working (Checking k)" "\<not> is_working (Unlocking k r)" "\<not> is_working Finished"
  by (simp_all add: is_working_def)

lemma task_of_simps [simp]:
  "task_of (Working y) = {#y#}" "\<not> is_working p \<Longrightarrow> task_of p = {#}"
  by (simp_all add: task_of_def is_working_def split: pc.splits)

lemma may_enqueue_cases:
  "may_enqueue s t \<Longrightarrow> is_working (pcs s t) \<or> pcs s t = NotStarted"
  by (auto simp: may_enqueue_def is_working_def split: pc.splits)

subsection \<open>Preservation\<close>

lemma step_nthreads: "sched_step s s' \<Longrightarrow> nthreads s' = nthreads s"
  by (auto elim!: sched_step.cases simp: sched_defs)

lemma dequeue_null_free:
  assumes "dequeue_locked q = Some (x, q')" "ring_inv q" "None \<notin> set (qlist q)"
  shows "ring_inv q'" "x \<noteq> None" "None \<notin> set (qlist q')"
proof -
  have "ring_inv q' \<and> qlist q = x # qlist q'"
    using assms(1,2) by (rule dequeue_locked_qlist)
  then show "ring_inv q'" "x \<noteq> None" "None \<notin> set (qlist q')"
    using assms(3) by (cases x; simp)+
qed

lemma step_rings:
  assumes "sched_step s s'" "inv_rings s"
  shows "inv_rings s'"
  using assms
  by (cases rule: sched_step.cases)
     (auto simp: inv_rings_def sched_defs dest: enqueue_lockedD(5) dequeue_null_free)

lemma step_flags:
  assumes "sched_step s s'" "inv_flags s" "inv_rings s"
  shows "inv_flags s'"
  using assms
  by (cases rule: sched_step.cases)
     (auto simp: inv_flags_def inv_rings_def sched_defs enqueue_lockedD dequeue_lockedD
       dest: dequeue_null_free(2))

lemma mutex_unique:
  assumes "inv_mutex s" "j < nthreads s" "t < nthreads s" "holds_mutex (pcs s t) j"
    "t' < nthreads s" "holds_mutex (pcs s t') j"
  shows "t = t'"
proof -
  have "queue_mutex (queue_array s j) = Some t" "queue_mutex (queue_array s j) = Some t'"
    using assms unfolding inv_mutex_def by blast+
  then show ?thesis by simp
qed

lemma free_mutexD:
  "inv_mutex s \<Longrightarrow> free_mutex s j \<Longrightarrow> j < nthreads s \<Longrightarrow> t < nthreads s \<Longrightarrow>
   \<not> holds_mutex (pcs s t) j"
  by (auto simp: inv_mutex_def free_mutex_def)

lemma inv_mutex_update:
  assumes "inv_mutex s" "nthreads s' = nthreads s"
    and "\<And>j. j < nthreads s \<Longrightarrow> queue_mutex (queue_array s' j) = queue_mutex (queue_array s j)"
    and "\<And>t j. t < nthreads s \<Longrightarrow> j < nthreads s \<Longrightarrow>
       holds_mutex (pcs s' t) j = holds_mutex (pcs s t) j"
  shows "inv_mutex s'"
  using assms unfolding inv_mutex_def by auto

lemma inv_mutex_lock:
  assumes inv: "inv_mutex s" and t: "t < nthreads s" and k: "k < nthreads s"
    and pc: "pcs s t = Locking k" and free: "free_mutex s k"
  shows "inv_mutex (goto t (Locking (Suc k))
      (set_queue k ((queue_array s k)\<lparr>queue_mutex := Some t\<rparr>) s))"
  unfolding inv_mutex_def
proof (intro allI impI)
  let ?s = "goto t (Locking (Suc k)) (set_queue k ((queue_array s k)\<lparr>queue_mutex := Some t\<rparr>) s)"
  fix j ta
  assume "j < nthreads ?s"
  then have j: "j < nthreads s" by (simp add: sched_defs)
  show "(queue_mutex (queue_array ?s j) = Some ta)
      = (ta < nthreads ?s \<and> holds_mutex (pcs ?s ta) j)"
  proof (cases "j = k")
    case True
    then show ?thesis using free_mutexD [OF inv free k, of ta] t by (auto simp: sched_defs)
  next
    case False
    then have "j < Suc k \<longleftrightarrow> j < k" by auto
    moreover have "(queue_mutex (queue_array s j) = Some ta) = (ta < nthreads s \<and> holds_mutex (pcs s ta) j)"
      using inv j by (simp add: inv_mutex_def)
    ultimately show ?thesis using False pc by (simp add: sched_defs)
  qed
qed

lemma inv_mutex_unlock:
  assumes inv: "inv_mutex s" and t: "t < nthreads s" and k: "k < nthreads s"
    and pc: "pcs s t = Unlocking k r"
  shows "inv_mutex (goto t (Unlocking (Suc k) r)
      (set_queue k ((queue_array s k)\<lparr>queue_mutex := None\<rparr>) s))"
  unfolding inv_mutex_def
proof (intro allI impI)
  let ?s = "goto t (Unlocking (Suc k) r) (set_queue k ((queue_array s k)\<lparr>queue_mutex := None\<rparr>) s)"
  fix j ta
  assume "j < nthreads ?s"
  then have j: "j < nthreads s" by (simp add: sched_defs)
  show "(queue_mutex (queue_array ?s j) = Some ta)
      = (ta < nthreads ?s \<and> holds_mutex (pcs ?s ta) j)"
  proof (cases "j = k")
    case True
    have "\<not> holds_mutex (pcs s ta) k" if "ta < nthreads s" "ta \<noteq> t"
      using mutex_unique [OF inv k that(1) _ t] pc that(2) by auto
    with True show ?thesis by (simp add: sched_defs)
  next
    case False
    then have "Suc k \<le> j \<longleftrightarrow> k \<le> j" by auto
    moreover have "(queue_mutex (queue_array s j) = Some ta) = (ta < nthreads s \<and> holds_mutex (pcs s ta) j)"
      using inv j by (simp add: inv_mutex_def)
    ultimately show ?thesis using False pc by (simp add: sched_defs)
  qed
qed

lemma step_mutex:
  assumes step: "sched_step s s'" and inv: "inv_mutex s"
  shows "inv_mutex s'"
  using step
proof (cases rule: sched_step.cases)
  case (unlock t k r)
  show ?thesis unfolding unlock(1) by (rule inv_mutex_unlock [OF inv unlock(3,5,4)])
next
  case (lock t k)
  show ?thesis unfolding lock(1) by (rule inv_mutex_lock [OF inv lock(3,5,4,6)])
qed (rule inv_mutex_update [OF inv]; simp add: sched_defs enqueue_lockedD dequeue_lockedD)+

lemma check_all_quiet:
  assumes "inv_flags s" "\<And>j. j < nthreads s \<Longrightarrow> \<not> check_nonempty (queue_array s j)"
  shows "quiet s"
  unfolding quiet_def
proof (intro allI impI)
  fix j assume j: "j < nthreads s"
  with assms(1) assms(2) [OF j]
  show "qcount (queue_array s j) = 0 \<and> pcs s j \<noteq> NotStarted \<and> \<not> is_working (pcs s j)"
    by (auto simp: inv_flags_def check_nonempty_def split: if_splits)
qed

lemma step_done:
  assumes step: "sched_step s s'" and inv: "inv_done s" "inv_flags s" "inv_pcs s"
  shows "inv_done s'"
  using step
proof (cases rule: sched_step.cases)
  case (check_empty t)
  have "quiet s"
    using inv(2) by (rule check_all_quiet)
      (use inv(3) check_empty in \<open>auto simp: inv_pcs_def pc_ok_def\<close>)
  with check_empty show ?thesis
    by (auto simp: inv_done_def quiet_def sched_defs)
qed (use inv(1) in \<open>auto simp: inv_done_def quiet_def sched_defs
       dest: may_enqueue_cases dequeue_lockedD(1)\<close>)

lemma checking_blocks:
  assumes "inv_mutex s" "u < nthreads s" "pcs s u = Checking k" "j < nthreads s"
  shows "\<not> free_mutex s j"
  using assms free_mutexD [of s j u] by auto

lemma inv_pcsD: "inv_pcs s \<Longrightarrow> t < nthreads s \<Longrightarrow> pc_ok s (pcs s t)"
  by (simp add: inv_pcs_def)

lemma inv_pcs_completed [simp]: "inv_pcs (s\<lparr>completed := c\<rparr>) = inv_pcs s"
proof -
  have "pc_ok (s\<lparr>completed := c\<rparr>) p = pc_ok s p" for p
    by (cases p) (simp_all add: pc_ok_def)
  then show ?thesis by (simp add: inv_pcs_def)
qed

text \<open>A step that only moves one thread.\<close>

lemma inv_pcs_goto:
  assumes "inv_pcs s" "pc_ok s p"
  shows "inv_pcs (goto t p s)"
  using assms by (auto simp: inv_pcs_def pc_ok_def goto_def split: pc.splits)

text \<open>A step that changes a queue whose mutex was free: no thread is in the locked check.\<close>

lemma inv_pcs_free:
  assumes inv: "inv_pcs s" and mut: "inv_mutex s" and j: "j < nthreads s" "free_mutex s j"
    and s': "nthreads s' = nthreads s" "allqdone s' = allqdone s" "pcs s' = pcs s"
  shows "inv_pcs s'"
  unfolding inv_pcs_def
proof (intro allI impI)
  fix u assume "u < nthreads s'"
  then have u: "u < nthreads s" by (simp add: s')
  have "\<And>k. pcs s u \<noteq> Checking k"
    using checking_blocks [OF mut u _ j(1)] j(2) by blast
  moreover have "pc_ok s (pcs s u)" using inv u by (rule inv_pcsD)
  ultimately show "pc_ok s' (pcs s' u)"
    by (simp add: s' pc_ok_def split: pc.splits)
qed

lemma inv_pcs_unlock:
  assumes inv: "inv_pcs s" and mut: "inv_mutex s" and k: "k < nthreads s"
    and t: "t < nthreads s" and pc: "pcs s t = Unlocking k r"
  shows "inv_pcs (goto t (Unlocking (Suc k) r)
      (set_queue k ((queue_array s k)\<lparr>queue_mutex := None\<rparr>) s))" (is "inv_pcs ?s'")
  unfolding inv_pcs_def
proof (intro allI impI)
  fix u assume "u < nthreads ?s'"
  then have u: "u < nthreads s" by (simp add: sched_defs)
  have ok: "pc_ok s (pcs s u)" using inv u by (rule inv_pcsD)
  show "pc_ok ?s' (pcs ?s' u)"
  proof (cases "u = t")
    case True
    with ok pc k show ?thesis by (simp add: sched_defs pc_ok_def)
  next
    case False
    then have "\<not> holds_mutex (pcs s u) k"
      using mutex_unique [OF mut k u _ t] pc by auto
    with ok False show ?thesis by (simp add: sched_defs pc_ok_def split: pc.splits)
  qed
qed

lemma step_pcs:
  assumes step: "sched_step s s'" and inv: "inv_pcs s" and mut: "inv_mutex s"
  shows "inv_pcs s'"
  using step
proof (cases rule: sched_step.cases)
  case (start t)
  show ?thesis unfolding start(1)
    by (rule inv_pcs_goto, rule inv_pcs_free [OF inv mut start(3,5)])
       (simp_all add: sched_defs pc_ok_def)
next
  case (enq t j y q)
  show ?thesis unfolding enq(1)
    by (rule inv_pcs_free [OF inv mut enq(5,6)]) (simp_all add: sched_defs)
next
  case (enq_overflow t j y e)
  show ?thesis unfolding enq_overflow(1)
    by (rule inv_pcs_free [OF inv mut enq_overflow(5,6)]) simp_all
next
  case (deq_task t j y q)
  show ?thesis unfolding deq_task(1)
    by (rule inv_pcs_goto, rule inv_pcs_free [OF inv mut deq_task(5,6)])
       (simp_all add: sched_defs pc_ok_def)
next
  case (deq_null t j q)
  show ?thesis unfolding deq_null(1)
    by (rule inv_pcs_goto, rule inv_pcs_free [OF inv mut deq_null(5,6)])
       (simp_all add: sched_defs pc_ok_def)
next
  case (task_finished t y)
  have "inv_pcs (goto t Dequeueing (set_queue t (deq_task_finished (queue_array s t)) s))"
    by (rule inv_pcs_goto, rule inv_pcs_free [OF inv mut task_finished(3,5)])
       (simp_all add: sched_defs pc_ok_def)
  then show ?thesis unfolding task_finished(1) by simp
next
  case (lock t k)
  have "inv_pcs (set_queue k ((queue_array s k)\<lparr>queue_mutex := Some t\<rparr>) s)"
    by (rule inv_pcs_free [OF inv mut lock(5,6)]) (simp_all add: sched_defs)
  then show ?thesis unfolding lock(1)
    by (rule inv_pcs_goto) (use lock(5) in \<open>simp add: sched_defs pc_ok_def\<close>)
next
  case (unlock t k r)
  show ?thesis unfolding unlock(1) by (rule inv_pcs_unlock [OF inv mut unlock(5,3,4)])
next
  case (check_empty t)
  have "pc_ok s p \<Longrightarrow> pc_ok (s\<lparr>allqdone := 1\<rparr>) p" for p
    by (cases p) (simp_all add: pc_ok_def)
  then have "inv_pcs (s\<lparr>allqdone := 1\<rparr>)"
    using inv by (simp add: inv_pcs_def)
  then show ?thesis unfolding check_empty(1)
    by (rule inv_pcs_goto) (simp add: pc_ok_def)
next
  case (check_next t k)
  have "pc_ok s (Checking k)" using inv_pcsD [OF inv check_next(3)] check_next(4) by simp
  then show ?thesis unfolding check_next(1)
    by (intro inv_pcs_goto [OF inv]) (use check_next(5,6) in \<open>simp add: pc_ok_def less_Suc_eq\<close>)
next
  case (answer t r)
  have "pc_ok s (Unlocking (nthreads s) r)"
    using inv_pcsD [OF inv answer(3)] answer(4) by simp
  then show ?thesis unfolding answer(1)
    by (intro inv_pcs_goto [OF inv]) (simp add: pc_ok_def)
qed (use inv_pcs_goto [OF inv] in \<open>simp_all add: pc_ok_def\<close>)

subsection \<open>Conservation of tasks\<close>

lemma sum_fun_upd:
  fixes f :: "'b \<Rightarrow> 'c multiset"
  assumes "j < (n::nat)"
  shows "(\<Sum>i<n. f ((g(j := x)) i)) + f (g j) = (\<Sum>i<n. f (g i)) + f x"
proof -
  have "(\<Sum>i<n. f ((g(j := x)) i)) = f x + (\<Sum>i\<in>{..<n} - {j}. f ((g(j := x)) i))"
    using assms by (subst sum.remove [of _ j]) auto
  also have "(\<Sum>i\<in>{..<n} - {j}. f ((g(j := x)) i)) = (\<Sum>i\<in>{..<n} - {j}. f (g i))"
    by (rule sum.cong) auto
  finally show ?thesis
    using assms by (subst (2) sum.remove [of _ j]) (auto simp: ac_simps)
qed

definition all_tasks :: "'a sched \<Rightarrow> 'a multiset" where
  "all_tasks s = (\<Sum>j<nthreads s. queued (queue_array s j)) + (\<Sum>t<nthreads s. task_of (pcs s t))"

lemma inv_tasks_alt: "inv_tasks s \<longleftrightarrow> submitted s = completed s + all_tasks s"
  by (simp add: inv_tasks_def all_tasks_def ac_simps)

lemma all_tasks_set_queue:
  "j < nthreads s \<Longrightarrow> all_tasks (set_queue j q s) + queued (queue_array s j) = all_tasks s + queued q"
  using sum_fun_upd [of j "nthreads s" queued "queue_array s" q]
  by (simp add: all_tasks_def set_queue_def ac_simps)

lemma all_tasks_set_queue_same:
  "j < nthreads s \<Longrightarrow> queued q = queued (queue_array s j) \<Longrightarrow> all_tasks (set_queue j q s) = all_tasks s"
  using all_tasks_set_queue [of j s q] by simp

lemma all_tasks_goto:
  "t < nthreads s \<Longrightarrow> all_tasks (goto t p s) + task_of (pcs s t) = all_tasks s + task_of p"
  using sum_fun_upd [of t "nthreads s" task_of "pcs s" p]
  by (simp add: all_tasks_def goto_def ac_simps)

lemma all_tasks_goto_idle:
  "t < nthreads s \<Longrightarrow> \<not> is_working p \<Longrightarrow> \<not> is_working (pcs s t) \<Longrightarrow> all_tasks (goto t p s) = all_tasks s"
  using all_tasks_goto [of t s p] by simp

lemma all_tasks_frame [simp]:
  "all_tasks (s\<lparr>completed := c\<rparr>) = all_tasks s"
  "all_tasks (s\<lparr>submitted := c\<rparr>) = all_tasks s"
  "all_tasks (s\<lparr>aborted := b\<rparr>) = all_tasks s"
  "all_tasks (s\<lparr>allqdone := d\<rparr>) = all_tasks s"
  by (simp_all add: all_tasks_def)

lemma queued_enqueue:
  "ring_inv q \<Longrightarrow> enqueue_locked (Some y) q = Inr q' \<Longrightarrow> queued q' = add_mset y (queued q)"
  using enqueue_lockedD(5) [of "Some y" q q'] by (simp add: queued_def)

lemma queued_dequeue:
  "ring_inv q \<Longrightarrow> dequeue_locked q = Some (Some y, q') \<Longrightarrow> queued q = add_mset y (queued q')"
  using dequeue_locked_qlist [of q "Some y" q'] by (simp add: queued_def)

lemma queued_frame [simp]:
  "queued (q\<lparr>inflight := i\<rparr>) = queued q" "queued (q\<lparr>queue_mutex := m\<rparr>) = queued q"
  "queued (start_dequeue q) = queued q" "queued (deq_task_finished q) = queued q"
  by (simp_all add: queued_def)

lemma field_simps_sched [simp]:
  "nthreads (goto t p s) = nthreads s" "nthreads (set_queue j q s) = nthreads s"
  "submitted (goto t p s) = submitted s" "submitted (set_queue j q s) = submitted s"
  "completed (goto t p s) = completed s" "completed (set_queue j q s) = completed s"
  "pcs (set_queue j q s) = pcs s" "queue_array (goto t p s) = queue_array s"
  by (simp_all add: sched_defs)

lemma step_tasks:
  assumes step: "sched_step s s'" and inv: "inv_tasks s" and rings: "inv_rings s"
  shows "inv_tasks s'"
  using step
proof (cases rule: sched_step.cases)
  case (enq t j y q)
  have "queued q = add_mset y (queued (queue_array s j))"
    using rings enq by (intro queued_enqueue) (auto simp: inv_rings_def)
  then have "all_tasks (set_queue j q s) = add_mset y (all_tasks s)"
    using all_tasks_set_queue [OF enq(5), of q] by simp
  then show ?thesis using inv enq by (simp add: inv_tasks_alt)
next
  case (deq_task t j y q)
  let ?s1 = "set_queue j q s"
  have "queued (queue_array s j) = add_mset y (queued q)"
    using rings deq_task by (intro queued_dequeue) (auto simp: inv_rings_def)
  then have "all_tasks s = add_mset y (all_tasks ?s1)"
    using all_tasks_set_queue [OF deq_task(5), of q] by simp
  also have "all_tasks ?s1 = all_tasks (home_inflight t ?s1)"
    unfolding home_inflight_def using deq_task(3) by (simp add: all_tasks_set_queue_same)
  also have "add_mset y (all_tasks (home_inflight t ?s1)) = all_tasks s'"
    using all_tasks_goto [of t "home_inflight t ?s1" "Working y"] deq_task
    by (simp add: home_inflight_def)
  finally show ?thesis using inv deq_task by (simp add: inv_tasks_alt home_inflight_def)
next
  case (deq_null t j q)
  have "ring_inv (queue_array s j)" "None \<notin> set (qlist (queue_array s j))"
    using rings deq_null(5) by (auto simp: inv_rings_def)
  with deq_null(7) dequeue_null_free(2) show ?thesis by blast
next
  case (task_finished t y)
  let ?s1 = "set_queue t (deq_task_finished (queue_array s t)) s"
  have "all_tasks ?s1 = all_tasks s"
    using task_finished(3) by (simp add: all_tasks_set_queue_same)
  then have "all_tasks s = add_mset y (all_tasks (goto t Dequeueing ?s1))"
    using all_tasks_goto [of t ?s1 Dequeueing] task_finished by simp
  then show ?thesis using inv task_finished by (simp add: inv_tasks_alt)
qed (use inv in \<open>simp_all add: inv_tasks_alt all_tasks_goto_idle all_tasks_set_queue_same\<close>)

subsection \<open>Reachable states\<close>

lemma sched_inv_step: "sched_step s s' \<Longrightarrow> sched_inv s \<Longrightarrow> sched_inv s'"
  unfolding sched_inv_def
  by (blast intro: step_rings step_flags step_mutex step_pcs step_done step_tasks)

lemma sched_inv_launch: "sched_inv (launch n 0 qs)"
  by (simp add: sched_inv_def launch_def inv_rings_def inv_flags_def inv_mutex_def inv_pcs_def
      inv_done_def inv_tasks_def pc_ok_def queued_def)

lemma sched_inv_reachable: "reachable (launch n 0 qs) s \<Longrightarrow> sched_inv s"
  by (induction rule: reachable.induct) (auto intro: sched_inv_launch sched_inv_step)

lemma nthreads_reachable: "reachable s0 s \<Longrightarrow> nthreads s = nthreads s0"
  by (induction rule: reachable.induct) (auto dest: step_nthreads)

subsection \<open>Progress\<close>

definition can_step :: "'a sched \<Rightarrow> bool" where
  "can_step s \<longleftrightarrow> (\<exists>s'. sched_step s s')"

lemma can_stepI: "sched_step s s' \<Longrightarrow> can_step s"
  by (auto simp: can_step_def)

lemma checking_progress:
  assumes "inv_pcs s" "\<not> aborted s" "v < nthreads s" "pcs s v = Checking k"
  shows "can_step s"
proof -
  have "k \<le> nthreads s"
    using inv_pcsD [OF assms(1,3)] assms(4) by (simp add: pc_ok_def)
  then consider "k = nthreads s" | "k < nthreads s" "check_nonempty (queue_array s k)"
    | "k < nthreads s" "\<not> check_nonempty (queue_array s k)"
    by linarith
  then show ?thesis
    using assms(2-4)
    by cases (blast intro: can_stepI sched_step.check_empty sched_step.check_fail
        sched_step.check_next)+
qed

text \<open>
  A thread inside \<open>allqempty\<close> is never blocked for good: it waits only for a mutex above
  the ones it holds, and the holder of the highest one can always go on.
\<close>

lemma locking_progress:
  assumes inv: "inv_mutex s" "inv_pcs s" and na: "\<not> aborted s"
  shows "u < nthreads s \<Longrightarrow> pcs s u = Locking k \<Longrightarrow> can_step s"
proof (induction "nthreads s - k" arbitrary: u k rule: less_induct)
  case less
  have "k \<le> nthreads s"
    using inv_pcsD [OF inv(2) less.prems(1)] less.prems(2) by (simp add: pc_ok_def)
  then consider "k = nthreads s" | "k < nthreads s" "free_mutex s k"
    | v where "k < nthreads s" "queue_mutex (queue_array s k) = Some v"
    by (force simp: free_mutex_def)
  then show ?case
  proof cases
    case 1
    then show ?thesis using na less.prems by (blast intro: can_stepI sched_step.lock_done)
  next
    case 2
    then show ?thesis using na less.prems by (blast intro: can_stepI sched_step.lock)
  next
    case (3 v)
    with inv(1) have v: "v < nthreads s" "holds_mutex (pcs s v) k"
      by (auto simp: inv_mutex_def)
    show ?thesis
    proof (cases "pcs s v")
      case (Locking k')
      then show ?thesis using less.hyps [of k' v] v 3(1) by auto
    next
      case (Checking k')
      then show ?thesis using checking_progress inv(2) na v(1) by blast
    next
      case (Unlocking k' r)
      then have "k' < nthreads s" using v 3(1) by simp
      then show ?thesis using Unlocking na v(1) by (blast intro: can_stepI sched_step.unlock)
    qed (use v in simp_all)
  qed
qed

lemma held_progress:
  assumes inv: "inv_mutex s" "inv_pcs s" and na: "\<not> aborted s"
    and j: "j < nthreads s" "\<not> free_mutex s j"
  shows "can_step s"
proof -
  from j obtain v where "queue_mutex (queue_array s j) = Some v"
    by (auto simp: free_mutex_def)
  with inv(1) j have v: "v < nthreads s" "holds_mutex (pcs s v) j"
    by (auto simp: inv_mutex_def)
  show ?thesis
  proof (cases "pcs s v")
    case (Locking k)
    then show ?thesis using locking_progress inv na v(1) by blast
  next
    case (Checking k)
    then show ?thesis using checking_progress inv(2) na v(1) by blast
  next
    case (Unlocking k r)
    then have "k < nthreads s" using v j(1) by simp
    then show ?thesis using Unlocking na v(1) by (blast intro: can_stepI sched_step.unlock)
  qed (use v in simp_all)
qed

lemma dequeue_progress:
  assumes "\<not> aborted s" "t < nthreads s" "pcs s t = Dequeueing" "free_mutex s t"
  shows "can_step s"
proof (cases "dequeue_locked (queue_array s t)")
  case None
  then show ?thesis using assms by (blast intro: can_stepI sched_step.deq_empty)
next
  case (Some xq)
  then obtain x q where "dequeue_locked (queue_array s t) = Some (x, q)" by (cases xq) auto
  then show ?thesis using assms
    by (cases x) (blast intro: can_stepI sched_step.deq_task sched_step.deq_null)+
qed

lemma sched_progress:
  assumes "sched_inv s" and na: "\<not> aborted s" and t: "t < nthreads s" "pcs s t \<noteq> Finished"
  shows "can_step s"
proof -
  have inv: "inv_mutex s" "inv_pcs s" using assms(1) by (simp_all add: sched_inv_def)
  have ok: "pc_ok s (pcs s t)" using inv(2) t(1) by (rule inv_pcsD)
  show ?thesis
  proof (cases "free_mutex s t")
    case False
    then show ?thesis using held_progress inv na t(1) by blast
  next
    case free: True
    show ?thesis
    proof (cases "pcs s t")
      case NotStarted
      then show ?thesis using free na t(1) by (blast intro: can_stepI sched_step.start)
    next
      case Dequeueing
      then show ?thesis using free na t(1) dequeue_progress by blast
    next
      case (Working y)
      then show ?thesis using free na t(1) by (blast intro: can_stepI sched_step.task_finished)
    next
      case Testing
      then show ?thesis using na t(1)
        by (cases "allqdone s = 0") (blast intro: can_stepI sched_step.test_scan sched_step.test_cached)+
    next
      case (Scanning k)
      with ok consider "k = nthreads s" | "k < nthreads s" "scan_pending (queue_array s k)"
        | "k < nthreads s" "\<not> scan_pending (queue_array s k)"
        by (force simp: pc_ok_def)
      then show ?thesis using Scanning na t(1)
        by cases (blast intro: can_stepI sched_step.scan_done sched_step.scan_pending
            sched_step.scan_next)+
    next
      case (Locking k)
      then show ?thesis using locking_progress inv na t(1) by blast
    next
      case (Checking k)
      then show ?thesis using checking_progress inv(2) na t(1) by blast
    next
      case (Unlocking k r)
      with ok consider "k = nthreads s" | "k < nthreads s" by (force simp: pc_ok_def)
      then show ?thesis using Unlocking na t(1)
        by cases (blast intro: can_stepI sched_step.answer sched_step.unlock)+
    qed (use t in simp)
  qed
qed

subsection \<open>A leftover value of allqdone\<close>

lemma reach_steps:
  "reachable s0 s \<Longrightarrow> sched_step s s1 \<Longrightarrow> sched_step s1 s2 \<Longrightarrow> sched_step s2 s3 \<Longrightarrow> reachable s0 s3"
  by (blast intro: reachable.intros)

text \<open>
  With \<open>allqdone\<close> already set, a thread that finds its own queue empty leaves at once,
  whatever the other threads still have to do.
\<close>

lemma gives_up:
  assumes r: "reachable s0 s" and na: "\<not> aborted s" and t: "t < nthreads s" "pcs s t = NotStarted"
    and free: "free_mutex s t" and empty: "qcount (queue_array s t) = 0" and d: "allqdone s \<noteq> 0"
  shows "reachable s0 (goto t Finished (set_queue t (start_dequeue (queue_array s t)) s))"
proof -
  let ?s1 = "goto t Dequeueing (set_queue t (start_dequeue (queue_array s t)) s)"
  let ?s2 = "goto t Testing ?s1"
  have 1: "sched_step s ?s1" using na t free by (rule sched_step.start)
  have 2: "sched_step ?s1 ?s2"
    by (rule sched_step.deq_empty [of _ t t])
       (use na t free empty in \<open>simp_all add: sched_defs dequeue_locked_def\<close>)
  have 3: "sched_step ?s2 (goto t Finished ?s2)"
    by (rule sched_step.test_cached) (use na t d in \<open>simp_all add: sched_defs\<close>)
  have "reachable s0 (goto t Finished ?s2)" using r 1 2 3 by (rule reach_steps)
  then show ?thesis by (simp add: sched_defs)
qed

definition NUM_THREADS :: nat where
  "NUM_THREADS = 4"

text \<open>
  C8: The global \<open>allqdone\<close> is set by the first parallel traversal and never reset. A second
  traversal, launched with it still set, has an execution in which every thread leaves
  while a submitted task is still in a queue.
\<close>

theorem stale_done_loses_task:
  fixes y :: 'a and qs :: "nat \<Rightarrow> 'a queue"
  shows "\<exists>s. reachable (launch NUM_THREADS 1 qs) s \<and> \<not> aborted s
     \<and> (\<forall>t<NUM_THREADS. pcs s t = Finished)
     \<and> submitted s = {#y#} \<and> completed s = {#} \<and> qlist (queue_array s 0) = [Some y]"
proof -
  let ?s0 = "launch NUM_THREADS 1 qs"
  let ?st = "\<lambda>t s. goto t Finished (set_queue t (start_dequeue (queue_array s t)) s)"
  have r1: "reachable ?s0 (?st 0 ?s0)"
    by (rule gives_up) (simp_all add: reachable.reach_init launch_def NUM_THREADS_def free_mutex_def)
  have r2: "reachable ?s0 (?st 1 (?st 0 ?s0))"
    by (rule gives_up [OF r1]) (simp_all add: launch_def NUM_THREADS_def sched_defs)
  have r3: "reachable ?s0 (?st 2 (?st 1 (?st 0 ?s0)))" (is "reachable _ ?s3")
    by (rule gives_up [OF r2]) (simp_all add: launch_def NUM_THREADS_def sched_defs)
  have "ring_inv (queue_array ?s3 0)" "qcount (queue_array ?s3 0) < QUEUESIZE"
    "qlist (queue_array ?s3 0) = []"
    by (simp_all add: launch_def sched_defs)
  then obtain q where q: "enqueue_locked (Some y) (queue_array ?s3 0) = Inr q" "qlist q = [Some y]"
    by (metis append_Nil enqueue_locked_ok)
  let ?s4 = "(set_queue 0 q ?s3)\<lparr>submitted := add_mset y (submitted ?s3)\<rparr>"
  have "sched_step ?s3 ?s4"
    by (rule sched_step.enq [where t = 3])
       (use q(1) in \<open>simp_all add: launch_def NUM_THREADS_def sched_defs may_enqueue_def\<close>)
  with r3 have r4: "reachable ?s0 ?s4" by (rule reachable.reach_step)
  have "reachable ?s0 (?st 3 ?s4)"
    by (rule gives_up [OF r4]) (simp_all add: launch_def NUM_THREADS_def sched_defs)
  moreover have "\<forall>t<NUM_THREADS. pcs (?st 3 ?s4) t = Finished"
    by (auto simp: NUM_THREADS_def sched_defs less_Suc_eq numeral_eq_Suc)
  ultimately show ?thesis
    using q(2) by (intro exI [of _ "?st 3 ?s4"]) (simp add: launch_def sched_defs)
qed

theorem stale_done_loses_task_witness:
  "\<exists>s. reachable (launch NUM_THREADS 1 (\<lambda>_. zero_queue)) s \<and> pcs s 3 = Finished
     \<and> submitted s = {#7 :: nat#} \<and> completed s = {#}"
  using stale_done_loses_task [of "\<lambda>_. zero_queue :: nat queue" 7] by (force simp: NUM_THREADS_def)

subsection \<open>A run to completion\<close>

text \<open>A single thread whose queue is empty finds that out and leaves.\<close>

lemma single_thread_exits:
  assumes r: "reachable s0 s" and s: "nthreads s = 1" "\<not> aborted s" "pcs s 0 = Dequeueing"
    "allqdone s = 0"
    and q: "qcount (queue_array s 0) = 0" "inflight (queue_array s 0) = 0"
    "thread_started (queue_array s 0) = 1" "queue_mutex (queue_array s 0) = None"
  shows "\<exists>s'. reachable s0 s' \<and> \<not> aborted s' \<and> pcs s' 0 = Finished \<and> submitted s' = submitted s"
proof -
  let ?a = "goto 0 (Scanning 0) (goto 0 Testing s)"
  let ?b = "goto 0 (Locking 0) (goto 0 (Scanning 1) ?a)"
  let ?c = "goto 0 (Locking 1) (set_queue 0 ((queue_array s 0)\<lparr>queue_mutex := Some 0\<rparr>) ?b)"
  let ?d = "goto 0 (Checking 1) (goto 0 (Checking 0) ?c)"
  let ?e = "goto 0 (Unlocking 0 1) (?d\<lparr>allqdone := 1\<rparr>)"
  let ?f = "goto 0 (Unlocking 1 1) (set_queue 0 ((queue_array ?e 0)\<lparr>queue_mutex := None\<rparr>) ?e)"
  have 1: "sched_step s (goto 0 Testing s)"
    by (rule sched_step.deq_empty [of _ 0 0]) (use s q in \<open>simp_all add: free_mutex_def dequeue_locked_def\<close>)
  have 2: "sched_step (goto 0 Testing s) ?a"
    by (rule sched_step.test_scan) (use s in \<open>simp_all add: sched_defs\<close>)
  have 3: "sched_step ?a (goto 0 (Scanning 1) ?a)"
    using sched_step.scan_next [of ?a 0 0] s q by (simp add: sched_defs Queue.scan_pending_def)
  have 4: "sched_step (goto 0 (Scanning 1) ?a) ?b"
    by (rule sched_step.scan_done) (use s in \<open>simp_all add: sched_defs\<close>)
  have 5: "sched_step ?b ?c"
    using sched_step.lock [of ?b 0 0] s q by (simp add: sched_defs)
  have 6: "sched_step ?c (goto 0 (Checking 0) ?c)"
    by (rule sched_step.lock_done) (use s in \<open>simp_all add: sched_defs\<close>)
  have 7: "sched_step (goto 0 (Checking 0) ?c) ?d"
    using sched_step.check_next [of "goto 0 (Checking 0) ?c" 0 0] s q
    by (simp add: sched_defs check_nonempty_def)
  have 8: "sched_step ?d ?e"
    by (rule sched_step.check_empty) (use s in \<open>simp_all add: sched_defs\<close>)
  have 9: "sched_step ?e ?f"
    using sched_step.unlock [of ?e 0 0 1] s by (simp add: sched_defs)
  have 10: "sched_step ?f (goto 0 Finished ?f)"
    using sched_step.answer [of ?f 0 1] s by (simp add: sched_defs)
  have "reachable s0 (goto 0 Finished ?f)"
    using reach_steps [OF reach_steps [OF reach_steps [OF r 1 2 3] 4 5 6] 7 8 9] 10
    by (rule reachable.reach_step)
  then show ?thesis using s(2) by (intro exI [of _ "goto 0 Finished ?f"]) (simp add: sched_defs)
qed

lemma run_one_task:
  "\<exists>s. reachable (launch 1 0 (\<lambda>_. zero_queue)) s \<and> \<not> aborted s \<and> pcs s 0 = Finished
     \<and> submitted s = {#7 :: nat#}"
proof -
  let ?s0 = "launch 1 0 (\<lambda>_. zero_queue) :: nat sched"
  obtain q where q: "enqueue_locked (Some 7) (init_queue zero_queue :: nat queue) = Inr q" "ring_inv q"
    "qlist q = [Some 7]" "inflight q = 0" "thread_started q = 0" "queue_mutex q = None" "qcount q = 1"
    using enqueue_locked_ok [of "init_queue zero_queue :: nat queue" "Some 7"] by auto
  have "ring_inv (start_dequeue q)" "qlist (start_dequeue q) = [Some 7]" using q by simp_all
  then obtain p where p: "dequeue_locked (start_dequeue q) = Some (Some 7, p)" "inflight p = 0"
    "thread_started p = 1" "queue_mutex p = None" "qcount p = 0"
    using dequeue_locked_ok [of "start_dequeue q" "Some 7" "[]"] q(4,6,7) by auto
  let ?s1 = "(set_queue 0 q ?s0)\<lparr>submitted := {#7#}\<rparr>"
  let ?s2 = "goto 0 Dequeueing (set_queue 0 (start_dequeue q) ?s1)"
  let ?s3 = "goto 0 (Working 7) (home_inflight 0 (set_queue 0 p ?s2))"
  let ?s4 = "(goto 0 Dequeueing (set_queue 0 (deq_task_finished (queue_array ?s3 0)) ?s3))
      \<lparr>completed := {#7#}\<rparr>"
  have 1: "sched_step ?s0 ?s1"
    using sched_step.enq [of ?s0 0 0 7 q] q(1)
    by (simp add: launch_def may_enqueue_def free_mutex_def)
  have 2: "sched_step ?s1 ?s2"
    using sched_step.start [of ?s1 0] q(6) by (simp add: launch_def sched_defs)
  have 3: "sched_step ?s2 ?s3"
    using sched_step.deq_task [of ?s2 0 0 7 p] p(1) q(6) by (simp add: launch_def sched_defs)
  have 4: "sched_step ?s3 ?s4"
    using sched_step.task_finished [of ?s3 0 7] p(4) by (simp add: launch_def sched_defs)
  have r: "reachable ?s0 ?s4"
    using reach_steps [OF reachable.reach_init 1 2 3] 4 by (rule reachable.reach_step)
  have "\<exists>s'. reachable ?s0 s' \<and> \<not> aborted s' \<and> pcs s' 0 = Finished \<and> submitted s' = submitted ?s4"
    by (rule single_thread_exits [OF r]) (use p in \<open>simp_all add: launch_def sched_defs\<close>)
  then show ?thesis by (simp add: launch_def sched_defs)
qed

subsection \<open>Properties\<close>

lemma quiet_all_tasks:
  assumes "inv_rings s" "quiet s"
  shows "all_tasks s = {#}"
proof -
  have "queued (queue_array s j) = {#} \<and> task_of (pcs s j) = {#}" if "j < nthreads s" for j
    using assms that by (simp add: quiet_def queued_def qlist_def)
  then show ?thesis by (simp add: all_tasks_def)
qed

text \<open>
  C4: No thread leaves the parallel traversal early. In every state reachable from a launch
  with \<open>allqdone\<close> zero, a thread that has left \<open>processqueue\<close> did so after every queue had
  become empty, every thread had started and no thread was working, and then every task
  ever submitted has been completed, for any number of threads and any interleaving.
\<close>

theorem no_premature_exit:
  assumes "reachable (launch n 0 qs) s" "t < n" "pcs s t = Finished"
  shows "quiet s \<and> submitted s = completed s"
proof -
  have inv: "sched_inv s" using assms(1) by (rule sched_inv_reachable)
  moreover have "t < nthreads s" using nthreads_reachable [OF assms(1)] assms(2) by (simp add: launch_def)
  ultimately have "allqdone s \<noteq> 0"
    using assms(3) inv_pcsD [of s t] by (simp add: sched_inv_def pc_ok_def)
  with inv have q: "quiet s" by (simp add: sched_inv_def inv_done_def)
  with inv show ?thesis using quiet_all_tasks [of s] by (simp add: sched_inv_def inv_tasks_alt)
qed

theorem no_premature_exit_witness:
  "\<exists>s. reachable (launch 1 0 (\<lambda>_. zero_queue)) s \<and> pcs s 0 = Finished \<and> quiet s
     \<and> completed s = {#7 :: nat#}"
  using run_one_task no_premature_exit [of 1 "\<lambda>_. zero_queue :: nat queue" _ 0] by fastforce

text \<open>
  C5: No task is lost or duplicated: in every reachable state the tasks submitted are, with
  multiplicity, those completed, those in some queue and those a thread is working on.
\<close>

theorem task_conservation:
  assumes "reachable (launch n 0 qs) s"
  shows "submitted s = completed s + (\<Sum>j<n. queued (queue_array s j)) + (\<Sum>t<n. task_of (pcs s t))"
  using sched_inv_reachable [OF assms] nthreads_reachable [OF assms]
  by (simp add: sched_inv_def inv_tasks_def launch_def)

theorem task_conservation_witness:
  "\<exists>s. reachable (launch 1 0 (\<lambda>_. zero_queue)) s \<and> submitted s = {#7 :: nat#}
     \<and> submitted s = completed s + (\<Sum>j<1. queued (queue_array s j)) + (\<Sum>t<1. task_of (pcs s t))"
  using run_one_task task_conservation [of 1 "\<lambda>_. zero_queue :: nat queue"] by blast

text \<open>
  C6: The traversal does not deadlock: as long as some thread has not left and no queue has
  overflowed, some thread can take a step, also while \<open>allqempty\<close> collects all mutexes.
\<close>

theorem no_deadlock:
  assumes "reachable (launch n 0 qs) s" "\<not> aborted s" "t < n" "pcs s t \<noteq> Finished"
  shows "\<exists>s'. sched_step s s'"
  using sched_progress [OF sched_inv_reachable [OF assms(1)] assms(2), of t]
    nthreads_reachable [OF assms(1)] assms(3,4)
  by (simp add: can_step_def launch_def)

theorem no_deadlock_witness:
  "\<exists>s'. sched_step (launch 4 0 (\<lambda>_. zero_queue :: nat queue)) s'"
  by (rule no_deadlock [OF reachable.reach_init, where t = 0]) (simp_all add: launch_def)



end
