(* ===== verification/Memory.thy ===== *)
theory Memory
  imports Prelude
begin

text \<open>
  The memory the traversed program and the runtime share: one byte per address, with
  little-endian 64- and 32-bit loads and stores for the \<open>*(void **)p\<close>, \<open>*(int *)p\<close> and
  \<open>memcpy\<close> accesses of the sources. Addresses wrap at \<open>2 ^ 64\<close>.
\<close>

type_synonym heap = "addr \<Rightarrow> byte"

definition load_bytes :: "heap \<Rightarrow> addr \<Rightarrow> nat \<Rightarrow> byte list" where
  "load_bytes h a n = map (\<lambda>i. h (a + of_nat i)) [0..<n]"

fun store_bytes :: "heap \<Rightarrow> addr \<Rightarrow> byte list \<Rightarrow> heap" where
  "store_bytes h a [] = h"
| "store_bytes h a (b # bs) = store_bytes (h(a := b)) (a + 1) bs"

definition of_bytes :: "byte list \<Rightarrow> 'a::len word" where
  "of_bytes bs = foldr (\<lambda>b w. push_bit 8 w OR ucast b) bs 0"

definition load64 :: "heap \<Rightarrow> addr \<Rightarrow> 64 word" where
  "load64 h a = of_bytes (load_bytes h a 8)"

definition store64 :: "heap \<Rightarrow> addr \<Rightarrow> 64 word \<Rightarrow> heap" where
  "store64 h a v = store_bytes h a (bytes64 v)"

definition load32 :: "heap \<Rightarrow> addr \<Rightarrow> 32 word" where
  "load32 h a = of_bytes (load_bytes h a 4)"

definition store32 :: "heap \<Rightarrow> addr \<Rightarrow> 32 word \<Rightarrow> heap" where
  "store32 h a v = store_bytes h a (bytes32 v)"

subsection \<open>Integers and their bytes\<close>

lemma bit_of_bytes:
  "bit (of_bytes bs :: 'a::len word) n \<longleftrightarrow>
     n < LENGTH('a) \<and> n div 8 < length bs \<and> bit (bs ! (n div 8)) (n mod 8)"
proof (induction bs arbitrary: n)
  case Nil
  then show ?case by (simp add: of_bytes_def)
next
  case (Cons b bs)
  have step: "of_bytes (b # bs) = (push_bit 8 (of_bytes bs) OR ucast b :: 'a word)"
    by (simp add: of_bytes_def)
  show ?case
  proof (cases "n < 8")
    case True
    then show ?thesis by (auto simp: step bit_simps)
  next
    case False
    then obtain m where m: "n = m + 8" by (metis add.commute le_Suc_ex not_less)
    then have "n div 8 = Suc (m div 8)" "n mod 8 = m mod 8" by simp_all
    moreover have "\<not> bit b n" using False bit_imp_le_length [of b n] by auto
    ultimately show ?thesis using m Cons.IH [of m] by (auto simp: step bit_simps)
  qed
qed

lemma of_bytes_bytes64 [simp]: "of_bytes (bytes64 w) = w"
proof (rule bit_word_eqI)
  fix n assume "n < LENGTH(64)"
  then have "n div 8 < 8" by auto
  then show "bit (of_bytes (bytes64 w) :: 64 word) n = bit w n"
    using \<open>n < LENGTH(64)\<close>
    by (auto simp: bit_of_bytes bytes64_def bit_simps dest: bit_imp_le_length)
qed

lemma of_bytes_bytes32 [simp]: "of_bytes (bytes32 w) = w"
proof (rule bit_word_eqI)
  fix n assume "n < LENGTH(32)"
  then have "n div 8 < 4" by auto
  then show "bit (of_bytes (bytes32 w) :: 32 word) n = bit w n"
    using \<open>n < LENGTH(32)\<close>
    by (auto simp: bit_of_bytes bytes32_def bit_simps dest: bit_imp_le_length)
qed

lemma byte_of_of_bytes:
  assumes "i < length bs" "8 * length bs \<le> LENGTH('a)"
  shows "ucast (drop_bit (8 * i) (of_bytes bs :: 'a::len word)) = bs ! i"
proof (rule bit_word_eqI)
  fix n assume n: "n < LENGTH(8)"
  then have "(8 * i + n) div 8 = i" "(8 * i + n) mod 8 = n" by simp_all
  moreover have "8 * i + n < LENGTH('a)" using n assms by simp
  ultimately show "bit (ucast (drop_bit (8 * i) (of_bytes bs :: 'a word)) :: byte) n = bit (bs ! i) n"
    using n assms by (simp add: bit_simps bit_of_bytes)
qed

lemma bytes64_of_bytes: "length bs = 8 \<Longrightarrow> bytes64 (of_bytes bs) = bs"
  by (rule nth_equalityI) (simp_all add: bytes64_def byte_of_of_bytes)

lemma bytes32_of_bytes: "length bs = 4 \<Longrightarrow> bytes32 (of_bytes bs) = bs"
  by (rule nth_equalityI) (simp_all add: bytes32_def byte_of_of_bytes)

subsection \<open>Loads and stores\<close>

lemma length_load_bytes [simp]: "length (load_bytes h a n) = n"
  by (simp add: load_bytes_def)

lemma nth_load_bytes [simp]: "i < n \<Longrightarrow> load_bytes h a n ! i = h (a + of_nat i)"
  by (simp add: load_bytes_def)

lemma load_bytes_Suc: "load_bytes h a (Suc n) = h a # load_bytes h (a + 1) n"
  by (simp add: load_bytes_def upt_conv_Cons map_Suc_upt [symmetric] comp_def algebra_simps del: upt_Suc)

lemma load_bytes_0 [simp]: "load_bytes h a 0 = []"
  by (simp add: load_bytes_def)

lemma store_bytes_append: "store_bytes h a (xs @ ys) = store_bytes (store_bytes h a xs) (a + of_nat (length xs)) ys"
  by (induction xs arbitrary: h a) (simp_all add: algebra_simps)

lemma store_bytes_outside:
  "(\<And>i. i < length bs \<Longrightarrow> x \<noteq> a + of_nat i) \<Longrightarrow> store_bytes h a bs x = h x"
proof (induction bs arbitrary: h a)
  case Nil
  then show ?case by simp
next
  case (Cons b bs)
  have "x \<noteq> (a + 1) + of_nat i" if "i < length bs" for i
    using Cons.prems [of "Suc i"] that by (simp add: algebra_simps)
  moreover have "x \<noteq> a" using Cons.prems [of 0] by simp
  ultimately show ?case using Cons.IH by simp
qed

lemma addr_offset_eq:
  assumes "i < 2 ^ 64" "j < 2 ^ 64"
  shows "(a :: addr) + of_nat i = a + of_nat j \<longleftrightarrow> i = j"
  using assms by (simp add: word_of_nat_eq_iff take_bit_nat_eq_self)

lemma store_bytes_nth:
  assumes "i < length bs" "length bs < 2 ^ 64"
  shows "store_bytes h a bs (a + of_nat i) = bs ! i"
  using assms
proof (induction bs arbitrary: h a i)
  case Nil
  then show ?case by simp
next
  case (Cons b bs)
  show ?case
  proof (cases i)
    case 0
    have "a \<noteq> (a + 1) + of_nat j" if "j < length bs" for j
      using addr_offset_eq [of 0 "Suc j" a] that Cons.prems(2) by (simp add: algebra_simps)
    then show ?thesis using 0 store_bytes_outside [of bs a "a + 1" "h(a := b)"] by simp
  next
    case (Suc j)
    have "store_bytes (h(a := b)) (a + 1) bs (a + 1 + of_nat j) = bs ! j"
      by (rule Cons.IH) (use Suc Cons.prems in simp_all)
    then show ?thesis using Suc by (simp add: add.assoc)
  qed
qed

lemma load_store_bytes: "length bs < 2 ^ 64 \<Longrightarrow> load_bytes (store_bytes h a bs) a (length bs) = bs"
  by (rule nth_equalityI) (simp_all add: store_bytes_nth)

lemma store_load_bytes: "store_bytes h a (load_bytes h a n) = h"
proof (induction n arbitrary: a)
  case 0
  then show ?case by simp
next
  case (Suc n)
  have "load_bytes h (a + 1) n = load_bytes (h(a := h a)) (a + 1) n" by simp
  then show ?case using Suc.IH [of "a + 1"] by (simp add: load_bytes_Suc)
qed

lemma load64_store64 [simp]: "load64 (store64 h a v) a = v"
  using load_store_bytes [of "bytes64 v" h a] by (simp add: load64_def store64_def)

lemma load32_store32 [simp]: "load32 (store32 h a v) a = v"
  using load_store_bytes [of "bytes32 v" h a] by (simp add: load32_def store32_def)

lemma store64_load64 [simp]: "store64 h a (load64 h a) = h"
  by (simp add: load64_def store64_def bytes64_of_bytes store_load_bytes)

lemma load_bytes_cong: "(\<And>i. i < n \<Longrightarrow> h (a + of_nat i) = h' (a + of_nat i)) \<Longrightarrow> load_bytes h a n = load_bytes h' a n"
  by (simp add: load_bytes_def)

text \<open>Two blocks that share no address.\<close>

definition disjoint_blocks :: "addr \<Rightarrow> nat \<Rightarrow> addr \<Rightarrow> nat \<Rightarrow> bool" where
  "disjoint_blocks a n b m \<longleftrightarrow> (\<forall>i < n. \<forall>j < m. a + of_nat i \<noteq> b + of_nat j)"

lemma disjoint_blocksI:
  assumes "unat b + m \<le> unat a" "unat a + n \<le> 2 ^ 64"
  shows "disjoint_blocks a n b m"
  unfolding disjoint_blocks_def
proof (intro allI impI)
  fix i j assume "i < n" "j < m"
  then have "unat (a + of_nat i) = unat a + i" "unat (b + of_nat j) = unat b + j"
    using assms by (simp_all add: unat_word_ariths unat_of_nat)
  with \<open>j < m\<close> assms show "a + of_nat i \<noteq> b + of_nat j"
    by (metis add_lessD1 add_less_cancel_left nat_le_iff_add not_less)
qed

lemma load_store_bytes_disjoint:
  "disjoint_blocks a n b (length bs) \<Longrightarrow> load_bytes (store_bytes h b bs) a n = load_bytes h a n"
  by (rule load_bytes_cong) (rule store_bytes_outside, auto simp: disjoint_blocks_def)

lemma load64_store64_disjoint: "disjoint_blocks a 8 b 8 \<Longrightarrow> load64 (store64 h b v) a = load64 h a"
  by (simp add: load64_def store64_def load_store_bytes_disjoint)

lemma offset_blocks:
  assumes "i + n \<le> j \<or> j + m \<le> i" "i + n \<le> 2 ^ 64" "j + m \<le> 2 ^ 64"
  shows "disjoint_blocks (b + of_nat i) n (b + of_nat j) m"
  unfolding disjoint_blocks_def
proof (intro allI impI)
  fix k l assume "k < n" "l < m"
  then have "(b + of_nat (i + k)) \<noteq> b + of_nat (j + l)" using assms addr_offset_eq [of "i + k" "j + l" b] by linarith
  then show "b + of_nat i + of_nat k \<noteq> b + of_nat j + of_nat l" by (simp add: add.assoc)
qed

lemma disjoint_blocks_sym: "disjoint_blocks a n b m \<longleftrightarrow> disjoint_blocks b m a n"
  unfolding disjoint_blocks_def by metis

subsection \<open>Strings\<close>

text \<open>\<open>strlen\<close>: \<open>None\<close> when no byte is zero. The result is the \<open>n\<close> it starts from plus the length.\<close>

partial_function (option) c_strlen :: "heap \<Rightarrow> addr \<Rightarrow> nat \<Rightarrow> nat option" where
  [code]: "c_strlen h a n = (if h a = 0 then Some n else c_strlen h (a + 1) (Suc n))"

lemma c_strlen_from: "(\<And>i. i < k \<Longrightarrow> h (a + of_nat i) \<noteq> 0) \<Longrightarrow> h (a + of_nat k) = 0 \<Longrightarrow> c_strlen h a n = Some (n + k)"
proof (induction k arbitrary: a n)
  case 0
  then show ?case by (subst c_strlen.simps) simp
next
  case (Suc k)
  have "h (a + 1 + of_nat i) \<noteq> 0" if "i < k" for i
    using Suc.prems(1) [of "Suc i"] that by (simp add: algebra_simps)
  moreover have "h (a + 1 + of_nat k) = 0" using Suc.prems(2) by (simp add: algebra_simps)
  ultimately have "c_strlen h (a + 1) (Suc n) = Some (Suc n + k)" using Suc.IH by blast
  then show ?case using Suc.prems(1) [of 0] by (subst c_strlen.simps) simp
qed

text \<open>Memory that holds a string of length \<open>k\<close>.\<close>

definition string_at :: "heap \<Rightarrow> addr \<Rightarrow> nat \<Rightarrow> bool" where
  "string_at h a k \<longleftrightarrow> list_all (\<lambda>i. h (a + of_nat i) \<noteq> 0) [0..<k] \<and> h (a + of_nat k) = 0"

lemma c_strlen_string: "string_at h a k \<Longrightarrow> c_strlen h a 0 = Some k"
  using c_strlen_from [of k h a 0] by (simp add: string_at_def list_all_iff)

end
