(* ===== verification/Table.thy ===== *)
theory Table
  imports Prelude
begin

text \<open>
  What the runtime relies on from its hash tables (the uthash macros): entries are kept in
  the order they were added (the order of \<open>HASH_ITER\<close>), a new entry goes in front of its
  bucket chain, so \<open>HASH_FIND\<close> returns the newest entry with the key, and an entry found can
  be changed in place or deleted. A table is the list of its entries, newest first. That the
  newest of several entries with the same key is found holds until the table expands, which
  reverses chains; the refinements in \<open>Uthash\<close>, \<open>Xhash\<close> and \<open>Nxhash\<close> ask for distinct keys.
\<close>

type_synonym ('k, 'v) table = "('k \<times> 'v) list"

definition tbl_find :: "'k \<Rightarrow> ('k, 'v) table \<Rightarrow> 'v option" where
  "tbl_find k t = map_of t k"

definition tbl_add :: "'k \<Rightarrow> 'v \<Rightarrow> ('k, 'v) table \<Rightarrow> ('k, 'v) table" where
  "tbl_add k v t = (k, v) # t"

definition tbl_iter :: "('k, 'v) table \<Rightarrow> ('k \<times> 'v) list" where
  "tbl_iter t = rev t"

fun tbl_modify :: "'k \<Rightarrow> ('v \<Rightarrow> 'v) \<Rightarrow> ('k, 'v) table \<Rightarrow> ('k, 'v) table" where
  "tbl_modify k f [] = []"
| "tbl_modify k f ((k', v) # t) = (if k' = k then (k', f v) # t else (k', v) # tbl_modify k f t)"

fun tbl_del :: "'k \<Rightarrow> ('k, 'v) table \<Rightarrow> ('k, 'v) table" where
  "tbl_del k [] = []"
| "tbl_del k ((k', v) # t) = (if k' = k then t else (k', v) # tbl_del k t)"

definition tbl_distinct :: "('k, 'v) table \<Rightarrow> bool" where
  "tbl_distinct t \<longleftrightarrow> distinct (map fst t)"

lemma tbl_find_Nil [simp]: "tbl_find k [] = None"
  by (simp add: tbl_find_def)

lemma tbl_find_add [simp]: "tbl_find k' (tbl_add k v t) = (if k' = k then Some v else tbl_find k' t)"
  by (simp add: tbl_find_def tbl_add_def)

lemma tbl_find_modify [simp]:
  "tbl_find k' (tbl_modify k f t) = (if k' = k then map_option f (tbl_find k t) else tbl_find k' t)"
  by (induction t) (auto simp: tbl_find_def)

lemma keys_modify [simp]: "map fst (tbl_modify k f t) = map fst t"
  by (induction k f t rule: tbl_modify.induct) auto

lemma tbl_find_None: "tbl_find k t = None \<longleftrightarrow> k \<notin> fst ` set t"
  by (simp add: tbl_find_def map_of_eq_None_iff)

lemma tbl_find_set: "tbl_find k t = Some v \<Longrightarrow> (k, v) \<in> set t"
  by (simp add: tbl_find_def map_of_SomeD)

lemma tbl_distinct_find: "tbl_distinct t \<Longrightarrow> (k, v) \<in> set t \<Longrightarrow> tbl_find k t = Some v"
  by (simp add: tbl_distinct_def tbl_find_def)

lemma tbl_del_subset: "set (tbl_del k t) \<subseteq> set t"
  by (induction k t rule: tbl_del.induct) auto

lemma tbl_del_absent: "k \<notin> fst ` set t \<Longrightarrow> tbl_del k t = t"
  by (induction k t rule: tbl_del.induct) auto

lemma tbl_find_del:
  "tbl_distinct t \<Longrightarrow> tbl_find k' (tbl_del k t) = (if k' = k then None else tbl_find k' t)"
proof (induction k t rule: tbl_del.induct)
  case (1 k)
  then show ?case by simp
next
  case (2 k j v t)
  then show ?case
    using tbl_find_None [of k t] by (auto simp: tbl_distinct_def tbl_find_def)
qed

lemma tbl_distinct_Nil [simp]: "tbl_distinct []"
  by (simp add: tbl_distinct_def)

lemma tbl_distinct_add [simp]:
  "tbl_distinct (tbl_add k v t) \<longleftrightarrow> tbl_find k t = None \<and> tbl_distinct t"
  by (auto simp: tbl_distinct_def tbl_add_def tbl_find_None)

lemma tbl_distinct_modify [simp]: "tbl_distinct (tbl_modify k f t) = tbl_distinct t"
  by (simp add: tbl_distinct_def)

lemma tbl_distinct_del [simp]: "tbl_distinct t \<Longrightarrow> tbl_distinct (tbl_del k t)"
  using tbl_del_subset [of k]
  by (induction k t rule: tbl_del.induct) (fastforce simp: tbl_distinct_def)+

lemma tbl_del_all: "foldl (\<lambda>tt (k, _). tbl_del k tt) tt (xs :: ('k \<times> 'v) list)
    = foldl (\<lambda>tt k. tbl_del k tt) tt (map fst xs)"
  by (induction xs arbitrary: tt) auto

lemma tbl_del_keys: "map fst (tbl_del k t) = remove1 k (map fst t)"
  by (induction k t rule: tbl_del.induct) auto

lemma fold_tbl_del_keys: "map fst (foldl (\<lambda>tt k. tbl_del k tt) tt ks) = foldl (\<lambda>l k. remove1 k l) (map fst tt) ks"
  by (induction ks arbitrary: tt) (auto simp: tbl_del_keys)

lemma fold_remove1_mset: "mset (foldl (\<lambda>l k. remove1 k l) l ks) = mset l - mset ks"
  by (induction ks arbitrary: l) auto

text \<open>Deleting all entries in the order of iteration, as the clean-up loops do.\<close>

lemma tbl_del_iter: "foldl (\<lambda>tt (k, _). tbl_del k tt) tt (tbl_iter tt) = []"
proof -
  let ?r = "foldl (\<lambda>tt (k, _). tbl_del k tt) tt (tbl_iter tt)"
  have "mset (map fst ?r) = mset (map fst tt) - mset (map fst (rev tt))"
    unfolding tbl_iter_def tbl_del_all fold_tbl_del_keys by (rule fold_remove1_mset)
  also have "\<dots> = {#}" by simp
  finally show ?thesis by simp
qed

text \<open>The contract of a table without duplicate keys, as the clients use it.\<close>

locale keyed_table =
  fixes find :: "'k \<Rightarrow> 't \<Rightarrow> 'v option"
    and add :: "'k \<Rightarrow> 'v \<Rightarrow> 't \<Rightarrow> 't"
    and del :: "'k \<Rightarrow> 't \<Rightarrow> 't"
    and empty :: 't
    and inv :: "'t \<Rightarrow> bool"
  assumes find_empty: "find k empty = None"
    and find_add: "inv t \<Longrightarrow> find k t = None \<Longrightarrow>
      find k' (add k v t) = (if k' = k then Some v else find k' t)"
    and find_del: "inv t \<Longrightarrow> find k' (del k t) = (if k' = k then None else find k' t)"
    and inv_empty: "inv empty"
    and inv_add: "inv t \<Longrightarrow> find k t = None \<Longrightarrow> inv (add k v t)"
    and inv_del: "inv t \<Longrightarrow> inv (del k t)"
begin

text \<open>Adding only keys that are not there yet: the guard every client puts before an add.\<close>

definition add_new :: "'k \<Rightarrow> 'v \<Rightarrow> 't \<Rightarrow> 't" where
  "add_new k v t = (case find k t of None \<Rightarrow> add k v t | Some _ \<Rightarrow> t)"

lemma inv_add_new: "inv t \<Longrightarrow> inv (add_new k v t)"
  by (simp add: add_new_def inv_add split: option.split)

lemma find_add_new:
  "inv t \<Longrightarrow> find k' (add_new k v t) = (if k' = k \<and> find k t = None then Some v else find k' t)"
  by (auto simp: add_new_def find_add split: option.split)

lemma add_new_first_wins: "inv t \<Longrightarrow> find k t = Some w \<Longrightarrow> find k (add_new k v t) = Some w"
  by (simp add: add_new_def)

lemma add_new_idem: "inv t \<Longrightarrow> add_new k w (add_new k v t) = add_new k v t"
  by (auto simp: add_new_def find_add split: option.split)

lemma add_new_commute:
  "inv t \<Longrightarrow> k \<noteq> l \<Longrightarrow> find m (add_new k v (add_new l w t)) = find m (add_new l w (add_new k v t))"
  by (auto simp: find_add_new inv_add_new)

lemma inv_fold_add_new: "inv t \<Longrightarrow> inv (foldl (\<lambda>t (k, v). add_new k v t) t kvs)"
  by (induction kvs arbitrary: t) (auto simp: inv_add_new)

lemma find_fold_add_new:
  "inv t \<Longrightarrow> find k (foldl (\<lambda>t (k, v). add_new k v t) t kvs)
     = (case find k t of Some v \<Rightarrow> Some v | None \<Rightarrow> map_of kvs k)"
  by (induction kvs arbitrary: t)
     (auto simp: inv_add_new find_add_new split: option.splits)

end

interpretation tbl: keyed_table tbl_find tbl_add tbl_del "[]" tbl_distinct
  by unfold_locales (auto simp: tbl_find_del)

end
