(* ===== verification/Hash.thy ===== *)
theory Hash
  imports Prelude
begin

text \<open>
  The hash functions: \<open>SuperFastHash\<close> of src/src/cstrider_api.c, which makes up the numbers
  of constructed types, and the hash functions of src/contrib/uthash/uthash.h, of which
  \<open>HASH_JEN\<close> is the one every table uses (\<open>HASH_FCN\<close>). \<open>uint32_t\<close> and \<open>unsigned\<close>
  are 32-bit words, so every addition, multiplication and shift wraps as in C; plain \<open>char\<close>
  is signed, so a \<open>char\<close> operand is sign-extended (\<open>scast\<close>) and a \<open>uint8_t\<close> operand
  zero-extended (\<open>ucast\<close>). A key is the list of its bytes.
\<close>

subsection \<open>SuperFastHash\<close>

definition get16bits :: "byte \<Rightarrow> byte \<Rightarrow> u32" where
  "get16bits d0 d1 = push_bit 8 (ucast d1) + ucast d0"

fun sfh_loop :: "u32 \<Rightarrow> byte list \<Rightarrow> u32 \<times> byte list" where
  "sfh_loop hash (d0 # d1 # d2 # d3 # data) =
     (let hash = hash + get16bits d0 d1;
          tmp = push_bit 11 (get16bits d2 d3) XOR hash;
          hash = push_bit 16 hash XOR tmp;
          hash = hash + drop_bit 11 hash
      in sfh_loop hash data)"
| "sfh_loop hash data = (hash, data)"

fun sfh_tail :: "u32 \<Rightarrow> byte list \<Rightarrow> u32" where
  "sfh_tail hash [d0, d1, d2] =
     (let hash = hash + get16bits d0 d1;
          hash = hash XOR push_bit 16 hash;
          hash = hash XOR push_bit 18 (scast d2)
      in hash + drop_bit 11 hash)"
| "sfh_tail hash [d0, d1] =
     (let hash = hash + get16bits d0 d1;
          hash = hash XOR push_bit 11 hash
      in hash + drop_bit 17 hash)"
| "sfh_tail hash [d0] =
     (let hash = hash + scast d0;
          hash = hash XOR push_bit 10 hash
      in hash + drop_bit 1 hash)"
| "sfh_tail hash data = hash"

definition sfh_avalanche :: "u32 \<Rightarrow> u32" where
  "sfh_avalanche hash =
     (let hash = hash XOR push_bit 3 hash;
          hash = hash + drop_bit 5 hash;
          hash = hash XOR push_bit 4 hash;
          hash = hash + drop_bit 17 hash;
          hash = hash XOR push_bit 25 hash
      in hash + drop_bit 6 hash)"

text \<open>
  \<open>data\<close> is \<open>None\<close> for NULL; otherwise the \<open>len\<close> bytes it points to. The result is the
  32-bit value converted to \<open>typ\<close>, that is zero-extended to 64 bits.
\<close>

definition SuperFastHash :: "byte list option \<Rightarrow> ctyp" where
  "SuperFastHash data =
     (case data of
        None \<Rightarrow> 0
      | Some [] \<Rightarrow> 0
      | Some bytes \<Rightarrow>
          (let (hash, rest) = sfh_loop (of_nat (length bytes)) bytes
           in ucast (sfh_avalanche (sfh_tail hash rest))))"

subsection \<open>The hash functions of uthash.h\<close>

definition HASH_TO_BKT :: "u32 \<Rightarrow> u32 \<Rightarrow> u32" where
  "HASH_TO_BKT hashv num_bkts = hashv AND (num_bkts - 1)"

definition HASH_BER :: "byte list \<Rightarrow> u32" where
  "HASH_BER key = foldl (\<lambda>hashv c. hashv * 33 + scast c) 0 key"

definition HASH_SAX :: "byte list \<Rightarrow> u32" where
  "HASH_SAX key =
     foldl (\<lambda>hashv c. hashv XOR (push_bit 5 hashv + drop_bit 2 hashv + scast c)) 0 key"

definition HASH_FNV :: "byte list \<Rightarrow> u32" where
  "HASH_FNV key = foldl (\<lambda>hashv c. (hashv * 16777619) XOR scast c) 2166136261 key"

definition HASH_OAT :: "byte list \<Rightarrow> u32" where
  "HASH_OAT key =
     (let hashv = foldl (\<lambda>hashv c.
              let hashv = hashv + scast c;
                  hashv = hashv + push_bit 10 hashv
              in hashv XOR drop_bit 6 hashv) 0 key;
          hashv = hashv + push_bit 3 hashv;
          hashv = hashv XOR drop_bit 11 hashv
      in hashv + push_bit 15 hashv)"

definition HASH_JEN_MIX :: "u32 \<Rightarrow> u32 \<Rightarrow> u32 \<Rightarrow> u32 \<times> u32 \<times> u32" where
  "HASH_JEN_MIX a b c =
     (let a = (a - b - c) XOR drop_bit 13 c;
          b = (b - c - a) XOR push_bit 8 a;
          c = (c - a - b) XOR drop_bit 13 b;
          a = (a - b - c) XOR drop_bit 12 c;
          b = (b - c - a) XOR push_bit 16 a;
          c = (c - a - b) XOR drop_bit 5 b;
          a = (a - b - c) XOR drop_bit 3 c;
          b = (b - c - a) XOR push_bit 10 a;
          c = (c - a - b) XOR drop_bit 15 b
      in (a, b, c))"

definition jen_word :: "byte \<Rightarrow> byte \<Rightarrow> byte \<Rightarrow> byte \<Rightarrow> u32" where
  "jen_word k0 k1 k2 k3 =
     scast k0 + push_bit 8 (scast k1) + push_bit 16 (scast k2) + push_bit 24 (scast k3)"

fun jen_loop :: "u32 \<times> u32 \<times> u32 \<Rightarrow> byte list \<Rightarrow> (u32 \<times> u32 \<times> u32) \<times> byte list" where
  "jen_loop (i, j, hashv) (k0 # k1 # k2 # k3 # k4 # k5 # k6 # k7 # k8 # k9 # k10 # k11 # key) =
     jen_loop (HASH_JEN_MIX (i + jen_word k0 k1 k2 k3) (j + jen_word k4 k5 k6 k7)
                 (hashv + jen_word k8 k9 k10 k11)) key"
| "jen_loop s key = (s, key)"

text \<open>
  The fall-through \<open>switch\<close> on the remaining length: byte \<open>n\<close> of the rest is added, when
  it is there, with its own shift to its own accumulator.
\<close>

definition jen_byte :: "byte list \<Rightarrow> nat \<Rightarrow> nat \<Rightarrow> u32" where
  "jen_byte key n sh = (if n < length key then push_bit sh (scast (key ! n)) else 0)"

definition HASH_JEN :: "byte list \<Rightarrow> u32" where
  "HASH_JEN key =
     (let ((i, j, hashv), rest) = jen_loop (0x9e3779b9, 0x9e3779b9, 0xfeedbeef) key;
          hashv = hashv + of_nat (length key);
          hashv = hashv + jen_byte rest 10 24 + jen_byte rest 9 16 + jen_byte rest 8 8;
          j = j + jen_byte rest 7 24 + jen_byte rest 6 16 + jen_byte rest 5 8 + jen_byte rest 4 0;
          i = i + jen_byte rest 3 24 + jen_byte rest 2 16 + jen_byte rest 1 8 + jen_byte rest 0 0;
          (i, j, hashv) = HASH_JEN_MIX i j hashv
      in hashv)"

definition HASH_SFH :: "byte list \<Rightarrow> u32" where
  "HASH_SFH key = (let (hash, rest) = sfh_loop 0xcafebabe key in sfh_avalanche (sfh_tail hash rest))"

definition MUR_ROTL32 :: "u32 \<Rightarrow> nat \<Rightarrow> u32" where
  "MUR_ROTL32 x r = push_bit r x OR drop_bit (32 - r) x"

definition MUR_FMIX :: "u32 \<Rightarrow> u32" where
  "MUR_FMIX h =
     (let h = h XOR drop_bit 16 h;
          h = h * 0x85ebca6b;
          h = h XOR drop_bit 13 h;
          h = h * 0xc2b2ae35
      in h XOR drop_bit 16 h)"

definition mur_scramble :: "u32 \<Rightarrow> u32" where
  "mur_scramble k1 = MUR_ROTL32 (k1 * 0xcc9e2d51) 15 * 0x1b873593"

fun mur_loop :: "u32 \<Rightarrow> byte list \<Rightarrow> u32 \<times> byte list" where
  "mur_loop h1 (d0 # d1 # d2 # d3 # data) =
     (let k1 = ucast d0 OR push_bit 8 (ucast d1) OR push_bit 16 (ucast d2) OR push_bit 24 (ucast d3);
          h1 = MUR_ROTL32 (h1 XOR mur_scramble k1) 13
      in mur_loop (h1 * 5 + 0xe6546b64) data)"
| "mur_loop h1 data = (h1, data)"

fun mur_tail :: "u32 \<Rightarrow> byte list \<Rightarrow> u32" where
  "mur_tail h1 [d0, d1, d2] =
     h1 XOR mur_scramble (push_bit 16 (ucast d2) XOR push_bit 8 (ucast d1) XOR ucast d0)"
| "mur_tail h1 [d0, d1] = h1 XOR mur_scramble (push_bit 8 (ucast d1) XOR ucast d0)"
| "mur_tail h1 [d0] = h1 XOR mur_scramble (ucast d0)"
| "mur_tail h1 data = h1"

definition HASH_MUR :: "byte list \<Rightarrow> u32" where
  "HASH_MUR key =
     (let (h1, rest) = mur_loop 0xf88D5353 key
      in MUR_FMIX (mur_tail h1 rest XOR of_nat (length key)))"

subsection \<open>Bounds\<close>

lemma SuperFastHash_ucast: "\<exists>h::u32. SuperFastHash data = ucast h"
proof (cases data)
  case None
  then have "SuperFastHash data = ucast (0::u32)" by (simp add: SuperFastHash_def)
  then show ?thesis ..
next
  case (Some bs)
  show ?thesis
  proof (cases bs)
    case Nil
    with Some have "SuperFastHash data = ucast (0::u32)" by (simp add: SuperFastHash_def)
    then show ?thesis ..
  next
    case (Cons b bs')
    with Some show ?thesis
      by (auto simp: SuperFastHash_def split: prod.splits)
  qed
qed

lemma unat_SuperFastHash: "unat (SuperFastHash data) < 2 ^ 32"
proof -
  obtain h :: u32 where h: "SuperFastHash data = ucast h"
    using SuperFastHash_ucast by blast
  have "uint (ucast h :: ctyp) = uint h"
    by (rule uint_up_ucast) (simp add: is_up)
  then have "uint (SuperFastHash data) < 2 ^ 32"
    using h uint_lt2p [of h] by simp
  then show ?thesis
    by (simp add: nat_less_iff flip: nat_uint_eq)
qed

lemma SuperFastHash_not_minus_1: "SuperFastHash data \<noteq> - 1"
proof
  assume "SuperFastHash data = - 1"
  then have "unat (- 1 :: ctyp) < 2 ^ 32" using unat_SuperFastHash [of data] by simp
  moreover have "(- 1 :: ctyp) = 18446744073709551615" by simp
  ultimately show False by (simp only: unat_numeral) (simp add: take_bit_eq_mod)
qed

text \<open>
  A type number made by \<open>SuperFastHash\<close> is between 0 and \<open>2 ^ 32 - 1\<close> as a \<open>long\<close>, so it
  is never the mark \<open>-1\<close> that stands for \<open>no type\<close>.
\<close>

theorem SuperFastHash_range:
  "0 \<le> sint (SuperFastHash data) \<and> sint (SuperFastHash data) < 2 ^ 32 \<and> SuperFastHash data \<noteq> - 1"
proof -
  have u: "uint (SuperFastHash data) < 2 ^ 32"
    using unat_SuperFastHash [of data] by (simp add: nat_less_iff flip: nat_uint_eq)
  then have "sint (SuperFastHash data) = uint (SuperFastHash data)"
    unfolding sint_uint by (intro signed_take_bit_int_eq_self) (use uint_ge_0 in \<open>auto intro: order_trans [of _ 0]\<close>)
  with u show ?thesis using SuperFastHash_not_minus_1 by simp
qed

end
