(* ===== verification/Types.thy ===== *)
theory Types
  imports Table Hash
begin

text \<open>
  The type table of src/src/cstrider_api.c: its entries (\<open>type_hash_entry\<close> of
  src/src/cstrider_api_internal.h), its construction from the generated arrays
  (\<open>cstrider_type_init\<close>), the queries, and the constructors of pointer, array and
  generic types. The generated arrays and functions are a parameter (\<open>type_arrays\<close>).
\<close>

subsection \<open>State\<close>

text \<open>
  A transformer is one of the two wrappers of src/src/transform.c or a generated one.
\<close>

datatype fptr = Transform_prim | Transform_fptr | Generated nat

record type_hash_entry =
  type_of_entry :: ctyp
  arrlen :: i32
  arrbase :: ctyp
  size_of_entry :: i32
  corresp_func_ptr :: fptr
  target_type :: ctyp
  pointer_to :: ctyp
  num_gen_args :: i32
  args :: addr
  maintype :: ctyp
  out_type :: ctyp

type_synonym type_table = "(ctyp, type_hash_entry) table"

text \<open>
  The generated code read by \<open>cstrider_type_init\<close>: \<open>sizes_array_len\<close>, the arrays indexed
  by type number, and the functions \<open>get_num_gen_args_arr\<close>, \<open>get_args_arr\<close> and
  \<open>cstrider_out_type_internal\<close>.
\<close>

record type_arrays =
  sizes_array_len :: nat
  sizes_array :: "ctyp \<Rightarrow> i32"
  corresp_func_ptr_array :: "ctyp \<Rightarrow> fptr"
  target_type_array :: "ctyp \<Rightarrow> ctyp"
  ptsto_type_array :: "ctyp \<Rightarrow> ctyp"
  num_gen_args_arr :: "ctyp \<Rightarrow> i32"
  args_arr :: "ctyp \<Rightarrow> addr"
  main_types_array :: "ctyp \<Rightarrow> ctyp"
  out_type_internal :: "ctyp \<Rightarrow> ctyp"

definition TYPE_FUNPTR :: ctyp where
  "TYPE_FUNPTR = 16"

definition get_typeinfo_from_table :: "type_table \<Rightarrow> ctyp \<Rightarrow> type_hash_entry option" where
  "get_typeinfo_from_table tt t = tbl_find t tt"

subsection \<open>Initialisation\<close>

definition initial_entry :: "type_arrays \<Rightarrow> (ctyp \<Rightarrow> ctyp) \<Rightarrow> ctyp \<Rightarrow> type_hash_entry" where
  "initial_entry a ptsto i = \<lparr>type_of_entry = i, arrlen = 0, arrbase = 0,
     size_of_entry = sizes_array a i, corresp_func_ptr = corresp_func_ptr_array a i,
     target_type = target_type_array a i, pointer_to = ptsto i,
     num_gen_args = num_gen_args_arr a i, args = args_arr a i,
     maintype = main_types_array a i, out_type = out_type_internal a i\<rparr>"

text \<open>One round of the loop; \<open>ptsto\<close> is the array \<open>ptsto_type_array\<close>, which the loop writes.\<close>

definition type_init_step ::
    "type_arrays \<Rightarrow> type_table \<times> (ctyp \<Rightarrow> ctyp) \<Rightarrow> nat \<Rightarrow> type_table \<times> (ctyp \<Rightarrow> ctyp)" where
  "type_init_step a = (\<lambda>(tt, ptsto) n.
     let i = of_nat n;
         t = initial_entry a ptsto i;
         tt = tbl_add i t tt
     in if target_type t \<noteq> - 1
        then (case get_typeinfo_from_table tt (target_type t) of
                Some to \<Rightarrow> (tbl_modify (target_type t) (\<lambda>e. e\<lparr>pointer_to := i\<rparr>) tt, ptsto)
              | None \<Rightarrow> (tt, ptsto(target_type t := i)))
        else (tt, ptsto))"

definition cstrider_type_init :: "type_arrays \<Rightarrow> type_table \<Rightarrow> type_table" where
  "cstrider_type_init a tt =
     fst (foldl (type_init_step a) (tt, ptsto_type_array a) [0..<sizes_array_len a])"

definition cstrider_type_free :: "type_table \<Rightarrow> type_table" where
  "cstrider_type_free tt = foldl (\<lambda>tt (k, _). tbl_del k tt) tt (tbl_iter tt)"

subsection \<open>Queries\<close>

text \<open>Every query looks the type up and leaves the program with \<open>exit(-1)\<close> if it is unknown.\<close>

definition query :: "type_table \<Rightarrow> ctyp \<Rightarrow> (type_hash_entry \<Rightarrow> 'a) \<Rightarrow> 'a result" where
  "query tt t f = (case get_typeinfo_from_table tt t of None \<Rightarrow> Inl Exit_minus_1 | Some te \<Rightarrow> Inr (f te))"

definition cstrider_is_array :: "type_table \<Rightarrow> ctyp \<Rightarrow> bool result" where
  "cstrider_is_array tt t = query tt t (\<lambda>te. arrlen te \<noteq> 0)"

definition cstrider_is_ptr :: "type_table \<Rightarrow> ctyp \<Rightarrow> bool result" where
  "cstrider_is_ptr tt t =
     query tt t (\<lambda>te. (target_type te \<noteq> - 1 \<or> type_of_entry te = TYPE_FUNPTR) \<and> arrlen te = 0)"

definition cstrider_get_tvers_funptr :: "type_table \<Rightarrow> ctyp \<Rightarrow> fptr result" where
  "cstrider_get_tvers_funptr tt t = query tt t corresp_func_ptr"

text \<open>\<open>TYPE_FUNPTR_i\<close> is a generated variable.\<close>

definition cstrider_is_funptr :: "ctyp \<Rightarrow> type_table \<Rightarrow> ctyp \<Rightarrow> bool result" where
  "cstrider_is_funptr TYPE_FUNPTR_i tt t =
     (if t = TYPE_FUNPTR_i then Inr True
      else rbind (cstrider_get_tvers_funptr tt t) (\<lambda>f. Inr (f = Transform_fptr)))"

definition cstrider_get_typ_ptstothis :: "type_table \<Rightarrow> ctyp \<Rightarrow> ctyp result" where
  "cstrider_get_typ_ptstothis tt t = query tt t pointer_to"

definition cstrider_get_array_len :: "type_table \<Rightarrow> ctyp \<Rightarrow> i32 result" where
  "cstrider_get_array_len tt t = query tt t (\<lambda>te. arrlen te * size_of_entry te)"

definition cstrider_get_num_array_elems :: "type_table \<Rightarrow> ctyp \<Rightarrow> i32 result" where
  "cstrider_get_num_array_elems tt t = query tt t arrlen"

definition cstrider_get_maintype :: "type_table \<Rightarrow> ctyp \<Rightarrow> ctyp result" where
  "cstrider_get_maintype tt t = query tt t maintype"

definition cstrider_get_ptrtype :: "type_table \<Rightarrow> ctyp \<Rightarrow> ctyp result" where
  "cstrider_get_ptrtype tt t = query tt t target_type"

definition cstrider_get_array_base_type :: "type_table \<Rightarrow> ctyp \<Rightarrow> ctyp result" where
  "cstrider_get_array_base_type tt t = query tt t arrbase"

definition cstrider_get_size :: "type_table \<Rightarrow> ctyp \<Rightarrow> i32 result" where
  "cstrider_get_size tt t = query tt t size_of_entry"

definition cstrider_get_out_size :: "type_table \<Rightarrow> ctyp \<Rightarrow> i32 result" where
  "cstrider_get_out_size tt t =
     (case get_typeinfo_from_table tt t of
        None \<Rightarrow> Inl Exit_minus_1
      | Some te \<Rightarrow>
          if out_type te \<noteq> - 1
          then (case get_typeinfo_from_table tt (out_type te) of
                  None \<Rightarrow> Inl Exit_minus_1
                | Some teo \<Rightarrow> Inr (size_of_entry teo))
          else Inr (size_of_entry te))"

definition cstrider_get_generic_args :: "type_table \<Rightarrow> ctyp \<Rightarrow> addr result" where
  "cstrider_get_generic_args tt t = query tt t args"

definition cstrider_get_num_gen_args :: "type_table \<Rightarrow> ctyp \<Rightarrow> ctyp result" where
  "cstrider_get_num_gen_args tt t = query tt t (\<lambda>te. scast (num_gen_args te))"

text \<open>
  The queries of src/src/transform.c on an entry already looked up.
\<close>

definition memoized_is_array :: "type_hash_entry \<Rightarrow> bool" where
  "memoized_is_array te = (arrlen te \<noteq> 0)"

definition memoized_get_ptrtype :: "type_hash_entry \<Rightarrow> ctyp" where
  "memoized_get_ptrtype te = target_type te"

definition memoized_is_ptr :: "type_hash_entry \<Rightarrow> bool" where
  "memoized_is_ptr te =
     (((target_type te \<noteq> - 1 \<or> type_of_entry te = TYPE_FUNPTR) \<or> corresp_func_ptr te = Transform_fptr)
      \<and> arrlen te = 0)"

definition memoized_get_tvers_funptr :: "type_hash_entry \<Rightarrow> fptr" where
  "memoized_get_tvers_funptr te = corresp_func_ptr te"

definition memoized_is_funptr :: "type_hash_entry \<Rightarrow> bool" where
  "memoized_is_funptr te = (type_of_entry te = 16 \<or> corresp_func_ptr te = Transform_fptr)"

subsection \<open>Constructors\<close>

text \<open>
  The constructors take and release the lock of one bucket of the table around their work;
  \<open>held\<close> counts, per key, the locks taken minus the locks released. The bytes that are
  hashed include the padding of the local structs, which nothing initialises: \<open>pad\<close> is
  what happens to be there.
\<close>

record type_state =
  type_hashtbl :: type_table
  held :: "ctyp \<Rightarrow> int"

definition wrlock_resv :: "ctyp \<Rightarrow> type_state \<Rightarrow> type_state" where
  "wrlock_resv k s = s\<lparr>held := (held s)(k := held s k + 1)\<rparr>"

definition unlock_resv :: "ctyp \<Rightarrow> type_state \<Rightarrow> type_state" where
  "unlock_resv k s = s\<lparr>held := (held s)(k := held s k - 1)\<rparr>"

definition add_type :: "type_hash_entry \<Rightarrow> type_state \<Rightarrow> type_state" where
  "add_type te s = s\<lparr>type_hashtbl := tbl_add (type_of_entry te) te (type_hashtbl s)\<rparr>"

definition hashgencs :: "ctyp \<Rightarrow> i32 \<Rightarrow> byte list \<Rightarrow> addr \<Rightarrow> byte list" where
  "hashgencs t numargs pad genargs = bytes64 t @ bytes32 numargs @ pad @ bytes64 genargs"

definition hasharrcs :: "i32 \<Rightarrow> byte list \<Rightarrow> ctyp \<Rightarrow> byte list" where
  "hasharrcs len pad t = bytes32 len @ pad @ bytes64 t"

text \<open>\<open>mktypptr\<close>: the code after the check for an existing entry, and the whole function.\<close>

definition mktypptr_new :: "ctyp \<Rightarrow> ctyp \<Rightarrow> type_state \<Rightarrow> (ctyp \<times> type_state) result" where
  "mktypptr_new type ptrto s =
     (let te_new = \<lparr>type_of_entry = ptrto, arrlen = 0, arrbase = 0, size_of_entry = 8,
            corresp_func_ptr = Transform_prim, target_type = type, pointer_to = 0,
            num_gen_args = 0, args = 0, maintype = ptrto, out_type = ptrto\<rparr>;
          s = add_type te_new s
      in case get_typeinfo_from_table (type_hashtbl s) type of
           None \<Rightarrow> Inl Null_deref
         | Some t \<Rightarrow>
             Inr (ptrto, unlock_resv ptrto
               (s\<lparr>type_hashtbl := tbl_modify type (\<lambda>e. e\<lparr>pointer_to := ptrto\<rparr>) (type_hashtbl s)\<rparr>)))"

definition mktypptr :: "ctyp \<Rightarrow> type_state \<Rightarrow> (ctyp \<times> type_state) result" where
  "mktypptr type s =
     (let ptrto = SuperFastHash (Some (bytes64 type));
          s = wrlock_resv ptrto s
      in case get_typeinfo_from_table (type_hashtbl s) ptrto of
           None \<Rightarrow> mktypptr_new type ptrto s
         | Some te \<Rightarrow>
             let s = unlock_resv ptrto s
             in if target_type te = type then Inr (type_of_entry te, s)
                else mktypptr_new type ptrto s)"

definition mktyparr_new ::
    "i32 \<Rightarrow> ctyp \<Rightarrow> ctyp \<Rightarrow> type_state \<Rightarrow> (ctyp \<times> type_state) result" where
  "mktyparr_new len type combo s =
     (case get_typeinfo_from_table (type_hashtbl s) type of
        None \<Rightarrow> Inl Exit_minus_1
      | Some te \<Rightarrow>
          let te_new = te\<lparr>type_of_entry := combo, arrlen := len, arrbase := type\<rparr>
          in Inr (combo, unlock_resv type (add_type te_new s)))"

definition mktyparr :: "i32 \<Rightarrow> byte list \<Rightarrow> ctyp \<Rightarrow> type_state \<Rightarrow> (ctyp \<times> type_state) result" where
  "mktyparr len pad type s =
     (let combo = SuperFastHash (Some (hasharrcs len pad type));
          s = wrlock_resv type s
      in case get_typeinfo_from_table (type_hashtbl s) combo of
           None \<Rightarrow> mktyparr_new len type combo s
         | Some te \<Rightarrow>
             let s = unlock_resv type s
             in if arrlen te = len \<and> arrbase te = type then Inr (type_of_entry te, s)
                else mktyparr_new len type combo s)"

text \<open>
  \<open>mktypfromgenargs\<close> calls itself for the target of a pointer type; \<open>fuel\<close> bounds the
  nesting. Each call has a local struct of its own, so the padding depends on the call,
  here through its argument \<open>t\<close>.
\<close>

fun mktypfromgenargs ::
    "nat \<Rightarrow> (ctyp \<Rightarrow> byte list) \<Rightarrow> ctyp \<Rightarrow> i32 \<Rightarrow> addr \<Rightarrow> type_state \<Rightarrow> (ctyp \<times> type_state) result" where
  "mktypfromgenargs 0 pad t numargs genargs s = Inl Out_of_fuel"
| "mktypfromgenargs (Suc fuel) pad t numargs genargs s =
     (let combo = SuperFastHash (Some (hashgencs t numargs (pad t) genargs));
          s = wrlock_resv t s;
          found = get_typeinfo_from_table (type_hashtbl s) combo;
          s = (if found = None then s else unlock_resv t s)
      in if (case found of None \<Rightarrow> False | Some te \<Rightarrow> num_gen_args te = numargs \<and> args te = genargs)
         then Inr (type_of_entry (the found), s)
         else
           (case get_typeinfo_from_table (type_hashtbl s) t of
              None \<Rightarrow> Inl Exit_minus_1
            | Some te \<Rightarrow>
                rbind (if target_type te \<noteq> - 1
                       then mktypfromgenargs fuel pad (target_type te) numargs genargs s
                       else Inr (target_type te, s))
                  (\<lambda>(target, s).
                     let te_new = te\<lparr>type_of_entry := combo, out_type := type_of_entry te,
                           target_type := target, num_gen_args := numargs, args := genargs,
                           maintype := t\<rparr>
                     in Inr (combo, unlock_resv t (add_type te_new s)))))"

subsection \<open>Well-formed tables\<close>

text \<open>Every entry is filed under its own type number.\<close>

definition types_wf :: "type_table \<Rightarrow> bool" where
  "types_wf tt \<longleftrightarrow> (\<forall>(k, te) \<in> set tt. type_of_entry te = k)"

lemma types_wf_Nil [simp]: "types_wf []"
  by (simp add: types_wf_def)

lemma types_wf_add [simp]: "types_wf (tbl_add k te tt) \<longleftrightarrow> type_of_entry te = k \<and> types_wf tt"
  by (auto simp: types_wf_def tbl_add_def)

lemma types_wf_modify:
  assumes "types_wf tt" "\<And>e. type_of_entry (f e) = type_of_entry e"
  shows "types_wf (tbl_modify k f tt)"
  using assms by (induction k f tt rule: tbl_modify.induct) (auto simp: types_wf_def)

lemma types_wf_del: "types_wf tt \<Longrightarrow> types_wf (tbl_del k tt)"
  using tbl_del_subset [of k tt] by (auto simp: types_wf_def)

lemma types_wf_find: "types_wf tt \<Longrightarrow> get_typeinfo_from_table tt t = Some te \<Longrightarrow> type_of_entry te = t"
  by (auto simp: types_wf_def get_typeinfo_from_table_def dest: tbl_find_set)

lemma type_state_simps [simp]:
  "type_hashtbl (wrlock_resv k s) = type_hashtbl s" "type_hashtbl (unlock_resv k s) = type_hashtbl s"
  "type_hashtbl (add_type te s) = tbl_add (type_of_entry te) te (type_hashtbl s)"
  "held (add_type te s) = held s"
  by (simp_all add: wrlock_resv_def unlock_resv_def add_type_def)

lemma find_simps [simp]:
  "get_typeinfo_from_table (tbl_add k te tt) t = (if t = k then Some te else get_typeinfo_from_table tt t)"
  "get_typeinfo_from_table (tbl_modify k f tt) t =
     (if t = k then map_option f (get_typeinfo_from_table tt k) else get_typeinfo_from_table tt t)"
  "get_typeinfo_from_table [] t = None"
  by (simp_all add: get_typeinfo_from_table_def)

lemma unlock_wrlock [simp]: "unlock_resv k (wrlock_resv k s) = s"
  by (simp add: unlock_resv_def wrlock_resv_def)

lemma type_init_step_wf: "types_wf (fst ts) \<Longrightarrow> types_wf (fst (type_init_step a ts n))"
  by (auto simp: type_init_step_def initial_entry_def Let_def types_wf_modify
      split: prod.splits option.splits)

lemma type_init_wf: "types_wf tt \<Longrightarrow> types_wf (cstrider_type_init a tt)"
  unfolding cstrider_type_init_def
  by (rule foldl_invariant [where I = "\<lambda>ts. types_wf (fst ts)"]) (auto intro: type_init_step_wf)

lemma mktypptr_new_wf:
  "mktypptr_new type ptrto s = Inr (t, s') \<Longrightarrow> types_wf (type_hashtbl s) \<Longrightarrow> types_wf (type_hashtbl s')"
  by (auto simp: mktypptr_new_def Let_def intro!: types_wf_modify split: option.splits if_splits)

lemma mktyparr_new_wf:
  "mktyparr_new len type combo s = Inr (t, s') \<Longrightarrow> types_wf (type_hashtbl s) \<Longrightarrow> types_wf (type_hashtbl s')"
  by (auto simp: mktyparr_new_def Let_def split: option.splits)

lemma mktypptr_wf:
  "mktypptr type s = Inr (t, s') \<Longrightarrow> types_wf (type_hashtbl s) \<Longrightarrow> types_wf (type_hashtbl s')"
  by (auto simp: mktypptr_def Let_def dest: mktypptr_new_wf split: option.splits if_splits)

lemma mktyparr_wf:
  "mktyparr len pad type s = Inr (t, s') \<Longrightarrow> types_wf (type_hashtbl s) \<Longrightarrow> types_wf (type_hashtbl s')"
  by (auto simp: mktyparr_def Let_def dest: mktyparr_new_wf split: option.splits if_splits)

subsection \<open>What initialisation builds\<close>

text \<open>
  The pointer type recorded for type \<open>j\<close> once the first \<open>n\<close> types are in: the last one
  whose target is \<open>j\<close>, or the generated default if there is none.
\<close>

definition last_pointer :: "type_arrays \<Rightarrow> nat \<Rightarrow> ctyp \<Rightarrow> ctyp" where
  "last_pointer a n j =
     foldl (\<lambda>p i. if target_type_array a (of_nat i) = j then of_nat i else p)
       (ptsto_type_array a j) [0..<n]"

lemma last_pointer_0 [simp]: "last_pointer a 0 j = ptsto_type_array a j"
  by (simp add: last_pointer_def)

lemma last_pointer_Suc [simp]:
  "last_pointer a (Suc n) j =
     (if target_type_array a (of_nat n) = j then of_nat n else last_pointer a n j)"
  by (simp add: last_pointer_def)

definition valid_targets :: "type_arrays \<Rightarrow> bool" where
  "valid_targets a \<longleftrightarrow> (\<forall>i < sizes_array_len a. target_type_array a (of_nat i) = - 1
      \<or> (\<exists>j < sizes_array_len a. target_type_array a (of_nat i) = of_nat j))"

definition type_init_inv :: "type_arrays \<Rightarrow> nat \<Rightarrow> type_table \<times> (ctyp \<Rightarrow> ctyp) \<Rightarrow> bool" where
  "type_init_inv a n = (\<lambda>(tt, ptsto).
     (\<forall>j < n. get_typeinfo_from_table tt (of_nat j) =
        Some ((initial_entry a (ptsto_type_array a) (of_nat j))\<lparr>pointer_to := last_pointer a n (of_nat j)\<rparr>))
     \<and> (\<forall>k. (\<forall>j < n. k \<noteq> of_nat j) \<longrightarrow> get_typeinfo_from_table tt k = None)
     \<and> (\<forall>j. n \<le> j \<longrightarrow> j < sizes_array_len a \<longrightarrow> ptsto (of_nat j) = last_pointer a n (of_nat j)))"

lemma initial_entry_pointer_to:
  "(initial_entry a p i)\<lparr>pointer_to := x\<rparr> = (initial_entry a q i)\<lparr>pointer_to := x\<rparr>"
  by (simp add: initial_entry_def)

lemma target_initial_entry [simp]: "target_type (initial_entry a p i) = target_type_array a i"
  by (simp add: initial_entry_def)

lemma initial_entry_self: "(initial_entry a p i)\<lparr>pointer_to := p i\<rparr> = initial_entry a p i"
  by (simp add: initial_entry_def)

lemma of_nat_inj_ctyp:
  assumes "i < 2 ^ 64" "j < 2 ^ 64"
  shows "(of_nat i :: ctyp) = of_nat j \<longleftrightarrow> i = j"
  using assms by (simp add: word_of_nat_eq_iff take_bit_nat_eq_self)

lemma of_nat_not_minus_1:
  assumes "j < 2 ^ 31"
  shows "(of_nat j :: ctyp) \<noteq> - 1"
proof -
  have "(- 1 :: ctyp) = of_nat (2 ^ 64 - 1)" by simp
  moreover have "(of_nat j :: ctyp) \<noteq> of_nat (2 ^ 64 - 1)"
    using of_nat_inj_ctyp [of j "2 ^ 64 - 1"] assms by simp
  ultimately show ?thesis by metis
qed

lemma type_init_step_inv:
  assumes inv: "type_init_inv a n ts" and n: "n < sizes_array_len a"
    and len: "sizes_array_len a < 2 ^ 31"
  shows "type_init_inv a (Suc n) (type_init_step a ts n)"
proof -
  obtain tt ptsto where ts: "ts = (tt, ptsto)" by (cases ts)
  let ?i = "of_nat n :: ctyp"
  let ?t = "target_type_array a ?i"
  have ne: "(of_nat j :: ctyp) \<noteq> ?i" if "j < n" for j
    using of_nat_inj_ctyp [of j n] that n len by simp
  have ne': "(of_nat j :: ctyp) \<noteq> ?i" if "n < j" "j < sizes_array_len a" for j
    using of_nat_inj_ctyp [of j n] that n len by simp
  let ?e = "initial_entry a (ptsto_type_array a)"
  have old: "get_typeinfo_from_table tt (of_nat j) =
      Some ((?e (of_nat j))\<lparr>pointer_to := last_pointer a n (of_nat j)\<rparr>)" if "j < n" for j
    using inv that by (simp add: type_init_inv_def ts)
  have none: "get_typeinfo_from_table tt k = None" if "\<And>j. j < n \<Longrightarrow> k \<noteq> of_nat j" for k
    using inv that by (simp add: type_init_inv_def ts)
  have pt: "ptsto (of_nat j) = last_pointer a n (of_nat j)" if "n \<le> j" "j < sizes_array_len a" for j
    using inv that by (simp add: type_init_inv_def ts)
  have new: "initial_entry a ptsto ?i = (?e ?i)\<lparr>pointer_to := last_pointer a n ?i\<rparr>"
    using pt [of n] n by (simp add: initial_entry_def)
  show ?thesis
  proof (cases "?t = - 1 \<or> get_typeinfo_from_table (tbl_add ?i (initial_entry a ptsto ?i) tt) ?t \<noteq> None")
    case True
    show ?thesis
    proof (cases "?t = - 1")
      case t: True
      then have "?t \<noteq> of_nat j" if "j < sizes_array_len a" for j
        using of_nat_not_minus_1 [of j] that len by simp
      moreover have "type_init_step a ts n = (tbl_add ?i (initial_entry a ptsto ?i) tt, ptsto)"
        using t by (simp add: type_init_step_def ts Let_def)
      ultimately show ?thesis
        using old none pt new ne n by (auto simp: type_init_inv_def less_Suc_eq)
    next
      case False
      with True have step: "type_init_step a ts n =
          (tbl_modify ?t (\<lambda>e. e\<lparr>pointer_to := ?i\<rparr>) (tbl_add ?i (initial_entry a ptsto ?i) tt), ptsto)"
        by (auto simp: type_init_step_def ts Let_def split: option.splits)
      have "?t \<noteq> of_nat j" if "n < j" "j < sizes_array_len a" for j
      proof
        assume t: "?t = of_nat j"
        have "get_typeinfo_from_table tt (of_nat j) = None"
          by (rule none) (use of_nat_inj_ctyp that len in auto)
        with True False t ne' [OF that] show False by simp
      qed
      note late = this
      have tn: "?t = ?i \<or> (\<exists>j < n. ?t = of_nat j)"
      proof (rule ccontr)
        assume c: "\<not> ?thesis"
        then have "get_typeinfo_from_table tt ?t = None" by (intro none) auto
        with c True False show False by simp
      qed
      show ?thesis
        unfolding type_init_inv_def step prod.case
      proof (intro conjI allI impI)
        fix j assume "j < Suc n"
        then show "get_typeinfo_from_table (tbl_modify ?t (\<lambda>e. e\<lparr>pointer_to := ?i\<rparr>)
            (tbl_add ?i (initial_entry a ptsto ?i) tt)) (of_nat j) =
          Some ((?e (of_nat j))\<lparr>pointer_to := last_pointer a (Suc n) (of_nat j)\<rparr>)"
          using old [of j] new ne [of j] by (cases "j = n"; cases "of_nat j = ?t") (auto split: if_splits)
      qed (use none pt late tn in auto)
    qed
  next
    case False
    then have f: "?t \<noteq> - 1" "?t \<noteq> ?i" "get_typeinfo_from_table tt ?t = None"
      by (auto split: if_splits)
    have tn: "?t \<noteq> of_nat j" if "j < n" for j using old [OF that] f(3) by auto
    have "type_init_step a ts n = (tbl_add ?i (initial_entry a ptsto ?i) tt, ptsto(?t := ?i))"
      using f by (simp add: type_init_step_def ts Let_def)
    then show ?thesis
      using old none pt new ne f(2) tn
      by (auto simp: type_init_inv_def less_Suc_eq)
  qed
qed

lemma type_init_loop_inv:
  assumes "sizes_array_len a < 2 ^ 31" "n \<le> sizes_array_len a"
  shows "type_init_inv a n (foldl (type_init_step a) ([], ptsto_type_array a) [0..<n])"
  using assms(2)
proof (induction n)
  case 0
  then show ?case by (simp add: type_init_inv_def)
next
  case (Suc n)
  then show ?case using type_init_step_inv assms(1) by simp
qed

lemma type_init_entry:
  assumes "sizes_array_len a < 2 ^ 31" "j < sizes_array_len a"
  shows "get_typeinfo_from_table (cstrider_type_init a []) (of_nat j) =
    Some ((initial_entry a (ptsto_type_array a) (of_nat j))
      \<lparr>pointer_to := last_pointer a (sizes_array_len a) (of_nat j)\<rparr>)"
proof -
  let ?ts = "foldl (type_init_step a) ([], ptsto_type_array a) [0..<sizes_array_len a]"
  have "type_init_inv a (sizes_array_len a) ?ts"
    using assms(1) by (rule type_init_loop_inv) simp
  then show ?thesis
    using assms(2)
    by (simp add: type_init_inv_def cstrider_type_init_def split: prod.splits)
qed

lemma type_init_no_other:
  assumes "sizes_array_len a < 2 ^ 31" "\<And>j. j < sizes_array_len a \<Longrightarrow> k \<noteq> of_nat j"
  shows "get_typeinfo_from_table (cstrider_type_init a []) k = None"
  using type_init_loop_inv [OF assms(1) order.refl] assms(2)
  by (simp add: type_init_inv_def cstrider_type_init_def split: prod.splits)

lemma last_pointer_unique:
  assumes "i < n" "target_type_array a (of_nat i) = j"
    and "\<And>i'. i' < n \<Longrightarrow> target_type_array a (of_nat i') = j \<Longrightarrow> i' = i"
  shows "last_pointer a n j = of_nat i"
  using assms
proof (induction n)
  case 0
  then show ?case by simp
next
  case (Suc n)
  then show ?case by (cases "i = n") (auto simp: less_Suc_eq)
qed

lemma last_pointer_points:
  assumes "i < n" "target_type_array a (of_nat i) = j"
  shows "\<exists>i' < n. last_pointer a n j = of_nat i' \<and> target_type_array a (of_nat i') = j"
  using assms
proof (induction n)
  case 0
  then show ?case by simp
next
  case (Suc n)
  show ?case
  proof (cases "target_type_array a (of_nat n) = j")
    case True
    then show ?thesis by auto
  next
    case False
    with Suc.prems have "i < n" by (auto simp: less_Suc_eq)
    with Suc.IH Suc.prems(2) False show ?thesis by (auto simp: less_Suc_eq)
  qed
qed

subsection \<open>Removal\<close>

lemma type_free_empties: "cstrider_type_free tt = []"
  by (simp add: cstrider_type_free_def tbl_del_iter)

subsection \<open>What the constructors build\<close>

lemma mktypptr_fresh_state:
  assumes "get_typeinfo_from_table (type_hashtbl s) (SuperFastHash (Some (bytes64 type))) = None"
    and "get_typeinfo_from_table (type_hashtbl s) type = Some te"
  obtains s' where "mktypptr type s = Inr (SuperFastHash (Some (bytes64 type)), s')" "held s' = held s"
    "\<And>k. get_typeinfo_from_table (type_hashtbl s') k =
       (if k = SuperFastHash (Some (bytes64 type))
        then Some \<lparr>type_of_entry = k, arrlen = 0, arrbase = 0, size_of_entry = 8,
               corresp_func_ptr = Transform_prim, target_type = type, pointer_to = 0,
               num_gen_args = 0, args = 0, maintype = k, out_type = k\<rparr>
        else if k = type then Some (te\<lparr>pointer_to := SuperFastHash (Some (bytes64 type))\<rparr>)
        else get_typeinfo_from_table (type_hashtbl s) k)"
proof -
  have "type \<noteq> SuperFastHash (Some (bytes64 type))" using assms by auto
  with assms that show thesis
    by (auto simp: mktypptr_def mktypptr_new_def Let_def wrlock_resv_def unlock_resv_def add_type_def)
qed

lemma mktyparr_fresh_state:
  assumes "get_typeinfo_from_table (type_hashtbl s) (SuperFastHash (Some (hasharrcs len pad type))) = None"
    and "get_typeinfo_from_table (type_hashtbl s) type = Some te"
  obtains s' where "mktyparr len pad type s = Inr (SuperFastHash (Some (hasharrcs len pad type)), s')"
    "held s' = held s"
    "\<And>k. get_typeinfo_from_table (type_hashtbl s') k =
       (if k = SuperFastHash (Some (hasharrcs len pad type))
        then Some (te\<lparr>type_of_entry := k, arrlen := len, arrbase := type\<rparr>)
        else get_typeinfo_from_table (type_hashtbl s) k)"
  using assms that
  by (auto simp: mktyparr_def mktyparr_new_def Let_def wrlock_resv_def unlock_resv_def add_type_def)

text \<open>The chain of pointer targets from a type, all of them known, ends within \<open>n\<close> types.\<close>

fun known_chain :: "nat \<Rightarrow> type_table \<Rightarrow> ctyp \<Rightarrow> bool" where
  "known_chain 0 tt t = False"
| "known_chain (Suc n) tt t =
     (case get_typeinfo_from_table tt t of
        None \<Rightarrow> False
      | Some te \<Rightarrow> target_type te = - 1 \<or> known_chain n tt (target_type te))"

lemma known_chain_mono: "known_chain n tt t \<Longrightarrow> n \<le> m \<Longrightarrow> known_chain m tt t"
proof (induction n arbitrary: t m)
  case 0
  then show ?case by simp
next
  case (Suc n)
  then obtain m' where "m = Suc m'" "n \<le> m'" by (cases m) auto
  with Suc show ?case by (auto split: option.splits)
qed

lemma mktypfromgenargs_returns:
  "known_chain n (type_hashtbl s) t \<Longrightarrow>
   \<exists>c s'. mktypfromgenargs n pad t numargs genargs s = Inr (c, s')"
proof (induction n arbitrary: t s)
  case 0
  then show ?case by simp
next
  case (Suc n)
  show ?case
    using Suc.prems
      Suc.IH [of "wrlock_resv t s" "target_type (the (get_typeinfo_from_table (type_hashtbl s) t))"]
      Suc.IH [of s "target_type (the (get_typeinfo_from_table (type_hashtbl s) t))"]
    by (auto simp: Let_def split: option.splits)
qed

lemma mktypfromgenargs_result:
  assumes "types_wf (type_hashtbl s)" "mktypfromgenargs n pad t numargs genargs s = Inr (c, s')"
  shows "c = SuperFastHash (Some (hashgencs t numargs (pad t) genargs)) \<and>
    types_wf (type_hashtbl s') \<and>
    (\<exists>te. get_typeinfo_from_table (type_hashtbl s') c = Some te
       \<and> num_gen_args te = numargs \<and> args te = genargs)"
  using assms
proof (induction n arbitrary: t s c s')
  case 0
  then show ?case by simp
next
  case (Suc n)
  let ?combo = "SuperFastHash (Some (hashgencs t numargs (pad t) genargs))"
  let ?found = "get_typeinfo_from_table (type_hashtbl s) ?combo"
  let ?s = "if ?found = None then wrlock_resv t s else s"
  show ?case
  proof (cases "\<exists>te. ?found = Some te \<and> num_gen_args te = numargs \<and> args te = genargs")
    case True
    with Suc.prems show ?thesis by (auto simp: Let_def dest: types_wf_find)
  next
    case False
    then obtain te r where te: "get_typeinfo_from_table (type_hashtbl s) t = Some te"
      and r: "(if target_type te \<noteq> - 1 then mktypfromgenargs n pad (target_type te) numargs genargs ?s
               else Inr (target_type te, ?s)) = Inr r"
      and res: "c = ?combo" "s' = unlock_resv t (add_type (te\<lparr>type_of_entry := ?combo,
          out_type := type_of_entry te, target_type := fst r, num_gen_args := numargs,
          args := genargs, maintype := t\<rparr>) (snd r))"
      using Suc.prems(2)
      by (auto simp: Let_def rbind_eq_Inr split: option.splits if_splits prod.splits)
    have "types_wf (type_hashtbl (snd r))"
      using Suc.IH [of ?s "target_type te" "fst r" "snd r"] r Suc.prems(1)
      by (auto split: if_splits)
    with res show ?thesis by simp
  qed
qed

lemma mktypfromgenargs_again:
  assumes "get_typeinfo_from_table (type_hashtbl s) (SuperFastHash (Some (hashgencs t numargs (pad t) genargs))) = Some te"
    and "num_gen_args te = numargs" "args te = genargs"
  shows "mktypfromgenargs (Suc n) pad t numargs genargs s = Inr (type_of_entry te, s)"
  using assms by (simp add: Let_def)

subsection \<open>Collisions\<close>

text \<open>
  The double release after a hash collision: the lock is released when the entry found does
  not fit, and again at the end.
\<close>

lemma mktypptr_collision_state:
  assumes "get_typeinfo_from_table (type_hashtbl s) (SuperFastHash (Some (bytes64 type))) = Some other"
    and "target_type other \<noteq> type"
    and "get_typeinfo_from_table (type_hashtbl s) type = Some te"
  shows "\<exists>s'. mktypptr type s = Inr (SuperFastHash (Some (bytes64 type)), s')
    \<and> held s' (SuperFastHash (Some (bytes64 type))) = held s (SuperFastHash (Some (bytes64 type))) - 1
    \<and> (\<exists>te'. get_typeinfo_from_table (type_hashtbl s') (SuperFastHash (Some (bytes64 type))) = Some te'
         \<and> target_type te' = type)"
  using assms
  by (auto simp: mktypptr_def mktypptr_new_def Let_def unlock_resv_def wrlock_resv_def add_type_def)

subsection \<open>An example\<close>

text \<open>
  Three types: 0 is \<open>int\<close>, 1 is \<open>int *\<close> and 2 is \<open>int **\<close>.
\<close>

definition example_arrays :: type_arrays where
  "example_arrays = \<lparr>sizes_array_len = 3, sizes_array = (\<lambda>t. if t = 0 then 4 else 8),
     corresp_func_ptr_array = (\<lambda>_. Transform_prim),
     target_type_array = (\<lambda>t. if t = 0 then - 1 else t - 1), ptsto_type_array = (\<lambda>_. - 1),
     num_gen_args_arr = (\<lambda>_. 0), args_arr = (\<lambda>_. 0), main_types_array = (\<lambda>t. t),
     out_type_internal = (\<lambda>_. - 1)\<rparr>"

definition example_entry :: "ctyp \<Rightarrow> ctyp \<Rightarrow> type_hash_entry" where
  "example_entry t target = \<lparr>type_of_entry = t, arrlen = 0, arrbase = 0, size_of_entry = 8,
     corresp_func_ptr = Transform_prim, target_type = target, pointer_to = - 1, num_gen_args = 0,
     args = 0, maintype = t, out_type = - 1\<rparr>"

definition example_state :: type_state where
  "example_state = \<lparr>type_hashtbl = [(2, example_entry 2 1), (1, example_entry 1 0),
      (0, example_entry 0 (- 1))], held = (\<lambda>_. 0)\<rparr>"

subsection \<open>Properties\<close>

text \<open>
  C10: \<open>cstrider_type_init\<close> on an empty table files every generated type under its number,
  with the size, transformer, target and generic arguments of the generated arrays, and no
  other type. When some generated type points to type \<open>j\<close>, the entry of \<open>j\<close> records such a
  pointer type, in whichever order the two types are numbered, and it records the one
  pointer type if there is only one.
\<close>

theorem type_init_correct:
  assumes "sizes_array_len a < 2 ^ 31" "j < sizes_array_len a"
  shows "\<exists>te. get_typeinfo_from_table (cstrider_type_init a []) (of_nat j) = Some te
    \<and> te\<lparr>pointer_to := 0\<rparr> = (initial_entry a (\<lambda>_. 0) (of_nat j))
    \<and> (\<forall>i < sizes_array_len a. target_type_array a (of_nat i) = of_nat j \<longrightarrow>
         (\<exists>i' < sizes_array_len a. pointer_to te = of_nat i' \<and> target_type_array a (of_nat i') = of_nat j)
         \<and> ((\<forall>i' < sizes_array_len a. target_type_array a (of_nat i') = of_nat j \<longrightarrow> i' = i)
             \<longrightarrow> pointer_to te = of_nat i))
    \<and> (\<forall>k. (\<forall>i < sizes_array_len a. k \<noteq> of_nat i) \<longrightarrow>
         get_typeinfo_from_table (cstrider_type_init a []) k = None)"
proof -
  let ?te = "(initial_entry a (ptsto_type_array a) (of_nat j))
      \<lparr>pointer_to := last_pointer a (sizes_array_len a) (of_nat j)\<rparr>"
  have p: "pointer_to ?te = last_pointer a (sizes_array_len a) (of_nat j)" by simp
  show ?thesis
  proof (intro exI [of _ ?te] conjI allI impI)
    show "?te\<lparr>pointer_to := 0\<rparr> = initial_entry a (\<lambda>_. 0) (of_nat j)"
      by (simp add: initial_entry_def)
    show "get_typeinfo_from_table (cstrider_type_init a []) (of_nat j) = Some ?te"
      using assms by (rule type_init_entry)
    show "get_typeinfo_from_table (cstrider_type_init a []) k = None"
      if "\<forall>i < sizes_array_len a. k \<noteq> of_nat i" for k
      by (rule type_init_no_other [OF assms(1)]) (rule that [rule_format])
  next
    fix i assume i: "i < sizes_array_len a" "target_type_array a (of_nat i) = of_nat j"
    show "\<exists>i' < sizes_array_len a. pointer_to ?te = of_nat i' \<and> target_type_array a (of_nat i') = of_nat j"
      unfolding p using i by (rule last_pointer_points)
    show "pointer_to ?te = of_nat i"
      if "\<forall>i' < sizes_array_len a. target_type_array a (of_nat i') = of_nat j \<longrightarrow> i' = i"
      unfolding p using i by (rule last_pointer_unique) (rule that [rule_format])
  qed
qed

theorem type_init_correct_witness:
  "\<exists>te. get_typeinfo_from_table (cstrider_type_init example_arrays []) (of_nat 1) = Some te
     \<and> te\<lparr>pointer_to := 0\<rparr> = initial_entry example_arrays (\<lambda>_. 0) (of_nat 1)
     \<and> pointer_to te = of_nat 2"
proof -
  have a: "sizes_array_len example_arrays = 3" "target_type_array example_arrays (of_nat 2) = of_nat 1"
    "\<And>i. i < 3 \<Longrightarrow> target_type_array example_arrays (of_nat i) = of_nat 1 \<Longrightarrow> i = 2"
    by (auto simp: example_arrays_def less_Suc_eq numeral_3_eq_3)
  have h: "sizes_array_len example_arrays < 2 ^ 31" "1 < sizes_array_len example_arrays"
    by (simp_all add: a(1))
  from type_init_correct [OF h, unfolded a(1)] obtain te
    where "get_typeinfo_from_table (cstrider_type_init example_arrays []) (of_nat 1) = Some te"
      "te\<lparr>pointer_to := 0\<rparr> = initial_entry example_arrays (\<lambda>_. 0) (of_nat 1)"
      and u: "\<forall>i < 3. target_type_array example_arrays (of_nat i) = of_nat 1 \<longrightarrow>
        (\<exists>i' < 3. pointer_to te = of_nat i' \<and> target_type_array example_arrays (of_nat i') = of_nat 1)
         \<and> ((\<forall>i' < 3. target_type_array example_arrays (of_nat i') = of_nat 1 \<longrightarrow> i' = i)
             \<longrightarrow> pointer_to te = of_nat i)"
    by (elim exE conjE)
  moreover have "pointer_to te = of_nat 2" using u [rule_format, OF _ a(2)] a(3) by simp
  ultimately show ?thesis by blast
qed

text \<open>
  Every query on a type that is not in the table leaves the program with \<open>exit(-1)\<close>;
  none of them returns a value. \<open>cstrider_is_funptr\<close> answers for the function pointer type
  without a look-up.
\<close>

theorem queries_unknown_type:
  assumes "get_typeinfo_from_table tt t = None"
  shows "cstrider_is_array tt t = Inl Exit_minus_1 \<and> cstrider_is_ptr tt t = Inl Exit_minus_1
    \<and> cstrider_get_tvers_funptr tt t = Inl Exit_minus_1
    \<and> cstrider_is_funptr f tt t = (if t = f then Inr True else Inl Exit_minus_1)
    \<and> cstrider_get_typ_ptstothis tt t = Inl Exit_minus_1
    \<and> cstrider_get_array_len tt t = Inl Exit_minus_1
    \<and> cstrider_get_num_array_elems tt t = Inl Exit_minus_1
    \<and> cstrider_get_maintype tt t = Inl Exit_minus_1 \<and> cstrider_get_ptrtype tt t = Inl Exit_minus_1
    \<and> cstrider_get_array_base_type tt t = Inl Exit_minus_1 \<and> cstrider_get_size tt t = Inl Exit_minus_1
    \<and> cstrider_get_out_size tt t = Inl Exit_minus_1 \<and> cstrider_get_generic_args tt t = Inl Exit_minus_1
    \<and> cstrider_get_num_gen_args tt t = Inl Exit_minus_1"
  using assms
  by (simp add: query_def cstrider_is_array_def cstrider_is_ptr_def cstrider_get_tvers_funptr_def
      cstrider_is_funptr_def cstrider_get_typ_ptstothis_def cstrider_get_array_len_def
      cstrider_get_num_array_elems_def cstrider_get_maintype_def cstrider_get_ptrtype_def
      cstrider_get_array_base_type_def cstrider_get_size_def cstrider_get_out_size_def
      cstrider_get_generic_args_def cstrider_get_num_gen_args_def)

theorem queries_unknown_type_witness:
  "cstrider_get_size (type_hashtbl example_state) 9 = Inl Exit_minus_1"
  using queries_unknown_type [of "type_hashtbl example_state" 9]
  by (simp add: example_state_def get_typeinfo_from_table_def tbl_find_def)

text \<open>
  \<open>mktypptr\<close> on a known type whose hash is not taken returns a new pointer type of size
  8 with that target, records it in the target's entry, leaves every other entry alone and
  releases its lock; asking again returns the same type and changes nothing.
\<close>

theorem mktypptr_correct:
  assumes "get_typeinfo_from_table (type_hashtbl s) (SuperFastHash (Some (bytes64 type))) = None"
    and "get_typeinfo_from_table (type_hashtbl s) type = Some te"
  shows "\<exists>ptrto s'. mktypptr type s = Inr (ptrto, s') \<and> held s' = held s
    \<and> cstrider_is_ptr (type_hashtbl s') ptrto = Inr (type \<noteq> - 1 \<or> ptrto = TYPE_FUNPTR)
    \<and> cstrider_get_ptrtype (type_hashtbl s') ptrto = Inr type
    \<and> cstrider_get_size (type_hashtbl s') ptrto = Inr 8
    \<and> cstrider_get_typ_ptstothis (type_hashtbl s') type = Inr ptrto
    \<and> (\<forall>k. k \<noteq> type \<longrightarrow> k \<noteq> ptrto \<longrightarrow>
         get_typeinfo_from_table (type_hashtbl s') k = get_typeinfo_from_table (type_hashtbl s) k)
    \<and> mktypptr type s' = Inr (ptrto, s')"
proof -
  obtain s' where s': "mktypptr type s = Inr (SuperFastHash (Some (bytes64 type)), s')" "held s' = held s"
    "\<And>k. get_typeinfo_from_table (type_hashtbl s') k =
       (if k = SuperFastHash (Some (bytes64 type))
        then Some \<lparr>type_of_entry = k, arrlen = 0, arrbase = 0, size_of_entry = 8,
               corresp_func_ptr = Transform_prim, target_type = type, pointer_to = 0,
               num_gen_args = 0, args = 0, maintype = k, out_type = k\<rparr>
        else if k = type then Some (te\<lparr>pointer_to := SuperFastHash (Some (bytes64 type))\<rparr>)
        else get_typeinfo_from_table (type_hashtbl s) k)"
    using mktypptr_fresh_state [OF assms] by blast
  have "type \<noteq> SuperFastHash (Some (bytes64 type))" using assms by auto
  then show ?thesis
    using s' by (intro exI [of _ "SuperFastHash (Some (bytes64 type))"] exI [of _ s'])
      (simp add: query_def cstrider_is_ptr_def cstrider_get_ptrtype_def cstrider_get_size_def
        cstrider_get_typ_ptstothis_def mktypptr_def Let_def)
qed

theorem mktypptr_correct_witness:
  "\<exists>ptrto s'. mktypptr 1 example_state = Inr (ptrto, s') \<and> cstrider_get_ptrtype (type_hashtbl s') ptrto = Inr 1
     \<and> mktypptr 1 s' = Inr (ptrto, s')"
proof -
  have h: "SuperFastHash (Some (bytes64 1)) = 3344215587" by code_simp
  show ?thesis
    using mktypptr_correct [of example_state 1 "example_entry 1 0", unfolded h]
    by (force simp: example_state_def get_typeinfo_from_table_def tbl_find_def)
qed

text \<open>
  \<open>mktyparr\<close> on a known element type whose combined hash is not taken returns a new type
  that is an array of \<open>len\<close> elements of that type, with the element's size and transformer,
  leaves every other entry alone and releases its lock; asking again (with the same
  padding bytes) returns the same type and changes nothing.
\<close>

theorem mktyparr_correct:
  assumes "get_typeinfo_from_table (type_hashtbl s) (SuperFastHash (Some (hasharrcs len pad type))) = None"
    and "get_typeinfo_from_table (type_hashtbl s) type = Some te"
  shows "\<exists>arr s'. mktyparr len pad type s = Inr (arr, s') \<and> held s' = held s
    \<and> cstrider_is_array (type_hashtbl s') arr = Inr (len \<noteq> 0)
    \<and> cstrider_get_num_array_elems (type_hashtbl s') arr = Inr len
    \<and> cstrider_get_array_base_type (type_hashtbl s') arr = Inr type
    \<and> cstrider_get_array_len (type_hashtbl s') arr = Inr (len * size_of_entry te)
    \<and> cstrider_get_tvers_funptr (type_hashtbl s') arr = Inr (corresp_func_ptr te)
    \<and> (\<forall>k. k \<noteq> arr \<longrightarrow>
         get_typeinfo_from_table (type_hashtbl s') k = get_typeinfo_from_table (type_hashtbl s) k)
    \<and> mktyparr len pad type s' = Inr (arr, s')"
proof -
  let ?h = "SuperFastHash (Some (hasharrcs len pad type))"
  obtain s' where s': "mktyparr len pad type s = Inr (?h, s')" "held s' = held s"
    "\<And>k. get_typeinfo_from_table (type_hashtbl s') k =
       (if k = ?h then Some (te\<lparr>type_of_entry := k, arrlen := len, arrbase := type\<rparr>)
        else get_typeinfo_from_table (type_hashtbl s) k)"
    using mktyparr_fresh_state [OF assms] by blast
  then show ?thesis
    by (intro exI [of _ ?h] exI [of _ s'])
      (simp add: query_def cstrider_is_array_def cstrider_get_num_array_elems_def
        cstrider_get_array_base_type_def cstrider_get_array_len_def cstrider_get_tvers_funptr_def
        mktyparr_def Let_def)
qed

theorem mktyparr_correct_witness:
  "\<exists>arr s'. mktyparr 10 [0, 0, 0, 0] 1 example_state = Inr (arr, s')
     \<and> cstrider_get_num_array_elems (type_hashtbl s') arr = Inr 10
     \<and> cstrider_get_array_len (type_hashtbl s') arr = Inr 80"
proof -
  have h: "SuperFastHash (Some (hasharrcs 10 [0, 0, 0, 0] 1)) \<notin> {0, 1, 2}" by code_simp
  have f: "get_typeinfo_from_table (type_hashtbl example_state) t = None" if "t \<notin> {0, 1, 2}" for t
    using that by (simp add: example_state_def get_typeinfo_from_table_def tbl_find_def)
  have g: "get_typeinfo_from_table (type_hashtbl example_state) 1 = Some (example_entry 1 0)"
    "size_of_entry (example_entry 1 0) = 8"
    by (simp_all add: example_state_def get_typeinfo_from_table_def tbl_find_def example_entry_def)
  show ?thesis
    using mktyparr_correct [of example_state 10 "[0, 0, 0, 0]" 1 "example_entry 1 0", OF f [OF h] g(1)] g(2)
    by fastforce
qed





text \<open>
  C33: The queries of transform.c on an entry agree with the queries of the API on its type,
  except on function pointer types: \<open>memoized_is_ptr\<close> also accepts an entry whose
  transformer is \<open>transform_fptr\<close>, which \<open>cstrider_is_ptr\<close> does not, and
  \<open>memoized_is_funptr\<close> compares with the constant 16 where \<open>cstrider_is_funptr\<close> compares
  with the generated \<open>TYPE_FUNPTR_i\<close>.
\<close>

theorem memoized_agree:
  assumes "types_wf tt" "get_typeinfo_from_table tt t = Some te"
  shows "cstrider_is_array tt t = Inr (memoized_is_array te)
    \<and> cstrider_get_ptrtype tt t = Inr (memoized_get_ptrtype te)
    \<and> cstrider_get_tvers_funptr tt t = Inr (memoized_get_tvers_funptr te)
    \<and> (cstrider_is_ptr tt t = Inr (memoized_is_ptr te) \<longleftrightarrow>
         \<not> (corresp_func_ptr te = Transform_fptr \<and> arrlen te = 0 \<and> target_type te = - 1 \<and> t \<noteq> TYPE_FUNPTR))
    \<and> (cstrider_is_funptr f tt t = Inr (memoized_is_funptr te) \<longleftrightarrow>
         (t = f) = (t = 16) \<or> corresp_func_ptr te = Transform_fptr)"
  using types_wf_find [OF assms] assms(2)
  by (auto simp: query_def cstrider_is_array_def cstrider_get_ptrtype_def cstrider_is_ptr_def
      cstrider_get_tvers_funptr_def cstrider_is_funptr_def memoized_is_array_def memoized_get_ptrtype_def
      memoized_get_tvers_funptr_def memoized_is_ptr_def memoized_is_funptr_def)

theorem memoized_agree_witness:
  "cstrider_is_ptr (type_hashtbl example_state) 1 = Inr (memoized_is_ptr (example_entry 1 0))"
  using memoized_agree [of "type_hashtbl example_state" 1 "example_entry 1 0"]
  by (simp add: example_state_def types_wf_def example_entry_def get_typeinfo_from_table_def tbl_find_def)

text \<open>
  C39: After a hash collision in \<open>mktypptr\<close> (the number is taken by a type that is not the
  pointer type wanted) the lock of the bucket has been released once more often than it was
  taken, and the new entry hides the type that had the number.
\<close>

theorem mktypptr_collision:
  assumes "get_typeinfo_from_table (type_hashtbl s) (SuperFastHash (Some (bytes64 type))) = Some other"
    and "target_type other \<noteq> type"
    and "get_typeinfo_from_table (type_hashtbl s) type = Some te"
  shows "\<exists>s'. mktypptr type s = Inr (SuperFastHash (Some (bytes64 type)), s')
    \<and> held s' (SuperFastHash (Some (bytes64 type))) = held s (SuperFastHash (Some (bytes64 type))) - 1
    \<and> cstrider_get_ptrtype (type_hashtbl s') (SuperFastHash (Some (bytes64 type))) = Inr type"
  using mktypptr_collision_state [OF assms] by (auto simp: query_def cstrider_get_ptrtype_def)

theorem mktypptr_collision_witness:
  "\<exists>s'. mktypptr 146331051 (add_type (example_entry 8 1) (add_type (example_entry 146331051 (- 1)) example_state))
      = Inr (8, s') \<and> held s' 8 = - 1"
proof -
  have h: "SuperFastHash (Some (bytes64 146331051)) = 8" by code_simp
  show ?thesis
    using mktypptr_collision [of "add_type (example_entry 8 1) (add_type (example_entry 146331051 (- 1)) example_state)"
        146331051 "example_entry 8 1" "example_entry 146331051 (- 1)", unfolded h]
    by (force simp: example_state_def example_entry_def)
qed

text \<open>
  Asking twice for the same array type need not give the same type: \<open>mktyparr\<close> hashes a
  local struct with its four bytes of padding, and two calls that find different bytes there
  return different numbers for an array of ten \<open>int *\<close>.
\<close>

theorem mktyparr_padding:
  "(\<exists>t s'. mktyparr 10 [0, 0, 0, 0] 1 example_state = Inr (t, s')
     \<and> (\<exists>t' s''. mktyparr 10 [1, 0, 0, 0] 1 s' = Inr (t', s'') \<and> t' \<noteq> t))"
proof -
  let ?h = "\<lambda>b. SuperFastHash (Some (hasharrcs 10 [b, 0, 0, 0] 1))"
  have h: "?h 0 \<notin> {0, 1, 2}" "?h 1 \<notin> {0, 1, 2}" "?h 1 \<noteq> ?h 0" by code_simp+
  have f: "get_typeinfo_from_table (type_hashtbl example_state) t = None" if "t \<notin> {0, 1, 2}" for t
    using that by (simp add: example_state_def get_typeinfo_from_table_def tbl_find_def)
  have g: "get_typeinfo_from_table (type_hashtbl example_state) 1 = Some (example_entry 1 0)"
    by (simp add: example_state_def get_typeinfo_from_table_def tbl_find_def)
  obtain s' where s': "mktyparr 10 [0, 0, 0, 0] 1 example_state = Inr (?h 0, s')"
    "\<And>k. get_typeinfo_from_table (type_hashtbl s') k =
       (if k = ?h 0 then Some ((example_entry 1 0)\<lparr>type_of_entry := k, arrlen := 10, arrbase := 1\<rparr>)
        else get_typeinfo_from_table (type_hashtbl example_state) k)"
    using mktyparr_fresh_state [OF f [OF h(1)] g] by blast
  have "1 \<noteq> ?h 0" using h(1) by auto
  then have g': "get_typeinfo_from_table (type_hashtbl s') 1 = Some (example_entry 1 0)"
    using s'(2) g by simp
  have "get_typeinfo_from_table (type_hashtbl s') (?h 1) = None"
    using s'(2) f [OF h(2)] h(3) by simp
  then obtain s'' where "mktyparr 10 [1, 0, 0, 0] 1 s' = Inr (?h 1, s'')"
    using mktyparr_fresh_state [OF _ g'] by blast
  with s'(1) h(3) show ?thesis by blast
qed

end
