(* ===== verification/Runtime.thy ===== *)
theory Runtime
  imports Memory Types Queue
begin

text \<open>
  The state of the runtime and the tables beside the type table: the mapping table, the
  symbol table, the roots (src/src/cstrider_api.c) and the delayed frees
  (src/src/transform.c). \<open>'u\<close> is the state of the service that is running, such as its
  counters or its file.
\<close>

subsection \<open>State\<close>

record task =
  task_in :: addr
  task_type :: ctyp
  task_out :: addr
  issplit :: bool

text \<open>
  \<open>hash_entry\<close> is the entry of the symbol table, filed by name and by address. \<open>el_t\<close> of the
  generated roots is the index of a generated function, that of a registered root an address with its type.
  \<open>seen\<close> lists the arguments of the calls that \<open>visitcalls\<close> counts, and \<open>freed\<close> the
  addresses passed to \<open>free\<close>, oldest first. \<open>blocks\<close> are the blocks (address and size)
  that an allocator that keeps track of them has given out.
\<close>

record hash_entry =
  entry_name :: string
  entry_addr :: addr
  entry_size :: "64 word"
  auto_migrate :: i32

record 'u cstate =
  heap :: heap
  tstate :: type_state
  pxform_mappings :: "(addr, addr) table"
  map_held :: "addr \<Rightarrow> int"
  visit_all_hash :: "(nat, unit) table"
  visit_all_registered_hash :: "(addr, ctyp) table"
  name_to_addr_hash :: "(string, hash_entry) table"
  addr_to_name_hash :: "(addr, hash_entry) table"
  freelater_hash :: "(addr, addr) table"
  freed :: "addr list"
  blocks :: "(addr \<times> nat) list"
  is_parallel :: bool
  launched_helpers :: bool
  queue_array :: "task queue list"
  visitcalls :: i32
  seen :: "(addr \<times> ctyp) list"
  user :: 'u

abbreviation type_table_of :: "'u cstate \<Rightarrow> type_table" where
  "type_table_of s \<equiv> type_hashtbl (tstate s)"

subsection \<open>The mapping table\<close>

definition find_mapping :: "addr \<Rightarrow> 'u cstate \<Rightarrow> addr" where
  "find_mapping inp s =
     (if inp = 0 then 0
      else case tbl_find inp (pxform_mappings s) of Some a \<Rightarrow> a | None \<Rightarrow> 0)"

definition add_mapping :: "addr \<Rightarrow> addr \<Rightarrow> 'u cstate \<Rightarrow> 'u cstate" where
  "add_mapping inp out s =
     (if inp = 0 then s
      else if find_mapping inp s = 0
           then s\<lparr>pxform_mappings := tbl_add inp out (pxform_mappings s)\<rparr>
           else s)"

definition clear_pxform_mappings_head :: "'u cstate \<Rightarrow> 'u cstate" where
  "clear_pxform_mappings_head s = s\<lparr>pxform_mappings := []\<rparr>"

text \<open>
  The locks of the mapping table are per bucket and are taken in a parallel traversal only;
  \<open>map_held\<close> counts the locks taken minus the locks released for each key.
\<close>

definition transform_map_wrlock :: "addr \<Rightarrow> 'u cstate \<Rightarrow> 'u cstate" where
  "transform_map_wrlock from s =
     (if from = 0 then s
      else if is_parallel s then s\<lparr>map_held := (map_held s)(from := map_held s from + 1)\<rparr> else s)"

definition transform_map_rdlock :: "addr \<Rightarrow> 'u cstate \<Rightarrow> 'u cstate" where
  "transform_map_rdlock from s =
     (if from = 0 then s
      else if is_parallel s then s\<lparr>map_held := (map_held s)(from := map_held s from + 1)\<rparr> else s)"

definition transform_map_unlock :: "addr \<Rightarrow> 'u cstate \<Rightarrow> 'u cstate" where
  "transform_map_unlock from s =
     (if from = 0 then s
      else if is_parallel s then s\<lparr>map_held := (map_held s)(from := map_held s from - 1)\<rparr> else s)"

subsection \<open>The symbol table\<close>

definition cstrider_get_symbol_addr_old :: "string \<Rightarrow> 'u cstate \<Rightarrow> addr" where
  "cstrider_get_symbol_addr_old key s =
     (case tbl_find key (name_to_addr_hash s) of Some e \<Rightarrow> entry_addr e | None \<Rightarrow> 0)"

definition cstrider_get_symbol_addr_new :: "string \<Rightarrow> 'u cstate \<Rightarrow> addr" where
  "cstrider_get_symbol_addr_new key s = cstrider_get_symbol_addr_old key s"

definition lookup_addr :: "addr \<Rightarrow> 'u cstate \<Rightarrow> string option" where
  "lookup_addr a s =
     (case tbl_find a (addr_to_name_hash s) of Some e \<Rightarrow> Some (entry_name e) | None \<Rightarrow> None)"

definition lookup_key :: "string \<Rightarrow> 'u cstate \<Rightarrow> addr" where
  "lookup_key key s = cstrider_get_symbol_addr_new key s"

definition cstrider_register_key ::
    "string \<Rightarrow> addr \<Rightarrow> 64 word \<Rightarrow> i32 \<Rightarrow> 'u cstate \<Rightarrow> 'u cstate result" where
  "cstrider_register_key key var_addr sz mig s =
     (let exists_key = tbl_find var_addr (addr_to_name_hash s);
          exists_addr = tbl_find key (name_to_addr_hash s)
      in if exists_key \<noteq> None \<or> exists_addr \<noteq> None
         then (if exists_key = None then Inl Assert_failed
               else if exists_addr = None then Inl Assert_failed
               else Inr s)
         else let e = \<lparr>entry_name = key, entry_addr = var_addr, entry_size = sz, auto_migrate = mig\<rparr>
              in Inr (s\<lparr>name_to_addr_hash := tbl_add key e (name_to_addr_hash s),
                        addr_to_name_hash := tbl_add var_addr e (addr_to_name_hash s)\<rparr>))"

definition kitsune_register_var ::
    "string \<Rightarrow> addr \<Rightarrow> 64 word \<Rightarrow> i32 \<Rightarrow> 'u cstate \<Rightarrow> 'u cstate result" where
  "kitsune_register_var key var_addr sz mig s = cstrider_register_key key var_addr sz mig s"

subsection \<open>Roots\<close>

text \<open>\<open>visitalls\<close> is the generated array of root functions, here their indices.\<close>

definition populate_visit_all :: "nat list \<Rightarrow> 'u cstate \<Rightarrow> 'u cstate" where
  "populate_visit_all visitalls s =
     s\<lparr>visit_all_hash := foldl (\<lambda>t f. tbl_add f () t) (visit_all_hash s) visitalls\<rparr>"

text \<open>
  \<open>register_root\<close> passes \<open>in\<close>, not its address, as the place to read the key from: it looks
  up the pointer stored at \<open>in\<close>.
\<close>

definition register_root :: "addr \<Rightarrow> ctyp \<Rightarrow> 'u cstate \<Rightarrow> 'u cstate" where
  "register_root inp t s =
     (case tbl_find (load64 (heap s) inp) (visit_all_registered_hash s) of
        Some e \<Rightarrow> s
      | None \<Rightarrow> s\<lparr>visit_all_registered_hash := tbl_add inp t (visit_all_registered_hash s)\<rparr>)"

definition deregister_root :: "addr \<Rightarrow> 'u cstate \<Rightarrow> 'u cstate" where
  "deregister_root inp s =
     (case tbl_find inp (visit_all_registered_hash s) of
        Some d \<Rightarrow> s\<lparr>visit_all_registered_hash := tbl_del inp (visit_all_registered_hash s)\<rparr>
      | None \<Rightarrow> s)"

definition cstrider_visit_free :: "'u cstate \<Rightarrow> 'u cstate" where
  "cstrider_visit_free s =
     s\<lparr>visit_all_hash := foldl (\<lambda>t (k, _). tbl_del k t) (visit_all_hash s) (tbl_iter (visit_all_hash s))\<rparr>"

subsection \<open>Delayed frees\<close>

definition transform_delayedfree :: "addr \<Rightarrow> addr \<Rightarrow> 'u cstate \<Rightarrow> 'u cstate" where
  "transform_delayedfree a closure_with_args s =
     s\<lparr>freelater_hash := tbl_add a closure_with_args (freelater_hash s)\<rparr>"

definition free_entry :: "addr \<times> addr \<Rightarrow> addr list" where
  "free_entry = (\<lambda>(a, closure_with_args).
     if closure_with_args \<noteq> 0 then [closure_with_args, a] else if a \<noteq> 0 then [a] else [])"

definition transform_perform_delayedfree :: "'u cstate \<Rightarrow> 'u cstate" where
  "transform_perform_delayedfree s =
     foldl (\<lambda>s e. s\<lparr>freelater_hash := tbl_del (fst e) (freelater_hash s), freed := freed s @ free_entry e\<rparr>)
       s (tbl_iter (freelater_hash s))"

text \<open>
  \<open>init_thread_local\<close>: the placeholder every thread puts into its table of delayed frees.
\<close>

definition init_thread_local :: "'u cstate \<Rightarrow> 'u cstate" where
  "init_thread_local s = s\<lparr>freelater_hash := tbl_add 0 0 (freelater_hash s)\<rparr>"

definition init_parallel_tbls :: "'u cstate \<Rightarrow> 'u cstate" where
  "init_parallel_tbls s =
     (let s = add_mapping 0xFFFFFFFF 0xFFFFFFFF s
      in s\<lparr>freelater_hash := tbl_add 0 0 (freelater_hash s)\<rparr>)"

subsection \<open>The contract of the mapping table\<close>

text \<open>
  A pointer map: NULL is never mapped and is the answer for unmapped pointers; the first
  mapping of a pointer to something other than NULL stays.
\<close>

locale pointer_map =
  fixes find :: "addr \<Rightarrow> 's \<Rightarrow> addr"
    and add :: "addr \<Rightarrow> addr \<Rightarrow> 's \<Rightarrow> 's"
  assumes find_null: "find 0 s = 0"
    and find_add: "find j (add i v s) = (if j = i \<and> i \<noteq> 0 \<and> find i s = 0 then v else find j s)"
begin

lemma first_mapping_stays: "find i s \<noteq> 0 \<Longrightarrow> find i (add i v s) = find i s"
  by (simp add: find_add)

lemma add_frame: "j \<noteq> i \<Longrightarrow> find j (add i v s) = find j s"
  by (simp add: find_add)

lemma mapped_mono: "find j s \<noteq> 0 \<Longrightarrow> find j (add i v s) = find j s"
  by (auto simp: find_add)

lemma add_all_first:
  "find j (foldl (\<lambda>s (i, v). add i v s) s ivs) =
     (if find j s \<noteq> 0 \<or> j = 0 then find j s
      else case List.find (\<lambda>(i, v). i = j \<and> v \<noteq> 0) ivs of Some (i, v) \<Rightarrow> v | None \<Rightarrow> 0)"
proof (induction ivs arbitrary: s)
  case Nil
  then show ?case by (simp add: find_null)
next
  case (Cons iv ivs)
  obtain i v where iv: "iv = (i, v)" by (cases iv)
  show ?case using Cons.IH [of "add i v s"] by (auto simp: iv find_add find_null)
qed

end

interpretation mapping: pointer_map find_mapping add_mapping
  by unfold_locales (auto simp: find_mapping_def add_mapping_def)

lemma add_mapping_frame [simp]:
  "visit_all_registered_hash (add_mapping i v s) = visit_all_registered_hash s"
  "heap (add_mapping i v s) = heap s" "tstate (add_mapping i v s) = tstate s"
  "is_parallel (add_mapping i v s) = is_parallel s" "queue_array (add_mapping i v s) = queue_array s"
  "seen (add_mapping i v s) = seen s" "user (add_mapping i v s) = user s"
  "map_held (add_mapping i v s) = map_held s" "freelater_hash (add_mapping i v s) = freelater_hash s"
  by (simp_all add: add_mapping_def)

lemma map_lock_frame [simp]:
  "heap (transform_map_wrlock a s) = heap s" "heap (transform_map_unlock a s) = heap s"
  "tstate (transform_map_wrlock a s) = tstate s" "tstate (transform_map_unlock a s) = tstate s"
  "pxform_mappings (transform_map_wrlock a s) = pxform_mappings s"
  "pxform_mappings (transform_map_unlock a s) = pxform_mappings s"
  "is_parallel (transform_map_wrlock a s) = is_parallel s"
  "is_parallel (transform_map_unlock a s) = is_parallel s"
  "queue_array (transform_map_wrlock a s) = queue_array s"
  "queue_array (transform_map_unlock a s) = queue_array s"
  "seen (transform_map_wrlock a s) = seen s" "seen (transform_map_unlock a s) = seen s"
  "user (transform_map_wrlock a s) = user s" "user (transform_map_unlock a s) = user s"
  by (simp_all add: transform_map_wrlock_def transform_map_unlock_def)

lemma find_mapping_lock [simp]:
  "find_mapping i (transform_map_wrlock a s) = find_mapping i s"
  "find_mapping i (transform_map_unlock a s) = find_mapping i s"
  by (simp_all add: find_mapping_def)

lemma find_mapping_frame [simp]:
  "find_mapping i (s\<lparr>heap := h\<rparr>) = find_mapping i s" "find_mapping i (s\<lparr>user := u\<rparr>) = find_mapping i s"
  "find_mapping i (s\<lparr>queue_array := qa\<rparr>) = find_mapping i s"
  "find_mapping i (s\<lparr>freed := f\<rparr>) = find_mapping i s"
  by (simp_all add: find_mapping_def)

subsection \<open>The symbol table as a bijection\<close>

definition symbols_ok :: "'u cstate \<Rightarrow> bool" where
  "symbols_ok s \<longleftrightarrow>
     (\<forall>k e. tbl_find k (name_to_addr_hash s) = Some e \<longrightarrow>
        entry_name e = k \<and> tbl_find (entry_addr e) (addr_to_name_hash s) = Some e)
     \<and> (\<forall>a e. tbl_find a (addr_to_name_hash s) = Some e \<longrightarrow>
        entry_addr e = a \<and> tbl_find (entry_name e) (name_to_addr_hash s) = Some e)"

lemma symbols_ok_lookup: "symbols_ok s \<Longrightarrow> lookup_addr b s = Some k \<Longrightarrow> lookup_key k s = b"
  by (auto simp: symbols_ok_def lookup_key_def cstrider_get_symbol_addr_new_def
      cstrider_get_symbol_addr_old_def lookup_addr_def split: option.splits)

lemma register_key_ok:
  assumes "symbols_ok s" "cstrider_register_key key a sz mig s = Inr s'"
  shows "symbols_ok s'"
proof (cases "tbl_find a (addr_to_name_hash s) = None \<and> tbl_find key (name_to_addr_hash s) = None")
  case True
  let ?e = "\<lparr>entry_name = key, entry_addr = a, entry_size = sz, auto_migrate = mig\<rparr>"
  have s': "s' = s\<lparr>name_to_addr_hash := tbl_add key ?e (name_to_addr_hash s),
      addr_to_name_hash := tbl_add a ?e (addr_to_name_hash s)\<rparr>"
    using assms(2) True by (simp add: cstrider_register_key_def Let_def)
  have "entry_addr e \<noteq> a" if "tbl_find k (name_to_addr_hash s) = Some e" for k e
    using assms(1) True that unfolding symbols_ok_def by force
  moreover have "entry_name e \<noteq> key" if "tbl_find b (addr_to_name_hash s) = Some e" for b e
    using assms(1) True that unfolding symbols_ok_def by force
  ultimately show ?thesis using assms(1) unfolding symbols_ok_def s' by auto
next
  case False
  with assms show ?thesis by (auto simp: cstrider_register_key_def Let_def split: if_splits)
qed

text \<open>The state before anything is registered.\<close>

definition start_state :: "'u \<Rightarrow> 'u cstate" where
  "start_state u = \<lparr>heap = (\<lambda>_. 0), tstate = \<lparr>type_hashtbl = [], held = (\<lambda>_. 0)\<rparr>, pxform_mappings = [],
     map_held = (\<lambda>_. 0), visit_all_hash = [], visit_all_registered_hash = [], name_to_addr_hash = [],
     addr_to_name_hash = [], freelater_hash = [], freed = [], blocks = [], is_parallel = False,
     launched_helpers = False, queue_array = replicate 4 zero_queue, visitcalls = 0, seen = [], user = u\<rparr>"

subsection \<open>Properties\<close>

text \<open>
  C27: The mapping table maps every pointer to the first target other than NULL given for it:
  after any sequence of \<open>add_mapping\<close> calls, \<open>find_mapping\<close> returns the old target if there
  was one, else the first such target in the sequence, else NULL; NULL itself is never
  mapped.
\<close>

theorem mapping_first_wins:
  "find_mapping j (foldl (\<lambda>s (i, v). add_mapping i v s) s ivs) =
     (if find_mapping j s = 0 \<and> j \<noteq> 0
      then (case List.find (\<lambda>(i, v). i = j \<and> v \<noteq> 0) ivs of Some (i, v) \<Rightarrow> v | None \<Rightarrow> 0)
      else find_mapping j s)"
  using mapping.add_all_first [of j s ivs] by auto

text \<open>
  As long as the two symbol tables are inverse to each other, a symbol registered with a
  new name and a new address can be looked up both ways, the tables stay inverse, every
  name found for an address leads back to that address, and registering the same pair
  again changes nothing.
\<close>

theorem symbol_round_trip:
  assumes "symbols_ok s" "lookup_addr a s = None" "tbl_find key (name_to_addr_hash s) = None"
  shows "\<exists>s'. kitsune_register_var key a sz mig s = Inr s' \<and> symbols_ok s'
    \<and> lookup_key key s' = a \<and> lookup_addr a s' = Some key
    \<and> (\<forall>b k. lookup_addr b s' = Some k \<longrightarrow> lookup_key k s' = b)
    \<and> kitsune_register_var key a sz' mig' s' = Inr s'"
proof -
  have new: "tbl_find a (addr_to_name_hash s) = None"
    using assms(2) by (simp add: lookup_addr_def split: option.splits)
  let ?e = "\<lparr>entry_name = key, entry_addr = a, entry_size = sz, auto_migrate = mig\<rparr>"
  let ?s = "s\<lparr>name_to_addr_hash := tbl_add key ?e (name_to_addr_hash s),
      addr_to_name_hash := tbl_add a ?e (addr_to_name_hash s)\<rparr>"
  have r: "cstrider_register_key key a sz mig s = Inr ?s"
    using new assms(3) by (simp add: cstrider_register_key_def Let_def)
  have ok: "symbols_ok ?s" using assms(1) r by (rule register_key_ok)
  have "lookup_key k ?s = b" if "lookup_addr b ?s = Some k" for b k
    using ok that by (rule symbols_ok_lookup)
  with r ok show ?thesis
    by (intro exI [of _ ?s]) (simp add: kitsune_register_var_def lookup_key_def lookup_addr_def
      cstrider_get_symbol_addr_new_def cstrider_get_symbol_addr_old_def cstrider_register_key_def)
qed

theorem symbol_round_trip_witness:
  "\<exists>s'. kitsune_register_var ''server'' 4096 8 1 (start_state ()) = Inr s'
     \<and> lookup_key ''server'' s' = 4096 \<and> lookup_addr 4096 s' = Some ''server''"
  using symbol_round_trip [of "start_state ()" 4096 "''server''" 8 1]
  by (force simp: symbols_ok_def start_state_def lookup_addr_def)

text \<open>
  C28: \<open>register_root\<close> looks up the pointer stored at the root instead of the root: a root
  registered twice is filed twice, so that one \<open>deregister_root\<close> leaves it registered, and
  a root that happens to hold the address of a registered root is not registered at all.
\<close>

theorem register_root_duplicates:
  assumes "tbl_find (load64 (heap s) inp) (visit_all_registered_hash s) = None" "load64 (heap s) inp \<noteq> inp"
  shows "tbl_find inp (visit_all_registered_hash
        (deregister_root inp (register_root inp t (register_root inp t s)))) = Some t
    \<and> (\<forall>p t'. load64 (heap s) p = inp \<longrightarrow>
        register_root p t' (register_root inp t s) = register_root inp t s)"
  using assms by (simp add: register_root_def deregister_root_def tbl_find_def tbl_add_def)

theorem register_root_duplicates_witness:
  "tbl_find 4096 (visit_all_registered_hash (deregister_root 4096
      (register_root 4096 7 (register_root 4096 7 (start_state ()))))) = Some 7"
proof -
  have "load64 (heap (start_state ())) 4096 = 0"
    by (simp add: start_state_def load64_def load_bytes_def of_bytes_def upt_rec)
  moreover have "visit_all_registered_hash (start_state ()) = []" by (simp add: start_state_def)
  ultimately show ?thesis using register_root_duplicates [of "start_state ()" 4096 7] by simp
qed

lemma perform_delayedfree_fold:
  "foldl (\<lambda>s e. s\<lparr>freelater_hash := tbl_del (fst e) (freelater_hash s), freed := freed s @ free_entry e\<rparr>) s es
   = s\<lparr>freelater_hash := foldl (\<lambda>t (k, _). tbl_del k t) (freelater_hash s) es,
       freed := freed s @ concat (map free_entry es)\<rparr>"
proof (induction es arbitrary: s)
  case Nil
  then show ?case by simp
next
  case (Cons e es)
  then show ?case by (cases e) simp
qed

lemma perform_delayedfree_eq:
  "transform_perform_delayedfree s =
     s\<lparr>freelater_hash := [], freed := freed s @ concat (map free_entry (rev (freelater_hash s)))\<rparr>"
  using tbl_del_iter [of "freelater_hash s"]
  by (simp add: transform_perform_delayedfree_def perform_delayedfree_fold tbl_iter_def)

lemma delayedfree_requests:
  "foldl (\<lambda>s (a, c). transform_delayedfree a c s) s rs = s\<lparr>freelater_hash := rev rs @ freelater_hash s\<rparr>"
  by (induction rs arbitrary: s) (auto simp: transform_delayedfree_def tbl_add_def)

text \<open>
  The delayed frees: when a thread performs them, exactly the memory and the closures
  requested since the last time are freed, in the order of the requests and each as often
  as it was requested; the placeholder of the thread frees nothing, and nothing is left to be freed.
\<close>

theorem delayedfree_exact:
  "let s' = transform_perform_delayedfree
        (foldl (\<lambda>s (a, c). transform_delayedfree a c s) (init_thread_local (s\<lparr>freelater_hash := []\<rparr>)) rs)
   in freed s' = freed s @ concat (map (\<lambda>(a, c). if c \<noteq> 0 then [c, a] else if a \<noteq> 0 then [a] else []) rs)
    \<and> freelater_hash s' = []
    \<and> freed (transform_perform_delayedfree s') = freed s'"
  unfolding delayedfree_requests
  by (simp add: perform_delayedfree_eq init_thread_local_def tbl_add_def free_entry_def Let_def)

end
