(* ===== verification/Transform.thy ===== *)
theory Transform
  imports Runtime
begin

text \<open>
  The traversal of src/src/transform.c: \<open>visit\<close>, the arrays, the tasks, the loop of a
  sequential traversal and its start and end (\<open>init\<close>, \<open>visit_all\<close>, \<open>finish\<close> of
  src/src/cstrider_api.c). The callbacks of the service and the generated code may call
  \<open>visit\<close> again; they receive it as their first argument. \<open>visit\<close> and the loop of
  \<open>processqueue\<close> carry a bound on the nesting and on the rounds.
\<close>

subsection \<open>Parameters\<close>

type_synonym 'u visitor = "addr \<Rightarrow> ctyp \<Rightarrow> addr \<Rightarrow> 'u cstate \<Rightarrow> 'u cstate result"

text \<open>
  \<open>struct traversal\<close>: the callbacks of a service. \<open>perfaction_ptr_mapped\<close> gets the address of
  a local variable as its last argument; here it gets the value and returns the new one.
\<close>

record 'u traversal =
  perfaction_prim :: "'u visitor \<Rightarrow> addr \<Rightarrow> ctyp \<Rightarrow> addr \<Rightarrow> 'u cstate \<Rightarrow> 'u cstate result"
  perfaction_struct :: "'u visitor \<Rightarrow> addr \<Rightarrow> ctyp \<Rightarrow> addr \<Rightarrow> 'u cstate \<Rightarrow> (bool \<times> 'u cstate) result"
  perfaction_ptr :: "'u visitor \<Rightarrow> addr \<Rightarrow> ctyp \<Rightarrow> addr \<Rightarrow> 'u cstate \<Rightarrow> (bool \<times> 'u cstate) result"
  perfaction_ptr_mapped :: "'u visitor \<Rightarrow> addr \<Rightarrow> ctyp \<Rightarrow> addr \<Rightarrow> 'u cstate \<Rightarrow> (addr \<times> 'u cstate) result"

text \<open>
  What a traversal depends on and does not change: the callbacks and the generated code,
  that is the type arrays, \<open>cstrider_is_prim\<close>, the transformers of structures, the root
  functions of \<open>visitalls\<close> and \<open>cstrider_register_init\<close>; and the padding bytes \<open>mktyparr\<close> hashes.
\<close>

record 'u env =
  perf_funs :: "'u traversal"
  gen_arrays :: type_arrays
  cstrider_is_prim :: "ctyp \<Rightarrow> bool"
  gen_transformer :: "nat \<Rightarrow> 'u visitor \<Rightarrow> addr \<Rightarrow> addr \<Rightarrow> ctyp \<Rightarrow> 'u cstate \<Rightarrow> 'u cstate result"
  visitalls :: "nat list"
  root_function :: "nat \<Rightarrow> 'u visitor \<Rightarrow> 'u cstate \<Rightarrow> 'u cstate result"
  cstrider_register_init :: "'u cstate \<Rightarrow> 'u cstate result"
  padding :: "byte list"

definition SPLIT :: nat where
  "SPLIT = 4"

definition NUM_QUEUES :: nat where
  "NUM_QUEUES = 4"

subsection \<open>Tasks\<close>

definition transform_make_enq :: "addr \<Rightarrow> ctyp \<Rightarrow> addr \<Rightarrow> bool \<Rightarrow> task option" where
  "transform_make_enq from t to split =
     (if from = 0 then None
      else Some \<lparr>task_in = from, task_type = t, task_out = to, issplit = split\<rparr>)"

text \<open>No other thread holds a mutex, so one round of the trylock loop is enough.\<close>

definition addtoqueue :: "task option \<Rightarrow> 'u cstate \<Rightarrow> 'u cstate result" where
  "addtoqueue t s =
     (case t of
        None \<Rightarrow> Inr s
      | Some t \<Rightarrow>
          let n = (if is_parallel s then NUM_QUEUES else 1)
          in rbind (enqueue 1 (queue_array s) n (Some t)) (\<lambda>qa. Inr (s\<lparr>queue_array := qa\<rparr>)))"

subsection \<open>Arrays\<close>

text \<open>The loop of \<open>transform_array\<close> with the number of rounds that are left.\<close>

fun array_loop :: "'u visitor \<Rightarrow> nat \<Rightarrow> 64 word \<Rightarrow> 64 word \<Rightarrow> ctyp \<Rightarrow> addr \<Rightarrow> addr \<Rightarrow> 'u cstate \<Rightarrow> 'u cstate result" where
  "array_loop vis 0 sz_in sz_out basetype in_ptr out_ptr s = Inr s"
| "array_loop vis (Suc n) sz_in sz_out basetype in_ptr out_ptr s =
     rbind (vis in_ptr basetype out_ptr s)
       (array_loop vis n sz_in sz_out basetype (in_ptr + sz_in) (out_ptr + sz_out))"

definition transform_array :: "'u visitor \<Rightarrow> addr \<Rightarrow> ctyp \<Rightarrow> addr \<Rightarrow> 'u cstate \<Rightarrow> 'u cstate result" where
  "transform_array vis inp t out s =
     rbind (cstrider_get_num_array_elems (type_table_of s) t) (\<lambda>count.
     rbind (cstrider_get_size (type_table_of s) t) (\<lambda>sz_in.
     rbind (cstrider_get_out_size (type_table_of s) t) (\<lambda>sz_out.
     rbind (cstrider_get_array_base_type (type_table_of s) t) (\<lambda>basetype.
       array_loop vis (unat (scast count :: 64 word)) (scast sz_in) (scast sz_out) basetype inp out s))))"

text \<open>
  \<open>transform_split_array\<close>: in a parallel traversal, all parts of the array but the last are
  enqueued as tasks, and the last part, with the elements that are left over, is visited at
  once.
\<close>

fun split_loop ::
    "nat \<Rightarrow> nat \<Rightarrow> 64 word \<Rightarrow> 64 word \<Rightarrow> 64 word \<Rightarrow> ctyp \<Rightarrow> addr \<Rightarrow> addr \<Rightarrow> 'u cstate \<Rightarrow> 'u cstate result" where
  "split_loop 0 i sz_in sz_out share splittype inp out s = Inr s"
| "split_loop (Suc n) i sz_in sz_out share splittype inp out s =
     rbind (addtoqueue (transform_make_enq (inp + sz_in * of_nat i * share) splittype
              (out + sz_out * of_nat i * share) True) s)
       (split_loop n (Suc i) sz_in sz_out share splittype inp out)"

definition transform_split_array ::
    "byte list \<Rightarrow> 'u visitor \<Rightarrow> addr \<Rightarrow> ctyp \<Rightarrow> addr \<Rightarrow> 'u cstate \<Rightarrow> 'u cstate result" where
  "transform_split_array pad vis inp t out s =
     (if \<not> is_parallel s then transform_array vis inp t out s
      else
        rbind (cstrider_get_num_array_elems (type_table_of s) t) (\<lambda>elems.
        let count = scast elems :: 64 word
        in if count < of_nat SPLIT then transform_array vis inp t out s
           else
             rbind (cstrider_get_size (type_table_of s) t) (\<lambda>sz_in.
             rbind (cstrider_get_out_size (type_table_of s) t) (\<lambda>sz_out.
             rbind (cstrider_get_array_base_type (type_table_of s) t) (\<lambda>basetype.
             let share = ucast (count div of_nat SPLIT) :: i32
             in rbind (mktyparr share pad basetype (tstate s)) (\<lambda>(splittype, ts).
                rbind (split_loop (SPLIT - 1) 0 (scast sz_in) (scast sz_out) (scast share) splittype inp out
                         (s\<lparr>tstate := ts\<rparr>)) (\<lambda>s.
                let remainder = ucast count - of_nat (SPLIT - 1) * share
                in rbind (mktyparr remainder pad basetype (tstate s)) (\<lambda>(resttype, ts).
                   transform_array vis
                     (inp + scast sz_in * of_nat (SPLIT - 1) * scast share) resttype
                     (out + scast sz_out * of_nat (SPLIT - 1) * scast share)
                     (s\<lparr>tstate := ts\<rparr>)))))))))"

subsection \<open>visit\<close>

definition visit_ptr_step ::
    "'u env \<Rightarrow> 'u visitor \<Rightarrow> type_hash_entry \<Rightarrow> addr \<Rightarrow> ctyp \<Rightarrow> addr \<Rightarrow> 'u cstate \<Rightarrow> 'u cstate result" where
  "visit_ptr_step E vis t inp type out s =
     (if inp = 0 then Inr s
      else
        let in_elem = load64 (heap s) inp;
            s = transform_map_wrlock in_elem s;
            lookup = find_mapping in_elem s
        in if lookup \<noteq> 0
           then rbind (perfaction_ptr_mapped (perf_funs E) vis inp type lookup s) (\<lambda>(lookup, s).
                  if out = 0 then Inl Null_deref
                  else Inr (transform_map_unlock in_elem (s\<lparr>heap := store64 (heap s) out lookup\<rparr>)))
           else rbind (perfaction_ptr (perf_funs E) vis inp type out s) (\<lambda>(retc, s).
                  if out = 0 then Inl Null_deref
                  else
                    let s = add_mapping (load64 (heap s) inp) (load64 (heap s) out) s;
                        s = transform_map_unlock in_elem s
                    in if \<not> retc \<or> memoized_is_funptr t then Inr s
                       else vis (load64 (heap s) inp) (memoized_get_ptrtype t) (load64 (heap s) out) s))"

text \<open>\<open>t\<close> is NULL when the type is unknown, and the first test on it crashes.\<close>

definition visit_step :: "'u env \<Rightarrow> 'u visitor \<Rightarrow> 'u visitor" where
  "visit_step E vis inp type out s =
     (if type = - 1 then Inr s
      else
        let s = s\<lparr>visitcalls := visitcalls s + 1, seen := seen s @ [(inp, type)]\<rparr>
        in if cstrider_is_prim E type then perfaction_prim (perf_funs E) vis inp type out s
           else case get_typeinfo_from_table (type_table_of s) type of
             None \<Rightarrow> Inl Null_deref
           | Some t \<Rightarrow>
               if memoized_is_ptr t then visit_ptr_step E vis t inp type out s
               else if memoized_is_array t then transform_split_array (padding E) vis inp type out s
               else rbind (perfaction_struct (perf_funs E) vis inp type out s) (\<lambda>(r, s).
                      if r then addtoqueue (transform_make_enq inp type out False) s else Inr s))"

fun visit :: "nat \<Rightarrow> 'u env \<Rightarrow> 'u visitor" where
  "visit 0 E = (\<lambda>inp type out s. Inl Out_of_fuel)"
| "visit (Suc fuel) E = visit_step E (visit fuel E)"

text \<open>\<open>transform_prim\<close> and \<open>transform_fptr\<close>, the transformers of types without generated code.\<close>

definition transform_prim :: "'u visitor \<Rightarrow> addr \<Rightarrow> addr \<Rightarrow> ctyp \<Rightarrow> 'u cstate \<Rightarrow> 'u cstate result" where
  "transform_prim vis inp out t s = vis inp t out s"

definition transform_fptr :: "'u visitor \<Rightarrow> addr \<Rightarrow> addr \<Rightarrow> ctyp \<Rightarrow> 'u cstate \<Rightarrow> 'u cstate result" where
  "transform_fptr vis inp out t s = vis inp t out s"

definition call_fptr ::
    "'u env \<Rightarrow> fptr \<Rightarrow> 'u visitor \<Rightarrow> addr \<Rightarrow> addr \<Rightarrow> ctyp \<Rightarrow> 'u cstate \<Rightarrow> 'u cstate result" where
  "call_fptr E f =
     (case f of Transform_prim \<Rightarrow> transform_prim | Transform_fptr \<Rightarrow> transform_fptr
      | Generated k \<Rightarrow> gen_transformer E k)"

definition callxformer :: "'u env \<Rightarrow> 'u visitor \<Rightarrow> task \<Rightarrow> 'u cstate \<Rightarrow> 'u cstate result" where
  "callxformer E vis t s =
     rbind (cstrider_get_tvers_funptr (type_table_of s) (task_type t)) (\<lambda>f.
       if issplit t then transform_array vis (task_in t) (task_type t) (task_out t) s
       else call_fptr E f vis (task_in t) (task_out t) (task_type t) s)"

subsection \<open>The sequential traversal\<close>

text \<open>
  The loop of \<open>processqueue\<close> when the traversal is not parallel; a null task ends it like an
  empty queue.
\<close>

fun process_loop :: "nat \<Rightarrow> 'u env \<Rightarrow> 'u visitor \<Rightarrow> 'u cstate \<Rightarrow> 'u cstate result" where
  "process_loop 0 E vis s = Inl Out_of_fuel"
| "process_loop (Suc rounds) E vis s =
     rbind (dequeue 1 (queue_array s) 1 0) (\<lambda>(dqed, qa).
       case dqed of
         None \<Rightarrow> Inr (s\<lparr>queue_array := qa\<rparr>)
       | Some t \<Rightarrow>
           rbind (callxformer E vis t (s\<lparr>queue_array := qa\<rparr>)) (\<lambda>s.
             process_loop rounds E vis
               (s\<lparr>queue_array := (queue_array s)[0 := deq_task_finished (queue_array s ! 0)]\<rparr>)))"

definition processqueue_seq :: "nat \<Rightarrow> 'u env \<Rightarrow> 'u visitor \<Rightarrow> 'u cstate \<Rightarrow> 'u cstate result" where
  "processqueue_seq rounds E vis s =
     (let s = init_thread_local s;
          s = s\<lparr>queue_array := (queue_array s)[0 := start_dequeue (queue_array s ! 0)]\<rparr>
      in rbind (process_loop rounds E vis s) (\<lambda>s.
           Inr (transform_perform_delayedfree s)))"

definition transform_init :: "'u env \<Rightarrow> bool \<Rightarrow> 'u cstate \<Rightarrow> 'u cstate" where
  "transform_init E p s =
     (let s = s\<lparr>is_parallel := p\<rparr>;
          s = s\<lparr>tstate := (tstate s)\<lparr>type_hashtbl := cstrider_type_init (gen_arrays E) (type_table_of s)\<rparr>\<rparr>;
          s = populate_visit_all (visitalls E) s
      in if is_parallel s then init_parallel_tbls s else s)"

definition transform_free :: "'u cstate \<Rightarrow> 'u cstate" where
  "transform_free s =
     (let s = (if \<not> is_parallel s then transform_perform_delayedfree s else s);
          s = s\<lparr>tstate := (tstate s)\<lparr>type_hashtbl := cstrider_type_free (type_table_of s)\<rparr>\<rparr>;
          s = cstrider_visit_free s
      in (clear_pxform_mappings_head s)\<lparr>visitcalls := 0\<rparr>)"

text \<open>\<open>launch_helpers\<close> without the creation of the threads, which theory \<open>Scheduler\<close> has.\<close>

definition launch_helpers :: "'u cstate \<Rightarrow> 'u cstate" where
  "launch_helpers s =
     (if launched_helpers s then s
      else
        let s = s\<lparr>launched_helpers := True\<rparr>
        in if is_parallel s then s\<lparr>queue_array := map init_queue (queue_array s)\<rparr>
           else s\<lparr>queue_array := (queue_array s)[0 := init_queue (queue_array s ! 0)]\<rparr>)"

definition helpers_wait_seq :: "nat \<Rightarrow> 'u env \<Rightarrow> 'u visitor \<Rightarrow> 'u cstate \<Rightarrow> 'u cstate result" where
  "helpers_wait_seq rounds E vis s =
     rbind (processqueue_seq rounds E vis s) (\<lambda>s. Inr (s\<lparr>launched_helpers := False\<rparr>))"

definition init :: "'u env \<Rightarrow> bool \<Rightarrow> 'u cstate \<Rightarrow> 'u cstate result" where
  "init E parallel s =
     rbind (cstrider_register_init E s) (\<lambda>s. Inr (launch_helpers (transform_init E parallel s)))"

definition finish_seq :: "nat \<Rightarrow> 'u env \<Rightarrow> 'u visitor \<Rightarrow> 'u cstate \<Rightarrow> 'u cstate result" where
  "finish_seq rounds E vis s = rbind (helpers_wait_seq rounds E vis s) (\<lambda>s. Inr (transform_free s))"

fun visit_roots :: "'u env \<Rightarrow> 'u visitor \<Rightarrow> nat list \<Rightarrow> 'u cstate \<Rightarrow> 'u cstate result" where
  "visit_roots E vis [] s = Inr s"
| "visit_roots E vis (f # fs) s = rbind (root_function E f vis s) (visit_roots E vis fs)"

fun visit_registered :: "'u visitor \<Rightarrow> (addr \<times> ctyp) list \<Rightarrow> 'u cstate \<Rightarrow> 'u cstate result" where
  "visit_registered vis [] s = Inr s"
| "visit_registered vis ((key, t) # rs) s = rbind (vis key t key s) (visit_registered vis rs)"

definition visit_all :: "'u env \<Rightarrow> 'u visitor \<Rightarrow> 'u cstate \<Rightarrow> 'u cstate result" where
  "visit_all E vis s =
     rbind (visit_roots E vis (map fst (tbl_iter (visit_all_hash s))) s)
       (\<lambda>s. visit_registered vis (tbl_iter (visit_all_registered_hash s)) s)"

text \<open>One whole sequential traversal: \<open>init(funs, 0); visit_all(); finish();\<close>.\<close>

definition traverse :: "nat \<Rightarrow> nat \<Rightarrow> 'u env \<Rightarrow> 'u cstate \<Rightarrow> 'u cstate result" where
  "traverse fuel rounds E s =
     rbind (init E False s) (\<lambda>s.
     rbind (visit_all E (visit fuel E) s) (finish_seq rounds E (visit fuel E)))"

end
