(* ===== verification/Coverage.thy ===== *)
theory Coverage
  imports Transform
begin

text \<open>
  What a sequential traversal by an observing service does: it ends, changes nothing but the
  state of the service, and visits every location that is reachable from the roots.
\<close>

subsection \<open>The contract of an observing service\<close>

text \<open>
  The callbacks change the state of the service only, always go on into structures, and
  follow every pointer other than NULL.
\<close>

locale observing_service =
  fixes F :: "'u traversal"
  assumes obs_prim: "\<exists>u. perfaction_prim F vis inp t out s = Inr (s\<lparr>user := u\<rparr>)"
    and obs_struct: "\<exists>u. perfaction_struct F vis inp t out s = Inr (True, s\<lparr>user := u\<rparr>)"
    and obs_ptr: "\<exists>u r. perfaction_ptr F vis inp t out s = Inr (r, s\<lparr>user := u\<rparr>)
      \<and> (load64 (heap s) inp \<noteq> 0 \<longrightarrow> r)"
    and obs_mapped: "\<exists>u. perfaction_ptr_mapped F vis inp t lookup s = Inr (lookup, s\<lparr>user := u\<rparr>)"

subsection \<open>Locations\<close>

text \<open>
  The generated transformer of a structure visits its fields in order: \<open>lay k\<close> lists
  their offsets and types.
\<close>

type_synonym layout = "nat \<Rightarrow> (addr \<times> ctyp) list"

type_synonym location = "addr \<times> ctyp"

fun visit_fields :: "'u visitor \<Rightarrow> (addr \<times> ctyp) list \<Rightarrow> addr \<Rightarrow> addr \<Rightarrow> 'u cstate \<Rightarrow> 'u cstate result" where
  "visit_fields vis [] inp out s = Inr s"
| "visit_fields vis ((off, ft) # fs) inp out s =
     rbind (vis (inp + off) ft (out + off) s) (visit_fields vis fs inp out)"

definition elements :: "type_hash_entry \<Rightarrow> addr \<Rightarrow> location list" where
  "elements te a = map (\<lambda>i. (a + of_nat i * scast (size_of_entry te), arrbase te))
     [0..<unat (scast (arrlen te) :: 64 word)]"

definition struct_fields :: "layout \<Rightarrow> type_hash_entry \<Rightarrow> (addr \<times> ctyp) list" where
  "struct_fields lay te = (case corresp_func_ptr te of Generated k \<Rightarrow> lay k | _ \<Rightarrow> [])"

text \<open>The locations one step away: the target of a pointer, the elements of an array, the fields of a structure.\<close>

definition succs :: "(ctyp \<Rightarrow> bool) \<Rightarrow> layout \<Rightarrow> type_table \<Rightarrow> heap \<Rightarrow> location \<Rightarrow> location list" where
  "succs isprim lay tt h = (\<lambda>(a, t).
     if isprim t then []
     else case get_typeinfo_from_table tt t of
       None \<Rightarrow> []
     | Some te \<Rightarrow>
         filter (\<lambda>l. snd l \<noteq> - 1)
           (if memoized_is_ptr te
            then (if load64 h a = 0 \<or> memoized_is_funptr te then [] else [(load64 h a, target_type te)])
            else if memoized_is_array te then elements te a
            else map (\<lambda>(off, ft). (a + off, ft)) (struct_fields lay te)))"

lemma succs_type: "l' \<in> set (succs isprim lay tt h l) \<Longrightarrow> snd l' \<noteq> - 1"
proof (cases l)
  case (Pair a t)
  assume "l' \<in> set (succs isprim lay tt h l)"
  then show ?thesis
    unfolding succs_def Pair prod.case
    by (cases "isprim t"; cases "get_typeinfo_from_table tt t") (simp_all only: if_True if_False option.case set_filter mem_Collect_eq list.set empty_iff not_False_eq_True)
qed

inductive reach :: "(location \<Rightarrow> location list) \<Rightarrow> location list \<Rightarrow> location \<Rightarrow> bool"
  for nx :: "location \<Rightarrow> location list" and roots :: "location list" where
  reach_root: "l \<in> set roots \<Longrightarrow> snd l \<noteq> - 1 \<Longrightarrow> reach nx roots l"
| reach_next: "reach nx roots l \<Longrightarrow> l' \<in> set (nx l) \<Longrightarrow> reach nx roots l'"

text \<open>
  A location the traversal can handle. \<open>objs\<close> lists the objects that pointers point to, with
  their types; \<open>w\<close> gives every type a weight that bounds the work for it.
\<close>

definition fits_ptr :: "(ctyp \<Rightarrow> bool) \<Rightarrow> type_table \<Rightarrow> heap \<Rightarrow> (addr \<times> ctyp) list \<Rightarrow> type_hash_entry \<Rightarrow> addr \<Rightarrow> bool" where
  "fits_ptr isprim tt h objs te a =
     (let v = load64 h a
      in if memoized_is_funptr te then v = 0 \<or> map_of objs v = None
         else if v = 0
              then isprim (target_type te)
                 \<or> (case get_typeinfo_from_table tt (target_type te) of
                      None \<Rightarrow> False
                    | Some te' \<Rightarrow> memoized_is_ptr te' \<or> \<not> memoized_is_array te')
              else map_of objs v = Some (target_type te))"

definition fits :: "(ctyp \<Rightarrow> bool) \<Rightarrow> layout \<Rightarrow> type_table \<Rightarrow> heap \<Rightarrow> (addr \<times> ctyp) list
    \<Rightarrow> (ctyp \<Rightarrow> nat) \<Rightarrow> location \<Rightarrow> bool" where
  "fits isprim lay tt h objs w = (\<lambda>(a, t).
     a \<noteq> 0 \<and> 1 \<le> w t \<and>
     (isprim t \<or>
      (case get_typeinfo_from_table tt t of
         None \<Rightarrow> False
       | Some te \<Rightarrow>
           if memoized_is_ptr te then 2 \<le> w t \<and> fits_ptr isprim tt h objs te a
           else if memoized_is_array te
                then cstrider_get_out_size tt t = Inr (size_of_entry te)
                   \<and> 1 + unat (scast (arrlen te) :: 64 word) * w (arrbase te) \<le> w t
                else 2 + sum_list (map (w \<circ> snd) (struct_fields lay te)) \<le> w t
                   \<and> (case corresp_func_ptr te of Generated k \<Rightarrow> True | _ \<Rightarrow> False))))"

lemma length_le_sum_list: "list_all (\<lambda>x. 1 \<le> f x) xs \<Longrightarrow> length xs \<le> sum_list (map f xs)"
  by (induction xs) (simp_all add: add_mono [of 1, simplified])

lemma sum_list_filter_mono:
  fixes f :: "'a \<Rightarrow> nat"
  assumes "\<And>x. x \<in> set xs \<Longrightarrow> P x \<Longrightarrow> Q x"
  shows "sum_list (map f (filter P xs)) \<le> sum_list (map f (filter Q xs))"
  using assms by (induction xs) (auto intro: trans_le_add2)

lemma sum_list_filter_remove:
  fixes f :: "'a \<times> 'b \<Rightarrow> nat"
  assumes "distinct (map fst xs)" "(k, v) \<in> set xs" "P k"
  shows "sum_list (map f (filter (\<lambda>l. P (fst l) \<and> fst l \<noteq> k) xs)) + f (k, v)
       = sum_list (map f (filter (\<lambda>l. P (fst l)) xs))"
  using assms
proof (induction xs)
  case Nil
  then show ?case by simp
next
  case (Cons x xs)
  show ?case
  proof (cases "x = (k, v)")
    case True
    then have "filter (\<lambda>l. P (fst l) \<and> fst l \<noteq> k) xs = filter (\<lambda>l. P (fst l)) xs"
      using Cons.prems(1) by (intro filter_cong) force+
    then show ?thesis using True Cons.prems by simp
  next
    case False
    then have "(k, v) \<in> set xs" using Cons.prems(2) by auto
    then have "fst x \<noteq> k" using Cons.prems(1) by (auto simp: image_iff)
    then show ?thesis using Cons False by auto
  qed
qed

text \<open>The state between two traversals, and the weight of all there is to visit.\<close>

definition ready :: "'u cstate \<Rightarrow> bool" where
  "ready s \<longleftrightarrow> pxform_mappings s = [] \<and> visit_all_hash s = [] \<and> type_table_of s = []
     \<and> \<not> launched_helpers s \<and> queue_array s \<noteq> []"

definition all_roots :: "'u env \<Rightarrow> (nat \<Rightarrow> location list) \<Rightarrow> 'u cstate \<Rightarrow> location list" where
  "all_roots E groots s = concat (map groots (visitalls E)) @ tbl_iter (visit_all_registered_hash s)"

definition total_weight :: "(ctyp \<Rightarrow> nat) \<Rightarrow> location list \<Rightarrow> nat" where
  "total_weight w ls = sum_list (map (w \<circ> snd) ls)"

lemma populate_roots: "foldl (\<lambda>t f. tbl_add f () t) [] fs = rev (map (\<lambda>f. (f, ())) fs)"
proof -
  have "foldl (\<lambda>t f. tbl_add f () t) t fs = rev (map (\<lambda>f. (f, ())) fs) @ t" for t
    by (induction fs arbitrary: t) (simp_all add: tbl_add_def)
  then show ?thesis by simp
qed

subsection \<open>The traversal of a typed heap\<close>

locale typed_traversal = observing_service "perf_funs E"
  for E :: "'u env" +
  fixes tt :: type_table and h :: heap and lay :: layout and objs :: "(addr \<times> ctyp) list"
    and w :: "ctyp \<Rightarrow> nat" and roots :: "location list" and reg :: "(addr, ctyp) table"
  assumes gen: "gen_transformer E k vis inp out t s = visit_fields vis (lay k) inp out s"
    and objs_distinct: "distinct (map fst objs)"
    and w_pos: "1 \<le> w t"
    and fit: "reach (succs (cstrider_is_prim E) lay tt h) roots l \<Longrightarrow>
      fits (cstrider_is_prim E) lay tt h objs w l"
begin

abbreviation nxt :: "location \<Rightarrow> location list" where
  "nxt \<equiv> succs (cstrider_is_prim E) lay tt h"

abbreviation R :: "location \<Rightarrow> bool" where
  "R \<equiv> reach nxt roots"

definition tasks :: "'u cstate \<Rightarrow> task option list" where
  "tasks s = qlist (queue_array s ! 0)"

definition task_ok :: "task option \<Rightarrow> bool" where
  "task_ok x = (\<exists>t te. x = Some t \<and> \<not> issplit t \<and> task_out t = task_in t
     \<and> R (task_in t, task_type t) \<and> \<not> cstrider_is_prim E (task_type t)
     \<and> get_typeinfo_from_table tt (task_type t) = Some te
     \<and> \<not> memoized_is_ptr te \<and> \<not> memoized_is_array te)"

definition stable :: "'u cstate \<Rightarrow> bool" where
  "stable s \<longleftrightarrow> heap s = h \<and> type_table_of s = tt \<and> \<not> is_parallel s \<and> visit_all_registered_hash s = reg
     \<and> (\<forall>v. find_mapping v s = 0 \<or> find_mapping v s = v)
     \<and> 0 < length (queue_array s) \<and> ring_inv (queue_array s ! 0) \<and> queue_mutex (queue_array s ! 0) = None
     \<and> list_all task_ok (tasks s)"

definition task_weight :: "task option \<Rightarrow> nat" where
  "task_weight x = (case x of None \<Rightarrow> 0 | Some t \<Rightarrow> w (task_type t) - 1)"

definition unmapped :: "'u cstate \<Rightarrow> nat" where
  "unmapped s = sum_list (map (w \<circ> snd) (filter (\<lambda>l. find_mapping (fst l) s = 0) objs))"

definition potential :: "'u cstate \<Rightarrow> nat" where
  "potential s = unmapped s + sum_list (map task_weight (tasks s))"

definition covered :: "'u cstate \<Rightarrow> location \<Rightarrow> bool" where
  "covered s l \<longleftrightarrow> l \<in> set (seen s) \<or> (find_mapping (fst l) s \<noteq> 0 \<and> l \<in> set objs)"

definition promised :: "'u cstate \<Rightarrow> location set" where
  "promised s = {l \<in> set objs. find_mapping (fst l) s \<noteq> 0 \<and> l \<notin> set (seen s)}"

definition waiting :: "'u cstate \<Rightarrow> location set" where
  "waiting s = {(task_in t, task_type t) |t. Some t \<in> set (tasks s)}"

definition loose :: "'u cstate \<Rightarrow> location set" where
  "loose s = {l \<in> set (seen s). R l \<and> l \<notin> waiting s \<and> \<not> (\<forall>l' \<in> set (nxt l). covered s l')}"

text \<open>
  What a part of the traversal does to the state: everything seen or mapped stays so, no
  new promise is left open, and no location is left with an unvisited successor.
\<close>

definition grows :: "'u cstate \<Rightarrow> 'u cstate \<Rightarrow> bool" where
  "grows s s' \<longleftrightarrow> stable s' \<and> (\<exists>ls. seen s' = seen s @ ls)
     \<and> (\<forall>v. find_mapping v s \<noteq> 0 \<longrightarrow> find_mapping v s' \<noteq> 0)
     \<and> promised s' \<subseteq> promised s \<and> loose s' \<subseteq> loose s \<and> unmapped s' \<le> unmapped s
     \<and> set (tasks s) \<subseteq> set (tasks s')"

lemma grows_trans: "grows s s' \<Longrightarrow> grows s' s'' \<Longrightarrow> grows s s''"
  unfolding grows_def by (elim conjE exE) (intro conjI, auto)

lemma grows_seen: "grows s s' \<Longrightarrow> set (seen s) \<subseteq> set (seen s')" "grows s s' \<Longrightarrow> length (seen s) \<le> length (seen s')"
  by (auto simp: grows_def)

lemma grows_refl: "stable s \<Longrightarrow> grows s s"
  by (simp add: grows_def)

lemma reach_not_minus_1: "R l \<Longrightarrow> snd l \<noteq> - 1"
  by (induction rule: reach.induct) (auto dest: succs_type)

lemma unmapped_mono:
  assumes "\<And>v. find_mapping v s \<noteq> 0 \<Longrightarrow> find_mapping v s' \<noteq> 0"
  shows "unmapped s' \<le> unmapped s"
  unfolding unmapped_def using assms by (intro sum_list_filter_mono) blast

text \<open>A step that only records the visit of a location.\<close>

definition record_visit :: "location \<Rightarrow> 'u cstate \<Rightarrow> 'u cstate" where
  "record_visit l s = s\<lparr>visitcalls := visitcalls s + 1, seen := seen s @ [l]\<rparr>"

lemma record_simps [simp]:
  "visit_all_registered_hash (record_visit l s) = visit_all_registered_hash s"
  "heap (record_visit l s) = heap s" "tstate (record_visit l s) = tstate s"
  "is_parallel (record_visit l s) = is_parallel s" "queue_array (record_visit l s) = queue_array s"
  "find_mapping v (record_visit l s) = find_mapping v s" "seen (record_visit l s) = seen s @ [l]"
  "tasks (record_visit l s) = tasks s" "unmapped (record_visit l s) = unmapped s"
  "potential (record_visit l s) = potential s" "waiting (record_visit l s) = waiting s"
  by (simp_all add: record_visit_def find_mapping_def tasks_def unmapped_def potential_def waiting_def)

lemma user_simps [simp]:
  "find_mapping v (s\<lparr>user := u\<rparr>) = find_mapping v s"
  "tasks (s\<lparr>user := u\<rparr>) = tasks s" "unmapped (s\<lparr>user := u\<rparr>) = unmapped s"
  "potential (s\<lparr>user := u\<rparr>) = potential s" "waiting (s\<lparr>user := u\<rparr>) = waiting s"
  "stable (s\<lparr>user := u\<rparr>) = stable s" "promised (s\<lparr>user := u\<rparr>) = promised s"
  "loose (s\<lparr>user := u\<rparr>) = loose s" "covered (s\<lparr>user := u\<rparr>) l = covered s l"
  by (simp_all add: find_mapping_def tasks_def unmapped_def potential_def waiting_def stable_def
      promised_def loose_def covered_def)

lemma stable_record [simp]: "stable (record_visit l s) = stable s"
  by (simp add: stable_def)

lemma covered_mono:
  assumes "set (seen s) \<subseteq> set (seen s')" "\<And>v. find_mapping v s \<noteq> 0 \<Longrightarrow> find_mapping v s' \<noteq> 0"
  shows "covered s l \<Longrightarrow> covered s' l"
  using assms by (auto simp: covered_def)

lemma grows_covered: "grows s s' \<Longrightarrow> covered s l \<Longrightarrow> covered s' l"
  using covered_mono [of s s'] grows_seen(1) [of s s'] by (auto simp: grows_def)

text \<open>
  The frame of a visit: between the recording of \<open>l\<close> and the end, the state may have grown,
  with the successors of \<open>l\<close> covered or \<open>l\<close> waiting in the queue at the end.
\<close>

lemma grows_record:
  assumes g: "grows (record_visit l s) s'" and l: "l \<in> waiting s' \<or> (\<forall>l' \<in> set (nxt l). covered s' l')"
  shows "grows s s'"
proof -
  have "loose s' \<subseteq> loose s"
  proof
    fix x assume x: "x \<in> loose s'"
    then have "x \<in> loose (record_visit l s)" using g by (auto simp: grows_def)
    moreover have "x \<noteq> l" using x l by (auto simp: loose_def)
    moreover have "\<not> covered s y" if "\<not> covered (record_visit l s) y" for y
      using that by (auto simp: covered_def)
    ultimately show "x \<in> loose s" by (auto simp: loose_def)
  qed
  then show ?thesis using g by (auto simp: grows_def promised_def)
qed

lemma grows_user: "grows s s' \<Longrightarrow> grows s (s'\<lparr>user := u\<rparr>)" "grows (s\<lparr>user := u\<rparr>) s' = grows s s'"
  by (simp_all add: grows_def)

subsection \<open>Effects of the single steps\<close>

lemma fitD: "R (a, t) \<Longrightarrow> fits (cstrider_is_prim E) lay tt h objs w (a, t)"
  by (rule fit)

lemma R_nonzero: "R (a, t) \<Longrightarrow> a \<noteq> 0"
  using fitD [of a t] by (simp add: fits_def)

lemma grows_null: "stable s \<Longrightarrow> grows s (record_visit (0, t) s)"
proof -
  assume "stable s"
  have "\<not> R (0, t)" using R_nonzero by blast
  then have "loose (record_visit (0, t) s) \<subseteq> loose s"
    by (auto simp: loose_def covered_def)
  then show ?thesis using \<open>stable s\<close> by (auto simp: grows_def promised_def)
qed

lemma stable_add: "stable s \<Longrightarrow> stable (add_mapping v v s)"
  by (auto simp: stable_def mapping.find_add tasks_def)

lemma add_mapping_obj:
  assumes "stable s" "v \<noteq> 0" "find_mapping v s = 0" "(v, t) \<in> set objs"
  shows "unmapped (add_mapping v v s) + w t = unmapped s"
    and "potential (add_mapping v v s) + w t = potential s"
    and "promised (add_mapping v v s) \<subseteq> insert (v, t) (promised s)"
    and "loose (add_mapping v v s) \<subseteq> loose s"
    and "covered (add_mapping v v s) (v, t)"
proof -
  have "find_mapping x (add_mapping v v s) = 0 \<longleftrightarrow> find_mapping x s = 0 \<and> x \<noteq> v" for x
    using assms(2,3) by (simp add: mapping.find_add)
  then show u: "unmapped (add_mapping v v s) + w t = unmapped s"
    unfolding unmapped_def
    using sum_list_filter_remove [OF objs_distinct assms(4), of "\<lambda>x. find_mapping x s = 0" "w \<circ> snd"] assms(3)
    by simp
  have "tasks (add_mapping v v s) = tasks s" by (simp add: tasks_def)
  with u show "potential (add_mapping v v s) + w t = potential s" by (simp add: potential_def)
  have "x = (v, t)" if "x \<in> set objs" "fst x = v" for x
    using that assms(4) objs_distinct by (metis eq_key_imp_eq_value prod.collapse)
  then show "promised (add_mapping v v s) \<subseteq> insert (v, t) (promised s)"
    by (auto simp: promised_def mapping.find_add split: if_splits)
  have "covered s l \<Longrightarrow> covered (add_mapping v v s) l" for l
    by (rule covered_mono) (auto simp: mapping.find_add)
  then show "loose (add_mapping v v s) \<subseteq> loose s"
    by (auto simp: loose_def waiting_def tasks_def)
  show "covered (add_mapping v v s) (v, t)"
    using assms(2-4) by (simp add: covered_def mapping.find_add)
qed

lemma add_mapping_other:
  assumes "stable s" "map_of objs v = None"
  shows "grows s (add_mapping v v s)" "potential (add_mapping v v s) = potential s"
proof -
  have v: "fst l \<noteq> v" if "l \<in> set objs" for l
    using that assms(2) by (auto simp: map_of_eq_None_iff)
  have f: "find_mapping (fst l) (add_mapping v v s) = find_mapping (fst l) s" if "l \<in> set objs" for l
    using v [OF that] by (simp add: mapping.find_add)
  have u: "unmapped (add_mapping v v s) = unmapped s"
    unfolding unmapped_def by (simp add: f cong: filter_cong)
  then show "potential (add_mapping v v s) = potential s" by (simp add: potential_def tasks_def)
  have c: "covered (add_mapping v v s) l = covered s l" for l
    using f [of l] by (auto simp: covered_def)
  have "loose (add_mapping v v s) = loose s" by (simp add: loose_def c waiting_def tasks_def)
  moreover have "promised (add_mapping v v s) = promised s" using f by (auto simp: promised_def)
  ultimately show "grows s (add_mapping v v s)"
    using assms(1) u stable_add [OF assms(1)]
    by (auto simp: grows_def mapping.find_add tasks_def)
qed

lemma stable_frame:
  "stable s \<Longrightarrow> s\<lparr>heap := store64 (heap s) a (load64 h a)\<rparr> = s"
  by (simp add: stable_def)

lemma not_parallel_locks: "stable s \<Longrightarrow> transform_map_wrlock a s = s" "stable s \<Longrightarrow> transform_map_unlock a s = s"
  by (simp_all add: stable_def transform_map_wrlock_def transform_map_unlock_def)

lemma task_weight_pos: "task_ok x \<Longrightarrow> 1 \<le> task_weight x"
proof -
  assume "task_ok x"
  then obtain t te where t: "x = Some t" "R (task_in t, task_type t)" "\<not> cstrider_is_prim E (task_type t)"
    "get_typeinfo_from_table tt (task_type t) = Some te" "\<not> memoized_is_ptr te" "\<not> memoized_is_array te"
    by (auto simp: task_ok_def)
  then have "2 \<le> w (task_type t)" using fitD [OF t(2)] by (simp add: fits_def)
  then show ?thesis by (simp add: task_weight_def t(1))
qed

lemma length_tasks: "stable s \<Longrightarrow> length (tasks s) \<le> sum_list (map task_weight (tasks s))"
proof -
  assume "stable s"
  then have "list_all (\<lambda>x. 1 \<le> task_weight x) (tasks s)"
    unfolding stable_def list_all_iff using task_weight_pos by blast
  then show ?thesis by (rule length_le_sum_list)
qed

lemma enqueue_one:
  assumes "0 < length qa" "ring_inv (qa ! 0)" "queue_mutex (qa ! 0) = None" "qcount (qa ! 0) < QUEUESIZE"
  shows "\<exists>q. enqueue 1 qa 1 x = Inr (qa[0 := q]) \<and> ring_inv q \<and> queue_mutex q = None \<and> qlist q = qlist (qa ! 0) @ [x]"
proof -
  have "lowest qa 1 = 0" using lowest_less [of 1 qa] by simp
  moreover obtain q where "enqueue_locked x (qa ! 0) = Inr q" "ring_inv q" "qlist q = qlist (qa ! 0) @ [x]"
    "queue_mutex q = queue_mutex (qa ! 0)"
    using enqueue_locked_ok [OF assms(2,4)] by metis
  ultimately show ?thesis
    using assms(1,3) by (intro exI [of _ q]) (simp add: enqueue_def trylock_busy_def)
qed

lemma addtoqueue_ok:
  assumes s: "stable s" and ok: "task_ok (Some t)" and cap: "potential s + w (task_type t) \<le> nat QUEUESIZE"
  shows "\<exists>s'. addtoqueue (Some t) s = Inr s' \<and> grows s s' \<and> seen s' = seen s
     \<and> (task_in t, task_type t) \<in> waiting s' \<and> potential s' = potential s + (w (task_type t) - 1)"
proof -
  have q: "0 < length (queue_array s)" "ring_inv (queue_array s ! 0)" "queue_mutex (queue_array s ! 0) = None"
    using s by (simp_all add: stable_def)
  have "2 \<le> w (task_type t)" using task_weight_pos [OF ok] by (simp add: task_weight_def)
  then have "length (tasks s) < nat QUEUESIZE" using length_tasks [OF s] cap by (simp add: potential_def)
  then have "qcount (queue_array s ! 0) < QUEUESIZE" using q(2) by (simp add: tasks_def ring_inv_def)
  then obtain q where e: "enqueue 1 (queue_array s) 1 (Some t) = Inr ((queue_array s)[0 := q])"
    "ring_inv q" "queue_mutex q = None" "qlist q = tasks s @ [Some t]"
    using enqueue_one [OF q, of "Some t"] by (auto simp: tasks_def)
  let ?s = "s\<lparr>queue_array := (queue_array s)[0 := q]\<rparr>"
  have t: "tasks ?s = tasks s @ [Some t]" using q(1) e(4) by (simp add: tasks_def)
  have f: "find_mapping v ?s = find_mapping v s" for v by (simp add: find_mapping_def)
  have u: "unmapped ?s = unmapped s" by (simp add: unmapped_def f)
  have "stable ?s" using s q(1) e ok t by (simp add: stable_def f)
  moreover have "loose ?s \<subseteq> loose s" "promised ?s = promised s"
    by (auto simp: loose_def promised_def covered_def f t waiting_def)
  ultimately have "grows s ?s" by (auto simp: grows_def u f t)
  moreover have "addtoqueue (Some t) s = Inr ?s" using s e(1) by (simp add: addtoqueue_def stable_def)
  moreover have "potential ?s = potential s + (w (task_type t) - 1)"
    by (simp add: potential_def u t task_weight_def)
  ultimately show ?thesis by (intro exI [of _ ?s]) (auto simp: t waiting_def)
qed

text \<open>A visit at NULL, when the service follows a null pointer, only records itself.\<close>

lemma visit_null:
  assumes s: "stable s" and t: "t \<noteq> - 1"
    "cstrider_is_prim E t \<or> (\<exists>te. get_typeinfo_from_table tt t = Some te \<and> (memoized_is_ptr te \<or> \<not> memoized_is_array te))"
  shows "\<exists>u. visit (Suc n) E 0 t 0 s = Inr ((record_visit (0, t) s)\<lparr>user := u\<rparr>)"
proof (cases "cstrider_is_prim E t")
  case True
  then show ?thesis
    using obs_prim [of "visit n E" 0 t 0 "record_visit (0, t) s"] t(1)
    by (simp add: visit_step_def record_visit_def Let_def)
next
  case False
  with t obtain te where te: "get_typeinfo_from_table tt t = Some te" "memoized_is_ptr te \<or> \<not> memoized_is_array te"
    by auto
  have tt: "type_table_of s = tt" using s by (simp add: stable_def)
  show ?thesis
  proof (cases "memoized_is_ptr te")
    case True
    have "record_visit (0, t) s = (record_visit (0, t) s)\<lparr>user := user s\<rparr>" by (simp add: record_visit_def)
    with True te t(1) False tt show ?thesis
      by (intro exI [of _ "user s"]) (simp add: visit_step_def visit_ptr_step_def record_visit_def)
  next
    case nptr: False
    obtain u where "perfaction_struct (perf_funs E) (visit n E) 0 t 0 (record_visit (0, t) s)
        = Inr (True, (record_visit (0, t) s)\<lparr>user := u\<rparr>)"
      using obs_struct by blast
    with nptr te t(1) False tt show ?thesis
      by (intro exI [of _ u])
        (simp add: visit_step_def record_visit_def transform_make_enq_def addtoqueue_def)
  qed
qed

text \<open>A visitor that handles every reachable location, as long as its bounds allow.\<close>

definition visit_result :: "nat \<Rightarrow> location \<Rightarrow> 'u cstate \<Rightarrow> 'u cstate \<Rightarrow> bool" where
  "visit_result c l s s' \<longleftrightarrow> grows s s' \<and> (snd l \<noteq> - 1 \<longrightarrow> l \<in> set (seen s'))
     \<and> potential s' + length (seen s') \<le> potential s + length (seen s) + c"

definition visits_ok :: "nat \<Rightarrow> 'u visitor \<Rightarrow> bool" where
  "visits_ok n vis \<longleftrightarrow> (\<forall>a t s. stable s \<longrightarrow> t = - 1 \<or> R (a, t) \<longrightarrow> w t + unmapped s \<le> n \<longrightarrow>
     potential s + w t \<le> nat QUEUESIZE \<longrightarrow>
     (\<exists>s'. vis a t a s = Inr s' \<and> visit_result (w t) (a, t) s s'))"

lemma seen_length_mono: "visit_result c l s s' \<Longrightarrow> length (seen s) \<le> length (seen s') \<Longrightarrow> potential s' \<le> potential s + c"
  by (simp add: visit_result_def)

lemma array_loop_fields:
  "array_loop vis n sz sz b inp out s = visit_fields vis (map (\<lambda>i. (of_nat i * sz, b)) [0..<n]) inp out s"
proof (induction n arbitrary: inp out s)
  case 0
  then show ?case by simp
next
  case (Suc n)
  have shift: "visit_fields vis (map (\<lambda>i. (of_nat (Suc i) * sz, b)) xs) inp out s =
      visit_fields vis (map (\<lambda>i. (of_nat i * sz, b)) xs) (inp + sz) (out + sz) s" for xs s
    by (induction xs arbitrary: s) (auto simp: algebra_simps intro: rbind_cong)
  have "map (\<lambda>i. (of_nat i * sz, b)) [0..<Suc n] = (0, b) # map (\<lambda>i. (of_nat (Suc i) * sz, b)) [0..<n]"
    by (simp add: upt_conv_Cons map_Suc_upt [symmetric] comp_def del: upt_Suc)
  then show ?case using Suc.IH shift [of "[0..<n]"] by (auto intro: rbind_cong simp del: of_nat_Suc upt_Suc)
qed

lemma visit_resultD:
  assumes "visit_result c l s s'"
  shows "grows s s'" "stable s'" "unmapped s' \<le> unmapped s" "length (seen s) \<le> length (seen s')"
    "potential s' + length (seen s') \<le> potential s + length (seen s) + c"
  using assms grows_seen [of s s'] by (simp_all add: visit_result_def) (simp_all add: grows_def)

lemma visits_okD:
  assumes "visits_ok n vis" "stable s" "t = - 1 \<or> R (a, t)" "w t + unmapped s \<le> n"
    "potential s + w t \<le> nat QUEUESIZE"
  obtains s' where "vis a t a s = Inr s'" "visit_result (w t) (a, t) s s'"
  using assms unfolding visits_ok_def by metis

lemma fields_ok:
  assumes vis: "visits_ok n vis"
  shows "stable s \<Longrightarrow> (\<And>off ft. (off, ft) \<in> set fs \<Longrightarrow> ft = - 1 \<or> R (a + off, ft)) \<Longrightarrow>
    sum_list (map (w \<circ> snd) fs) + unmapped s \<le> n \<Longrightarrow>
    potential s + sum_list (map (w \<circ> snd) fs) \<le> nat QUEUESIZE \<Longrightarrow>
    \<exists>s'. visit_fields vis fs a a s = Inr s' \<and> grows s s' \<and>
      (\<forall>(off, ft) \<in> set fs. ft \<noteq> - 1 \<longrightarrow> (a + off, ft) \<in> set (seen s')) \<and>
      potential s' + length (seen s') \<le> potential s + length (seen s) + sum_list (map (w \<circ> snd) fs)"
proof (induction fs arbitrary: s)
  case Nil
  then show ?case by (simp add: grows_refl)
next
  case (Cons f fs)
  obtain off ft where f: "f = (off, ft)" by (cases f)
  have "ft = - 1 \<or> R (a + off, ft)" using Cons.prems(2) [of off ft] by (simp add: f)
  then obtain s1 where s1: "vis (a + off) ft (a + off) s = Inr s1" "visit_result (w ft) (a + off, ft) s s1"
    by (rule visits_okD [OF vis Cons.prems(1)]) (use Cons.prems(3,4) in \<open>auto simp: f\<close>)
  note g1 = visit_resultD [OF s1(2)]
  note p1 = g1(5)
  have "\<exists>s'. visit_fields vis fs a a s1 = Inr s' \<and> grows s1 s' \<and>
      (\<forall>(off, ft) \<in> set fs. ft \<noteq> - 1 \<longrightarrow> (a + off, ft) \<in> set (seen s')) \<and>
      potential s' + length (seen s') \<le> potential s1 + length (seen s1) + sum_list (map (w \<circ> snd) fs)"
    by (rule Cons.IH) (use Cons.prems g1 in \<open>auto simp: f\<close>)
  then obtain s' where s': "visit_fields vis fs a a s1 = Inr s'" "grows s1 s'"
    "\<forall>(off, ft) \<in> set fs. ft \<noteq> - 1 \<longrightarrow> (a + off, ft) \<in> set (seen s')"
    "potential s' + length (seen s') \<le> potential s1 + length (seen s1) + sum_list (map (w \<circ> snd) fs)"
    by blast
  have "ft \<noteq> - 1 \<longrightarrow> (a + off, ft) \<in> set (seen s')"
    using s1(2) grows_seen(1) [OF s'(2)] by (auto simp: visit_result_def)
  moreover have "grows s s'" using g1(1) s'(2) by (rule grows_trans)
  ultimately show ?case
    using s1(1) s' p1 by (intro exI [of _ s']) (auto simp: f comp_def)
qed

subsection \<open>visit handles every reachable location\<close>

lemma nxt_R: "R l \<Longrightarrow> l' \<in> set (nxt l) \<Longrightarrow> R l'"
  by (rule reach_next)

lemma result_record:
  assumes "grows (record_visit l s) s'" "l \<in> waiting s' \<or> (\<forall>l' \<in> set (nxt l). covered s' l')"
    "potential s' + length (seen s') \<le> potential s + length (seen s) + c"
  shows "visit_result c l s s'"
  using grows_record [OF assms(1,2)] grows_seen(1) [OF assms(1)] assms(3) by (auto simp: visit_result_def)

lemma visit_prim_ok:
  assumes "stable s" "R (a, t)" "cstrider_is_prim E t"
  shows "\<exists>s'. visit_step E vis a t a s = Inr s' \<and> visit_result (w t) (a, t) s s'"
proof -
  obtain u where "perfaction_prim (perf_funs E) vis a t a (record_visit (a, t) s)
      = Inr ((record_visit (a, t) s)\<lparr>user := u\<rparr>)"
    using obs_prim by blast
  then have "visit_step E vis a t a s = Inr ((record_visit (a, t) s)\<lparr>user := u\<rparr>)"
    using assms(3) reach_not_minus_1 [OF assms(2)] by (simp add: visit_step_def record_visit_def)
  moreover have "visit_result (w t) (a, t) s ((record_visit (a, t) s)\<lparr>user := u\<rparr>)"
    by (rule result_record)
      (use assms fitD [OF assms(2)] in \<open>simp_all add: grows_user grows_refl succs_def fits_def\<close>)
  ultimately show ?thesis by blast
qed

lemma visit_struct_ok:
  assumes "stable s" "R (a, t)" "\<not> cstrider_is_prim E t" "get_typeinfo_from_table tt t = Some te"
    "\<not> memoized_is_ptr te" "\<not> memoized_is_array te" "potential s + w t \<le> nat QUEUESIZE"
  shows "\<exists>s'. visit_step E vis a t a s = Inr s' \<and> visit_result (w t) (a, t) s s'"
proof -
  let ?r = "record_visit (a, t) s"
  let ?t = "\<lparr>task_in = a, task_type = t, task_out = a, issplit = False\<rparr>"
  obtain u where u: "perfaction_struct (perf_funs E) vis a t a ?r = Inr (True, ?r\<lparr>user := u\<rparr>)"
    using obs_struct by blast
  have "task_ok (Some ?t)" using assms by (auto simp: task_ok_def)
  then obtain s' where s': "addtoqueue (Some ?t) (?r\<lparr>user := u\<rparr>) = Inr s'" "grows (?r\<lparr>user := u\<rparr>) s'"
    "seen s' = seen ?r" "(a, t) \<in> waiting s'" "potential s' = potential s + (w t - 1)"
    using addtoqueue_ok [of "?r\<lparr>user := u\<rparr>" ?t] assms(1,7) by auto
  have tt: "type_table_of s = tt" using assms(1) by (simp add: stable_def)
  have "visit_step E vis a t a s = addtoqueue (Some ?t) (?r\<lparr>user := u\<rparr>)"
    using assms(3-6) u tt reach_not_minus_1 [OF assms(2)] R_nonzero [OF assms(2)]
    by (simp add: visit_step_def record_visit_def transform_make_enq_def)
  moreover have "visit_result (w t) (a, t) s s'"
    by (rule result_record) (use s' fitD [OF assms(2)] in \<open>simp_all add: grows_user fits_def\<close>)
  ultimately show ?thesis using s'(1) by auto
qed

lemma visit_array_ok:
  assumes vis: "visits_ok n vis" and s: "stable s" and l: "R (a, t)" "\<not> cstrider_is_prim E t"
    "get_typeinfo_from_table tt t = Some te" "\<not> memoized_is_ptr te" "memoized_is_array te"
    and b: "w t + unmapped s \<le> Suc n" "potential s + w t \<le> nat QUEUESIZE"
  shows "\<exists>s'. visit_step E vis a t a s = Inr s' \<and> visit_result (w t) (a, t) s s'"
proof -
  let ?r = "record_visit (a, t) s"
  let ?k = "unat (scast (arrlen te) :: 64 word)"
  let ?sz = "scast (size_of_entry te) :: 64 word"
  let ?fs = "map (\<lambda>i. (of_nat i * ?sz, arrbase te)) [0..<?k]"
  have tt: "type_table_of s = tt" "\<not> is_parallel s" using s by (simp_all add: stable_def)
  have fit: "cstrider_get_out_size tt t = Inr (size_of_entry te)" "1 + ?k * w (arrbase te) \<le> w t"
    using fitD [OF l(1)] l by (auto simp: fits_def)
  have step: "visit_step E vis a t a s = visit_fields vis ?fs a a ?r"
    using l(2-5) tt fit(1) reach_not_minus_1 [OF l(1)]
    by (simp add: visit_step_def record_visit_def transform_split_array_def transform_array_def
        query_def cstrider_get_num_array_elems_def cstrider_get_size_def cstrider_get_array_base_type_def
        array_loop_fields)
  have sum: "sum_list (map (w \<circ> snd) ?fs) = ?k * w (arrbase te)"
    by (simp add: comp_def sum_list_triv)
  have nx: "set (nxt (a, t)) = {(a + off, ft) |off ft. (off, ft) \<in> set ?fs \<and> ft \<noteq> - 1}"
    using l(2-5) by (auto simp: succs_def elements_def image_iff)
  have "\<exists>s'. visit_fields vis ?fs a a ?r = Inr s' \<and> grows ?r s' \<and>
      (\<forall>(off, ft) \<in> set ?fs. ft \<noteq> - 1 \<longrightarrow> (a + off, ft) \<in> set (seen s')) \<and>
      potential s' + length (seen s') \<le> potential ?r + length (seen ?r) + sum_list (map (w \<circ> snd) ?fs)"
  proof (rule fields_ok [OF vis])
    show "ft = - 1 \<or> R (a + off, ft)" if "(off, ft) \<in> set ?fs" for off ft
      using that nx nxt_R [OF l(1), of "(a + off, ft)"] by blast
  qed (use s fit b in \<open>simp_all add: sum del: map_map\<close>)
  then obtain s' where s': "visit_fields vis ?fs a a ?r = Inr s'" "grows ?r s'"
    "\<forall>(off, ft) \<in> set ?fs. ft \<noteq> - 1 \<longrightarrow> (a + off, ft) \<in> set (seen s')"
    "potential s' + length (seen s') \<le> potential ?r + length (seen ?r) + sum_list (map (w \<circ> snd) ?fs)"
    by blast
  have "visit_result (w t) (a, t) s s'"
  proof (rule result_record [OF s'(2)])
    show "(a, t) \<in> waiting s' \<or> (\<forall>l' \<in> set (nxt (a, t)). covered s' l')"
      using s'(3) unfolding nx by (auto simp: covered_def)
    show "potential s' + length (seen s') \<le> potential s + length (seen s) + w t"
      using s'(4) fit(2) unfolding sum by simp
  qed
  then show ?thesis using step s'(1) by auto
qed

text \<open>The three outcomes of a pointer: NULL, already mapped, and met for the first time.\<close>

lemma visit_ptr_null:
  assumes s: "stable s" and a: "a \<noteq> 0" "load64 h a = 0"
    and tgt: "memoized_is_funptr te \<or> (target_type te \<noteq> - 1 \<and> (cstrider_is_prim E (target_type te) \<or>
      (\<exists>te'. get_typeinfo_from_table tt (target_type te) = Some te' \<and> (memoized_is_ptr te' \<or> \<not> memoized_is_array te'))))"
  shows "\<exists>s'. visit_ptr_step E (visit (Suc n) E) te a t a s = Inr s' \<and> grows s s'
    \<and> potential s' = potential s \<and> length (seen s') \<le> Suc (length (seen s))"
proof -
  have h: "heap s = h" using s by (simp add: stable_def)
  obtain u r where r: "perfaction_ptr (perf_funs E) (visit (Suc n) E) a t a s = Inr (r, s\<lparr>user := u\<rparr>)"
    using obs_ptr by blast
  have step: "visit_ptr_step E (visit (Suc n) E) te a t a s =
      (if \<not> r \<or> memoized_is_funptr te then Inr (s\<lparr>user := u\<rparr>)
       else visit (Suc n) E 0 (target_type te) 0 (s\<lparr>user := u\<rparr>))"
    using a r h s
    by (simp add: visit_ptr_step_def Let_def not_parallel_locks mapping.find_null add_mapping_def
        memoized_get_ptrtype_def)
  show ?thesis
  proof (cases "\<not> r \<or> memoized_is_funptr te")
    case True
    then show ?thesis using step s by (simp add: grows_user grows_refl)
  next
    case False
    then obtain u' where "visit (Suc n) E 0 (target_type te) 0 (s\<lparr>user := u\<rparr>) =
        Inr ((record_visit (0, target_type te) (s\<lparr>user := u\<rparr>))\<lparr>user := u'\<rparr>)"
      using visit_null [of "s\<lparr>user := u\<rparr>" "target_type te" n] s tgt by auto
    moreover have "grows s ((record_visit (0, target_type te) (s\<lparr>user := u\<rparr>))\<lparr>user := u'\<rparr>)"
      using grows_user(1) [OF grows_null [of "s\<lparr>user := u\<rparr>" "target_type te"], of u'] s
      by (simp add: grows_user)
    ultimately show ?thesis using False step by simp
  qed
qed

lemma visit_ptr_mapped:
  assumes s: "stable s" and a: "a \<noteq> 0" "load64 h a \<noteq> 0" "find_mapping (load64 h a) s \<noteq> 0"
  shows "\<exists>u. visit_ptr_step E vis te a t a s = Inr (s\<lparr>user := u\<rparr>)"
proof -
  have h: "heap s = h" and m: "find_mapping (load64 h a) s = load64 h a"
    using s a(3) by (auto simp: stable_def)
  obtain u where u: "perfaction_ptr_mapped (perf_funs E) vis a t (load64 h a) s = Inr (load64 h a, s\<lparr>user := u\<rparr>)"
    using obs_mapped by blast
  have e: "s\<lparr>user := u, heap := h\<rparr> = s\<lparr>user := u\<rparr>"
    using h by auto
  have "visit_ptr_step E vis te a t a s = Inr (s\<lparr>user := u\<rparr>)"
    using a u h m s not_parallel_locks [of "s\<lparr>user := u\<rparr>"]
    by (simp add: visit_ptr_step_def Let_def not_parallel_locks e)
  then show ?thesis ..
qed

lemma visit_ptr_first:
  assumes s: "stable s" and a: "a \<noteq> 0" "load64 h a \<noteq> 0" "find_mapping (load64 h a) s = 0"
  shows "\<exists>u. visit_ptr_step E vis te a t a s =
     (let s' = add_mapping (load64 h a) (load64 h a) (s\<lparr>user := u\<rparr>)
      in if memoized_is_funptr te then Inr s' else vis (load64 h a) (target_type te) (load64 h a) s')"
proof -
  have h: "heap s = h" using s by (simp add: stable_def)
  obtain u where r: "perfaction_ptr (perf_funs E) vis a t a s = Inr (True, s\<lparr>user := u\<rparr>)"
    using obs_ptr [of vis a t a s] a(2) h by auto
  have "stable (add_mapping (load64 h a) (load64 h a) (s\<lparr>user := u\<rparr>))"
    using s by (simp add: stable_add)
  then show ?thesis
    using a r h s
    by (intro exI [of _ u])
      (simp add: visit_ptr_step_def Let_def not_parallel_locks memoized_get_ptrtype_def)
qed

lemma data_ptr_target: "memoized_is_ptr te \<Longrightarrow> \<not> memoized_is_funptr te \<Longrightarrow> target_type te \<noteq> - 1"
  by (auto simp: memoized_is_ptr_def memoized_is_funptr_def TYPE_FUNPTR_def)

lemma visit_ptr_ok:
  assumes vis: "visits_ok (Suc n) (visit (Suc n) E)" and s: "stable s" and l: "R (a, t)" "\<not> cstrider_is_prim E t"
    "get_typeinfo_from_table tt t = Some te" "memoized_is_ptr te"
    and b: "w t + unmapped s \<le> Suc (Suc n)" "potential s + w t \<le> nat QUEUESIZE"
  shows "\<exists>s'. visit_step E (visit (Suc n) E) a t a s = Inr s' \<and> visit_result (w t) (a, t) s s'"
proof -
  let ?r = "record_visit (a, t) s"
  let ?v = "load64 h a"
  have r: "stable ?r" using s by simp
  have a: "a \<noteq> 0" using l(1) by (rule R_nonzero)
  have fit: "2 \<le> w t" "fits_ptr (cstrider_is_prim E) tt h objs te a" using fitD [OF l(1)] l by (auto simp: fits_def)
  have step: "visit_step E (visit (Suc n) E) a t a s = visit_ptr_step E (visit (Suc n) E) te a t a ?r"
    using l(2-4) s reach_not_minus_1 [OF l(1)] by (simp add: visit_step_def record_visit_def stable_def)
  have nx: "nxt (a, t) = (if ?v = 0 \<or> memoized_is_funptr te then [] else [(?v, target_type te)])"
    using l(2-4) data_ptr_target [of te] by (simp add: succs_def)
  have goal: ?thesis if "visit_ptr_step E (visit (Suc n) E) te a t a ?r = Inr s'" "grows ?r s'"
    "\<forall>l' \<in> set (nxt (a, t)). covered s' l'"
    "potential s' + length (seen s') \<le> potential s + length (seen s) + w t" for s'
    using that step result_record [OF that(2) _ that(4)] by auto
  consider "?v = 0" | "?v \<noteq> 0" "find_mapping ?v s \<noteq> 0" | "?v \<noteq> 0" "find_mapping ?v s = 0" by blast
  then show ?thesis
  proof cases
    case 1
    have "\<exists>s'. visit_ptr_step E (visit (Suc n) E) te a t a ?r = Inr s' \<and> grows ?r s'
        \<and> potential s' = potential ?r \<and> length (seen s') \<le> Suc (length (seen ?r))"
      using r a 1
    proof (rule visit_ptr_null)
      show "memoized_is_funptr te \<or> (target_type te \<noteq> - 1 \<and> (cstrider_is_prim E (target_type te) \<or>
        (\<exists>te'. get_typeinfo_from_table tt (target_type te) = Some te' \<and> (memoized_is_ptr te' \<or> \<not> memoized_is_array te'))))"
        using fit(2) 1 data_ptr_target [OF l(4)] by (auto simp: fits_ptr_def split: option.splits)
    qed
    then show ?thesis using goal fit(1) 1 by (auto simp: nx)
  next
    case 2
    then obtain u where "visit_ptr_step E (visit (Suc n) E) te a t a ?r = Inr (?r\<lparr>user := u\<rparr>)"
      using visit_ptr_mapped [OF r a, of "visit (Suc n) E" te t] by auto
    moreover have "covered ?r (?v, target_type te)" if "\<not> memoized_is_funptr te"
      using that fit(2) 2 by (auto simp: fits_ptr_def covered_def Let_def dest: map_of_SomeD)
    ultimately show ?thesis
      using goal [of "?r\<lparr>user := u\<rparr>"] r fit(1) 2 by (simp add: grows_user grows_refl nx)
  next
    case 3
    then obtain u where u: "visit_ptr_step E (visit (Suc n) E) te a t a ?r =
       (let s' = add_mapping ?v ?v (?r\<lparr>user := u\<rparr>)
        in if memoized_is_funptr te then Inr s' else visit (Suc n) E ?v (target_type te) ?v s')"
      using visit_ptr_first [OF r a, of "visit (Suc n) E" te t] by auto
    let ?s1 = "add_mapping ?v ?v (?r\<lparr>user := u\<rparr>)"
    show ?thesis
    proof (cases "memoized_is_funptr te")
      case True
      then have "map_of objs ?v = None" using fit(2) 3 by (simp add: fits_ptr_def Let_def)
      then show ?thesis
        using goal [of ?s1] u True r fit(1) add_mapping_other [of "?r\<lparr>user := u\<rparr>" ?v]
        by (simp add: grows_user nx del: visit.simps)
    next
      case False
      let ?t = "target_type te"
      have obj: "(?v, ?t) \<in> set objs"
        using fit(2) 3 False by (auto simp: fits_ptr_def Let_def dest: map_of_SomeD)
      note add = add_mapping_obj [of "?r\<lparr>user := u\<rparr>", simplified, OF s 3 obj]
      have s1: "stable ?s1" using r by (simp add: stable_add)
      have Rv: "R (?v, ?t)" using l(1) by (rule nxt_R) (simp add: nx 3 False)
      obtain s' where s': "visit (Suc n) E ?v ?t ?v ?s1 = Inr s'" "visit_result (w ?t) (?v, ?t) ?s1 s'"
        by (rule visits_okD [OF vis s1, of ?t ?v]) (use Rv add(1,2) b fit(1) in simp_all)
      have "grows ?s1 s'" "(?v, ?t) \<in> set (seen s')"
        using s'(2) data_ptr_target [OF l(4) False] by (simp_all add: visit_result_def)
      then have "grows ?r s'"
        using add(1,3,4) by (auto simp: grows_def promised_def mapping.find_add tasks_def)
      moreover have "covered s' (?v, ?t)" using \<open>(?v, ?t) \<in> set (seen s')\<close> by (simp add: covered_def)
      moreover have "potential s' + length (seen s') \<le> potential s + length (seen s) + w t"
        using visit_resultD(5) [OF s'(2)] add(2) fit(1) by simp
      ultimately show ?thesis using goal [of s'] u s'(1) False 3 by (simp add: nx del: visit.simps)
    qed
  qed
qed

lemma visit_R_ok:
  assumes vis: "visits_ok n (visit n E)" and s: "stable s" and l: "R (a, t)"
    and b: "w t + unmapped s \<le> Suc n" "potential s + w t \<le> nat QUEUESIZE"
  shows "\<exists>s'. visit_step E (visit n E) a t a s = Inr s' \<and> visit_result (w t) (a, t) s s'"
proof (cases "cstrider_is_prim E t")
  case True
  with s l show ?thesis by (rule visit_prim_ok)
next
  case np: False
  then obtain te where te: "get_typeinfo_from_table tt t = Some te"
    using fitD [OF l] by (auto simp: fits_def split: option.splits)
  show ?thesis
  proof (cases "memoized_is_ptr te")
    case True
    then have "2 \<le> w t" using fitD [OF l] np te by (simp add: fits_def)
    then obtain m where "n = Suc m" using b(1) by (cases n) auto
    then show ?thesis using visit_ptr_ok [OF _ s l np te True] vis b by blast
  next
    case False
    then show ?thesis
      using visit_struct_ok [OF s l np te False _ b(2)] visit_array_ok [OF vis s l np te False _ b] by blast
  qed
qed

lemma visit_ok: "visits_ok n (visit n E)"
proof (induction n)
  case 0
  have "\<not> w t + x \<le> 0" for t x using w_pos [of t] by simp
  then show ?case unfolding visits_ok_def by blast
next
  case (Suc n)
  have "\<exists>s'. visit (Suc n) E a t a s = Inr s' \<and> visit_result (w t) (a, t) s s'"
    if "stable s" "t = - 1 \<or> R (a, t)" "w t + unmapped s \<le> Suc n" "potential s + w t \<le> nat QUEUESIZE" for a t s
  proof (cases "t = - 1")
    case True
    then show ?thesis using that(1) by (simp add: visit_step_def visit_result_def grows_refl)
  next
    case False
    then show ?thesis using visit_R_ok [OF Suc.IH that(1) _ that(3,4)] that(2) by simp
  qed
  then show ?case unfolding visits_ok_def by blast
qed

subsection \<open>The loop of a sequential traversal\<close>

definition settled :: "'u cstate \<Rightarrow> bool" where
  "settled s \<longleftrightarrow> stable s \<and> loose s = {} \<and> promised s = {}"

definition set_queue0 :: "task queue \<Rightarrow> 'u cstate \<Rightarrow> 'u cstate" where
  "set_queue0 q s = s\<lparr>queue_array := (queue_array s)[0 := q]\<rparr>"

lemma set_queue0_simps [simp]:
  "visit_all_registered_hash (set_queue0 q s) = visit_all_registered_hash s"
  "queue_array (set_queue0 q s) = (queue_array s)[0 := q]"
  "heap (set_queue0 q s) = heap s" "tstate (set_queue0 q s) = tstate s"
  "is_parallel (set_queue0 q s) = is_parallel s" "seen (set_queue0 q s) = seen s"
  "find_mapping v (set_queue0 q s) = find_mapping v s" "unmapped (set_queue0 q s) = unmapped s"
  "promised (set_queue0 q s) = promised s" "covered (set_queue0 q s) l = covered s l"
  "stable s \<Longrightarrow> tasks (set_queue0 q s) = qlist q"
  by (simp_all add: set_queue0_def find_mapping_def unmapped_def promised_def covered_def stable_def tasks_def)

lemma stable_set_queue0:
  "stable s \<Longrightarrow> ring_inv q \<Longrightarrow> queue_mutex q = None \<Longrightarrow> list_all task_ok (qlist q) \<Longrightarrow> stable (set_queue0 q s)"
  by (simp add: stable_def tasks_def)

lemma settled_same_queue:
  assumes "settled s" "ring_inv q" "queue_mutex q = None" "qlist q = tasks s"
  shows "settled (set_queue0 q s)" "potential (set_queue0 q s) = potential s" "tasks (set_queue0 q s) = tasks s"
proof -
  have s: "stable s" using assms(1) by (simp add: settled_def)
  then show t: "tasks (set_queue0 q s) = tasks s" using assms(4) by simp
  then show "potential (set_queue0 q s) = potential s" by (simp add: potential_def)
  have "stable (set_queue0 q s)"
    using s assms by (intro stable_set_queue0) (simp_all add: stable_def)
  moreover have "loose (set_queue0 q s) = loose s" by (simp add: loose_def waiting_def t)
  ultimately show "settled (set_queue0 q s)" using assms(1) by (simp add: settled_def)
qed

text \<open>One round: the fields of the structure in the oldest task are visited.\<close>

lemma task_round:
  assumes s: "settled s" and x: "tasks s = Some x # xs" and b: "potential s \<le> fuel" "potential s \<le> nat QUEUESIZE"
    and q: "ring_inv q" "queue_mutex q = None" "qlist q = xs"
  shows "\<exists>s'. callxformer E (visit fuel E) x (set_queue0 q s) = Inr s' \<and> settled s'
     \<and> (\<exists>ls. seen s' = seen s @ ls) \<and> potential s' + length (seen s') < potential s + length (seen s)"
proof -
  have st: "stable s" using s by (simp add: settled_def)
  then have tok: "list_all task_ok (Some x # xs)" using x by (simp add: stable_def)
  then obtain te where te: "\<not> issplit x" "task_out x = task_in x" "R (task_in x, task_type x)"
    "\<not> cstrider_is_prim E (task_type x)" "get_typeinfo_from_table tt (task_type x) = Some te"
    "\<not> memoized_is_ptr te" "\<not> memoized_is_array te"
    by (auto simp: task_ok_def)
  let ?a = "task_in x" and ?t = "task_type x" and ?s1 = "set_queue0 q s"
  obtain k where k: "corresp_func_ptr te = Generated k" "2 + sum_list (map (w \<circ> snd) (lay k)) \<le> w ?t"
    using fitD [OF te(3)] te by (auto simp: fits_def struct_fields_def split: fptr.splits)
  have s1: "stable ?s1" using st q tok by (intro stable_set_queue0) simp_all
  have p: "potential s = potential ?s1 + (w ?t - 1)"
    using st q(3) x by (simp add: potential_def task_weight_def)
  have loose1: "loose ?s1 \<subseteq> {(?a, ?t)}"
  proof
    fix l assume l: "l \<in> loose ?s1"
    moreover have "l \<notin> loose s" using s by (simp add: settled_def)
    ultimately have "l \<in> waiting s" by (simp add: loose_def)
    with l show "l \<in> {(?a, ?t)}" using x st q(3) by (auto simp: waiting_def loose_def)
  qed
  have nx: "set (nxt (?a, ?t)) = {(?a + off, ft) |off ft. (off, ft) \<in> set (lay k) \<and> ft \<noteq> - 1}"
    using te k by (force simp: succs_def struct_fields_def)
  have "\<exists>s'. visit_fields (visit fuel E) (lay k) ?a ?a ?s1 = Inr s' \<and> grows ?s1 s' \<and>
      (\<forall>(off, ft) \<in> set (lay k). ft \<noteq> - 1 \<longrightarrow> (?a + off, ft) \<in> set (seen s')) \<and>
      potential s' + length (seen s') \<le> potential ?s1 + length (seen ?s1) + sum_list (map (w \<circ> snd) (lay k))"
  proof (rule fields_ok [OF visit_ok s1])
    show "ft = - 1 \<or> R (?a + off, ft)" if "(off, ft) \<in> set (lay k)" for off ft
      using that nx nxt_R [OF te(3), of "(?a + off, ft)"] by blast
    have "unmapped ?s1 \<le> potential ?s1" by (simp add: potential_def)
    then show "sum_list (map (w \<circ> snd) (lay k)) + unmapped ?s1 \<le> fuel" using p k(2) b(1) by linarith
    show "potential ?s1 + sum_list (map (w \<circ> snd) (lay k)) \<le> nat QUEUESIZE" using p k(2) b(2) by linarith
  qed
  then obtain s' where s': "visit_fields (visit fuel E) (lay k) ?a ?a ?s1 = Inr s'" "grows ?s1 s'"
    "\<forall>(off, ft) \<in> set (lay k). ft \<noteq> - 1 \<longrightarrow> (?a + off, ft) \<in> set (seen s')"
    "potential s' + length (seen s') \<le> potential ?s1 + length (seen s) + sum_list (map (w \<circ> snd) (lay k))"
    by auto
  have "(?a, ?t) \<notin> loose s'" using s'(3) by (auto simp: loose_def nx covered_def)
  then have "loose s' = {}" using s'(2) loose1 by (auto simp: grows_def)
  moreover have "promised s' = {}" using s'(2) s by (auto simp: grows_def settled_def)
  ultimately have "settled s'" using s'(2) by (simp add: settled_def grows_def)
  moreover have "callxformer E (visit fuel E) x ?s1 = Inr s'"
    using te k(1) s'(1) st
    by (simp add: callxformer_def query_def cstrider_get_tvers_funptr_def call_fptr_def gen stable_def)
  moreover have "potential s' + length (seen s') < potential s + length (seen s)"
    using s'(4) p k(2) by linarith
  ultimately show ?thesis using s'(2) by (auto simp: grows_def)
qed

lemma process_loop_ok:
  "settled s \<Longrightarrow> potential s \<le> fuel \<Longrightarrow> potential s \<le> nat QUEUESIZE \<Longrightarrow> potential s < rounds \<Longrightarrow>
   \<exists>s'. process_loop rounds E (visit fuel E) s = Inr s' \<and> settled s' \<and> tasks s' = []
     \<and> (\<exists>ls. seen s' = seen s @ ls) \<and> length (seen s') \<le> potential s + length (seen s)"
proof (induction rounds arbitrary: s)
  case 0
  then show ?case by simp
next
  case (Suc rounds)
  have st: "stable s" using Suc.prems(1) by (simp add: settled_def)
  let ?q0 = "queue_array s ! 0"
  have q0: "0 < length (queue_array s)" "ring_inv ?q0" "queue_mutex ?q0 = None" using st by (simp_all add: stable_def)
  show ?case
  proof (cases "tasks s")
    case Nil
    then have "dequeue 1 (queue_array s) 1 0 = Inr (None, queue_array s)"
      using q0 by (simp add: dequeue_def dequeue_choose_def trylock_busy_def tasks_def dequeue_locked_empty)
    then show ?thesis using Suc.prems(1) Nil by auto
  next
    case (Cons y xs)
    have "task_ok y" using st Cons by (simp add: stable_def)
    then obtain x where y: "y = Some x" by (auto simp: task_ok_def)
    obtain q where q: "dequeue_locked ?q0 = Some (Some x, q)" "ring_inv q" "qlist q = xs" "queue_mutex q = None"
      using dequeue_locked_ok [OF q0(2), of "Some x" xs] Cons y q0(3) by (auto simp: tasks_def)
    let ?q = "q\<lparr>inflight := inflight q + 1\<rparr>"
    have dq: "dequeue 1 (queue_array s) 1 0 = Inr (Some x, (queue_array s)[0 := ?q])"
      using q0 q(1) by (simp add: dequeue_def dequeue_choose_def trylock_busy_def Let_def)
    obtain s1 where s1: "callxformer E (visit fuel E) x (set_queue0 ?q s) = Inr s1" "settled s1"
      "\<exists>ls. seen s1 = seen s @ ls" "potential s1 + length (seen s1) < potential s + length (seen s)"
      using task_round [OF Suc.prems(1) Cons [unfolded y] Suc.prems(2,3), of ?q] q by auto
    have st1: "stable s1" using s1(2) by (simp add: settled_def)
    let ?s2 = "set_queue0 (deq_task_finished (queue_array s1 ! 0)) s1"
    have s2: "settled ?s2" "potential ?s2 = potential s1"
      using settled_same_queue [OF s1(2), of "deq_task_finished (queue_array s1 ! 0)"] st1
      by (simp_all add: stable_def tasks_def deq_task_finished_def)
    have len: "length (seen s) \<le> length (seen s1)" using s1(3) by auto
    have "\<exists>s'. process_loop rounds E (visit fuel E) ?s2 = Inr s' \<and> settled s' \<and> tasks s' = []
        \<and> (\<exists>ls. seen s' = seen ?s2 @ ls) \<and> length (seen s') \<le> potential ?s2 + length (seen ?s2)"
      by (rule Suc.IH) (use s2 s1(4) len Suc.prems in simp_all)
    then show ?thesis using dq s1 s2(2) by (auto simp: set_queue0_def)
  qed
qed

text \<open>When nothing waits and nothing is loose or promised, what has been seen is closed.\<close>

lemma settled_covers:
  assumes "settled s" "tasks s = []" "\<And>l. l \<in> set roots \<Longrightarrow> snd l \<noteq> - 1 \<Longrightarrow> l \<in> set (seen s)"
  shows "R l \<Longrightarrow> l \<in> set (seen s)"
proof (induction rule: reach.induct)
  case (reach_root l)
  then show ?case using assms(3) by simp
next
  case (reach_next l l')
  have "l \<notin> loose s" "l' \<notin> promised s" using assms(1) by (simp_all add: settled_def)
  with reach_next assms(2) show ?case by (auto simp: loose_def promised_def waiting_def covered_def)
qed

subsection \<open>A whole traversal\<close>

lemma frame_simps [simp]:
  "stable (s\<lparr>freelater_hash := f\<rparr>) = stable s" "loose (s\<lparr>freelater_hash := f\<rparr>) = loose s"
  "promised (s\<lparr>freelater_hash := f\<rparr>) = promised s" "potential (s\<lparr>freelater_hash := f\<rparr>) = potential s"
  "tasks (s\<lparr>freelater_hash := f\<rparr>) = tasks s"
  by (simp_all add: stable_def loose_def promised_def potential_def tasks_def find_mapping_def covered_def
      waiting_def unmapped_def)

lemma visit_registered_fields: "visit_registered vis rs s = visit_fields vis rs 0 0 s"
proof (induction rs arbitrary: s)
  case Nil
  then show ?case by simp
next
  case (Cons r rs)
  then show ?case by (cases r) (auto intro: rbind_cong)
qed

lemma settled_fresh:
  assumes "stable s" "seen s = []" "pxform_mappings s = []"
  shows "settled s"
proof -
  have "find_mapping v s = 0" for v using assms(3) by (simp add: find_mapping_def)
  then show ?thesis using assms(1,2) by (simp add: settled_def loose_def promised_def)
qed

lemma visit_list_ok:
  assumes "settled s" "set rs \<subseteq> set roots" "sum_list (map (w \<circ> snd) rs) + unmapped s \<le> fuel"
    "potential s + sum_list (map (w \<circ> snd) rs) \<le> nat QUEUESIZE"
  shows "\<exists>s'. visit_registered (visit fuel E) rs s = Inr s' \<and> settled s' \<and> grows s s'
    \<and> (\<forall>l \<in> set rs. snd l \<noteq> - 1 \<longrightarrow> l \<in> set (seen s'))
    \<and> potential s' + length (seen s') \<le> potential s + length (seen s) + sum_list (map (w \<circ> snd) rs)"
proof -
  have "\<exists>s'. visit_fields (visit fuel E) rs 0 0 s = Inr s' \<and> grows s s' \<and>
      (\<forall>(off, ft) \<in> set rs. ft \<noteq> - 1 \<longrightarrow> (0 + off, ft) \<in> set (seen s')) \<and>
      potential s' + length (seen s') \<le> potential s + length (seen s) + sum_list (map (w \<circ> snd) rs)"
  proof (rule fields_ok [OF visit_ok])
    show "ft = - 1 \<or> R (0 + off, ft)" if "(off, ft) \<in> set rs" for off ft
      using that assms(2) reach_root [of "(off, ft)" roots nxt] by auto
  qed (use assms in \<open>simp_all add: settled_def\<close>)
  then obtain s' where "visit_fields (visit fuel E) rs 0 0 s = Inr s'" "grows s s'"
    "\<forall>(off, ft) \<in> set rs. ft \<noteq> - 1 \<longrightarrow> (off, ft) \<in> set (seen s')"
    "potential s' + length (seen s') \<le> potential s + length (seen s) + sum_list (map (w \<circ> snd) rs)"
    by auto
  moreover then have "settled s'" using assms(1) by (auto simp: settled_def grows_def)
  ultimately show ?thesis by (intro exI [of _ s']) (auto simp: visit_registered_fields)
qed

lemma visit_roots_registered:
  assumes "\<And>f s. f \<in> set fs \<Longrightarrow> root_function E f vis s = visit_registered vis (groots f) s"
  shows "visit_roots E vis fs s = visit_registered vis (concat (map groots fs)) s"
proof -
  have app: "visit_registered vis (xs @ ys) s = rbind (visit_registered vis xs s) (visit_registered vis ys)" for xs ys s
    by (induction xs arbitrary: s) (auto simp: rbind_def split: sum.split)
  show ?thesis using assms by (induction fs arbitrary: s) (auto simp: app rbind_def split: sum.split)
qed

lemma processqueue_ok:
  assumes "settled s" "potential s \<le> fuel" "potential s \<le> nat QUEUESIZE" "potential s < rounds"
    and "\<And>l. l \<in> set roots \<Longrightarrow> snd l \<noteq> - 1 \<Longrightarrow> l \<in> set (seen s)"
  shows "\<exists>s'. processqueue_seq rounds E (visit fuel E) s = Inr s' \<and> stable s' \<and> tasks s' = []
     \<and> (\<forall>l. R l \<longrightarrow> l \<in> set (seen s')) \<and> length (seen s') \<le> potential s + length (seen s)"
proof -
  let ?s1 = "init_thread_local s"
  let ?s2 = "set_queue0 (start_dequeue (queue_array ?s1 ! 0)) ?s1"
  have s1: "settled ?s1" "potential ?s1 = potential s" "seen ?s1 = seen s"
    using assms(1) by (simp_all add: settled_def init_thread_local_def)
  have q: "ring_inv (queue_array ?s1 ! 0)" "queue_mutex (queue_array ?s1 ! 0) = None"
    using s1(1) by (simp_all add: settled_def stable_def)
  have "settled ?s2 \<and> potential ?s2 = potential ?s1"
    using settled_same_queue [OF s1(1), of "start_dequeue (queue_array ?s1 ! 0)"] q
    by (simp add: start_dequeue_def tasks_def)
  then obtain s' where s': "process_loop rounds E (visit fuel E) ?s2 = Inr s'" "settled s'" "tasks s' = []"
    "\<exists>ls. seen s' = seen s @ ls" "length (seen s') \<le> potential s + length (seen s)"
    using process_loop_ok [of ?s2 fuel rounds] assms(2-4) s1(2,3) by auto
  have "\<forall>l. R l \<longrightarrow> l \<in> set (seen s')" using settled_covers [OF s'(2,3)] assms(5) s'(4) by auto
  moreover have "transform_perform_delayedfree s' = s'\<lparr>freelater_hash := [],
      freed := freed s' @ concat (map free_entry (rev (freelater_hash s')))\<rparr>" by (rule perform_delayedfree_eq)
  moreover have "stable (s'\<lparr>freelater_hash := [], freed := f\<rparr>) = stable s'" "tasks (s'\<lparr>freelater_hash := [], freed := f\<rparr>) = tasks s'" for f
    by (simp_all add: stable_def tasks_def find_mapping_def)
  moreover have "processqueue_seq rounds E (visit fuel E) s = Inr (transform_perform_delayedfree s')"
    using s'(1) by (simp add: processqueue_seq_def set_queue0_def Let_def)
  ultimately show ?thesis using s'(2,3,5) by (auto simp: settled_def)
qed

lemma init_stable:
  assumes "ready s" "h = heap s" "tt = cstrider_type_init (gen_arrays E) []"
    "cstrider_register_init E s = Inr (s\<lparr>name_to_addr_hash := nt, addr_to_name_hash := ta\<rparr>)"
    "reg = visit_all_registered_hash s" "seen s = []"
  shows "\<exists>s1. init E False s = Inr s1 \<and> settled s1 \<and> tasks s1 = [] \<and> seen s1 = []
    \<and> unmapped s1 = total_weight w objs
    \<and> visit_all_hash s1 = rev (map (\<lambda>f. (f, ())) (visitalls E)) \<and> is_parallel s1 = False"
proof -
  let ?s0 = "s\<lparr>name_to_addr_hash := nt, addr_to_name_hash := ta\<rparr>"
  let ?s1 = "launch_helpers (transform_init E False ?s0)"
  have f: "heap ?s1 = h" "type_table_of ?s1 = tt" "\<not> is_parallel ?s1" "visit_all_registered_hash ?s1 = reg"
    "pxform_mappings ?s1 = []" "seen ?s1 = []" "queue_array ?s1 = (queue_array s)[0 := init_queue (queue_array s ! 0)]"
    "visit_all_hash ?s1 = rev (map (\<lambda>f. (f, ())) (visitalls E))"
    using assms
    by (simp_all add: launch_helpers_def transform_init_def populate_visit_all_def ready_def Let_def populate_roots)
  have t: "tasks ?s1 = []" using f(7) assms(1) by (simp add: tasks_def ready_def)
  have m: "find_mapping v ?s1 = 0" for v using f(5) by (simp add: find_mapping_def)
  have "stable ?s1" using f assms(1) t m by (simp add: stable_def ready_def)
  then have "settled ?s1" using f by (intro settled_fresh) simp_all
  moreover have "unmapped ?s1 = total_weight w objs" by (simp add: unmapped_def m total_weight_def)
  ultimately show ?thesis using assms(4) f t by (intro exI [of _ ?s1]) (simp add: init_def)
qed

lemma traverse_ok:
  assumes s: "ready s" "h = heap s" "tt = cstrider_type_init (gen_arrays E) []"
    "cstrider_register_init E s = Inr (s\<lparr>name_to_addr_hash := nt, addr_to_name_hash := ta\<rparr>)"
    "reg = visit_all_registered_hash s" "seen s = []"
    and rts: "\<And>f vis s. root_function E f vis s = visit_registered vis (groots f) s" "roots = all_roots E groots s"
    and W: "total_weight w objs + total_weight w roots \<le> fuel" "total_weight w objs + total_weight w roots < rounds"
    "total_weight w objs + total_weight w roots \<le> nat QUEUESIZE"
  shows "\<exists>s'. traverse fuel rounds E s = Inr s' \<and> heap s' = heap s \<and> (\<forall>l. R l \<longrightarrow> l \<in> set (seen s'))
    \<and> length (seen s') \<le> total_weight w objs + total_weight w roots \<and> ready s'"
proof -
  obtain s1 where s1: "init E False s = Inr s1" "settled s1" "tasks s1 = []" "seen s1 = []"
    "unmapped s1 = total_weight w objs" "visit_all_hash s1 = rev (map (\<lambda>f. (f, ())) (visitalls E))"
    "is_parallel s1 = False"
    using init_stable [OF s] by auto
  let ?g = "concat (map groots (visitalls E))"
  let ?v = "visit fuel E"
  have p1: "potential s1 = total_weight w objs" using s1 by (simp add: potential_def)
  have tw: "total_weight w roots = total_weight w ?g + total_weight w (tbl_iter reg)"
    using rts(2) s(5) by (simp add: all_roots_def total_weight_def)
  have sub: "set ?g \<subseteq> set roots" "set (tbl_iter reg) \<subseteq> set roots"
    using rts(2) s(5) by (simp_all add: all_roots_def)
  obtain s2 where s2: "visit_registered ?v ?g s1 = Inr s2" "settled s2" "grows s1 s2"
    "\<forall>l \<in> set ?g. snd l \<noteq> - 1 \<longrightarrow> l \<in> set (seen s2)"
    "potential s2 + length (seen s2) \<le> potential s1 + length (seen s1) + total_weight w ?g"
    using visit_list_ok [OF s1(2) sub(1), of fuel] s1 W p1 tw by (auto simp: total_weight_def)
  have g2: "unmapped s2 \<le> unmapped s1" "visit_all_registered_hash s2 = reg"
    using s2(2,3) by (simp_all add: grows_def settled_def stable_def)
  have "sum_list (map (w \<circ> snd) (tbl_iter reg)) + unmapped s2 \<le> fuel"
    "potential s2 + sum_list (map (w \<circ> snd) (tbl_iter reg)) \<le> nat QUEUESIZE"
    using g2(1) s1(4,5) s2(5) p1 W(1,3) tw by (simp_all add: total_weight_def)
  then obtain s3 where s3: "visit_registered ?v (tbl_iter reg) s2 = Inr s3" "settled s3" "grows s2 s3"
    "\<forall>l \<in> set (tbl_iter reg). snd l \<noteq> - 1 \<longrightarrow> l \<in> set (seen s3)"
    "potential s3 + length (seen s3) \<le> potential s2 + length (seen s2) + total_weight w (tbl_iter reg)"
    using visit_list_ok [OF s2(2) sub(2), of fuel] by (auto simp: total_weight_def)
  have all: "visit_all E ?v s1 = Inr s3"
    using s1(6) visit_roots_registered [of "visitalls E" ?v groots s1] rts(1) s2(1) s3(1) g2(2)
    by (simp add: visit_all_def tbl_iter_def comp_def)
  have seen3: "l \<in> set (seen s3)" if "l \<in> set roots" "snd l \<noteq> - 1" for l
    using that s2(4) s3(4) grows_seen(1) [OF s3(3)] rts(2) s(5) by (auto simp: all_roots_def)
  have b: "potential s3 + length (seen s3) \<le> total_weight w objs + total_weight w roots"
    using s3(5) s2(5) p1 s1(4) tw by simp
  then obtain s4 where s4: "processqueue_seq rounds E ?v s3 = Inr s4" "stable s4" "tasks s4 = []"
    "\<forall>l. R l \<longrightarrow> l \<in> set (seen s4)" "length (seen s4) \<le> potential s3 + length (seen s3)"
    using processqueue_ok [OF s3(2), of fuel rounds] seen3 W by auto
  let ?s = "transform_free (s4\<lparr>launched_helpers := False\<rparr>)"
  have "traverse fuel rounds E s = Inr ?s"
    using s1(1) all s4(1) by (simp add: traverse_def finish_seq_def helpers_wait_seq_def)
  moreover have "heap s4 = h" "\<not> is_parallel s4" "queue_array s4 \<noteq> []"
    using s4(2) by (simp_all add: stable_def)
  then have "heap ?s = heap s" "seen ?s = seen s4" "ready ?s"
    using s(2)
    by (simp_all add: transform_free_def Let_def clear_pxform_mappings_head_def cstrider_visit_free_def
        perform_delayedfree_eq ready_def type_free_empties tbl_del_iter)
  ultimately show ?thesis using s4(4,5) b by auto
qed

end

text \<open>A set of locations that contains the roots and is closed contains what is reachable.\<close>

lemma reach_closed:
  assumes "\<And>l. l \<in> set roots \<Longrightarrow> snd l \<noteq> - 1 \<Longrightarrow> P l" "\<And>l l'. P l \<Longrightarrow> l' \<in> set (nx l) \<Longrightarrow> P l'"
  shows "reach nx roots l \<Longrightarrow> P l"
  by (induction rule: reach.induct) (use assms in blast)+

subsection \<open>A service that observes\<close>

text \<open>
  The callbacks of src/examples/funct_ptr/perfaction.c, which do nothing and go on
  everywhere.
\<close>

definition funct_ptr_funs :: "'u traversal" where
  "funct_ptr_funs = \<lparr>perfaction_prim = (\<lambda>vis inp t out s. Inr s),
     perfaction_struct = (\<lambda>vis inp t out s. Inr (True, s)),
     perfaction_ptr = (\<lambda>vis inp t out s. Inr (True, s)),
     perfaction_ptr_mapped = (\<lambda>vis inp t lookup s. Inr (lookup, s))\<rparr>"

lemma user_same: "\<exists>u. s = s\<lparr>user := u\<rparr>"
  by (rule exI [of _ "user s"]) simp

interpretation fp: observing_service funct_ptr_funs
proof unfold_locales
  fix vis :: "'u visitor" and inp t out and s :: "'u cstate"
  show "\<exists>u r. perfaction_ptr funct_ptr_funs vis inp t out s = Inr (r, s\<lparr>user := u\<rparr>) \<and> (load64 (heap s) inp \<noteq> 0 \<longrightarrow> r)"
    using user_same [of s] by (auto simp: funct_ptr_funs_def)
qed (simp_all add: funct_ptr_funs_def user_same)

text \<open>
  An example: \<open>struct node { int x; struct node *next; }\<close> with types 0 (\<open>int\<close>), 1 (the
  structure) and 2 (the pointer), a root at 4096 and two nodes that form a cycle.
\<close>

definition node_arrays :: type_arrays where
  "node_arrays = \<lparr>sizes_array_len = 3, sizes_array = (\<lambda>t. if t = 0 then 4 else if t = 1 then 16 else 8),
     corresp_func_ptr_array = (\<lambda>t. if t = 1 then Generated 0 else Transform_prim),
     target_type_array = (\<lambda>t. if t = 2 then 1 else - 1), ptsto_type_array = (\<lambda>_. - 1),
     num_gen_args_arr = (\<lambda>_. 0), args_arr = (\<lambda>_. 0), main_types_array = (\<lambda>t. t),
     out_type_internal = (\<lambda>_. - 1)\<rparr>"

definition node_layout :: layout where
  "node_layout k = [(0, 0), (8, 2)]"

definition node_env :: "unit env" where
  "node_env = \<lparr>perf_funs = funct_ptr_funs, gen_arrays = node_arrays, cstrider_is_prim = (\<lambda>t. t = 0),
     gen_transformer = (\<lambda>k vis inp out t s. visit_fields vis (node_layout k) inp out s), visitalls = [0],
     root_function = (\<lambda>f vis s. visit_registered vis [(4096, 2)] s),
     cstrider_register_init = (\<lambda>s. Inr s), padding = []\<rparr>"

definition node_heap :: heap where
  "node_heap = store64 (store64 (store64 (\<lambda>_. 0) 4096 8192) 8200 12288) 12296 8192"

definition node_state :: "unit cstate" where
  "node_state = (start_state ())\<lparr>heap := node_heap\<rparr>"

definition node_objs :: "(addr \<times> ctyp) list" where
  "node_objs = [(8192, 1), (12288, 1)]"

definition node_weight :: "ctyp \<Rightarrow> nat" where
  "node_weight t = (if t = 1 then 6 else 2)"

definition node_locations :: "location list" where
  "node_locations = [(4096, 2), (8192, 1), (8192, 0), (8200, 2), (12288, 1), (12288, 0), (12296, 2)]"

lemma node_closed:
  "list_all (\<lambda>l. fits (\<lambda>t. t = 0) node_layout (cstrider_type_init node_arrays []) node_heap node_objs node_weight l
     \<and> list_all (\<lambda>l'. l' \<in> set node_locations)
          (succs (\<lambda>t. t = 0) node_layout (cstrider_type_init node_arrays []) node_heap l)) node_locations"
  by code_simp

subsection \<open>Properties\<close>

text \<open>
  C1: A sequential traversal (\<open>init(funs, 0)\<close>, \<open>visit_all\<close>, \<open>finish\<close>) by a service that only
  observes terminates without an error, leaves the memory as it was, visits every location
  that is reachable from the roots through fields, array elements and pointers, visits no
  more than the weight of the roots and of the pointed-to objects (so shared and cyclic
  structures are not visited over and over), and leaves the tables as they were before. It
  holds when every pointer to an object has the object's type, the generated functions
  visit the fields and the roots, and the weight fits the queue.
\<close>

theorem traversal_complete:
  assumes "observing_service (perf_funs E)"
    and "\<And>k vis inp out t s. gen_transformer E k vis inp out t s = visit_fields vis (lay k) inp out s"
    and "\<And>f vis s. root_function E f vis s = visit_registered vis (groots f) s"
    and "ready s" "seen s = []"
    and "cstrider_register_init E s = Inr (s\<lparr>name_to_addr_hash := nt, addr_to_name_hash := ta\<rparr>)"
    and "distinct (map fst objs)" "\<And>t. 1 \<le> w t"
    and "\<And>l. reach (succs (cstrider_is_prim E) lay (cstrider_type_init (gen_arrays E) []) (heap s))
           (all_roots E groots s) l \<Longrightarrow>
         fits (cstrider_is_prim E) lay (cstrider_type_init (gen_arrays E) []) (heap s) objs w l"
    and "total_weight w objs + total_weight w (all_roots E groots s) \<le> fuel"
    and "total_weight w objs + total_weight w (all_roots E groots s) < rounds"
    and "total_weight w objs + total_weight w (all_roots E groots s) \<le> nat QUEUESIZE"
  shows "\<exists>s'. traverse fuel rounds E s = Inr s' \<and> heap s' = heap s
    \<and> (\<forall>l. reach (succs (cstrider_is_prim E) lay (cstrider_type_init (gen_arrays E) []) (heap s))
              (all_roots E groots s) l \<longrightarrow> l \<in> set (seen s'))
    \<and> length (seen s') \<le> total_weight w objs + total_weight w (all_roots E groots s) \<and> ready s'"
proof -
  have "typed_traversal E (cstrider_type_init (gen_arrays E) []) (heap s) lay objs w (all_roots E groots s)"
    by (intro typed_traversal.intro typed_traversal_axioms.intro) (use assms in blast)+
  then show ?thesis
    by (rule typed_traversal.traverse_ok [OF _ assms(4) refl refl assms(6) refl assms(5) assms(3) refl assms(10-12)])
qed

theorem traversal_complete_witness:
  "\<exists>s'. traverse 20 20 node_env node_state = Inr s' \<and> heap s' = heap node_state
     \<and> (12288, 1) \<in> set (seen s') \<and> length (seen s') \<le> 14"
proof -
  let ?nx = "succs (\<lambda>t. t = 0) node_layout (cstrider_type_init node_arrays []) node_heap"
  have E: "perf_funs node_env = funct_ptr_funs" "gen_arrays node_env = node_arrays"
    "cstrider_is_prim node_env = (\<lambda>t. t = 0)" "heap node_state = node_heap"
    by (simp_all add: node_env_def node_state_def)
  have roots: "all_roots node_env (\<lambda>_. [(4096, 2)]) node_state = [(4096, 2)]"
    by (simp add: all_roots_def node_env_def node_state_def start_state_def tbl_iter_def)
  have W: "total_weight node_weight node_objs + total_weight node_weight [(4096, 2)] = 14"
    by (simp add: total_weight_def node_objs_def node_weight_def)
  have L: "l \<in> set node_locations" if "reach ?nx [(4096, 2)] l" for l
    using that node_closed
    by (elim reach_closed [rotated 2, where P = "\<lambda>l. l \<in> set node_locations"])
      (auto simp: list_all_iff, simp add: node_locations_def)
  have nxt: "?nx (4096, 2) = [(8192, 1)]" "?nx (8192, 1) = [(8192, 0), (8200, 2)]" "?nx (8200, 2) = [(12288, 1)]"
    by code_simp+
  have "reach ?nx [(4096, 2)] (4096, 2)" by (rule reach_root) simp_all
  then have "reach ?nx [(4096, 2)] (8192, 1)" by (rule reach_next) (simp add: nxt)
  then have "reach ?nx [(4096, 2)] (8200, 2)" by (rule reach_next) (simp add: nxt)
  then have r: "reach ?nx [(4096, 2)] (12288, 1)" by (rule reach_next) (simp add: nxt)
  have "\<exists>s'. traverse 20 20 node_env node_state = Inr s' \<and> heap s' = heap node_state
    \<and> (\<forall>l. reach (succs (cstrider_is_prim node_env) node_layout (cstrider_type_init (gen_arrays node_env) []) (heap node_state))
              (all_roots node_env (\<lambda>_. [(4096, 2)]) node_state) l \<longrightarrow> l \<in> set (seen s'))
    \<and> length (seen s') \<le> total_weight node_weight node_objs + total_weight node_weight (all_roots node_env (\<lambda>_. [(4096, 2)]) node_state)
    \<and> ready s'"
  proof (rule traversal_complete)
    show "fits (cstrider_is_prim node_env) node_layout (cstrider_type_init (gen_arrays node_env) []) (heap node_state)
        node_objs node_weight l"
      if "reach (succs (cstrider_is_prim node_env) node_layout (cstrider_type_init (gen_arrays node_env) []) (heap node_state))
        (all_roots node_env (\<lambda>_. [(4096, 2)]) node_state) l" for l
      using L [of l] that node_closed unfolding roots E by (auto simp: list_all_iff)
    show "observing_service (perf_funs node_env)" unfolding E by (rule fp.observing_service_axioms)
    show "cstrider_register_init node_env node_state = Inr (node_state\<lparr>name_to_addr_hash := [], addr_to_name_hash := []\<rparr>)"
      by (simp add: node_env_def node_state_def start_state_def)
  next
    show "total_weight node_weight node_objs + total_weight node_weight (all_roots node_env (\<lambda>_. [(4096, 2)]) node_state) \<le> 20"
      "total_weight node_weight node_objs + total_weight node_weight (all_roots node_env (\<lambda>_. [(4096, 2)]) node_state) < 20"
      "total_weight node_weight node_objs + total_weight node_weight (all_roots node_env (\<lambda>_. [(4096, 2)]) node_state) \<le> nat QUEUESIZE"
      unfolding roots W by (simp_all add: QUEUESIZE_def)
  qed (simp_all add: node_env_def node_state_def start_state_def ready_def node_objs_def node_weight_def)
  then show ?thesis using r unfolding roots E W by blast
qed

end
