(* ===== verification/Split.thy ===== *)
theory Split
  imports Coverage
begin

text \<open>
  The splitting of arrays in a parallel traversal (\<open>transform_split_array\<close> of
  src/src/transform.c): the tasks and the part that is visited at once cover the array,
  element by element.
\<close>

subsection \<open>Parts of an array\<close>

text \<open>\<open>k\<close> elements of an array from element \<open>i\<close> on.\<close>

definition slice :: "type_hash_entry \<Rightarrow> addr \<Rightarrow> nat \<Rightarrow> nat \<Rightarrow> location list" where
  "slice te a i k = map (\<lambda>j. (a + of_nat j * scast (size_of_entry te), arrbase te)) [i..<i + k]"

lemma slice_append: "slice te a i k @ slice te a (i + k) m = slice te a i (k + m)"
proof -
  have "[i..<i + (k + m)] = [i..<i + k] @ [i + k..<i + k + m]"
    by (metis add.assoc le_add1 upt_add_eq_append)
  then show ?thesis by (simp add: slice_def)
qed

lemma elements_slice:
  assumes "arrlen te = of_nat n" "n < 2 ^ 31"
  shows "elements te a = slice te a 0 n"
  using assms unat_scast_nonneg [of "arrlen te"] nonneg_i32_of_nat(1) [OF assms(2)]
  by (simp add: elements_def slice_def)

lemma slice_shift:
  assumes "size_of_entry te' = size_of_entry te" "arrbase te' = arrbase te"
  shows "slice te' (a + scast (size_of_entry te) * of_nat i) 0 k = slice te a i k"
  unfolding slice_def map_upt_shift [of _ i k] using assms by (simp add: algebra_simps)

lemma slices_concat:
  "concat (map (\<lambda>i. slice te a (i * m) m) [0..<k]) = slice te a 0 (k * m)"
proof (induction k)
  case 0
  then show ?case by (simp add: slice_def)
next
  case (Suc k)
  then show ?case using slice_append [of te a 0 "k * m" m] by (simp add: add.commute)
qed

text \<open>The arithmetic of \<open>transform_split_array\<close> on a count \<open>n\<close> of at least \<open>SPLIT\<close>.\<close>

lemma split_arith:
  assumes "4 \<le> n" "n < 2 ^ 31"
  shows "ucast ((scast (of_nat n :: i32) :: 64 word) div of_nat 4) = (of_nat (n div 4) :: i32)"
    "scast (of_nat (n div 4) :: i32) = (of_nat (n div 4) :: 64 word)"
    "ucast (scast (of_nat n :: i32) :: 64 word) - of_nat 3 * of_nat (n div 4) = (of_nat (n - 3 * (n div 4)) :: i32)"
    "\<not> (scast (of_nat n :: i32) :: 64 word) < of_nat 4"
proof -
  have q: "n div 4 < 2 ^ 31" "3 * (n div 4) \<le> n" using assms(2) by auto
  show "ucast ((scast (of_nat n :: i32) :: 64 word) div of_nat 4) = (of_nat (n div 4) :: i32)"
  proof -
    have d: "(scast (of_nat n :: i32) :: 64 word) div of_nat 4 = of_nat (n div 4)"
      unfolding scast_of_nat_i32 [OF assms(2)] by (rule word_of_nat_div) (use assms(2) in simp_all)
    show ?thesis unfolding d by (rule ucast_of_nat_64) (use q(1) in simp)
  qed
  show "scast (of_nat (n div 4) :: i32) = (of_nat (n div 4) :: 64 word)"
    using q(1) by (rule scast_of_nat_i32)
  show "\<not> (scast (of_nat n :: i32) :: 64 word) < of_nat 4"
    using assms by (simp add: scast_of_nat_i32 word_less_nat_alt unat_of_nat take_bit_nat_eq_self)
  have "(ucast (scast (of_nat n :: i32) :: 64 word) :: i32) = of_nat n"
    using assms(2) by (simp add: scast_of_nat_i32 ucast_of_nat_64)
  then show "ucast (scast (of_nat n :: i32) :: 64 word) - of_nat 3 * of_nat (n div 4) = (of_nat (n - 3 * (n div 4)) :: i32)"
    using of_nat_diff [OF q(2), where 'a = i32] by (simp only: of_nat_mult)
qed


subsection \<open>Enqueuing in a parallel traversal\<close>

definition queues_free :: "'a queue list \<Rightarrow> nat \<Rightarrow> bool" where
  "queues_free qa n \<longleftrightarrow> queues_ok qa n \<and> list_all (\<lambda>q. queue_mutex q = None) qa"

definition pending :: "'a queue list \<Rightarrow> nat \<Rightarrow> 'a option multiset" where
  "pending qa n = (\<Sum>i<n. mset (qlist (qa ! i)))"

lemma length_le_pending: "i < n \<Longrightarrow> length (qlist (qa ! i)) \<le> size (pending qa n)"
proof -
  assume "i < n"
  then have "pending qa n = mset (qlist (qa ! i)) + (\<Sum>j\<in>{..<n} - {i}. mset (qlist (qa ! j)))"
    unfolding pending_def by (subst sum.remove [of _ i]) auto
  then show ?thesis by simp
qed

lemma pending_update:
  assumes "i < n" "n \<le> length qa"
  shows "pending (qa[i := q]) n + mset (qlist (qa ! i)) = pending qa n + mset (qlist q)"
proof -
  have "pending (qa[i := q]) n = mset (qlist q) + (\<Sum>j\<in>{..<n} - {i}. mset (qlist (qa[i := q] ! j)))"
    unfolding pending_def using assms by (subst sum.remove [of _ i]) auto
  also have "(\<Sum>j\<in>{..<n} - {i}. mset (qlist (qa[i := q] ! j))) = (\<Sum>j\<in>{..<n} - {i}. mset (qlist (qa ! j)))"
    by (rule sum.cong) auto
  finally show ?thesis
    unfolding pending_def using assms by (subst (2) sum.remove [of _ i]) (auto simp: ac_simps)
qed

lemma enqueue_pending:
  assumes free: "queues_free qa n" and room: "size (pending qa n) < nat QUEUESIZE"
  shows "\<exists>qa'. enqueue 1 qa n x = Inr qa' \<and> queues_free qa' n \<and> pending qa' n = add_mset x (pending qa n)"
proof -
  let ?i = "lowest qa n"
  have n: "0 < n" "n \<le> length qa" using free by (simp_all add: queues_free_def queues_ok_def)
  have i: "?i < n" using n(1) by (rule lowest_less)
  have inv: "ring_inv (qa ! ?i)" and mut: "queue_mutex (qa ! ?i) = None"
    using free i n(2) by (auto simp: queues_free_def queues_ok_def list_all_length)
  have "qcount (qa ! ?i) < QUEUESIZE"
    using length_le_pending [OF i, of qa] room inv by (simp add: ring_inv_def)
  then obtain q where q: "enqueue_locked x (qa ! ?i) = Inr q" "ring_inv q" "qlist q = qlist (qa ! ?i) @ [x]"
    "queue_mutex q = None"
    using enqueue_locked_ok [OF inv, of x] mut by metis
  have "pending (qa[?i := q]) n = add_mset x (pending qa n)"
    using pending_update [OF i n(2), of q] q(3) by simp
  moreover have "queues_free (qa[?i := q]) n"
    using free q(2,4) i n(2)
    by (auto simp: queues_free_def queues_ok_def list_all_length nth_list_update_if)
  moreover have "enqueue 1 qa n x = Inr (qa[?i := q])"
    using q(1) mut by (simp add: enqueue_def trylock_busy_def)
  ultimately show ?thesis by blast
qed

subsection \<open>The tasks of a split array\<close>

definition part :: "64 word \<Rightarrow> 64 word \<Rightarrow> 64 word \<Rightarrow> ctyp \<Rightarrow> addr \<Rightarrow> addr \<Rightarrow> nat \<Rightarrow> task" where
  "part sz_in sz_out share ty inp out i =
     \<lparr>task_in = inp + sz_in * of_nat i * share, task_type = ty,
      task_out = out + sz_out * of_nat i * share, issplit = True\<rparr>"

lemma split_loop_ok:
  "is_parallel s \<Longrightarrow> queues_free (queue_array s) NUM_QUEUES \<Longrightarrow>
   size (pending (queue_array s) NUM_QUEUES) + k \<le> nat QUEUESIZE \<Longrightarrow>
   (\<And>j. i \<le> j \<Longrightarrow> j < i + k \<Longrightarrow> inp + sz_in * of_nat j * share \<noteq> 0) \<Longrightarrow>
   \<exists>qa. split_loop k i sz_in sz_out share ty inp out s = Inr (s\<lparr>queue_array := qa\<rparr>)
     \<and> queues_free qa NUM_QUEUES
     \<and> pending qa NUM_QUEUES = pending (queue_array s) NUM_QUEUES
         + mset (map (Some \<circ> part sz_in sz_out share ty inp out) [i..<i + k])"
proof (induction k arbitrary: i s)
  case 0
  then show ?case by (intro exI [of _ "queue_array s"]) simp
next
  case (Suc k)
  let ?x = "part sz_in sz_out share ty inp out i"
  obtain qa where qa: "enqueue 1 (queue_array s) NUM_QUEUES (Some ?x) = Inr qa" "queues_free qa NUM_QUEUES"
    "pending qa NUM_QUEUES = add_mset (Some ?x) (pending (queue_array s) NUM_QUEUES)"
    using enqueue_pending [OF Suc.prems(2), of "Some ?x"] Suc.prems(3) by auto
  have "addtoqueue (transform_make_enq (inp + sz_in * of_nat i * share) ty (out + sz_out * of_nat i * share) True) s
      = Inr (s\<lparr>queue_array := qa\<rparr>)"
    using Suc.prems(1) Suc.prems(4) [of i] qa(1) by (simp add: addtoqueue_def transform_make_enq_def part_def)
  moreover have "\<exists>qa'. split_loop k (Suc i) sz_in sz_out share ty inp out (s\<lparr>queue_array := qa\<rparr>)
      = Inr ((s\<lparr>queue_array := qa\<rparr>)\<lparr>queue_array := qa'\<rparr>) \<and> queues_free qa' NUM_QUEUES
      \<and> pending qa' NUM_QUEUES = pending (queue_array (s\<lparr>queue_array := qa\<rparr>)) NUM_QUEUES
          + mset (map (Some \<circ> part sz_in sz_out share ty inp out) [Suc i..<Suc i + k])"
    by (rule Suc.IH) (use Suc.prems qa in auto)
  moreover have "[i..<i + Suc k] = i # [Suc i..<Suc i + k]" by (simp add: upt_conv_Cons del: upt_Suc)
  ultimately show ?case using qa(3) by (elim exE conjE) (rule exI, auto simp: comp_def simp del: upt_Suc)
qed

subsection \<open>Properties\<close>

text \<open>
  C2: Splitting an array of \<open>n >= 4\<close> elements in a parallel traversal enqueues three tasks and
  goes on with a fourth part; the elements of the three tasks followed by those of the
  fourth part are exactly the elements of the array, in order, none left out and none twice,
  also when \<open>n\<close> is not a multiple of four.
\<close>

theorem split_array_covers:
  assumes par: "is_parallel s" and q: "queues_free (queue_array s) NUM_QUEUES"
    "size (pending (queue_array s) NUM_QUEUES) + 3 \<le> nat QUEUESIZE"
    and te: "get_typeinfo_from_table (type_table_of s) t = Some te" "arrlen te = of_nat n" "4 \<le> n" "n < 2 ^ 31"
    "cstrider_get_out_size (type_table_of s) t = Inr sz_out"
    and spl: "mktyparr (of_nat (n div 4)) pad (arrbase te) (tstate s) = Inr (splittype, ts)"
    and rst: "mktyparr (of_nat (n - 3 * (n div 4))) pad (arrbase te) ts = Inr (resttype, ts')"
    and nonnull: "\<And>i. i < n \<Longrightarrow> inp + scast (size_of_entry te) * of_nat i \<noteq> 0"
  shows "\<exists>s'. let sz = scast (size_of_entry te);
      tasks = map (part sz (scast sz_out) (of_nat (n div 4)) splittype inp out) [0..<3];
      tail = inp + sz * of_nat (3 * (n div 4))
    in transform_split_array pad vis inp t out s
         = transform_array vis tail resttype (out + scast sz_out * of_nat (3 * (n div 4))) s'
     \<and> tstate s' = ts'
     \<and> pending (queue_array s') NUM_QUEUES = pending (queue_array s) NUM_QUEUES + mset (map Some tasks)
     \<and> concat (map (\<lambda>x. elements (te\<lparr>arrlen := of_nat (n div 4)\<rparr>) (task_in x)) tasks)
         @ elements (te\<lparr>arrlen := of_nat (n - 3 * (n div 4))\<rparr>) tail = elements te inp"
proof -
  let ?sz = "scast (size_of_entry te) :: 64 word" and ?m = "n div 4"
  let ?part = "part ?sz (scast sz_out) (of_nat ?m) splittype inp out"
  have ar: "ucast ((scast (arrlen te) :: 64 word) div of_nat SPLIT) = (of_nat ?m :: i32)"
    "scast (of_nat ?m :: i32) = (of_nat ?m :: 64 word)"
    "ucast (scast (arrlen te) :: 64 word) - of_nat (SPLIT - 1) * of_nat ?m = (of_nat (n - 3 * ?m) :: i32)"
    "\<not> (scast (arrlen te) :: 64 word) < of_nat SPLIT"
    using split_arith [OF te(3,4)] by (simp_all only: te(2) SPLIT_def) simp_all
  have nn: "inp + ?sz * of_nat j * of_nat ?m \<noteq> 0" if "j < 3" for j
  proof -
    have "j * ?m \<le> 2 * ?m" using that by simp
    then have "j * ?m < n" using te(3) by linarith
    then show ?thesis using nonnull [of "j * ?m"] by (simp add: mult.assoc)
  qed
  obtain qa where qa: "split_loop 3 0 ?sz (scast sz_out) (of_nat ?m) splittype inp out (s\<lparr>tstate := ts\<rparr>)
      = Inr ((s\<lparr>tstate := ts\<rparr>)\<lparr>queue_array := qa\<rparr>)"
    "pending qa NUM_QUEUES = pending (queue_array s) NUM_QUEUES + mset (map (Some \<circ> ?part) [0..<0 + 3])"
    using split_loop_ok [of "s\<lparr>tstate := ts\<rparr>" 3 0 inp ?sz "of_nat ?m" "scast sz_out" splittype out] par q nn by auto
  have q: "query (type_table_of s) t f = Inr (f te)" for f :: "type_hash_entry \<Rightarrow> 'x" by (simp add: query_def te(1))
  let ?s' = "s\<lparr>queue_array := qa, tstate := ts'\<rparr>"
  have "transform_split_array pad vis inp t out s
      = transform_array vis (inp + ?sz * of_nat 3 * of_nat ?m) resttype (out + scast sz_out * of_nat 3 * of_nat ?m) ?s'"
    using par ar te(5) spl rst qa(1)
    by (simp add: transform_split_array_def query_def te(1) cstrider_get_num_array_elems_def cstrider_get_size_def
        cstrider_get_array_base_type_def Let_def SPLIT_def)
  moreover have "concat (map (\<lambda>x. elements (te\<lparr>arrlen := of_nat ?m\<rparr>) (task_in x)) (map ?part [0..<3]))
      = concat (map (\<lambda>i. slice te inp (i * ?m) ?m) [0..<3])"
  proof -
    have "elements (te\<lparr>arrlen := of_nat ?m\<rparr>) (inp + ?sz * of_nat i * of_nat ?m) = slice te inp (i * ?m) ?m" for i
      using te(4) slice_shift [of "te\<lparr>arrlen := of_nat ?m\<rparr>" te inp "i * ?m" ?m]
      by (simp add: elements_slice [of _ ?m] mult.assoc)
    then show ?thesis by (simp add: part_def comp_def)
  qed
  moreover have "elements (te\<lparr>arrlen := of_nat (n - 3 * ?m)\<rparr>) (inp + ?sz * of_nat (3 * ?m)) = slice te inp (3 * ?m) (n - 3 * ?m)"
    using te(4) slice_shift [of "te\<lparr>arrlen := of_nat (n - 3 * ?m)\<rparr>" te inp "3 * ?m" "n - 3 * ?m"]
    by (simp add: elements_slice [of _ "n - 3 * ?m"])
  moreover have "slice te inp 0 (3 * ?m) @ slice te inp (3 * ?m) (n - 3 * ?m) = elements te inp"
    using slice_append [of te inp 0 "3 * ?m" "n - 3 * ?m"] elements_slice [OF te(2,4)] by simp
  ultimately show ?thesis
    using qa(2) by (intro exI [of _ ?s']) (simp add: Let_def slices_concat mult.assoc multiset.map_comp)
qed

text \<open>An array of ten \<open>int *\<close> at 4096 (type 5) in the table of three types of theory \<open>Types\<close>.\<close>

definition array_entry :: type_hash_entry where
  "array_entry = (example_entry 1 0)\<lparr>type_of_entry := 5, arrlen := 10, arrbase := 1\<rparr>"

definition array_state :: "unit cstate" where
  "array_state = (start_state ())\<lparr>tstate := add_type array_entry example_state, is_parallel := True,
     queue_array := replicate 4 (init_queue zero_queue)\<rparr>"

lemma array_types:
  "(case mktyparr 2 [0, 0, 0, 0] 1 (tstate array_state) of Inl _ \<Rightarrow> False | Inr (a, ts) \<Rightarrow>
     (case mktyparr 4 [0, 0, 0, 0] 1 ts of Inl _ \<Rightarrow> False | Inr (b, ts') \<Rightarrow> True))"
  by code_simp

theorem split_array_covers_witness:
  "\<exists>splittype resttype s'. transform_split_array [0, 0, 0, 0] (\<lambda>_ _ _ s. Inr s) 4096 5 4096 array_state
       = transform_array (\<lambda>_ _ _ s. Inr s) 4144 resttype 4144 s'
     \<and> pending (queue_array s') NUM_QUEUES = mset (map Some (map (part 8 8 2 splittype 4096 4096) [0..<3]))"
proof -
  obtain spl ts where m1: "mktyparr 2 [0, 0, 0, 0] 1 (tstate array_state) = Inr (spl, ts)"
    using array_types by (auto split: sum.splits)
  then obtain rst ts' where m2: "mktyparr 4 [0, 0, 0, 0] 1 ts = Inr (rst, ts')"
    using array_types by (cases "mktyparr 4 [0, 0, 0, 0] 1 ts") auto
  note m = m1 m2
  have nn: "(4096 :: addr) + 8 * of_nat i \<noteq> 0" if "i < 10" for i
  proof -
    have "(4096 :: addr) + 8 * of_nat i = of_nat (4096 + 8 * i)" by simp
    moreover have "(of_nat (4096 + 8 * i) :: addr) \<noteq> of_nat 0"
      using that by (simp only: word_of_nat_eq_iff) (simp add: take_bit_nat_eq_self)
    ultimately show ?thesis by simp
  qed
  have "queues_free (queue_array array_state) NUM_QUEUES" "pending (queue_array array_state) NUM_QUEUES = {#}"
    by (simp_all add: array_state_def queues_free_def queues_ok_def pending_def NUM_QUEUES_def list_all_length)
  moreover have "get_typeinfo_from_table (type_table_of array_state) 5 = Some array_entry"
    "cstrider_get_out_size (type_table_of array_state) 5 = Inr 8" "is_parallel array_state"
    by (simp_all add: array_state_def array_entry_def cstrider_get_out_size_def example_entry_def)
  moreover have "scast (8 :: i32) = (8 :: 64 word)" by simp
  moreover have "arrlen array_entry = of_nat 10" "arrbase array_entry = 1" "size_of_entry array_entry = 8"
    by (simp_all add: array_entry_def example_entry_def)
  ultimately obtain s' where "transform_split_array [0, 0, 0, 0] (\<lambda>_ _ _ s. Inr s) 4096 5 4096 array_state
      = transform_array (\<lambda>_ _ _ s. Inr s) 4144 rst 4144 s'"
    "pending (queue_array s') NUM_QUEUES = mset (map Some (map (part 8 8 2 spl 4096 4096) [0..<3]))"
    using split_array_covers [of array_state 5 array_entry 10 8 "[0, 0, 0, 0]" spl ts rst ts' 4096 4096
        "\<lambda>_ _ _ s. Inr s"] m nn
    by (auto simp: Let_def QUEUESIZE_def multiset.map_comp)
  then show ?thesis by blast
qed

end
