(* ===== verification/Uthash.thy ===== *)
theory Uthash
  imports Hash Table
begin

text \<open>
  The hash table of src/contrib/uthash/uthash.h at the level of its pointers: every element
  carries a handle with the links of the list of all elements (\<open>prev\<close>, \<open>next\<close>) and of its
  bucket's chain (\<open>hh_prev\<close>, \<open>hh_next\<close>). The handle sits at a fixed offset (\<open>hho\<close>) in
  its element, so a handle is named by the address of its element here and
  \<open>ELMT_FROM_HH\<close> is the identity; 0 is NULL. \<open>key\<close> is what the key pointer points to.
  \<open>HASH_FCN\<close> is \<open>HASH_JEN\<close>, and \<open>HASH_BLOOM\<close> and \<open>HASH_EMIT_KEYS\<close> are off, as in
  the build. Allocation succeeds. Loops along links return \<open>None\<close> when they do not return.
\<close>

subsection \<open>State\<close>

record UT_hash_handle =
  prev :: addr
  next_elt :: addr
  hh_prev :: addr
  hh_next :: addr
  hkey :: "byte list"
  keylen :: u32
  hashv :: u32

record UT_hash_bucket =
  hh_head :: addr
  bkt_count :: u32
  expand_mult :: u32

record UT_hash_table =
  buckets :: "UT_hash_bucket list"
  num_buckets :: u32
  log2_num_buckets :: u32
  num_items :: u32
  tail :: addr
  ideal_chain_maxlen :: u32
  nonideal_items :: u32
  ineff_expands :: u32
  noexpand :: u32
  signature :: u32

text \<open>A table: the user's variable \<open>head\<close>, the table it leads to, and the handles of all elements.\<close>

record ut =
  head :: addr
  tbl :: UT_hash_table
  hh :: "addr \<Rightarrow> UT_hash_handle"

definition set_hh :: "addr \<Rightarrow> (UT_hash_handle \<Rightarrow> UT_hash_handle) \<Rightarrow> ut \<Rightarrow> ut" where
  "set_hh e f u = u\<lparr>hh := (hh u)(e := f (hh u e))\<rparr>"

definition set_tbl :: "(UT_hash_table \<Rightarrow> UT_hash_table) \<Rightarrow> ut \<Rightarrow> ut" where
  "set_tbl f u = u\<lparr>tbl := f (tbl u)\<rparr>"

definition set_bkt :: "nat \<Rightarrow> (UT_hash_bucket \<Rightarrow> UT_hash_bucket) \<Rightarrow> UT_hash_bucket list \<Rightarrow> UT_hash_bucket list" where
  "set_bkt i f bs = bs[i := f (bs ! i)]"

subsection \<open>Find\<close>

definition HASH_INITIAL_NUM_BUCKETS :: u32 where "HASH_INITIAL_NUM_BUCKETS = 32"

definition HASH_INITIAL_NUM_BUCKETS_LOG2 :: u32 where "HASH_INITIAL_NUM_BUCKETS_LOG2 = 5"

definition HASH_BKT_CAPACITY_THRESH :: u32 where "HASH_BKT_CAPACITY_THRESH = 10"

definition HASH_KEYCMP :: "byte list \<Rightarrow> byte list \<Rightarrow> nat \<Rightarrow> bool" where
  "HASH_KEYCMP a b len = (take len a \<noteq> take len b)"

definition hh_matches :: "byte list \<Rightarrow> UT_hash_handle \<Rightarrow> bool" where
  "hh_matches key h \<longleftrightarrow> keylen h = of_nat (length key) \<and> \<not> HASH_KEYCMP (hkey h) key (length key)"

partial_function (option) HASH_FIND_IN_BKT :: "(addr \<Rightarrow> UT_hash_handle) \<Rightarrow> byte list \<Rightarrow> addr \<Rightarrow> addr option" where
  [code]: "HASH_FIND_IN_BKT h key out =
     (if out = 0 then Some 0
      else if hh_matches key (h out) then Some out
      else HASH_FIND_IN_BKT h key (hh_next (h out)))"

definition HASH_FIND :: "byte list \<Rightarrow> ut \<Rightarrow> addr option" where
  "HASH_FIND key u =
     (if head u = 0 then Some 0
      else
        let bkt = HASH_TO_BKT (HASH_JEN key) (num_buckets (tbl u))
        in HASH_FIND_IN_BKT (hh u) key (hh_head (buckets (tbl u) ! unat bkt)))"

subsection \<open>Expansion\<close>

text \<open>
  One round of the inner loop of \<open>HASH_EXPAND_BUCKETS\<close> moves the handle \<open>thh\<close> to the front
  of its new bucket. A division by zero in it is \<open>None\<close>, too.
\<close>

definition empty_bucket :: UT_hash_bucket where
  "empty_bucket = \<lparr>hh_head = 0, bkt_count = 0, expand_mult = 0\<rparr>"

definition he_move :: "addr \<Rightarrow> UT_hash_bucket list \<times> ut \<Rightarrow> (UT_hash_bucket list \<times> ut) option" where
  "he_move thh = (\<lambda>(nb, u).
     let bkt = unat (HASH_TO_BKT (hashv (hh u thh)) (num_buckets (tbl u) * 2));
         nb = set_bkt bkt (\<lambda>b. b\<lparr>bkt_count := bkt_count b + 1\<rparr>) nb;
         ideal = ideal_chain_maxlen (tbl u);
         cnt = bkt_count (nb ! bkt)
     in if cnt > ideal \<and> ideal = 0 then None
        else
          let u = (if cnt > ideal then set_tbl (\<lambda>t. t\<lparr>nonideal_items := nonideal_items t + 1\<rparr>) u else u);
              nb = (if cnt > ideal then set_bkt bkt (\<lambda>b. b\<lparr>expand_mult := cnt div ideal\<rparr>) nb else nb);
              first = hh_head (nb ! bkt);
              u = set_hh thh (\<lambda>h. h\<lparr>hh_prev := 0, hh_next := first\<rparr>) u;
              u = (if first \<noteq> 0 then set_hh first (\<lambda>h. h\<lparr>hh_prev := thh\<rparr>) u else u);
              nb = set_bkt bkt (\<lambda>b. b\<lparr>hh_head := thh\<rparr>) nb
          in Some (nb, u))"

partial_function (option) he_chain :: "addr \<Rightarrow> UT_hash_bucket list \<times> ut \<Rightarrow> (UT_hash_bucket list \<times> ut) option" where
  [code]: "he_chain thh s =
     (if thh = 0 then Some s
      else let hh_nxt = hh_next (hh (snd s) thh)
           in Option.bind (he_move thh s) (he_chain hh_nxt))"

fun he_buckets :: "nat list \<Rightarrow> UT_hash_bucket list \<times> ut \<Rightarrow> (UT_hash_bucket list \<times> ut) option" where
  "he_buckets [] s = Some s"
| "he_buckets (i # is) s =
     Option.bind (he_chain (hh_head (buckets (tbl (snd s)) ! i)) s) (he_buckets is)"

definition HASH_EXPAND_BUCKETS :: "ut \<Rightarrow> ut option" where
  "HASH_EXPAND_BUCKETS u =
     (let t = tbl u;
          new_buckets = replicate (unat (2 * num_buckets t)) empty_bucket;
          u = set_tbl (\<lambda>t. t\<lparr>
                ideal_chain_maxlen := drop_bit (unat (log2_num_buckets t + 1)) (num_items t)
                  + (if num_items t AND (num_buckets t * 2 - 1) \<noteq> 0 then 1 else 0),
                nonideal_items := 0\<rparr>) u
      in Option.bind (he_buckets [0..<unat (num_buckets t)] (new_buckets, u)) (\<lambda>(nb, u).
           let u = set_tbl (\<lambda>t. t\<lparr>num_buckets := num_buckets t * 2, log2_num_buckets := log2_num_buckets t + 1,
                 buckets := nb,
                 ineff_expands := (if nonideal_items t > drop_bit 1 (num_items t) then ineff_expands t + 1 else 0)\<rparr>) u
           in Some (if ineff_expands (tbl u) > 1 then set_tbl (\<lambda>t. t\<lparr>noexpand := 1\<rparr>) u else u)))"

subsection \<open>Add and delete\<close>

definition HASH_SIGNATURE :: u32 where "HASH_SIGNATURE = 0xa0111fe1"

definition HASH_MAKE_TABLE :: "ut \<Rightarrow> ut" where
  "HASH_MAKE_TABLE u = u\<lparr>tbl := \<lparr>buckets = replicate (unat HASH_INITIAL_NUM_BUCKETS) empty_bucket,
     num_buckets = HASH_INITIAL_NUM_BUCKETS, log2_num_buckets = HASH_INITIAL_NUM_BUCKETS_LOG2, num_items = 0,
     tail = head u, ideal_chain_maxlen = 0, nonideal_items = 0, ineff_expands = 0, noexpand = 0,
     signature = HASH_SIGNATURE\<rparr>\<rparr>"

definition link_in_bkt :: "nat \<Rightarrow> addr \<Rightarrow> ut \<Rightarrow> ut" where
  "link_in_bkt i add u =
     (let u = set_tbl (\<lambda>t. t\<lparr>buckets := set_bkt i (\<lambda>b. b\<lparr>bkt_count := bkt_count b + 1\<rparr>) (buckets t)\<rparr>) u;
          first = hh_head (buckets (tbl u) ! i);
          u = set_hh add (\<lambda>h. h\<lparr>hh_next := first, hh_prev := 0\<rparr>) u;
          u = (if first \<noteq> 0 then set_hh first (\<lambda>h. h\<lparr>hh_prev := add\<rparr>) u else u)
      in set_tbl (\<lambda>t. t\<lparr>buckets := set_bkt i (\<lambda>b. b\<lparr>hh_head := add\<rparr>) (buckets t)\<rparr>) u)"

definition HASH_ADD_TO_BKT :: "nat \<Rightarrow> addr \<Rightarrow> ut \<Rightarrow> ut option" where
  "HASH_ADD_TO_BKT i add u =
     (let u = link_in_bkt i add u;
          b = buckets (tbl u) ! i
      in if bkt_count b \<ge> (expand_mult b + 1) * HASH_BKT_CAPACITY_THRESH \<and> noexpand (tbl u) \<noteq> 1
         then HASH_EXPAND_BUCKETS u else Some u)"

definition link_last :: "addr \<Rightarrow> ut \<Rightarrow> ut" where
  "link_last add u =
     (if head u = 0 then HASH_MAKE_TABLE (set_hh add (\<lambda>h. h\<lparr>prev := 0\<rparr>) (u\<lparr>head := add\<rparr>))
      else
        let u = set_hh (tail (tbl u)) (\<lambda>h. h\<lparr>next_elt := add\<rparr>) u;
            u = set_hh add (\<lambda>h. h\<lparr>prev := tail (tbl u)\<rparr>) u
        in set_tbl (\<lambda>t. t\<lparr>tail := add\<rparr>) u)"

definition HASH_ADD_KEYPTR :: "byte list \<Rightarrow> addr \<Rightarrow> ut \<Rightarrow> ut option" where
  "HASH_ADD_KEYPTR key add u =
     (let u = set_hh add (\<lambda>h. h\<lparr>next_elt := 0, hkey := key, keylen := of_nat (length key)\<rparr>) u;
          u = link_last add u;
          u = set_tbl (\<lambda>t. t\<lparr>num_items := num_items t + 1\<rparr>) u;
          u = set_hh add (\<lambda>h. h\<lparr>hashv := HASH_JEN key\<rparr>) u;
          bkt = HASH_TO_BKT (HASH_JEN key) (num_buckets (tbl u))
      in HASH_ADD_TO_BKT (unat bkt) add u)"

definition HASH_DEL_IN_BKT :: "nat \<Rightarrow> addr \<Rightarrow> ut \<Rightarrow> ut" where
  "HASH_DEL_IN_BKT i del u =
     (let u = set_tbl (\<lambda>t. t\<lparr>buckets := set_bkt i (\<lambda>b. b\<lparr>bkt_count := bkt_count b - 1\<rparr>) (buckets t)\<rparr>) u;
          u = (if hh_head (buckets (tbl u) ! i) = del
               then set_tbl (\<lambda>t. t\<lparr>buckets := set_bkt i (\<lambda>b. b\<lparr>hh_head := hh_next (hh u del)\<rparr>) (buckets t)\<rparr>) u
               else u);
          u = (if hh_prev (hh u del) \<noteq> 0
               then set_hh (hh_prev (hh u del)) (\<lambda>h. h\<lparr>hh_next := hh_next (hh u del)\<rparr>) u else u)
      in if hh_next (hh u del) \<noteq> 0
         then set_hh (hh_next (hh u del)) (\<lambda>h. h\<lparr>hh_prev := hh_prev (hh u del)\<rparr>) u else u)"

definition unlink :: "addr \<Rightarrow> ut \<Rightarrow> ut" where
  "unlink del u =
     (let u = (if del = tail (tbl u) then set_tbl (\<lambda>t. t\<lparr>tail := prev (hh u del)\<rparr>) u else u);
          u = (if prev (hh u del) \<noteq> 0
               then set_hh (prev (hh u del)) (\<lambda>h. h\<lparr>next_elt := next_elt (hh u del)\<rparr>) u
               else u\<lparr>head := next_elt (hh u del)\<rparr>)
      in if next_elt (hh u del) \<noteq> 0
         then set_hh (next_elt (hh u del)) (\<lambda>h. h\<lparr>prev := prev (hh u del)\<rparr>) u else u)"

definition HASH_DELETE :: "addr \<Rightarrow> ut \<Rightarrow> ut" where
  "HASH_DELETE delptr u =
     (if prev (hh u delptr) = 0 \<and> next_elt (hh u delptr) = 0 then u\<lparr>head := 0\<rparr>
      else
        let u = unlink delptr u;
            bkt = HASH_TO_BKT (hashv (hh u delptr)) (num_buckets (tbl u));
            u = HASH_DEL_IN_BKT (unat bkt) delptr u
        in set_tbl (\<lambda>t. t\<lparr>num_items := num_items t - 1\<rparr>) u)"

definition HASH_COUNT :: "ut \<Rightarrow> u32" where
  "HASH_COUNT u = (if head u = 0 then 0 else num_items (tbl u))"

definition HASH_CLEAR :: "ut \<Rightarrow> ut" where
  "HASH_CLEAR u = u\<lparr>head := 0\<rparr>"

text \<open>\<open>HASH_ITER\<close> fetches the successor before the body runs; the elements in its order.\<close>

partial_function (option) HASH_ITER :: "(addr \<Rightarrow> UT_hash_handle) \<Rightarrow> addr \<Rightarrow> addr list option" where
  [code]: "HASH_ITER h el =
     (if el = 0 then Some [] else Option.bind (HASH_ITER h (next_elt (h el))) (\<lambda>els. Some (el # els)))"

subsection \<open>The integrity check\<close>

text \<open>
  \<open>HASH_FSCK\<close>, which a build with \<open>HASH_DEBUG\<close> runs after every change: \<open>Some False\<close> is a
  call of \<open>HASH_OOPS\<close>. The loops return the number of elements they counted, or \<open>None\<close>
  inside \<open>Some\<close> for \<open>HASH_OOPS\<close>.
\<close>

partial_function (option) fsck_chain :: "(addr \<Rightarrow> UT_hash_handle) \<Rightarrow> addr \<Rightarrow> addr \<Rightarrow> u32 \<Rightarrow> u32 option option" where
  [code]: "fsck_chain h pv thh cnt =
     (if thh = 0 then Some (Some cnt)
      else if pv \<noteq> hh_prev (h thh) then Some None
      else fsck_chain h thh (hh_next (h thh)) (cnt + 1))"

fun fsck_buckets :: "(addr \<Rightarrow> UT_hash_handle) \<Rightarrow> UT_hash_bucket list \<Rightarrow> u32 \<Rightarrow> u32 option option" where
  "fsck_buckets h [] cnt = Some (Some cnt)"
| "fsck_buckets h (b # bs) cnt =
     Option.bind (fsck_chain h 0 (hh_head b) 0) (\<lambda>r. case r of
       None \<Rightarrow> Some None
     | Some bkt_cnt \<Rightarrow> if bkt_count b \<noteq> bkt_cnt then Some None else fsck_buckets h bs (cnt + bkt_cnt))"

partial_function (option) fsck_list :: "(addr \<Rightarrow> UT_hash_handle) \<Rightarrow> addr \<Rightarrow> addr \<Rightarrow> u32 \<Rightarrow> u32 option option" where
  [code]: "fsck_list h pv thh cnt =
     (if thh = 0 then Some (Some cnt)
      else if pv \<noteq> prev (h thh) then Some None
      else fsck_list h thh (next_elt (h thh)) (cnt + 1))"

definition HASH_FSCK :: "ut \<Rightarrow> bool option" where
  "HASH_FSCK u =
     (if head u = 0 then Some True
      else
        Option.bind (fsck_buckets (hh u) (take (unat (num_buckets (tbl u))) (buckets (tbl u))) 0) (\<lambda>r.
          if r \<noteq> Some (num_items (tbl u)) then Some False
          else Option.bind (fsck_list (hh u) 0 (head u) 0) (\<lambda>r. Some (r = Some (num_items (tbl u))))))"

subsection \<open>Doubly linked lists\<close>

definition hd0 :: "addr list \<Rightarrow> addr \<Rightarrow> addr" where
  "hd0 xs q = (case xs of [] \<Rightarrow> q | x # _ \<Rightarrow> x)"

definition last0 :: "addr \<Rightarrow> addr list \<Rightarrow> addr" where
  "last0 p xs = (if xs = [] then p else last xs)"

text \<open>The elements \<open>xs\<close> linked both ways, between the predecessor \<open>p\<close> and the successor \<open>q\<close>.\<close>

fun dls :: "(addr \<Rightarrow> addr) \<Rightarrow> (addr \<Rightarrow> addr) \<Rightarrow> addr \<Rightarrow> addr list \<Rightarrow> addr \<Rightarrow> bool" where
  "dls nx pv p [] q = True"
| "dls nx pv p (x # xs) q \<longleftrightarrow> x \<noteq> 0 \<and> pv x = p \<and> nx x = hd0 xs q \<and> dls nx pv x xs q"

lemma hd0_simps [simp]: "hd0 [] q = q" "hd0 (x # xs) q = x" "hd0 (xs @ ys) q = hd0 xs (hd0 ys q)"
  by (simp_all add: hd0_def split: list.split)

lemma last0_simps [simp]: "last0 p [] = p" "last0 p (x # xs) = last0 x xs" "last0 p (xs @ ys) = last0 (last0 p xs) ys"
  by (auto simp: last0_def)

lemma dls_append: "dls nx pv p (xs @ ys) q \<longleftrightarrow> dls nx pv p xs (hd0 ys q) \<and> dls nx pv (last0 p xs) ys q"
  by (induction xs arbitrary: p) auto

lemma dls_cong:
  "(\<And>x. x \<in> set xs \<Longrightarrow> nx' x = nx x \<and> pv' x = pv x) \<Longrightarrow> dls nx' pv' p xs q = dls nx pv p xs q"
  by (induction xs arbitrary: p) auto

lemma dls_nonzero: "dls nx pv p xs q \<Longrightarrow> x \<in> set xs \<Longrightarrow> x \<noteq> 0"
  by (induction xs arbitrary: p) auto

lemma dls_hd0_zero: "dls nx pv p xs 0 \<Longrightarrow> hd0 xs 0 = 0 \<longleftrightarrow> xs = []"
  by (cases xs) auto

lemma dls_last0_zero: "dls nx pv 0 xs q \<Longrightarrow> last0 0 xs = 0 \<longleftrightarrow> xs = []"
  using dls_nonzero [of nx pv 0 xs q] by (cases xs rule: rev_cases) (auto simp: last0_def)

lemma dls_upd [simp]:
  "y \<notin> set xs \<Longrightarrow> dls (nx(y := v)) pv p xs q = dls nx pv p xs q"
  "y \<notin> set xs \<Longrightarrow> dls nx (pv(y := v)) p xs q = dls nx pv p xs q"
  by (rule dls_cong; auto)+

lemma dls_set_next:
  assumes "dls nx pv p (xs @ [x]) q" "distinct (xs @ [x])"
  shows "dls (nx(x := q')) pv p (xs @ [x]) q'"
  using assms by (simp add: dls_append)

lemma dls_set_prev:
  assumes "dls nx pv p (x # xs) q" "distinct (x # xs)"
  shows "dls nx (pv(x := p')) p' (x # xs) q"
  using assms by simp

text \<open>Removing an element: its neighbours are linked to each other.\<close>

lemma dls_remove:
  assumes d: "dls nx pv 0 (xs @ e # ys) 0" and dist: "distinct (xs @ e # ys)"
  shows "dls (if pv e \<noteq> 0 then nx(pv e := nx e) else nx) (if nx e \<noteq> 0 then pv(nx e := pv e) else pv) 0 (xs @ ys) 0"
proof (cases xs rule: rev_cases)
  case Nil
  then show ?thesis using d dist by (cases ys) auto
next
  case (snoc xs' x)
  then show ?thesis using d dist by (cases ys) (auto simp: dls_append)
qed

text \<open>Pushing an element at the front and at the end.\<close>

lemma dls_push:
  assumes "dls nx pv 0 xs 0" "e \<notin> set xs" "e \<noteq> 0" "distinct xs"
  shows "dls (nx(e := hd0 xs 0)) (if hd0 xs 0 \<noteq> 0 then (pv(e := 0))(hd0 xs 0 := e) else pv(e := 0)) 0 (e # xs) 0"
  using assms by (cases xs) auto

lemma dls_snoc:
  assumes "dls nx pv 0 xs 0" "e \<notin> set xs" "e \<noteq> 0" "distinct xs" "xs \<noteq> []"
  shows "dls ((nx(e := 0))(last xs := e)) (pv(e := last xs)) 0 (xs @ [e]) 0"
  using assms by (cases xs rule: rev_cases) (auto simp: dls_append)

subsection \<open>Chains\<close>

definition chain :: "(addr \<Rightarrow> UT_hash_handle) \<Rightarrow> UT_hash_bucket \<Rightarrow> addr list \<Rightarrow> bool" where
  "chain h b xs \<longleftrightarrow> hh_head b = hd0 xs 0 \<and> dls (\<lambda>e. hh_next (h e)) (\<lambda>e. hh_prev (h e)) 0 xs 0
     \<and> bkt_count b = of_nat (length xs) \<and> distinct xs"

definition bkt_of :: "u32 \<Rightarrow> UT_hash_handle \<Rightarrow> nat" where
  "bkt_of n h = unat (HASH_TO_BKT (hashv h) n)"

text \<open>The elements \<open>E\<close> are in the chains of their buckets.\<close>

definition chains :: "(addr \<Rightarrow> UT_hash_handle) \<Rightarrow> u32 \<Rightarrow> UT_hash_bucket list \<Rightarrow> addr set \<Rightarrow> bool" where
  "chains h n bs E \<longleftrightarrow> (\<forall>i < length bs. \<exists>xs. chain h (bs ! i) xs \<and> set xs = {e \<in> E. bkt_of n (h e) = i})"

text \<open>The fields of a handle that have nothing to do with chains.\<close>

definition core :: "UT_hash_handle \<Rightarrow> addr \<times> addr \<times> byte list \<times> u32 \<times> u32" where
  "core h = (prev h, next_elt h, hkey h, keylen h, hashv h)"

lemma bkt_of_core: "core h = core h' \<Longrightarrow> bkt_of n h = bkt_of n h'"
  by (simp add: bkt_of_def core_def)

text \<open>What putting \<open>e\<close> in front of \<open>first\<close> does to the handles.\<close>

definition push_links :: "addr \<Rightarrow> addr \<Rightarrow> (addr \<Rightarrow> UT_hash_handle) \<Rightarrow> addr \<Rightarrow> UT_hash_handle" where
  "push_links e first h =
     (let h = h(e := (h e)\<lparr>hh_next := first, hh_prev := 0\<rparr>)
      in if first \<noteq> 0 then h(first := (h first)\<lparr>hh_prev := e\<rparr>) else h)"

lemma core_push_links [simp]: "core (push_links e first h x) = core (h x)"
  by (simp add: core_def push_links_def Let_def)

lemma bkt_of_push_links [simp]: "bkt_of n (push_links e first h x) = bkt_of n (h x)"
  by (rule bkt_of_core) simp

lemma push_links_other: "x \<noteq> e \<Longrightarrow> x \<noteq> first \<Longrightarrow> push_links e first h x = h x"
  by (simp add: push_links_def Let_def)

lemma push_links_next:
  "(\<lambda>x. hh_next (push_links e first h x)) = (\<lambda>x. hh_next (h x))(e := first)"
  by (auto simp: push_links_def Let_def fun_eq_iff)

lemma push_links_prev:
  "(\<lambda>x. hh_prev (push_links e first h x))
     = (if first \<noteq> 0 then ((\<lambda>x. hh_prev (h x))(e := 0))(first := e) else (\<lambda>x. hh_prev (h x))(e := 0))"
  by (auto simp: push_links_def Let_def fun_eq_iff)

lemma chain_push:
  assumes "chain h b xs" "e \<notin> set xs" "e \<noteq> 0" "hh_head b' = e" "bkt_count b' = bkt_count b + 1"
  shows "chain (push_links e (hh_head b) h) b' (e # xs)"
proof -
  have c: "hh_head b = hd0 xs 0" "dls (\<lambda>x. hh_next (h x)) (\<lambda>x. hh_prev (h x)) 0 xs 0" "distinct xs"
    "bkt_count b = of_nat (length xs)"
    using assms(1) unfolding chain_def by blast+
  have "dls (\<lambda>x. hh_next (push_links e (hh_head b) h x)) (\<lambda>x. hh_prev (push_links e (hh_head b) h x)) 0 (e # xs) 0"
    unfolding push_links_next push_links_prev c(1) by (rule dls_push [OF c(2) assms(2,3) c(3)])
  then show ?thesis using assms(2,4,5) c(3,4) unfolding chain_def by (simp del: dls.simps)
qed

lemma chain_other:
  "chain h b xs \<Longrightarrow> (\<And>x. x \<in> set xs \<Longrightarrow> h' x = h x) \<Longrightarrow> chain h' b xs"
  unfolding chain_def by (subst dls_cong [of xs "\<lambda>e. hh_next (h' e)" "\<lambda>e. hh_next (h e)" "\<lambda>e. hh_prev (h' e)" "\<lambda>e. hh_prev (h e)"]) auto

lemma chain_first: "chain h b xs \<Longrightarrow> hh_head b \<noteq> 0 \<Longrightarrow> hh_head b \<in> set xs"
  unfolding chain_def by (cases xs) auto

lemma chains_push:
  assumes c: "chains h n bs E" and e: "e \<notin> E" "e \<noteq> 0" and i: "bkt_of n (h e) = i" "i < length bs"
    and b': "hh_head b' = e" "bkt_count b' = bkt_count (bs ! i) + 1"
  shows "chains (push_links e (hh_head (bs ! i)) h) n (bs[i := b']) (insert e E)"
  unfolding chains_def
proof (intro allI impI)
  fix j assume j: "j < length (bs[i := b'])"
  let ?h = "push_links e (hh_head (bs ! i)) h"
  obtain xi where xi: "chain h (bs ! i) xi" "set xi = {e \<in> E. bkt_of n (h e) = i}" using c i(2) unfolding chains_def by blast
  show "\<exists>xs. chain ?h (bs[i := b'] ! j) xs \<and> set xs = {x \<in> insert e E. bkt_of n (?h x) = j}"
  proof (cases "j = i")
    case True
    have "chain ?h b' (e # xi)" using chain_push [OF xi(1) _ e(2) b'] xi(2) e(1) by simp
    then show ?thesis using True i xi(2) by (intro exI [of _ "e # xi"]) auto
  next
    case False
    obtain xj where xj: "chain h (bs ! j) xj" "set xj = {e \<in> E. bkt_of n (h e) = j}"
      using c j unfolding chains_def by auto
    have "?h x = h x" if "x \<in> set xj" for x
    proof (rule push_links_other)
      show "x \<noteq> e" using that xj(2) e(1) by auto
      show "x \<noteq> hh_head (bs ! i)"
      proof
        assume "x = hh_head (bs ! i)"
        moreover have "x \<noteq> 0" using that xj(1) dls_nonzero unfolding chain_def by metis
        ultimately have "x \<in> set xi" using chain_first [OF xi(1)] by simp
        then show False using that xi(2) xj(2) False by auto
      qed
    qed
    then have "chain ?h (bs ! j) xj" by (rule chain_other [OF xj(1)])
    then show ?thesis using False i xj(2) by (intro exI [of _ xj]) auto
  qed
qed

subsection \<open>Expansion keeps the elements\<close>

lemma set_bkt_simps [simp]:
  "length (set_bkt i f bs) = length bs"
  "i < length bs \<Longrightarrow> set_bkt i f bs ! i = f (bs ! i)"
  "i < length bs \<Longrightarrow> set_bkt i f (set_bkt i g bs) = set_bkt i (\<lambda>b. f (g b)) bs"
  by (simp_all add: set_bkt_def)

lemma hh_links_commute: "h\<lparr>hh_prev := a, hh_next := b\<rparr> = h\<lparr>hh_next := b, hh_prev := a\<rparr>"
  for h :: UT_hash_handle
  by simp

lemma push_links_ut:
  "(if first \<noteq> 0 then set_hh first (\<lambda>h. h\<lparr>hh_prev := e\<rparr>) (set_hh e (\<lambda>h. h\<lparr>hh_next := first, hh_prev := 0\<rparr>) u)
    else set_hh e (\<lambda>h. h\<lparr>hh_next := first, hh_prev := 0\<rparr>) u) = u\<lparr>hh := push_links e first (hh u)\<rparr>"
  by (simp_all add: set_hh_def push_links_def Let_def)

lemma he_move_spec:
  assumes c: "chains (hh u) n nb M" and n: "n = num_buckets (tbl u) * 2" and e: "x \<notin> M" "x \<noteq> 0"
    and i: "i = bkt_of n (hh u x)" "i < length nb" and ideal: "ideal_chain_maxlen (tbl u) \<noteq> 0"
  shows "\<exists>nb' k. he_move x (nb, u)
      = Some (nb', u\<lparr>tbl := (tbl u)\<lparr>nonideal_items := k\<rparr>, hh := push_links x (hh_head (nb ! i)) (hh u)\<rparr>)
    \<and> chains (push_links x (hh_head (nb ! i)) (hh u)) n nb' (insert x M) \<and> length nb' = length nb"
proof -
  let ?first = "hh_head (nb ! i)"
  let ?cnt = "bkt_count (nb ! i) + 1"
  let ?ideal = "ideal_chain_maxlen (tbl u)"
  define b where "b = (if ?cnt > ?ideal
      then (nb ! i)\<lparr>bkt_count := ?cnt, expand_mult := ?cnt div ?ideal, hh_head := x\<rparr>
      else (nb ! i)\<lparr>bkt_count := ?cnt, hh_head := x\<rparr>)"
  let ?k = "if ?cnt > ?ideal then nonideal_items (tbl u) + 1 else nonideal_items (tbl u)"
  have "he_move x (nb, u) = Some (nb[i := b],
      u\<lparr>tbl := (tbl u)\<lparr>nonideal_items := ?k\<rparr>, hh := push_links x ?first (hh u)\<rparr>)"
    using i(2) ideal unfolding he_move_def split Let_def n [symmetric] bkt_of_def [symmetric] i(1) [symmetric]
      hh_links_commute push_links_ut
    by (auto simp: set_tbl_def set_bkt_def b_def)
  moreover have "chains (push_links x ?first (hh u)) n (nb[i := b]) (insert x M)"
    using i by (intro chains_push [OF c e]) (auto simp: b_def)
  ultimately show ?thesis by (intro exI [of _ "nb[i := b]"] exI [of _ ?k]) simp
qed

text \<open>Elements linked by \<open>hh_next\<close> alone, all the loop over an old chain looks at.\<close>

fun sl :: "(addr \<Rightarrow> addr) \<Rightarrow> addr list \<Rightarrow> bool" where
  "sl nx [] = True"
| "sl nx (x # xs) \<longleftrightarrow> x \<noteq> 0 \<and> nx x = hd0 xs 0 \<and> sl nx xs"

lemma sl_cong: "(\<And>x. x \<in> set xs \<Longrightarrow> nx' x = nx x) \<Longrightarrow> sl nx' xs = sl nx xs"
  by (induction xs) auto

lemma sl_nonzero: "sl nx xs \<Longrightarrow> x \<in> set xs \<Longrightarrow> x \<noteq> 0"
  by (induction xs) auto

lemma dls_sl: "dls nx pv p xs 0 \<Longrightarrow> sl nx xs"
  by (induction xs arbitrary: p) auto

lemma chains_member: "chains h n bs E \<Longrightarrow> i < length bs \<Longrightarrow> hh_head (bs ! i) \<noteq> 0 \<Longrightarrow> hh_head (bs ! i) \<in> E"
  unfolding chains_def using chain_first by blast

text \<open>What a part of the expansion that moves the elements \<open>X\<close> leaves alone.\<close>

definition he_frame :: "ut \<Rightarrow> addr set \<Rightarrow> ut \<Rightarrow> bool" where
  "he_frame u X u' \<longleftrightarrow> (\<exists>k h. u' = u\<lparr>tbl := (tbl u)\<lparr>nonideal_items := k\<rparr>, hh := h\<rparr>
     \<and> (\<forall>e. core (h e) = core (hh u e)) \<and> (\<forall>e. e \<notin> X \<longrightarrow> h e = hh u e))"

lemma he_frame_refl: "he_frame u X u"
  unfolding he_frame_def by (intro exI [of _ "nonideal_items (tbl u)"] exI [of _ "hh u"]) simp

lemma he_frame_trans: "he_frame u X u' \<Longrightarrow> he_frame u' Y u'' \<Longrightarrow> X \<subseteq> Y \<Longrightarrow> he_frame u Y u''"
proof -
  assume *: "he_frame u X u'" "he_frame u' Y u''" "X \<subseteq> Y"
  obtain k h where 1: "u' = u\<lparr>tbl := (tbl u)\<lparr>nonideal_items := k\<rparr>, hh := h\<rparr>"
    "\<And>e. core (h e) = core (hh u e)" "\<And>e. e \<notin> X \<Longrightarrow> h e = hh u e"
    using *(1) unfolding he_frame_def by blast
  obtain k' h' where 2: "u'' = u'\<lparr>tbl := (tbl u')\<lparr>nonideal_items := k'\<rparr>, hh := h'\<rparr>"
    "\<And>e. core (h' e) = core (hh u' e)" "\<And>e. e \<notin> Y \<Longrightarrow> h' e = hh u' e"
    using *(2) unfolding he_frame_def by blast
  have "h' e = hh u e" if "e \<notin> Y" for e
    using 1(1) 1(3) [of e] 2(3) [of e] *(3) that by auto
  then show ?thesis unfolding he_frame_def
    using 1(1,2) 2(1,2) by (intro exI [of _ k'] exI [of _ h']) simp
qed

lemma he_frameD:
  assumes "he_frame u X u'"
  shows "core (hh u' e) = core (hh u e)" "e \<notin> X \<Longrightarrow> hh u' e = hh u e" "head u' = head u"
    "buckets (tbl u') = buckets (tbl u)" "num_buckets (tbl u') = num_buckets (tbl u)"
    "ideal_chain_maxlen (tbl u') = ideal_chain_maxlen (tbl u)" "num_items (tbl u') = num_items (tbl u)"
    "tail (tbl u') = tail (tbl u)" "log2_num_buckets (tbl u') = log2_num_buckets (tbl u)"
  using assms unfolding he_frame_def by force+

lemma he_frame_bkt_of: "he_frame u X u' \<Longrightarrow> bkt_of n (hh u' e) = bkt_of n (hh u e)"
  by (rule bkt_of_core) (rule he_frameD)

lemma he_chain_spec:
  assumes "sl (\<lambda>e. hh_next (hh u e)) xs" "distinct xs" "set xs \<inter> M = {}" "chains (hh u) n nb M"
    "n = num_buckets (tbl u) * 2" "ideal_chain_maxlen (tbl u) \<noteq> 0" "\<And>x. x \<in> set xs \<Longrightarrow> bkt_of n (hh u x) < length nb"
  shows "\<exists>nb' u'. he_chain (hd0 xs 0) (nb, u) = Some (nb', u') \<and> chains (hh u') n nb' (M \<union> set xs)
    \<and> length nb' = length nb \<and> he_frame u (M \<union> set xs) u'"
  using assms
proof (induction xs arbitrary: nb u M)
  case Nil
  then show ?case by (subst he_chain.simps) (auto intro: he_frame_refl)
next
  case (Cons x xs)
  let ?i = "bkt_of n (hh u x)"
  let ?f = "hh_head (nb ! ?i)"
  obtain nb1 k where m: "he_move x (nb, u)
      = Some (nb1, u\<lparr>tbl := (tbl u)\<lparr>nonideal_items := k\<rparr>, hh := push_links x ?f (hh u)\<rparr>)"
    "chains (push_links x ?f (hh u)) n nb1 (insert x M)" "length nb1 = length nb"
    using he_move_spec [OF Cons.prems(4,5) _ _ refl _ Cons.prems(6), of x] Cons.prems(1,3,7) by auto
  let ?u = "u\<lparr>tbl := (tbl u)\<lparr>nonideal_items := k\<rparr>, hh := push_links x ?f (hh u)\<rparr>"
  have f: "?f = 0 \<or> ?f \<in> M" using chains_member [OF Cons.prems(4), of ?i] Cons.prems(7) by auto
  have same: "push_links x ?f (hh u) e = hh u e" if "e \<notin> insert x M" "e \<noteq> 0" for e
    using that f by (intro push_links_other) auto
  have nz: "e \<noteq> 0" if "e \<in> set xs" for e
    using Cons.prems(1) that sl_nonzero by auto
  have "push_links x ?f (hh u) e = hh u e" if "e \<notin> insert x M" for e
    using that f Cons.prems(1) by (cases "?f = 0") (auto simp: push_links_def Let_def)
  then have fr: "he_frame u (insert x M) ?u" unfolding he_frame_def
    by (intro exI [of _ k] exI [of _ "push_links x ?f (hh u)"]) simp
  have "sl (\<lambda>e. hh_next (hh ?u e)) xs"
  proof (subst sl_cong [of xs _ "\<lambda>e. hh_next (hh u e)"])
    fix e assume "e \<in> set xs"
    moreover from this have "e \<notin> insert x M" using Cons.prems(2,3) by auto
    ultimately show "hh_next (hh ?u e) = hh_next (hh u e)" using same [of e] nz [of e] by simp
  qed (use Cons.prems(1) in simp)
  then obtain nb2 u2 where r: "he_chain (hd0 xs 0) (nb1, ?u) = Some (nb2, u2)"
    "chains (hh u2) n nb2 (insert x M \<union> set xs)" "length nb2 = length nb1" "he_frame ?u (insert x M \<union> set xs) u2"
    using Cons.IH [of ?u "insert x M" nb1] Cons.prems m(2,3) by auto
  have "he_chain x (nb, u) = Some (nb2, u2)"
    using Cons.prems(1) m(1) r(1) by (subst he_chain.simps) simp
  moreover have "he_frame u (M \<union> set (x # xs)) u2"
    using he_frame_trans [OF fr r(4)] by auto
  ultimately show ?case using r(2,3) m(3) by auto
qed

lemma he_buckets_spec:
  assumes "\<And>i. i \<in> set is \<Longrightarrow> sl (\<lambda>e. hh_next (hh u e)) (cs i) \<and> distinct (cs i)
      \<and> hh_head (buckets (tbl u) ! i) = hd0 (cs i) 0 \<and> set (cs i) \<inter> M = {} \<and> (\<forall>x \<in> set (cs i). bkt_of n (hh u x) < length nb)"
    and "distinct is" "\<And>i j. i \<in> set is \<Longrightarrow> j \<in> set is \<Longrightarrow> i \<noteq> j \<Longrightarrow> set (cs i) \<inter> set (cs j) = {}"
    and "chains (hh u) n nb M" "n = num_buckets (tbl u) * 2" "ideal_chain_maxlen (tbl u) \<noteq> 0"
  shows "\<exists>nb' u'. he_buckets is (nb, u) = Some (nb', u') \<and> chains (hh u') n nb' (M \<union> (\<Union>i \<in> set is. set (cs i)))
    \<and> length nb' = length nb \<and> he_frame u (M \<union> (\<Union>i \<in> set is. set (cs i))) u'"
  using assms
proof (induction "is" arbitrary: nb u M)
  case Nil
  then show ?case by (auto intro: he_frame_refl)
next
  case (Cons i "is")
  have i: "sl (\<lambda>e. hh_next (hh u e)) (cs i)" "distinct (cs i)" "hh_head (buckets (tbl u) ! i) = hd0 (cs i) 0"
    "set (cs i) \<inter> M = {}" "\<And>x. x \<in> set (cs i) \<Longrightarrow> bkt_of n (hh u x) < length nb"
    using Cons.prems(1) [of i] by auto
  obtain nb1 u1 where 1: "he_chain (hd0 (cs i) 0) (nb, u) = Some (nb1, u1)" "chains (hh u1) n nb1 (M \<union> set (cs i))"
    "length nb1 = length nb" "he_frame u (M \<union> set (cs i)) u1"
    using he_chain_spec [OF i(1,2,4) Cons.prems(4-6) i(5)] by auto
  have "sl (\<lambda>e. hh_next (hh u1 e)) (cs j) \<and> distinct (cs j) \<and> hh_head (buckets (tbl u1) ! j) = hd0 (cs j) 0
      \<and> set (cs j) \<inter> (M \<union> set (cs i)) = {} \<and> (\<forall>x \<in> set (cs j). bkt_of n (hh u1 x) < length nb1)" if "j \<in> set is" for j
  proof -
    have p: "sl (\<lambda>e. hh_next (hh u e)) (cs j)" "distinct (cs j)" "hh_head (buckets (tbl u) ! j) = hd0 (cs j) 0"
      "set (cs j) \<inter> M = {}" "\<forall>x \<in> set (cs j). bkt_of n (hh u x) < length nb"
      using Cons.prems(1) [of j] that by auto
    have d: "set (cs j) \<inter> (M \<union> set (cs i)) = {}"
      using p(4) Cons.prems(2) Cons.prems(3) [of j i] that by auto
    have "hh u1 e = hh u e" if "e \<in> set (cs j)" for e using he_frameD(2) [OF 1(4)] d that by blast
    then have "sl (\<lambda>e. hh_next (hh u1 e)) (cs j)" using p(1) by (subst sl_cong) auto
    then show ?thesis using p d he_frameD(4) [OF 1(4)] he_frame_bkt_of [OF 1(4)] 1(3) by simp
  qed
  then obtain nb2 u2 where 2: "he_buckets is (nb1, u1) = Some (nb2, u2)"
    "chains (hh u2) n nb2 (M \<union> set (cs i) \<union> (\<Union>i \<in> set is. set (cs i)))" "length nb2 = length nb1"
    "he_frame u1 (M \<union> set (cs i) \<union> (\<Union>i \<in> set is. set (cs i))) u2"
    using Cons.IH [of u1 "M \<union> set (cs i)" nb1] Cons.prems 1(2) he_frameD(5,6) [OF 1(4)] by auto
  have "he_frame u (M \<union> set (cs i) \<union> (\<Union>i \<in> set is. set (cs i))) u2" by (rule he_frame_trans [OF 1(4) 2(4)]) blast
  moreover have "he_buckets (i # is) (nb, u) = Some (nb2, u2)" using 1(1) 2(1) i(3) by simp
  ultimately show ?case using 2(2,3) 1(3) by (auto simp: Un_assoc)
qed

lemma bucket_mask:
  assumes "k < 32"
  shows "unat (HASH_TO_BKT h (2 ^ k)) = unat h mod 2 ^ k"
proof -
  have *: "HASH_TO_BKT h (2 ^ k) = take_bit k h" by (simp add: HASH_TO_BKT_def take_bit_eq_mask mask_eq_exp_minus_1)
  show ?thesis unfolding * unsigned_take_bit_eq by (rule take_bit_eq_mod)
qed

lemma unat_pow2: "k < 32 \<Longrightarrow> unat (2 ^ k :: u32) = 2 ^ k"
  using unat_of_nat [of "2 ^ k", where 'a = 32] power_strict_increasing [of k 32 "2 :: nat"] by simp

lemma ideal_pos:
  assumes "m \<noteq> 0" "k < 31"
  shows "drop_bit (unat (of_nat k + 1 :: u32)) m + (if m AND (2 ^ k * 2 - 1) \<noteq> 0 then 1 else 0) \<noteq> (0 :: u32)"
proof -
  have k1: "unat (of_nat k + 1 :: u32) = Suc k"
  proof -
    have "of_nat k + 1 = (of_nat (Suc k) :: u32)" by simp
    then show ?thesis using assms(2) by (simp only: unat_of_nat) simp
  qed
  have a: "m AND (2 ^ k * 2 - 1) = take_bit (Suc k) m"
    by (simp add: take_bit_eq_mask mask_eq_exp_minus_1 mult.commute)
  have lt: "unat m < 2 ^ 32" using unsigned_less [of m, where 'a = nat] by simp
  from lt have d: "unat (drop_bit (Suc k) m) = unat m div 2 ^ Suc k" 
    unfolding unsigned_drop_bit_eq by (simp add: drop_bit_eq_div take_bit_nat_eq_self)
  show ?thesis
  proof (cases "take_bit (Suc k) m = 0")
    case True
    then have "unat m mod 2 ^ Suc k = 0" by (metis unsigned_take_bit_eq take_bit_eq_mod unsigned_0)
    then have "unat m div 2 ^ Suc k \<noteq> 0" using assms(1) by (metis div_mult_mod_eq add_0_right mult_0 unat_eq_zero)
    then have "drop_bit (Suc k) m \<noteq> 0" using d by (intro notI) simp
    then show ?thesis unfolding k1 a using True by simp
  next
    case False
    have "unat m div 2 ^ Suc k \<le> unat m div 2" by (rule div_le_mono2) simp_all
    then have "unat m div 2 ^ Suc k + 1 < 2 ^ 32" using lt by simp
    then have "unat (drop_bit (Suc k) m + 1) = unat m div 2 ^ Suc k + 1" using d by (simp add: unat_word_ariths)
    then have "drop_bit (Suc k) m + 1 \<noteq> 0" by (intro notI) simp
    then show ?thesis unfolding k1 a using False by simp
  qed
qed

lemma HASH_EXPAND_spec:
  assumes k: "num_buckets (tbl u) = 2 ^ k" "log2_num_buckets (tbl u) = of_nat k" "length (buckets (tbl u)) = 2 ^ k" "k < 31"
    and c: "chains (hh u) (2 ^ k) (buckets (tbl u)) E" and n: "num_items (tbl u) \<noteq> 0"
  shows "\<exists>u'. HASH_EXPAND_BUCKETS u = Some u' \<and> chains (hh u') (2 ^ Suc k) (buckets (tbl u')) E
    \<and> num_buckets (tbl u') = 2 ^ Suc k \<and> log2_num_buckets (tbl u') = of_nat (Suc k) \<and> length (buckets (tbl u')) = 2 ^ Suc k
    \<and> num_items (tbl u') = num_items (tbl u) \<and> tail (tbl u') = tail (tbl u) \<and> head u' = head u
    \<and> (\<forall>e. core (hh u' e) = core (hh u e))"
proof -
  let ?t = "\<lambda>t. t\<lparr>ideal_chain_maxlen := drop_bit (unat (log2_num_buckets t + 1)) (num_items t)
      + (if num_items t AND (num_buckets t * 2 - 1) \<noteq> 0 then 1 else 0), nonideal_items := 0\<rparr> :: UT_hash_table"
  define v where "v = set_tbl ?t u"
  have v: "hh v = hh u" "head v = head u" "buckets (tbl v) = buckets (tbl u)" "num_buckets (tbl v) = 2 ^ k"
    "log2_num_buckets (tbl v) = of_nat k" "num_items (tbl v) = num_items (tbl u)" "tail (tbl v) = tail (tbl u)"
    "ideal_chain_maxlen (tbl v) \<noteq> 0"
    using k ideal_pos [OF n k(4)] by (simp_all add: v_def set_tbl_def)
  let ?nb = "replicate (unat (2 * num_buckets (tbl u))) empty_bucket"
  have len: "length ?nb = 2 ^ Suc k" using unat_pow2 [of "Suc k"] k by simp
  have two: "2 * num_buckets (tbl u) = 2 ^ Suc k" "num_buckets (tbl v) * 2 = 2 ^ Suc k" using k v by simp_all
  have "\<forall>i. \<exists>xs. i < 2 ^ k \<longrightarrow> chain (hh u) (buckets (tbl u) ! i) xs \<and> set xs = {e \<in> E. bkt_of (2 ^ k) (hh u e) = i}"
    using c k(3) unfolding chains_def by auto
  then obtain cs where *: "\<forall>i. i < 2 ^ k \<longrightarrow> chain (hh u) (buckets (tbl u) ! i) (cs i)
      \<and> set (cs i) = {e \<in> E. bkt_of (2 ^ k) (hh u e) = i}" by (rule choice [THEN exE])
  then have cs: "\<And>i. i < 2 ^ k \<Longrightarrow> chain (hh u) (buckets (tbl u) ! i) (cs i)"
    "\<And>i. i < 2 ^ k \<Longrightarrow> set (cs i) = {e \<in> E. bkt_of (2 ^ k) (hh u e) = i}" by blast+
  have lt: "bkt_of (2 ^ Suc k) (hh u x) < length ?nb" for x
    using bucket_mask [of "Suc k"] k(4) len by (simp add: bkt_of_def)
  have empty: "chains (hh v) (2 ^ Suc k) ?nb {}" unfolding chains_def chain_def
    by (auto simp: empty_bucket_def intro: exI [of _ "[]"])
  have "\<exists>nb' v'. he_buckets [0..<unat (num_buckets (tbl u))] (?nb, v) = Some (nb', v')
      \<and> chains (hh v') (2 ^ Suc k) nb' ({} \<union> (\<Union>i \<in> set [0..<unat (num_buckets (tbl u))]. set (cs i)))
      \<and> length nb' = length ?nb \<and> he_frame v ({} \<union> (\<Union>i \<in> set [0..<unat (num_buckets (tbl u))]. set (cs i))) v'"
  proof (rule he_buckets_spec)
    fix i assume "i \<in> set [0..<unat (num_buckets (tbl u))]"
    then have "i < 2 ^ k" using k unat_pow2 [of k] by simp
    then show "sl (\<lambda>e. hh_next (hh v e)) (cs i) \<and> distinct (cs i) \<and> hh_head (buckets (tbl v) ! i) = hd0 (cs i) 0
        \<and> set (cs i) \<inter> {} = {} \<and> (\<forall>x \<in> set (cs i). bkt_of (2 ^ Suc k) (hh v x) < length ?nb)"
      using cs(1) [of i] lt dls_sl [of "\<lambda>e. hh_next (hh u e)" "\<lambda>e. hh_prev (hh u e)" 0 "cs i"]
      unfolding chain_def v(1,3) by simp
  next
    fix i j assume "i \<in> set [0..<unat (num_buckets (tbl u))]" "j \<in> set [0..<unat (num_buckets (tbl u))]" "i \<noteq> j"
    then show "set (cs i) \<inter> set (cs j) = {}" using cs(2) k unat_pow2 [of k] by auto
  qed (use empty two v in simp_all)
  then obtain nb' v' where b: "he_buckets [0..<unat (num_buckets (tbl u))] (?nb, v) = Some (nb', v')"
    "chains (hh v') (2 ^ Suc k) nb' (\<Union>i \<in> set [0..<unat (num_buckets (tbl u))]. set (cs i))" "length nb' = 2 ^ Suc k"
    "he_frame v (\<Union>i \<in> set [0..<unat (num_buckets (tbl u))]. set (cs i)) v'"
    using len by auto
  have "(\<Union>i \<in> set [0..<unat (num_buckets (tbl u))]. set (cs i)) = E"
    using cs(2) k unat_pow2 [of k] bucket_mask [of k] by (auto simp: bkt_of_def)
  with b(2) have ch: "chains (hh v') (2 ^ Suc k) nb' E" by simp
  note fr = he_frameD [OF b(4)]
  show ?thesis
    using b(1,3) ch fr v k unfolding HASH_EXPAND_BUCKETS_def Let_def v_def [symmetric]
    by (auto simp: set_tbl_def)
qed

subsection \<open>The invariant of a table\<close>

text \<open>
  \<open>es\<close> are the elements in the order in which they were added. While there are any, they
  are linked in this order, the number of buckets is a power of two, and every element is
  in the chain of the bucket its hash value selects.
\<close>

definition table_ok :: "ut \<Rightarrow> addr list \<Rightarrow> nat \<Rightarrow> bool" where
  "table_ok u es k \<longleftrightarrow> dls (\<lambda>e. next_elt (hh u e)) (\<lambda>e. prev (hh u e)) 0 es 0 \<and> tail (tbl u) = last es
     \<and> num_items (tbl u) = of_nat (length es) \<and> num_buckets (tbl u) = 2 ^ k \<and> log2_num_buckets (tbl u) = of_nat k
     \<and> length (buckets (tbl u)) = 2 ^ k \<and> chains (hh u) (2 ^ k) (buckets (tbl u)) (set es)
     \<and> (\<forall>e \<in> set es. keylen (hh u e) = of_nat (length (hkey (hh u e))) \<and> hashv (hh u e) = HASH_JEN (hkey (hh u e)))"

definition ut_inv :: "ut \<Rightarrow> addr list \<Rightarrow> bool" where
  "ut_inv u es \<longleftrightarrow> head u = hd0 es 0 \<and> distinct es \<and> 0 \<notin> set es \<and> (es \<noteq> [] \<longrightarrow> (\<exists>k < 32. table_ok u es k))"

text \<open>The keys of the elements are shorter than \<open>2 ^ 32\<close>, the range of \<open>keylen\<close>.\<close>

definition short_keys :: "ut \<Rightarrow> addr list \<Rightarrow> bool" where
  "short_keys u es \<longleftrightarrow> (\<forall>e \<in> set es. length (hkey (hh u e)) < 2 ^ 32)"

lemma hh_matches_iff:
  assumes "keylen h = of_nat (length (hkey h))" "length (hkey h) < 2 ^ 32" "length key < 2 ^ 32"
  shows "hh_matches key h \<longleftrightarrow> hkey h = key"
proof
  assume m: "hh_matches key h"
  then have "of_nat (length (hkey h)) = (of_nat (length key) :: u32)" using assms(1) by (simp add: hh_matches_def)
  from arg_cong [OF this, of unat] have "length (hkey h) = length key" using assms(2,3) by (simp add: unat_of_nat)
  then show "hkey h = key" using m by (simp add: hh_matches_def HASH_KEYCMP_def)
qed (use assms(1) in \<open>simp add: hh_matches_def HASH_KEYCMP_def\<close>)

lemma find_in_bkt_spec:
  "sl (\<lambda>e. hh_next (h e)) xs \<Longrightarrow>
     HASH_FIND_IN_BKT h key (hd0 xs 0) = Some (case find (\<lambda>e. hh_matches key (h e)) xs of None \<Rightarrow> 0 | Some e \<Rightarrow> e)"
  by (induction xs) (subst HASH_FIND_IN_BKT.simps, auto)+

lemma HASH_FIND_spec:
  assumes inv: "ut_inv u es" "short_keys u es" "length key < 2 ^ 32"
  shows "\<exists>out. HASH_FIND key u = Some out \<and> (if out = 0 then \<forall>e \<in> set es. hkey (hh u e) \<noteq> key
    else out \<in> set es \<and> hkey (hh u out) = key)"
proof (cases "es = []")
  case True
  then show ?thesis using inv(1) by (simp add: ut_inv_def HASH_FIND_def)
next
  case False
  then obtain k where k: "k < 32" "table_ok u es k" and hd: "head u = hd0 es 0" "0 \<notin> set es"
    using inv(1) unfolding ut_inv_def by blast
  have "head u \<noteq> 0" using False hd by (cases es) auto
  let ?i = "unat (HASH_TO_BKT (HASH_JEN key) (2 ^ k))"
  have i: "?i < length (buckets (tbl u))" using k bucket_mask [OF k(1)] by (simp add: table_ok_def)
  then obtain xs where xs: "chain (hh u) (buckets (tbl u) ! ?i) xs" "set xs = {e \<in> set es. bkt_of (2 ^ k) (hh u e) = ?i}"
    using k(2) unfolding table_ok_def chains_def by blast
  have m: "hh_matches key (hh u e) \<longleftrightarrow> hkey (hh u e) = key" if "e \<in> set es" for e
    using k(2) inv(2,3) that by (intro hh_matches_iff) (auto simp: table_ok_def short_keys_def)
  have in_xs: "e \<in> set xs" if "e \<in> set es" "hkey (hh u e) = key" for e
    using that k(2) xs(2) by (simp add: bkt_of_def table_ok_def)
  have f: "HASH_FIND key u = Some (case find (\<lambda>e. hh_matches key (hh u e)) xs of None \<Rightarrow> 0 | Some e \<Rightarrow> e)"
  proof -
    have "num_buckets (tbl u) = 2 ^ k" using k(2) by (simp add: table_ok_def)
    moreover have "hh_head (buckets (tbl u) ! ?i) = hd0 xs 0" "sl (\<lambda>e. hh_next (hh u e)) xs"
      using xs(1) dls_sl unfolding chain_def by auto
    ultimately show ?thesis using find_in_bkt_spec [of "hh u" xs key] \<open>head u \<noteq> 0\<close> by (simp add: HASH_FIND_def)
  qed
  show ?thesis
  proof (cases "find (\<lambda>e. hh_matches key (hh u e)) xs")
    case None
    then have "HASH_FIND key u = Some 0" using f by simp
    moreover have "hkey (hh u e) \<noteq> key" if "e \<in> set es" for e
      using None m in_xs that by (auto simp: find_None_iff)
    ultimately show ?thesis by auto
  next
    case (Some e)
    then have "e \<in> set xs" "hh_matches key (hh u e)" by (auto simp: find_Some_iff)
    then show ?thesis using f Some m xs(2) hd(2) by auto
  qed
qed

subsection \<open>Adding an element\<close>

lemma core_fields:
  assumes "\<And>e. core (h' e) = core (h e)"
  shows "prev (h' e) = prev (h e)" "next_elt (h' e) = next_elt (h e)" "hkey (h' e) = hkey (h e)"
    "keylen (h' e) = keylen (h e)" "hashv (h' e) = hashv (h e)"
  using assms [of e] by (simp_all add: core_def)

lemma table_ok_rechained:
  assumes ok: "table_ok u es k" and core: "\<And>e. core (hh u' e) = core (hh u e)"
    and t: "tail (tbl u') = tail (tbl u)" "num_items (tbl u') = num_items (tbl u)" "num_buckets (tbl u') = 2 ^ k'"
      "log2_num_buckets (tbl u') = of_nat k'" "length (buckets (tbl u')) = 2 ^ k'" "chains (hh u') (2 ^ k') (buckets (tbl u')) (set es)"
  shows "table_ok u' es k'"
  using ok t unfolding table_ok_def by (simp add: core_fields [of "hh u'" "hh u", OF core])

lemma table_ok_expand:
  assumes ok: "table_ok u es k" "k < 31" and n: "es \<noteq> []" "length es < 2 ^ 32"
  shows "\<exists>u'. HASH_EXPAND_BUCKETS u = Some u' \<and> table_ok u' es (Suc k) \<and> head u' = head u \<and> (\<forall>e. core (hh u' e) = core (hh u e))"
proof -
  have "num_items (tbl u) \<noteq> 0"
  proof
    assume "num_items (tbl u) = 0"
    then have "of_nat (length es) = (0 :: u32)" using ok by (simp add: table_ok_def)
    from arg_cong [OF this, of unat] show False using n by (simp add: unat_of_nat)
  qed
  with HASH_EXPAND_spec [of u k "set es"] obtain u' where "HASH_EXPAND_BUCKETS u = Some u'"
    "chains (hh u') (2 ^ Suc k) (buckets (tbl u')) (set es)" "num_buckets (tbl u') = 2 ^ Suc k"
    "log2_num_buckets (tbl u') = of_nat (Suc k)" "length (buckets (tbl u')) = 2 ^ Suc k"
    "num_items (tbl u') = num_items (tbl u)" "tail (tbl u') = tail (tbl u)" "head u' = head u"
    "\<forall>e. core (hh u' e) = core (hh u e)"
    using ok unfolding table_ok_def by blast
  with table_ok_rechained [OF ok(1), of u' "Suc k"] show ?thesis by blast
qed

lemma link_in_bkt_eq:
  assumes "i < length (buckets (tbl u))"
  shows "link_in_bkt i e u = u\<lparr>tbl := (tbl u)\<lparr>buckets := (buckets (tbl u))
      [i := (buckets (tbl u) ! i)\<lparr>bkt_count := bkt_count (buckets (tbl u) ! i) + 1, hh_head := e\<rparr>]\<rparr>,
    hh := push_links e (hh_head (buckets (tbl u) ! i)) (hh u)\<rparr>"
  using assms unfolding link_in_bkt_def Let_def push_links_ut by (simp add: set_tbl_def set_bkt_def)

text \<open>An element that is in the list already and not yet in a chain.\<close>

definition listed_ok :: "ut \<Rightarrow> addr list \<Rightarrow> addr \<Rightarrow> nat \<Rightarrow> bool" where
  "listed_ok u es e k \<longleftrightarrow> dls (\<lambda>e. next_elt (hh u e)) (\<lambda>e. prev (hh u e)) 0 (es @ [e]) 0 \<and> tail (tbl u) = e
     \<and> num_items (tbl u) = of_nat (Suc (length es)) \<and> num_buckets (tbl u) = 2 ^ k \<and> log2_num_buckets (tbl u) = of_nat k
     \<and> length (buckets (tbl u)) = 2 ^ k \<and> chains (hh u) (2 ^ k) (buckets (tbl u)) (set es)
     \<and> (\<forall>e \<in> set (es @ [e]). keylen (hh u e) = of_nat (length (hkey (hh u e))) \<and> hashv (hh u e) = HASH_JEN (hkey (hh u e)))"

lemma link_in_bkt_ok:
  assumes ok: "listed_ok u es e k" "k < 32" and e: "e \<notin> set es" "e \<noteq> 0"
    and i: "i = unat (HASH_TO_BKT (hashv (hh u e)) (num_buckets (tbl u)))"
  shows "table_ok (link_in_bkt i e u) (es @ [e]) k \<and> head (link_in_bkt i e u) = head u
    \<and> (\<forall>x. core (hh (link_in_bkt i e u) x) = core (hh u x)) \<and> i < length (buckets (tbl u))"
proof -
  have i': "i = bkt_of (2 ^ k) (hh u e)" "i < length (buckets (tbl u))"
    using ok bucket_mask [OF ok(2)] i by (simp_all add: listed_ok_def bkt_of_def)
  note eq = link_in_bkt_eq [OF i'(2), of e]
  have core: "core (hh (link_in_bkt i e u) x) = core (hh u x)" for x by (simp add: eq)
  have "chains (hh (link_in_bkt i e u)) (2 ^ k) (buckets (tbl (link_in_bkt i e u))) (set (es @ [e]))"
  proof -
    have "chains (hh u) (2 ^ k) (buckets (tbl u)) (set es)" using ok(1) by (simp add: listed_ok_def)
    from chains_push [OF this e i'(1) [symmetric] i'(2)] show ?thesis unfolding eq by simp
  qed
  then have "table_ok (link_in_bkt i e u) (es @ [e]) k"
    using ok(1) core_fields [of "hh (link_in_bkt i e u)" "hh u", OF core] unfolding table_ok_def listed_ok_def by (simp add: eq)
  then show ?thesis using core i'(2) by (simp add: eq)
qed

lemma HASH_ADD_TO_BKT_ok:
  assumes ok: "listed_ok u es e k" "k < 31" and e: "e \<notin> set es" "e \<noteq> 0" "Suc (length es) < 2 ^ 32"
    and i: "i = unat (HASH_TO_BKT (hashv (hh u e)) (num_buckets (tbl u)))"
  shows "\<exists>u' k'. HASH_ADD_TO_BKT i e u = Some u' \<and> k' < 32 \<and> table_ok u' (es @ [e]) k' \<and> head u' = head u
    \<and> (\<forall>x. core (hh u' x) = core (hh u x))"
proof -
  let ?u = "link_in_bkt i e u"
  have l: "table_ok ?u (es @ [e]) k" "head ?u = head u" "\<And>x. core (hh ?u x) = core (hh u x)"
    using link_in_bkt_ok [OF ok(1) _ e(1,2) i] ok(2) by auto
  obtain v where v: "HASH_EXPAND_BUCKETS ?u = Some v" "table_ok v (es @ [e]) (Suc k)" "head v = head ?u"
    "\<forall>x. core (hh v x) = core (hh ?u x)"
    using table_ok_expand [OF l(1) ok(2)] e(3) by auto
  show ?thesis
  proof (cases "bkt_count (buckets (tbl ?u) ! i) \<ge> (expand_mult (buckets (tbl ?u) ! i) + 1) * HASH_BKT_CAPACITY_THRESH
      \<and> noexpand (tbl ?u) \<noteq> 1")
    case True
    then show ?thesis using v l ok(2) by (intro exI [of _ v] exI [of _ "Suc k"]) (simp add: HASH_ADD_TO_BKT_def)
  next
    case False
    then show ?thesis using l ok(2) by (intro exI [of _ ?u] exI [of _ k]) (auto simp: HASH_ADD_TO_BKT_def Let_def)
  qed
qed

lemma unat_less_pow2:
  assumes "(2 ^ k :: u32) < 2 ^ 31" "k < 32"
  shows "k < 31"
proof (rule ccontr)
  assume "\<not> k < 31"
  then have "k = 31" using assms(2) by simp
  then show False using assms(1) by simp
qed

lemma chains_cong:
  assumes "chains h n bs E" "\<And>e. e \<in> E \<Longrightarrow> hh_next (h' e) = hh_next (h e) \<and> hh_prev (h' e) = hh_prev (h e) \<and> hashv (h' e) = hashv (h e)"
  shows "chains h' n bs E"
  unfolding chains_def
proof (intro allI impI)
  fix i assume "i < length bs"
  then obtain xs where xs: "chain h (bs ! i) xs" "set xs = {e \<in> E. bkt_of n (h e) = i}" using assms(1) unfolding chains_def by blast
  have "chain h' (bs ! i) xs" using xs(1) unfolding chain_def
    by (subst dls_cong [of xs _ "\<lambda>e. hh_next (h e)" _ "\<lambda>e. hh_prev (h e)"]) (use xs(2) assms(2) in auto)
  moreover have "{e \<in> E. bkt_of n (h' e) = i} = {e \<in> E. bkt_of n (h e) = i}" using assms(2) by (auto simp: bkt_of_def)
  ultimately show "\<exists>xs. chain h' (bs ! i) xs \<and> set xs = {e \<in> E. bkt_of n (h' e) = i}" using xs(2) by auto
qed

text \<open>The state in which \<open>HASH_ADD_KEYPTR\<close> calls \<open>HASH_ADD_TO_BKT\<close>.\<close>

definition listed :: "byte list \<Rightarrow> addr \<Rightarrow> ut \<Rightarrow> ut" where
  "listed key e u =
     set_hh e (\<lambda>h. h\<lparr>hashv := HASH_JEN key\<rparr>) (set_tbl (\<lambda>t. t\<lparr>num_items := num_items t + 1\<rparr>)
       (link_last e (set_hh e (\<lambda>h. h\<lparr>next_elt := 0, hkey := key, keylen := of_nat (length key)\<rparr>) u)))"

lemma HASH_ADD_KEYPTR_listed:
  "HASH_ADD_KEYPTR key e u
     = HASH_ADD_TO_BKT (unat (HASH_TO_BKT (hashv (hh (listed key e u) e)) (num_buckets (tbl (listed key e u))))) e (listed key e u)"
  by (simp add: HASH_ADD_KEYPTR_def listed_def Let_def set_hh_def set_tbl_def)

lemma listed_first:
  assumes "ut_inv u []" "e \<noteq> 0"
  shows "listed_ok (listed key e u) [] e 5 \<and> head (listed key e u) = e"
proof -
  have "chains h (2 ^ 5) (replicate 32 empty_bucket) {}" for h
    unfolding chains_def chain_def by (auto simp: empty_bucket_def intro: exI [of _ "[]"])
  then show ?thesis using assms
    by (simp add: ut_inv_def listed_ok_def listed_def link_last_def set_hh_def set_tbl_def HASH_MAKE_TABLE_def
        HASH_INITIAL_NUM_BUCKETS_def HASH_INITIAL_NUM_BUCKETS_LOG2_def)
qed

lemma listed_later:
  assumes ok: "table_ok u es k" "head u = hd0 es 0" "distinct es" "es \<noteq> []" "0 \<notin> set es" and e: "e \<notin> set es" "e \<noteq> 0"
  shows "listed_ok (listed key e u) es e k \<and> head (listed key e u) = head u"
proof -
  have h: "head u \<noteq> 0" and t: "tail (tbl u) = last es" "last es \<in> set es" using ok by (cases es; auto simp: table_ok_def)+
  then have te: "last es \<noteq> e" using e(1) by auto
  let ?h = "hh (listed key e u)"
  have nx: "(\<lambda>x. next_elt (?h x)) = ((\<lambda>x. next_elt (hh u x))(e := 0))(last es := e)"
    and pv: "(\<lambda>x. prev (?h x)) = (\<lambda>x. prev (hh u x))(e := last es)"
    using h t(1) te by (auto simp: listed_def link_last_def set_hh_def set_tbl_def fun_eq_iff Let_def)
  have d: "dls (\<lambda>x. next_elt (?h x)) (\<lambda>x. prev (?h x)) 0 (es @ [e]) 0"
    unfolding nx pv using ok(1) by (intro dls_snoc e ok(3,4)) (simp add: table_ok_def)
  have c: "chains ?h (2 ^ k) (buckets (tbl u)) (set es)"
    by (rule chains_cong [of "hh u"])
      (use ok(1) e(1) h in \<open>auto simp: table_ok_def listed_def link_last_def set_hh_def set_tbl_def Let_def\<close>)
  have f: "keylen (?h x) = of_nat (length (hkey (?h x))) \<and> hashv (?h x) = HASH_JEN (hkey (?h x))" if "x \<in> set (es @ [e])" for x
    using that ok(1) e(1) h by (auto simp: table_ok_def listed_def link_last_def set_hh_def set_tbl_def Let_def)
  have "tail (tbl (listed key e u)) = e" "num_items (tbl (listed key e u)) = num_items (tbl u) + 1"
    "num_buckets (tbl (listed key e u)) = num_buckets (tbl u)" "log2_num_buckets (tbl (listed key e u)) = log2_num_buckets (tbl u)"
    "buckets (tbl (listed key e u)) = buckets (tbl u)" "head (listed key e u) = head u"
    using h by (simp_all add: listed_def link_last_def set_hh_def set_tbl_def Let_def)
  then show ?thesis using d c f ok(1) unfolding listed_ok_def table_ok_def by simp
qed

lemma listed_hkey: "hkey (hh (listed key e u) x) = (if x = e then key else hkey (hh u x))"
  by (simp add: listed_def link_last_def set_hh_def set_tbl_def Let_def HASH_MAKE_TABLE_def)

lemma HASH_ADD_spec:
  assumes inv: "ut_inv u es" and e: "e \<notin> set es" "e \<noteq> 0" "Suc (length es) < 2 ^ 32"
    and room: "es \<noteq> [] \<Longrightarrow> num_buckets (tbl u) < 2 ^ 31"
  shows "\<exists>u'. HASH_ADD_KEYPTR key e u = Some u' \<and> ut_inv u' (es @ [e])
    \<and> (\<forall>x. hkey (hh u' x) = (if x = e then key else hkey (hh u x)))"
proof -
  obtain k where k: "listed_ok (listed key e u) es e k" "k < 31" "head (listed key e u) = hd0 (es @ [e]) 0"
  proof (cases "es = []")
    case True
    then show ?thesis using that [of 5] listed_first [of u e key] inv e(2) by auto
  next
    case False
    then obtain k where ok: "table_ok u es k" "k < 32" using inv unfolding ut_inv_def by blast
    then have "k < 31" using unat_less_pow2 [of k] room [OF False] by (simp add: table_ok_def)
    then show ?thesis using that [of k] listed_later [OF ok(1), of e key] inv e False by (cases es) (auto simp: ut_inv_def)
  qed
  obtain u' k' where u': "HASH_ADD_KEYPTR key e u = Some u'" "k' < 32" "table_ok u' (es @ [e]) k'"
    "head u' = head (listed key e u)" "\<forall>x. core (hh u' x) = core (hh (listed key e u) x)"
    using HASH_ADD_TO_BKT_ok [OF k(1,2) e refl] unfolding HASH_ADD_KEYPTR_listed by blast
  have "ut_inv u' (es @ [e])" using u'(2-4) k(3) inv e unfolding ut_inv_def by auto
  moreover have "hkey (hh u' x) = (if x = e then key else hkey (hh u x))" for x
    using u'(5) listed_hkey [of key e u x] by (simp add: core_def)
  ultimately show ?thesis using u'(1) by blast
qed

subsection \<open>Deleting an element\<close>

lemma dls_no_self:
  assumes "dls nx pv 0 (xs @ e # ys) 0" "distinct (xs @ e # ys)"
  shows "pv e \<noteq> e" "nx e \<noteq> e" "pv e = last0 0 xs" "nx e = hd0 ys 0" "pv e = 0 \<longleftrightarrow> xs = []" "nx e = 0 \<longleftrightarrow> ys = []"
proof -
  have d: "dls nx pv 0 xs e" "pv e = last0 0 xs" "nx e = hd0 ys 0" "dls nx pv e ys 0" "e \<noteq> 0"
    using assms(1) by (simp_all add: dls_append)
  show "pv e = last0 0 xs" "nx e = hd0 ys 0" by fact+
  show "pv e = 0 \<longleftrightarrow> xs = []" "nx e = 0 \<longleftrightarrow> ys = []"
    using d dls_last0_zero dls_hd0_zero by metis+
  show "pv e \<noteq> e" "nx e \<noteq> e"
    using d(2,3,5) assms(2) by (auto simp: last0_def hd0_def split: list.splits if_splits)
qed

lemma unlink_links:
  assumes "prev (hh u e) \<noteq> e" "next_elt (hh u e) \<noteq> e"
  shows "(\<lambda>x. next_elt (hh (unlink e u) x)) = (if prev (hh u e) \<noteq> 0
      then (\<lambda>x. next_elt (hh u x))(prev (hh u e) := next_elt (hh u e)) else (\<lambda>x. next_elt (hh u x)))"
    "(\<lambda>x. prev (hh (unlink e u) x)) = (if next_elt (hh u e) \<noteq> 0
      then (\<lambda>x. prev (hh u x))(next_elt (hh u e) := prev (hh u e)) else (\<lambda>x. prev (hh u x)))"
  using assms by (auto simp: unlink_def Let_def set_hh_def set_tbl_def fun_eq_iff)

lemma unlink_other [simp]:
  "hh_next (hh (unlink e u) x) = hh_next (hh u x)" "hh_prev (hh (unlink e u) x) = hh_prev (hh u x)"
  "hkey (hh (unlink e u) x) = hkey (hh u x)" "keylen (hh (unlink e u) x) = keylen (hh u x)"
  "hashv (hh (unlink e u) x) = hashv (hh u x)" "buckets (tbl (unlink e u)) = buckets (tbl u)"
  "num_buckets (tbl (unlink e u)) = num_buckets (tbl u)" "log2_num_buckets (tbl (unlink e u)) = log2_num_buckets (tbl u)"
  "num_items (tbl (unlink e u)) = num_items (tbl u)"
  "tail (tbl (unlink e u)) = (if e = tail (tbl u) then prev (hh u e) else tail (tbl u))"
  "head (unlink e u) = (if prev (hh u e) \<noteq> 0 then head u else next_elt (hh u e))"
  by (simp_all add: unlink_def Let_def set_hh_def set_tbl_def)

lemma del_in_bkt_links:
  assumes "hh_prev (hh u e) \<noteq> e" "hh_next (hh u e) \<noteq> e"
  shows "(\<lambda>x. hh_next (hh (HASH_DEL_IN_BKT i e u) x)) = (if hh_prev (hh u e) \<noteq> 0
      then (\<lambda>x. hh_next (hh u x))(hh_prev (hh u e) := hh_next (hh u e)) else (\<lambda>x. hh_next (hh u x)))"
    "(\<lambda>x. hh_prev (hh (HASH_DEL_IN_BKT i e u) x)) = (if hh_next (hh u e) \<noteq> 0
      then (\<lambda>x. hh_prev (hh u x))(hh_next (hh u e) := hh_prev (hh u e)) else (\<lambda>x. hh_prev (hh u x)))"
  using assms by (auto simp: HASH_DEL_IN_BKT_def Let_def set_hh_def set_tbl_def fun_eq_iff)

lemma del_in_bkt_other [simp]:
  "core (hh (HASH_DEL_IN_BKT i e u) x) = core (hh u x)" "num_buckets (tbl (HASH_DEL_IN_BKT i e u)) = num_buckets (tbl u)"
  "log2_num_buckets (tbl (HASH_DEL_IN_BKT i e u)) = log2_num_buckets (tbl u)"
  "num_items (tbl (HASH_DEL_IN_BKT i e u)) = num_items (tbl u)" "tail (tbl (HASH_DEL_IN_BKT i e u)) = tail (tbl u)"
  "head (HASH_DEL_IN_BKT i e u) = head u"
  by (simp_all add: HASH_DEL_IN_BKT_def Let_def set_hh_def set_tbl_def core_def)

lemma del_in_bkt_buckets:
  "i < length (buckets (tbl u)) \<Longrightarrow> \<exists>b. buckets (tbl (HASH_DEL_IN_BKT i e u)) = (buckets (tbl u))[i := b]
     \<and> bkt_count b = bkt_count (buckets (tbl u) ! i) - 1
     \<and> hh_head b = (if hh_head (buckets (tbl u) ! i) = e then hh_next (hh u e) else hh_head (buckets (tbl u) ! i))"
  by (auto simp: HASH_DEL_IN_BKT_def Let_def set_hh_def set_tbl_def set_bkt_def)

lemma chain_remove:
  assumes c: "chain h b (xs @ e # ys)" and b': "bkt_count b' = bkt_count b - 1" "hh_head b' = (if hh_head b = e then hh_next (h e) else hh_head b)"
    and h': "(\<lambda>x. hh_next (h' x)) = (if hh_prev (h e) \<noteq> 0 then (\<lambda>x. hh_next (h x))(hh_prev (h e) := hh_next (h e)) else (\<lambda>x. hh_next (h x)))"
      "(\<lambda>x. hh_prev (h' x)) = (if hh_next (h e) \<noteq> 0 then (\<lambda>x. hh_prev (h x))(hh_next (h e) := hh_prev (h e)) else (\<lambda>x. hh_prev (h x)))"
  shows "chain h' b' (xs @ ys)"
proof -
  have d: "dls (\<lambda>e. hh_next (h e)) (\<lambda>e. hh_prev (h e)) 0 (xs @ e # ys) 0" "distinct (xs @ e # ys)"
    using c unfolding chain_def by blast+
  have "dls (\<lambda>x. hh_next (h' x)) (\<lambda>x. hh_prev (h' x)) 0 (xs @ ys) 0"
    unfolding h' using dls_remove [OF d] .
  moreover have "hh_head b' = hd0 (xs @ ys) 0" using c b'(2) dls_no_self(4) [OF d] d(2) unfolding chain_def
    by (cases xs) auto
  moreover have "bkt_count b' = of_nat (length (xs @ ys))" using c b'(1) by (simp add: chain_def)
  ultimately show ?thesis using d(2) unfolding chain_def by simp
qed

lemma chains_remove:
  assumes c: "chains (hh u) n (buckets (tbl u)) E" and e: "e \<in> E" "bkt_of n (hh u e) = i" "i < length (buckets (tbl u))"
  shows "chains (hh (HASH_DEL_IN_BKT i e u)) n (buckets (tbl (HASH_DEL_IN_BKT i e u))) (E - {e})"
  unfolding chains_def
proof (intro allI impI)
  let ?v = "HASH_DEL_IN_BKT i e u"
  fix j assume j: "j < length (buckets (tbl ?v))"
  obtain b where b: "buckets (tbl ?v) = (buckets (tbl u))[i := b]" "bkt_count b = bkt_count (buckets (tbl u) ! i) - 1"
    "hh_head b = (if hh_head (buckets (tbl u) ! i) = e then hh_next (hh u e) else hh_head (buckets (tbl u) ! i))"
    using del_in_bkt_buckets [OF e(3)] by blast
  obtain zs where z: "chain (hh u) (buckets (tbl u) ! i) zs" "set zs = {e \<in> E. bkt_of n (hh u e) = i}"
    using c e(3) unfolding chains_def by blast
  then obtain xs ys where zs: "zs = xs @ e # ys" using e(1,2) by (metis (mono_tags, lifting) mem_Collect_eq split_list)
  have d: "dls (\<lambda>e. hh_next (hh u e)) (\<lambda>e. hh_prev (hh u e)) 0 (xs @ e # ys) 0" "distinct (xs @ e # ys)"
    using z(1) unfolding chain_def zs by blast+
  note ns = dls_no_self [OF d]
  note links = del_in_bkt_links [OF ns(1,2), of i]
  have bk: "bkt_of n (hh ?v x) = bkt_of n (hh u x)" for x by (rule bkt_of_core) simp
  show "\<exists>xs. chain (hh ?v) (buckets (tbl ?v) ! j) xs \<and> set xs = {x \<in> E - {e}. bkt_of n (hh ?v x) = j}"
  proof (cases "j = i")
    case True
    have "chain (hh ?v) b (xs @ ys)" using chain_remove [OF z(1) [unfolded zs] b(2,3) links] .
    moreover have "set (xs @ ys) = set zs - {e}" using d(2) by (auto simp: zs)
    ultimately show ?thesis using True b(1) e(3) z(2) bk by (intro exI [of _ "xs @ ys"]) auto
  next
    case False
    obtain ws where w: "chain (hh u) (buckets (tbl u) ! j) ws" "set ws = {e \<in> E. bkt_of n (hh u e) = j}"
      using c j b(1) unfolding chains_def by auto
    have "x \<notin> set zs" if "x \<in> set ws" for x using that w(2) z(2) False by auto
    moreover have "hh_prev (hh u e) = 0 \<or> hh_prev (hh u e) \<in> set zs" "hh_next (hh u e) = 0 \<or> hh_next (hh u e) \<in> set zs"
      using ns(3,4) by (auto simp: zs last0_def hd0_def split: list.splits)
    ultimately have out: "hh_prev (hh u e) = 0 \<or> hh_prev (hh u e) \<notin> set ws" "hh_next (hh u e) = 0 \<or> hh_next (hh u e) \<notin> set ws"
      by auto
    have "chain (hh ?v) (buckets (tbl u) ! j) ws"
      using w(1) out unfolding chain_def links by auto
    then show ?thesis using False b(1) w(2) e(2) bk by (intro exI [of _ ws]) auto
  qed
qed

lemma HASH_DELETE_spec:
  assumes inv: "ut_inv u es" and e: "e \<in> set es"
  shows "ut_inv (HASH_DELETE e u) (remove1 e es) \<and> (\<forall>x. hkey (hh (HASH_DELETE e u) x) = hkey (hh u x))"
proof -
  obtain xs ys where es: "es = xs @ e # ys" using e by (metis split_list)
  have dist: "distinct (xs @ e # ys)" and hd: "head u = hd0 es 0" "0 \<notin> set es" using inv by (simp_all add: ut_inv_def es)
  obtain k where k: "k < 32" "table_ok u es k" using inv e unfolding ut_inv_def by (cases es) auto
  have d: "dls (\<lambda>e. next_elt (hh u e)) (\<lambda>e. prev (hh u e)) 0 (xs @ e # ys) 0" using k(2) by (simp add: table_ok_def es)
  note ns = dls_no_self [OF d dist]
  have rm: "remove1 e es = xs @ ys" using dist by (simp add: es remove1_append)
  show ?thesis
  proof (cases "xs = [] \<and> ys = []")
    case True
    then show ?thesis using ns(5,6) by (simp add: HASH_DELETE_def rm ut_inv_def)
  next
    case False
    let ?u1 = "unlink e u"
    let ?i = "unat (HASH_TO_BKT (hashv (hh ?u1 e)) (num_buckets (tbl ?u1)))"
    let ?u2 = "HASH_DEL_IN_BKT ?i e ?u1"
    have del: "HASH_DELETE e u = set_tbl (\<lambda>t. t\<lparr>num_items := num_items t - 1\<rparr>) ?u2"
      using False ns(5,6) by (auto simp: HASH_DELETE_def Let_def)
    have i: "bkt_of (2 ^ k) (hh ?u1 e) = ?i" "?i < length (buckets (tbl ?u1))"
      using k bucket_mask [OF k(1)] by (simp_all add: bkt_of_def table_ok_def)
    have "chains (hh ?u1) (2 ^ k) (buckets (tbl ?u1)) (set es)"
      by (rule chains_cong [of "hh u"]) (use k(2) in \<open>simp_all add: table_ok_def\<close>)
    from chains_remove [OF this e i] have c: "chains (hh ?u2) (2 ^ k) (buckets (tbl ?u2)) (set (xs @ ys))"
      using dist by (simp add: es insert_Diff_if)
    note core = core_fields [of "hh ?u2" "hh ?u1", OF del_in_bkt_other(1)]
    have "dls (\<lambda>x. next_elt (hh ?u2 x)) (\<lambda>x. prev (hh ?u2 x)) 0 (xs @ ys) 0"
      unfolding core unlink_links [OF ns(1,2)] by (rule dls_remove [OF d dist])
    moreover have "length (buckets (tbl ?u2)) = 2 ^ k" using del_in_bkt_buckets [OF i(2), of e] k(2) by (auto simp: table_ok_def)
    moreover have "tail (tbl ?u2) = last (xs @ ys)"
      using k(2) ns(3,5) dist False by (cases ys rule: rev_cases) (auto simp: table_ok_def es last0_def)
    ultimately have "table_ok (HASH_DELETE e u) (xs @ ys) k"
      using c k(2) core unfolding del table_ok_def by (simp add: set_tbl_def es)
    moreover have "head (HASH_DELETE e u) = hd0 (xs @ ys) 0"
      using hd(1) ns(4,5) by (cases xs) (auto simp: del set_tbl_def es)
    ultimately have "ut_inv (HASH_DELETE e u) (xs @ ys)" using dist hd(2) k(1) unfolding ut_inv_def by (auto simp: es)
    then show ?thesis using core(3) by (simp add: rm del set_tbl_def)
  qed
qed

subsection \<open>Iteration and integrity\<close>

lemma HASH_ITER_spec:
  "sl (\<lambda>e. next_elt (h e)) es \<Longrightarrow> HASH_ITER h (hd0 es 0) = Some es"
  by (induction es) (subst HASH_ITER.simps, simp)+

lemma ut_inv_iter: "ut_inv u es \<Longrightarrow> HASH_ITER (hh u) (head u) = Some es"
proof -
  assume inv: "ut_inv u es"
  have "sl (\<lambda>e. next_elt (hh u e)) es"
  proof (cases "es = []")
    case False
    then show ?thesis using inv dls_sl unfolding ut_inv_def table_ok_def by blast
  qed simp
  then show ?thesis using HASH_ITER_spec inv by (simp add: ut_inv_def)
qed

lemma fsck_chain_spec:
  "dls (\<lambda>e. hh_next (h e)) (\<lambda>e. hh_prev (h e)) p xs 0 \<Longrightarrow> fsck_chain h p (hd0 xs 0) c = Some (Some (c + of_nat (length xs)))"
  by (induction xs arbitrary: p c) (subst fsck_chain.simps, simp add: algebra_simps)+

lemma fsck_list_spec:
  "dls (\<lambda>e. next_elt (h e)) (\<lambda>e. prev (h e)) p xs 0 \<Longrightarrow> fsck_list h p (hd0 xs 0) c = Some (Some (c + of_nat (length xs)))"
  by (induction xs arbitrary: p c) (subst fsck_list.simps, simp add: algebra_simps)+

lemma fsck_buckets_spec:
  "(\<And>i. i < length bs \<Longrightarrow> chain h (bs ! i) (cs i)) \<Longrightarrow>
     fsck_buckets h bs c = Some (Some (c + of_nat (\<Sum>i < length bs. length (cs i))))"
proof (induction bs arbitrary: c cs)
  case (Cons b bs)
  have "chain h b (cs 0)" using Cons.prems [of 0] by simp
  then have "fsck_chain h 0 (hh_head b) 0 = Some (Some (of_nat (length (cs 0))))" "bkt_count b = of_nat (length (cs 0))"
    using fsck_chain_spec [of h 0 "cs 0" 0] unfolding chain_def by auto
  moreover have "fsck_buckets h bs (c + of_nat (length (cs 0)))
      = Some (Some (c + of_nat (length (cs 0)) + of_nat (\<Sum>i < length bs. length (cs (Suc i)))))"
  proof (rule Cons.IH)
    fix i assume "i < length bs"
    then show "chain h (bs ! i) (cs (Suc i))" using Cons.prems [of "Suc i"] by simp
  qed
  ultimately show ?case by (simp add: sum.lessThan_Suc_shift algebra_simps del: sum.lessThan_Suc)
qed simp

lemma partition_lengths:
  fixes n :: nat
  assumes "\<And>i. i < n \<Longrightarrow> distinct (cs i) \<and> set (cs i) = {e \<in> set es. f e = i}" "\<And>e. e \<in> set es \<Longrightarrow> f e < n" "distinct es"
  shows "(\<Sum>i < n. length (cs i)) = length es"
proof -
  have "(\<Sum>i < n. length (cs i)) = (\<Sum>i < n. card {e \<in> set es. f e = i})"
    using assms(1) by (intro sum.cong) (auto simp: distinct_card [symmetric])
  also have "\<dots> = card (\<Union>i \<in> {..<n}. {e \<in> set es. f e = i})"
    by (rule card_UN_disjoint [symmetric]) (simp_all, auto)
  also have "(\<Union>i \<in> {..<n}. {e \<in> set es. f e = i}) = set es" using assms(2) by auto
  finally show ?thesis using assms(3) by (simp add: distinct_card)
qed

lemma chains_lists:
  "chains h n bs E \<Longrightarrow> \<exists>cs. \<forall>i < length bs. chain h (bs ! i) (cs i) \<and> set (cs i) = {e \<in> E. bkt_of n (h e) = i}"
proof -
  assume "chains h n bs E"
  then have "\<forall>i. \<exists>xs. i < length bs \<longrightarrow> chain h (bs ! i) xs \<and> set xs = {e \<in> E. bkt_of n (h e) = i}"
    unfolding chains_def by auto
  from choice [OF this] show ?thesis by blast
qed

text \<open>The chains of a table pass the first half of the integrity check, whatever its list.\<close>

lemma fsck_buckets_chains:
  assumes c: "chains h (2 ^ k) bs (set es)" "length bs = 2 ^ k" "k < 32" "distinct es"
  shows "fsck_buckets h bs 0 = Some (Some (of_nat (length es)))"
proof -
  obtain cs where cs: "\<forall>i < length bs. chain h (bs ! i) (cs i) \<and> set (cs i) = {e \<in> set es. bkt_of (2 ^ k) (h e) = i}"
    using chains_lists [OF c(1)] by blast
  have "(\<Sum>i < length bs. length (cs i)) = length es"
    by (rule partition_lengths [of _ _ _ "\<lambda>e. bkt_of (2 ^ k) (h e)"])
      (use cs c(2,4) bucket_mask [OF c(3)] in \<open>auto simp: chain_def bkt_of_def\<close>)
  then show ?thesis using fsck_buckets_spec [of bs h cs 0] cs by simp
qed

lemma ut_inv_fsck:
  assumes "ut_inv u es"
  shows "HASH_FSCK u = Some True"
proof (cases "es = []")
  case True
  then show ?thesis using assms by (simp add: ut_inv_def HASH_FSCK_def)
next
  case False
  then obtain k where k: "k < 32" "table_ok u es k" and hd: "head u = hd0 es 0" "0 \<notin> set es" "distinct es"
    using assms unfolding ut_inv_def by blast
  have "head u \<noteq> 0" using False hd by (cases es) auto
  let ?bs = "buckets (tbl u)"
  have len: "length ?bs = 2 ^ k" "num_buckets (tbl u) = 2 ^ k" using k(2) by (simp_all add: table_ok_def)
  have 1: "fsck_buckets (hh u) (take (unat (num_buckets (tbl u))) ?bs) 0 = Some (Some (of_nat (length es)))"
    using fsck_buckets_chains [OF _ len(1) k(1) hd(3)] k(2) len unat_pow2 [OF k(1)] by (simp add: table_ok_def)
  have 2: "fsck_list (hh u) 0 (head u) 0 = Some (Some (of_nat (length es)))"
    using fsck_list_spec [of "hh u" 0 es 0] k(2) hd(1) by (simp add: table_ok_def)
  have "num_items (tbl u) = of_nat (length es)" using k(2) by (simp add: table_ok_def)
  then show ?thesis using 1 2 by (simp add: HASH_FSCK_def)
qed

subsection \<open>The contract of a table of elements\<close>

text \<open>
  What the three families of macros (\<open>HASH\<close>, \<open>XHASH\<close>, \<open>NXHASH\<close>) promise a client: a
  table holds a list \<open>es\<close> of elements in the order they were added; \<open>find\<close> returns an element
  with the key when there is one and NULL otherwise. With distinct keys this is a table of
  theory \<open>Table\<close>.
\<close>

locale element_table =
  fixes inv :: "'u \<Rightarrow> addr list \<Rightarrow> bool"
    and keyf :: "'u \<Rightarrow> addr \<Rightarrow> byte list"
    and find :: "byte list \<Rightarrow> 'u \<Rightarrow> addr option"
    and add :: "byte list \<Rightarrow> addr \<Rightarrow> 'u \<Rightarrow> 'u option"
    and room :: "'u \<Rightarrow> addr list \<Rightarrow> bool"
  assumes elements: "inv u es \<Longrightarrow> distinct es \<and> 0 \<notin> set es"
    and find_law: "inv u es \<Longrightarrow> length key < 2 ^ 32 \<Longrightarrow>
      \<exists>out. find key u = Some out \<and> (if out = 0 then \<forall>e \<in> set es. keyf u e \<noteq> key else out \<in> set es \<and> keyf u out = key)"
    and add_law: "inv u es \<Longrightarrow> room u es \<Longrightarrow> e \<notin> set es \<Longrightarrow> e \<noteq> 0 \<Longrightarrow> length key < 2 ^ 32 \<Longrightarrow>
      \<exists>u'. add key e u = Some u' \<and> inv u' (es @ [e]) \<and> (\<forall>x \<in> set (es @ [e]). keyf u' x = (if x = e then key else keyf u x))"
begin

definition abs :: "'u \<Rightarrow> addr list \<Rightarrow> (byte list, addr) table" where
  "abs u es = map (\<lambda>e. (keyf u e, e)) (rev es)"

lemma abs_iter: "map snd (tbl_iter (abs u es)) = es"
  by (simp add: abs_def tbl_iter_def rev_map comp_def)

lemma abs_member: "(k, e) \<in> set (abs u es) \<longleftrightarrow> e \<in> set es \<and> keyf u e = k"
  by (auto simp: abs_def)

lemma find_abs:
  assumes "inv u es" "length key < 2 ^ 32" "tbl_distinct (abs u es)"
  shows "find key u = Some (case tbl_find key (abs u es) of None \<Rightarrow> 0 | Some e \<Rightarrow> e)"
proof -
  obtain out where f: "find key u = Some out"
    "if out = 0 then \<forall>e \<in> set es. keyf u e \<noteq> key else out \<in> set es \<and> keyf u out = key"
    using find_law [OF assms(1,2)] by blast
  show ?thesis
  proof (cases "out = 0")
    case True
    have "tbl_find key (abs u es) = None"
      unfolding tbl_find_None using f(2) True abs_member by fastforce
    then show ?thesis using f(1) True by simp
  next
    case False
    then have "tbl_find key (abs u es) = Some out"
      using f(2) assms(3) abs_member by (intro tbl_distinct_find) auto
    then show ?thesis using f(1) by simp
  qed
qed

lemma add_abs:
  assumes "inv u es" "room u es" "e \<notin> set es" "e \<noteq> 0" "length key < 2 ^ 32"
  shows "\<exists>u'. add key e u = Some u' \<and> inv u' (es @ [e]) \<and> abs u' (es @ [e]) = tbl_add key e (abs u es)"
proof -
  obtain u' where u': "add key e u = Some u'" "inv u' (es @ [e])"
    "\<forall>x \<in> set (es @ [e]). keyf u' x = (if x = e then key else keyf u x)"
    using add_law [OF assms] by blast
  have "abs u' (es @ [e]) = tbl_add key e (abs u es)"
    using u'(3) assms(3) by (auto simp: abs_def tbl_add_def)
  then show ?thesis using u' by blast
qed

text \<open>An element whose key is new is found afterwards, and so is everything that was found before.\<close>

lemma find_after_add:
  assumes "inv u es" "room u es" "e \<notin> set es" "e \<noteq> 0" "length key < 2 ^ 32" "length k < 2 ^ 32"
    "tbl_distinct (abs u es)" "find key u = Some 0"
  shows "\<exists>u'. add key e u = Some u' \<and> inv u' (es @ [e]) \<and> tbl_distinct (abs u' (es @ [e]))
    \<and> find k u' = (if k = key then Some e else find k u)"
proof -
  obtain u' where u': "add key e u = Some u'" "inv u' (es @ [e])" "abs u' (es @ [e]) = tbl_add key e (abs u es)"
    using add_abs [OF assms(1-5)] by blast
  have n: "tbl_find key (abs u es) = None"
    using assms(8) find_abs [OF assms(1,5,7)] elements [OF assms(1)] abs_member tbl_find_set
    by (cases "tbl_find key (abs u es)") fastforce+
  then have d: "tbl_distinct (abs u' (es @ [e]))" using assms(7) u'(3) by simp
  moreover have "find k u' = (if k = key then Some e else find k u)"
    using find_abs [OF u'(2) assms(6) d] find_abs [OF assms(1,6,7)] u'(3) by simp
  ultimately show ?thesis using u'(1,2) by blast
qed

end

definition hash_inv :: "ut \<Rightarrow> addr list \<Rightarrow> bool" where
  "hash_inv u es \<longleftrightarrow> ut_inv u es \<and> short_keys u es"

definition hash_room :: "ut \<Rightarrow> addr list \<Rightarrow> bool" where
  "hash_room u es \<longleftrightarrow> Suc (length es) < 2 ^ 32 \<and> (es \<noteq> [] \<longrightarrow> num_buckets (tbl u) < 2 ^ 31)"

interpretation uth: element_table hash_inv "\<lambda>u e. hkey (hh u e)" HASH_FIND HASH_ADD_KEYPTR hash_room
proof
  show "distinct es \<and> 0 \<notin> set es" if "hash_inv u es" for u es
    using that by (simp add: hash_inv_def ut_inv_def)
  show "\<exists>out. HASH_FIND key u = Some out \<and> (if out = 0 then \<forall>e \<in> set es. hkey (hh u e) \<noteq> key
      else out \<in> set es \<and> hkey (hh u out) = key)" if "hash_inv u es" "length key < 2 ^ 32" for u es key
    using that HASH_FIND_spec unfolding hash_inv_def by blast
  show "\<exists>u'. HASH_ADD_KEYPTR key e u = Some u' \<and> hash_inv u' (es @ [e])
      \<and> (\<forall>x \<in> set (es @ [e]). hkey (hh u' x) = (if x = e then key else hkey (hh u x)))"
    if "hash_inv u es" "hash_room u es" "e \<notin> set es" "e \<noteq> 0" "length key < 2 ^ 32" for u es e key
  proof -
    note a = that
    obtain u' where "HASH_ADD_KEYPTR key e u = Some u'" "ut_inv u' (es @ [e])"
      "\<forall>x. hkey (hh u' x) = (if x = e then key else hkey (hh u x))"
      using HASH_ADD_spec [of u es e key] a unfolding hash_inv_def hash_room_def by blast
    then show ?thesis using a by (auto simp: hash_inv_def short_keys_def)
  qed
qed

subsection \<open>Properties\<close>

lemma rev_remove1_distinct: "distinct xs \<Longrightarrow> rev (remove1 x xs) = remove1 x (rev xs)"
  by (simp add: distinct_remove1_removeAll removeAll_filter_not_eq rev_filter)

lemma tbl_del_remove1:
  "distinct (map f es) \<Longrightarrow> e \<in> set es \<Longrightarrow> tbl_del (f e) (map (\<lambda>e. (f e, e)) es) = map (\<lambda>e. (f e, e)) (remove1 e es)"
  by (induction es) auto

lemma hash_delete_abs:
  assumes inv: "hash_inv u es" and e: "e \<in> set es" and d: "tbl_distinct (uth.abs u es)"
  shows "hash_inv (HASH_DELETE e u) (remove1 e es)
    \<and> uth.abs (HASH_DELETE e u) (remove1 e es) = tbl_del (hkey (hh u e)) (uth.abs u es)"
proof -
  have del: "ut_inv (HASH_DELETE e u) (remove1 e es)" "\<And>x. hkey (hh (HASH_DELETE e u) x) = hkey (hh u x)"
    using HASH_DELETE_spec [OF _ e] inv unfolding hash_inv_def by blast+
  have "distinct es" using inv by (simp add: hash_inv_def ut_inv_def)
  moreover have "distinct (map (\<lambda>e. hkey (hh u e)) (rev es))"
    using d by (simp add: tbl_distinct_def uth.abs_def comp_def)
  ultimately have "uth.abs (HASH_DELETE e u) (remove1 e es) = tbl_del (hkey (hh u e)) (uth.abs u es)"
    using e del(2) tbl_del_remove1 [of "\<lambda>e. hkey (hh u e)" "rev es" e] by (simp add: uth.abs_def rev_remove1_distinct)
  moreover have "short_keys (HASH_DELETE e u) (remove1 e es)"
    using inv del(2) by (auto simp: hash_inv_def short_keys_def dest: in_set_remove1 [THEN iffD1] set_remove1_subset [THEN subsetD])
  ultimately show ?thesis using del(1) by (simp add: hash_inv_def)
qed

lemma hash_count: "ut_inv u es \<Longrightarrow> HASH_COUNT u = of_nat (length es)"
  by (cases es) (auto simp: ut_inv_def HASH_COUNT_def table_ok_def)

text \<open>The table before anything is added: \<open>head\<close> is NULL and the rest is not looked at.\<close>

definition empty_ut :: ut where
  "empty_ut = \<lparr>head = 0, tbl = \<lparr>buckets = [], num_buckets = 0, log2_num_buckets = 0, num_items = 0, tail = 0,
     ideal_chain_maxlen = 0, nonideal_items = 0, ineff_expands = 0, noexpand = 0, signature = 0\<rparr>,
     hh = (\<lambda>_. \<lparr>prev = 0, next_elt = 0, hh_prev = 0, hh_next = 0, hkey = [], keylen = 0, hashv = 0\<rparr>)\<rparr>"

lemma hash_inv_empty: "hash_inv empty_ut []" "hash_room empty_ut []" "uth.abs empty_ut [] = []"
  by (simp_all add: hash_inv_def ut_inv_def short_keys_def empty_ut_def hash_room_def uth.abs_def)

lemma one_element:
  "\<exists>u. HASH_ADD_KEYPTR [7] 4096 empty_ut = Some u \<and> hash_inv u [4096] \<and> uth.abs u [4096] = [([7], 4096)]"
  using uth.add_abs [OF hash_inv_empty(1,2), of 4096 "[7]"] by (auto simp: hash_inv_empty tbl_add_def)

text \<open>A table with two elements.\<close>

lemma first_no_expand: "e \<noteq> 0 \<Longrightarrow> HASH_ADD_KEYPTR key e empty_ut = Some u \<Longrightarrow> num_buckets (tbl u) = 32"
proof -
  assume e: "e \<noteq> 0" "HASH_ADD_KEYPTR key e empty_ut = Some u"
  let ?l = "listed key e empty_ut"
  have l: "num_buckets (tbl ?l) = 32" "buckets (tbl ?l) = replicate 32 empty_bucket"
    by (simp_all add: listed_def link_last_def set_hh_def set_tbl_def HASH_MAKE_TABLE_def HASH_INITIAL_NUM_BUCKETS_def empty_ut_def)
  let ?i = "unat (HASH_TO_BKT (hashv (hh ?l e)) 32)"
  have i: "?i < 32" using bucket_mask [of 5 "hashv (hh ?l e)"] by simp
  have "bkt_count (buckets (tbl (link_in_bkt ?i e ?l)) ! ?i) = 1" "expand_mult (buckets (tbl (link_in_bkt ?i e ?l)) ! ?i) = 0"
    "num_buckets (tbl (link_in_bkt ?i e ?l)) = 32"
    using l i by (simp_all add: link_in_bkt_def set_hh_def set_tbl_def Let_def set_bkt_def empty_bucket_def)
  moreover have "\<not> (10 :: u32) \<le> 1" by code_simp
  ultimately show ?thesis using e(2) l(1) by (auto simp: HASH_ADD_KEYPTR_listed HASH_ADD_TO_BKT_def Let_def HASH_BKT_CAPACITY_THRESH_def)
qed

lemma two_elements:
  assumes "a \<noteq> 0" "b \<noteq> 0" "a \<noteq> b"
  shows "\<exists>u1 u. HASH_ADD_KEYPTR [7] a empty_ut = Some u1 \<and> HASH_ADD_KEYPTR [8] b u1 = Some u \<and> hash_inv u [a, b]"
proof -
  obtain u1 where u1: "HASH_ADD_KEYPTR [7] a empty_ut = Some u1" "hash_inv u1 [a]"
    using uth.add_abs [OF hash_inv_empty(1,2), of a "[7]"] assms by force
  then have "hash_room u1 [a]" using first_no_expand [of a "[7]"] assms by (simp add: hash_room_def)
  then show ?thesis using u1 uth.add_abs [OF u1(2), of b "[8]"] assms by auto
qed

text \<open>
  C13: The pointer structure of a \<open>HASH\<close> table refines the table the runtime's model uses, as
  long as keys are distinct: \<open>HASH_FIND\<close> returns what the table holds for the key and NULL
  otherwise, \<open>HASH_ADD_KEYPTR\<close> (also when it doubles the number of buckets) and
  \<open>HASH_DELETE\<close> add and delete one entry, \<open>HASH_ITER\<close> goes through the elements in the
  order they were added, and \<open>HASH_COUNT\<close> counts them.
\<close>

theorem uthash_refines_table:
  assumes "hash_inv u es" "tbl_distinct (uth.abs u es)" "length key < 2 ^ 32"
  shows "HASH_FIND key u = Some (case tbl_find key (uth.abs u es) of None \<Rightarrow> 0 | Some e \<Rightarrow> e)
    \<and> (hash_room u es \<and> e \<notin> set es \<and> e \<noteq> 0 \<longrightarrow>
         (\<exists>u'. HASH_ADD_KEYPTR key e u = Some u' \<and> hash_inv u' (es @ [e]) \<and> uth.abs u' (es @ [e]) = tbl_add key e (uth.abs u es)))
    \<and> (d \<in> set es \<longrightarrow> hash_inv (HASH_DELETE d u) (remove1 d es)
         \<and> uth.abs (HASH_DELETE d u) (remove1 d es) = tbl_del (hkey (hh u d)) (uth.abs u es))
    \<and> HASH_ITER (hh u) (head u) = Some (map snd (tbl_iter (uth.abs u es)))
    \<and> HASH_COUNT u = of_nat (length (uth.abs u es))"
proof -
  have ut: "ut_inv u es" using assms(1) by (simp add: hash_inv_def)
  have "length (uth.abs u es) = length es" by (simp add: uth.abs_def)
  then show ?thesis
    using uth.find_abs [OF assms(1,3,2)] uth.add_abs [OF assms(1) _ _ _ assms(3), of e]
      hash_delete_abs [OF assms(1) _ assms(2), of d] ut_inv_iter [OF ut] hash_count [OF ut] uth.abs_iter [of u es]
    by (intro conjI impI) simp_all
qed

theorem uthash_refines_table_witness:
  "\<exists>u. HASH_ADD_KEYPTR [7] 4096 empty_ut = Some u \<and> HASH_FIND [7] u = Some 4096 \<and> HASH_FIND [8] u = Some 0
     \<and> HASH_ITER (hh u) (head u) = Some [4096] \<and> HASH_COUNT u = 1 \<and> hash_inv (HASH_DELETE 4096 u) []"
proof -
  obtain u where u: "HASH_ADD_KEYPTR [7] 4096 empty_ut = Some u" "hash_inv u [4096]" "uth.abs u [4096] = [([7], 4096)]"
    using one_element by blast
  have d: "tbl_distinct (uth.abs u [4096])" by (simp add: u(3) tbl_distinct_def)
  show ?thesis
    using u uthash_refines_table [OF u(2) d, of "[7]" 4096 4096] uthash_refines_table [OF u(2) d, of "[8]" 4096 4096]
    by (intro exI [of _ u]) (simp add: tbl_find_def tbl_iter_def)
qed

text \<open>
  C16: The integrity check \<open>HASH_FSCK\<close> never finds anything: it ends with success on every
  table built by \<open>HASH_ADD_KEYPTR\<close> and \<open>HASH_DELETE\<close>.
\<close>

theorem uthash_fsck:
  assumes "hash_inv u es"
  shows "HASH_FSCK u = Some True
    \<and> (hash_room u es \<and> e \<notin> set es \<and> e \<noteq> 0 \<and> length key < 2 ^ 32 \<longrightarrow>
         (\<exists>u'. HASH_ADD_KEYPTR key e u = Some u' \<and> HASH_FSCK u' = Some True))
    \<and> (d \<in> set es \<longrightarrow> HASH_FSCK (HASH_DELETE d u) = Some True)"
proof (intro conjI impI)
  show "HASH_FSCK u = Some True" using assms ut_inv_fsck unfolding hash_inv_def by blast
  assume "hash_room u es \<and> e \<notin> set es \<and> e \<noteq> 0 \<and> length key < 2 ^ 32"
  then obtain u' where "HASH_ADD_KEYPTR key e u = Some u'" "hash_inv u' (es @ [e])"
    using uth.add_law [OF assms, of e key] by blast
  then show "\<exists>u'. HASH_ADD_KEYPTR key e u = Some u' \<and> HASH_FSCK u' = Some True"
    using ut_inv_fsck by (auto simp: hash_inv_def)
next
  assume "d \<in> set es"
  then show "HASH_FSCK (HASH_DELETE d u) = Some True"
    using assms HASH_DELETE_spec ut_inv_fsck unfolding hash_inv_def by blast
qed

theorem uthash_fsck_witness:
  "\<exists>u. HASH_ADD_KEYPTR [7] 4096 empty_ut = Some u \<and> HASH_FSCK u = Some True \<and> HASH_FSCK (HASH_DELETE 4096 u) = Some True"
proof -
  obtain u where u: "HASH_ADD_KEYPTR [7] 4096 empty_ut = Some u" "hash_inv u [4096]" using one_element by blast
  then show ?thesis using uthash_fsck [OF u(2), of 4096 "[7]" 4096] by simp
qed

end
