(* ===== verification/Xhash.thy ===== *)
theory Xhash
  imports Uthash
begin

text \<open>
  The table of src/contrib/uthash/uthash_xform.h, which the type table uses: the macros of
  uthash.h with one lock per bucket, a lock for the expansion of the whole table and one
  for the list of all elements. The links are those of theory \<open>Uthash\<close>; beside them the
  state has the mutex of every bucket, the mutexes that were freed, and the operations on
  locks in the order they were made. The locks \<open>expand_lock\<close> and \<open>link_lock\<close> are
  fields of the handle of the element \<open>head\<close> points to.
\<close>

subsection \<open>State\<close>

datatype lockname = Expand_lock addr | Link_lock addr | Bucket_mutex nat

datatype lock_op = Rdlock lockname | Wrlock lockname | Unlock lockname

text \<open>A mutex is named by the number of mutexes allocated before it.\<close>

record xut =
  xu :: ut
  bucket_mutex :: "nat list"
  allocated :: nat
  freed_mutexes :: "nat list"
  lock_ops :: "lock_op list"

definition XHASH_INITIAL_NUM_BUCKETS :: u32 where "XHASH_INITIAL_NUM_BUCKETS = 1024"

definition XHASH_INITIAL_NUM_BUCKETS_LOG2 :: u32 where "XHASH_INITIAL_NUM_BUCKETS_LOG2 = 10"

definition XHASH_MAX_NUM_MUTEX :: u32 where "XHASH_MAX_NUM_MUTEX = 1024"

definition XHASH_MAX_NUM_BUCKETS :: u32 where "XHASH_MAX_NUM_BUCKETS = 16777216"

definition do_lock :: "lock_op \<Rightarrow> xut \<Rightarrow> xut" where
  "do_lock p x = x\<lparr>lock_ops := lock_ops x @ [p]\<rparr>"

definition key_bucket :: "byte list \<Rightarrow> xut \<Rightarrow> nat" where
  "key_bucket key x = unat (HASH_TO_BKT (HASH_JEN key) (num_buckets (tbl (xu x))))"

subsection \<open>Expansion\<close>

text \<open>
  The mutexes of the old buckets are freed, as far as they are not shared; the new buckets
  get new ones, of which there are at most \<open>XHASH_MAX_NUM_MUTEX\<close>: bucket \<open>i\<close> shares the
  mutex of bucket \<open>i % XHASH_MAX_NUM_MUTEX\<close>.
\<close>

definition new_mutexes :: "nat \<Rightarrow> nat \<Rightarrow> nat list \<times> nat" where
  "new_mutexes a n =
     (if n \<ge> unat XHASH_MAX_NUM_MUTEX
      then (map (\<lambda>i. a + i mod unat XHASH_MAX_NUM_MUTEX) [0..<n], a + unat XHASH_MAX_NUM_MUTEX)
      else (map (\<lambda>i. a + i) [0..<n], a + n))"

definition XHASH_EXPAND_BUCKETS :: "xut \<Rightarrow> xut option" where
  "XHASH_EXPAND_BUCKETS x =
     (if num_buckets (tbl (xu x)) \<ge> XHASH_MAX_NUM_BUCKETS then Some x
      else
        let x = do_lock (Wrlock (Expand_lock (head (xu x)))) x
        in Option.bind (HASH_EXPAND_BUCKETS (xu x)) (\<lambda>u.
             let (ms, a) = new_mutexes (allocated x) (unat (num_buckets (tbl u)));
                 x = x\<lparr>xu := u, freed_mutexes := freed_mutexes x @ take (unat XHASH_MAX_NUM_MUTEX) (bucket_mutex x),
                       bucket_mutex := ms, allocated := a\<rparr>
             in Some (do_lock (Unlock (Expand_lock (head (xu x)))) x)))"

subsection \<open>Locks of a bucket\<close>

definition XHASH_RDLOCK_BUCKET :: "byte list \<Rightarrow> xut \<Rightarrow> xut" where
  "XHASH_RDLOCK_BUCKET key x =
     (let x = do_lock (Rdlock (Expand_lock (head (xu x)))) x
      in do_lock (Rdlock (Bucket_mutex (bucket_mutex x ! key_bucket key x))) x)"

definition XHASH_WRLOCK_BUCKET :: "byte list \<Rightarrow> xut \<Rightarrow> xut" where
  "XHASH_WRLOCK_BUCKET key x =
     (let x = do_lock (Rdlock (Expand_lock (head (xu x)))) x
      in do_lock (Wrlock (Bucket_mutex (bucket_mutex x ! key_bucket key x))) x)"

definition XHASH_UNLOCK_BUCKET :: "byte list \<Rightarrow> xut \<Rightarrow> xut option" where
  "XHASH_UNLOCK_BUCKET key x =
     (let i = key_bucket key x;
          x = do_lock (Unlock (Bucket_mutex (bucket_mutex x ! i))) x;
          x = do_lock (Unlock (Expand_lock (head (xu x)))) x;
          b = buckets (tbl (xu x)) ! i
      in if bkt_count b \<ge> (expand_mult b + 1) * HASH_BKT_CAPACITY_THRESH \<and> noexpand (tbl (xu x)) \<noteq> 1
         then XHASH_EXPAND_BUCKETS x else Some x)"

subsection \<open>Find, add and delete\<close>

definition XHASH_FIND :: "byte list \<Rightarrow> xut \<Rightarrow> addr option" where
  "XHASH_FIND key x = HASH_FIND key (xu x)"

definition XHASH_MAKE_TABLE :: "xut \<Rightarrow> xut" where
  "XHASH_MAKE_TABLE x =
     (let u = xu x;
          t = \<lparr>buckets = replicate (unat XHASH_INITIAL_NUM_BUCKETS) empty_bucket,
               num_buckets = XHASH_INITIAL_NUM_BUCKETS, log2_num_buckets = XHASH_INITIAL_NUM_BUCKETS_LOG2, num_items = 0,
               tail = head u, ideal_chain_maxlen = 0, nonideal_items = 0, ineff_expands = 0, noexpand = 0,
               signature = HASH_SIGNATURE\<rparr>
      in x\<lparr>xu := u\<lparr>tbl := t\<rparr>, bucket_mutex := map (\<lambda>i. allocated x + i) [0..<unat XHASH_INITIAL_NUM_BUCKETS],
           allocated := allocated x + unat XHASH_INITIAL_NUM_BUCKETS\<rparr>)"

definition on_xu :: "(ut \<Rightarrow> ut) \<Rightarrow> xut \<Rightarrow> xut" where
  "on_xu f x = x\<lparr>xu := f (xu x)\<rparr>"

text \<open>An element is linked into its bucket without expansion, which would need the locks held here.\<close>

definition XHASH_ADD_TO_BKT :: "nat \<Rightarrow> addr \<Rightarrow> xut \<Rightarrow> xut" where
  "XHASH_ADD_TO_BKT i add = on_xu (link_in_bkt i add)"

definition XHASH_ADD_KEYPTR :: "byte list \<Rightarrow> addr \<Rightarrow> xut \<Rightarrow> xut option" where
  "XHASH_ADD_KEYPTR key add x =
     (let x = on_xu (set_hh add (\<lambda>h. h\<lparr>next_elt := 0, hkey := key, keylen := of_nat (length key)\<rparr>)) x;
          x = (if head (xu x) = 0
               then do_lock (Wrlock (Link_lock add))
                      (XHASH_MAKE_TABLE (on_xu (\<lambda>u. set_hh add (\<lambda>h. h\<lparr>prev := 0\<rparr>) (u\<lparr>head := add\<rparr>)) x))
               else on_xu (link_last add) (do_lock (Wrlock (Link_lock (head (xu x)))) x));
          x = on_xu (set_tbl (\<lambda>t. t\<lparr>num_items := num_items t + 1\<rparr>)) x;
          x = do_lock (Unlock (Link_lock (head (xu x)))) x;
          x = on_xu (set_hh add (\<lambda>h. h\<lparr>hashv := HASH_JEN key\<rparr>)) x
      in Some (XHASH_ADD_TO_BKT (key_bucket key x) add x))"

definition XHASH_DELETE :: "addr \<Rightarrow> xut \<Rightarrow> xut" where
  "XHASH_DELETE delptr = on_xu (HASH_DELETE delptr)"

subsection \<open>A table of elements\<close>

lemma do_lock_simps [simp]:
  "xu (do_lock p x) = xu x" "bucket_mutex (do_lock p x) = bucket_mutex x" "allocated (do_lock p x) = allocated x"
  "freed_mutexes (do_lock p x) = freed_mutexes x" "lock_ops (do_lock p x) = lock_ops x @ [p]"
  by (simp_all add: do_lock_def)

lemma on_xu_simps [simp]:
  "xu (on_xu f x) = f (xu x)" "bucket_mutex (on_xu f x) = bucket_mutex x" "allocated (on_xu f x) = allocated x"
  "freed_mutexes (on_xu f x) = freed_mutexes x" "lock_ops (on_xu f x) = lock_ops x"
  by (simp_all add: on_xu_def)

text \<open>The links when \<open>XHASH_ADD_KEYPTR\<close> comes to the bucket, apart from the locks.\<close>

definition xlisted :: "byte list \<Rightarrow> addr \<Rightarrow> xut \<Rightarrow> ut" where
  "xlisted key e x =
     (if head (xu x) = 0
      then set_hh e (\<lambda>h. h\<lparr>hashv := HASH_JEN key\<rparr>) (set_tbl (\<lambda>t. t\<lparr>num_items := num_items t + 1\<rparr>)
        (xu (XHASH_MAKE_TABLE (on_xu (\<lambda>u. set_hh e (\<lambda>h. h\<lparr>prev := 0\<rparr>) (u\<lparr>head := e\<rparr>))
          (on_xu (set_hh e (\<lambda>h. h\<lparr>next_elt := 0, hkey := key, keylen := of_nat (length key)\<rparr>)) x)))))
      else listed key e (xu x))"

lemma xu_XHASH_ADD_KEYPTR:
  assumes "XHASH_ADD_KEYPTR key e x = Some x'"
  shows "xu x' = link_in_bkt (unat (HASH_TO_BKT (hashv (hh (xlisted key e x) e)) (num_buckets (tbl (xlisted key e x))))) e
    (xlisted key e x)"
  using assms by (auto simp: XHASH_ADD_KEYPTR_def xlisted_def listed_def Let_def XHASH_ADD_TO_BKT_def key_bucket_def
      XHASH_MAKE_TABLE_def set_hh_def set_tbl_def)

lemma xlisted_first:
  assumes "ut_inv (xu x) []" "e \<noteq> 0"
  shows "listed_ok (xlisted key e x) [] e 10 \<and> head (xlisted key e x) = e \<and> (\<forall>y. hkey (hh (xlisted key e x) y) = (if y = e then key else hkey (hh (xu x) y)))"
proof -
  have "chains h (2 ^ 10) (replicate 1024 empty_bucket) {}" for h
    unfolding chains_def chain_def by (auto simp: empty_bucket_def intro: exI [of _ "[]"])
  then show ?thesis using assms
    by (simp add: ut_inv_def listed_ok_def xlisted_def set_hh_def set_tbl_def XHASH_MAKE_TABLE_def Let_def
        XHASH_INITIAL_NUM_BUCKETS_def XHASH_INITIAL_NUM_BUCKETS_LOG2_def)
qed

lemma XHASH_ADD_spec:
  assumes inv: "ut_inv (xu x) es" and e: "e \<notin> set es" "e \<noteq> 0"
  shows "\<exists>x'. XHASH_ADD_KEYPTR key e x = Some x' \<and> ut_inv (xu x') (es @ [e])
    \<and> (\<forall>y. hkey (hh (xu x') y) = (if y = e then key else hkey (hh (xu x) y)))
    \<and> num_buckets (tbl (xu x')) = (if es = [] then XHASH_INITIAL_NUM_BUCKETS else num_buckets (tbl (xu x)))"
proof -
  obtain x' where x': "XHASH_ADD_KEYPTR key e x = Some x'" by (simp add: XHASH_ADD_KEYPTR_def Let_def)
  have key: "hkey (hh (xlisted key e x) y) = (if y = e then key else hkey (hh (xu x) y))" for y
    using xlisted_first [of x e key] listed_hkey [of key e "xu x" y]
    by (cases "head (xu x) = 0") (auto simp: xlisted_def set_hh_def set_tbl_def XHASH_MAKE_TABLE_def Let_def)
  obtain k where k: "listed_ok (xlisted key e x) es e k" "k < 32" "head (xlisted key e x) = hd0 (es @ [e]) 0"
    "(2 ^ k :: u32) = (if es = [] then XHASH_INITIAL_NUM_BUCKETS else num_buckets (tbl (xu x)))"
  proof (cases "es = []")
    case True
    then show ?thesis using that [of 10] xlisted_first [of x e key] inv e(2) by (auto simp: XHASH_INITIAL_NUM_BUCKETS_def)
  next
    case False
    then obtain k where ok: "table_ok (xu x) es k" "k < 32" using inv unfolding ut_inv_def by blast
    have h: "head (xu x) \<noteq> 0" using inv False by (cases es) (auto simp: ut_inv_def)
    show ?thesis using that [of k] listed_later [OF ok(1), of e key] inv e False ok h
      by (cases es) (auto simp: ut_inv_def xlisted_def table_ok_def)
  qed
  let ?i = "unat (HASH_TO_BKT (hashv (hh (xlisted key e x) e)) (num_buckets (tbl (xlisted key e x))))"
  have l: "table_ok (xu x') (es @ [e]) k" "head (xu x') = head (xlisted key e x)"
    "\<And>y. core (hh (xu x') y) = core (hh (xlisted key e x) y)"
    using link_in_bkt_ok [OF k(1,2) e refl] xu_XHASH_ADD_KEYPTR [OF x'] by auto
  have "ut_inv (xu x') (es @ [e])" using l(1,2) k(2,3) inv e unfolding ut_inv_def by auto
  moreover have "hkey (hh (xu x') y) = (if y = e then key else hkey (hh (xu x) y))" for y
    using l(3) key [of y] by (simp add: core_def)
  ultimately show ?thesis using x' l(1) k(4) by (auto simp: table_ok_def)
qed

subsection \<open>Mutexes\<close>

text \<open>
  Every bucket has a mutex that is not freed; buckets whose numbers agree modulo
  \<open>XHASH_MAX_NUM_MUTEX\<close> share it, and no others do.
\<close>

definition mutex_ok :: "xut \<Rightarrow> bool" where
  "mutex_ok x \<longleftrightarrow> (\<exists>k. 10 \<le> k \<and> k \<le> 24 \<and> num_buckets (tbl (xu x)) = 2 ^ k \<and> length (bucket_mutex x) = 2 ^ k)
     \<and> (\<exists>a. a + 1024 \<le> allocated x \<and> (\<forall>i < length (bucket_mutex x). bucket_mutex x ! i = a + i mod 1024)
          \<and> (\<forall>m \<in> set (freed_mutexes x). m < a))"

definition x_inv :: "xut \<Rightarrow> addr list \<Rightarrow> bool" where
  "x_inv x es \<longleftrightarrow> hash_inv (xu x) es \<and> (if es = [] then \<forall>m \<in> set (freed_mutexes x). m < allocated x else mutex_ok x)"

lemma x_inv_hash: "x_inv x es \<Longrightarrow> hash_inv (xu x) es"
  by (simp add: x_inv_def)

lemma mutex_ok_cong:
  "mutex_ok x \<Longrightarrow> num_buckets (tbl (xu x')) = num_buckets (tbl (xu x)) \<Longrightarrow> bucket_mutex x' = bucket_mutex x \<Longrightarrow>
     allocated x' = allocated x \<Longrightarrow> freed_mutexes x' = freed_mutexes x \<Longrightarrow> mutex_ok x'"
  by (simp add: mutex_ok_def)

lemma XHASH_ADD_mutexes:
  assumes "XHASH_ADD_KEYPTR key e x = Some x'"
  shows "if head (xu x) = 0
    then bucket_mutex x' = map (\<lambda>i. allocated x + i) [0..<unat XHASH_INITIAL_NUM_BUCKETS]
      \<and> allocated x' = allocated x + unat XHASH_INITIAL_NUM_BUCKETS
    else bucket_mutex x' = bucket_mutex x \<and> allocated x' = allocated x"
    "freed_mutexes x' = freed_mutexes x"
    "head (xu x) \<noteq> 0 \<Longrightarrow> lock_ops x' = lock_ops x @ [Wrlock (Link_lock (head (xu x))), Unlock (Link_lock (head (xu x)))]"
  using assms
  by (auto simp: XHASH_ADD_KEYPTR_def Let_def XHASH_ADD_TO_BKT_def XHASH_MAKE_TABLE_def
      link_last_def set_hh_def set_tbl_def)

interpretation xth: element_table x_inv "\<lambda>x e. hkey (hh (xu x) e)" XHASH_FIND XHASH_ADD_KEYPTR "\<lambda>_ _. True"
proof
  show "distinct es \<and> 0 \<notin> set es" if "x_inv x es" for x es
    using that by (simp add: x_inv_def hash_inv_def ut_inv_def)
  show "\<exists>out. XHASH_FIND key x = Some out \<and> (if out = 0 then \<forall>e \<in> set es. hkey (hh (xu x) e) \<noteq> key
      else out \<in> set es \<and> hkey (hh (xu x) out) = key)" if "x_inv x es" "length key < 2 ^ 32" for x es key
    using uth.find_law [OF x_inv_hash [OF that(1)] that(2)] by (simp add: XHASH_FIND_def)
  show "\<exists>x'. XHASH_ADD_KEYPTR key e x = Some x' \<and> x_inv x' (es @ [e])
      \<and> (\<forall>y \<in> set (es @ [e]). hkey (hh (xu x') y) = (if y = e then key else hkey (hh (xu x) y)))"
    if "x_inv x es" "True" "e \<notin> set es" "e \<noteq> 0" "length key < 2 ^ 32" for x es e key
  proof -
    note a = that
    have inv: "ut_inv (xu x) es" "short_keys (xu x) es" using a(1) by (simp_all add: x_inv_def hash_inv_def)
    obtain x' where x': "XHASH_ADD_KEYPTR key e x = Some x'" "ut_inv (xu x') (es @ [e])"
      "\<And>y. hkey (hh (xu x') y) = (if y = e then key else hkey (hh (xu x) y))"
      "num_buckets (tbl (xu x')) = (if es = [] then XHASH_INITIAL_NUM_BUCKETS else num_buckets (tbl (xu x)))"
      using XHASH_ADD_spec [OF inv(1) a(3,4)] by blast
    have "short_keys (xu x') (es @ [e])" using inv(2) a(5) x'(3) by (auto simp: short_keys_def)
    moreover have "head (xu x) = 0 \<longleftrightarrow> es = []" using inv(1) by (cases es) (auto simp: ut_inv_def)
    moreover have "mutex_ok x'"
    proof (cases "es = []")
      case True
      then have h: "head (xu x) = 0" using inv(1) by (simp add: ut_inv_def)
      then have "bucket_mutex x' = map (\<lambda>i. allocated x + i) [0..<unat XHASH_INITIAL_NUM_BUCKETS]"
        "allocated x' = allocated x + unat XHASH_INITIAL_NUM_BUCKETS"
        "freed_mutexes x' = freed_mutexes x" using XHASH_ADD_mutexes [OF x'(1)] by auto
      then show ?thesis using a(1) True x'(4) unfolding mutex_ok_def x_inv_def
        by (intro conjI exI [of _ 10] exI [of _ "allocated x"]) (simp_all add: XHASH_INITIAL_NUM_BUCKETS_def del: upt_rec_numeral)
    next
      case False
      then have "head (xu x) \<noteq> 0" using inv(1) by (cases es) (auto simp: ut_inv_def)
      then have "bucket_mutex x' = bucket_mutex x" "allocated x' = allocated x" "freed_mutexes x' = freed_mutexes x"
        using XHASH_ADD_mutexes(1,2) [OF x'(1)] by simp_all
      moreover have "mutex_ok x" using a(1) False by (simp add: x_inv_def)
      ultimately show ?thesis using x'(4) False by (simp add: mutex_ok_cong [of x])
    qed
    ultimately show ?thesis using x' by (auto simp: x_inv_def hash_inv_def)
  qed
qed

lemma XHASH_EXPAND_spec:
  assumes inv: "x_inv x es" "es \<noteq> []" "length es < 2 ^ 32"
  shows "\<exists>x' grow. XHASH_EXPAND_BUCKETS x = Some x' \<and> x_inv x' es \<and> xth.abs x' es = xth.abs x es
    \<and> lock_ops x' = lock_ops x @ (if grow then [Wrlock (Expand_lock (head (xu x))), Unlock (Expand_lock (head (xu x)))] else [])"
proof (cases "num_buckets (tbl (xu x)) \<ge> XHASH_MAX_NUM_BUCKETS")
  case True
  then show ?thesis using inv(1) by (intro exI [of _ x] exI [of _ False]) (simp add: XHASH_EXPAND_BUCKETS_def)
next
  case False
  have ut: "ut_inv (xu x) es" "short_keys (xu x) es" and mx: "mutex_ok x" using inv by (simp_all add: x_inv_def hash_inv_def)
  obtain k where k: "k < 32" "table_ok (xu x) es k" using ut inv(2) unfolding ut_inv_def by blast
  obtain k' where k': "10 \<le> k'" "k' \<le> 24" "num_buckets (tbl (xu x)) = 2 ^ k'" "length (bucket_mutex x) = 2 ^ k'"
    using mx unfolding mutex_ok_def by blast
  obtain a where a: "a + 1024 \<le> allocated x" "\<And>i. i < length (bucket_mutex x) \<Longrightarrow> bucket_mutex x ! i = a + i mod 1024"
    "\<And>m. m \<in> set (freed_mutexes x) \<Longrightarrow> m < a"
    using mx unfolding mutex_ok_def by blast
  have kk: "k = k'"
  proof -
    have "unat (2 ^ k :: u32) = unat (2 ^ k' :: u32)" using k k'(3) by (simp add: table_ok_def)
    then have "(2 :: nat) ^ k = 2 ^ k'" using unat_pow2 k(1) k'(2) by simp
    then show ?thesis by simp
  qed
  have "k' < 24"
  proof (rule ccontr)
    assume "\<not> k' < 24"
    then have "k' = 24" using k'(2) by simp
    then show False using False k'(3) by (simp add: XHASH_MAX_NUM_BUCKETS_def)
  qed
  then obtain u where u: "HASH_EXPAND_BUCKETS (xu x) = Some u" "table_ok u es (Suc k)" "head u = head (xu x)"
    "\<forall>e. core (hh u e) = core (hh (xu x) e)"
    using table_ok_expand [OF k(2) _ inv(2,3)] kk by auto
  have key: "hkey (hh u e) = hkey (hh (xu x) e)" for e using u(4) by (simp add: core_def)
  have n: "num_buckets (tbl u) = 2 ^ Suc k" using u(2) by (simp add: table_ok_def)
  then have len: "unat (num_buckets (tbl u)) = 2 ^ Suc k" using unat_pow2 [of "Suc k"] \<open>k' < 24\<close> kk by simp
  have big: "(1024 :: nat) \<le> 2 ^ Suc k" using power_increasing [of 10 "Suc k" "2 :: nat"] k'(1) kk by simp
  have nm: "new_mutexes (allocated x) (unat (num_buckets (tbl u)))
      = (map (\<lambda>i. allocated x + i mod 1024) [0..<2 ^ Suc k], allocated x + 1024)"
    using big unfolding new_mutexes_def len by (simp add: XHASH_MAX_NUM_MUTEX_def)
  let ?x = "x\<lparr>xu := u, freed_mutexes := freed_mutexes x @ take 1024 (bucket_mutex x),
     bucket_mutex := map (\<lambda>i. allocated x + i mod 1024) [0..<2 ^ Suc k], allocated := allocated x + 1024,
     lock_ops := lock_ops x @ [Wrlock (Expand_lock (head (xu x))), Unlock (Expand_lock (head (xu x)))]\<rparr>"
  have eq: "XHASH_EXPAND_BUCKETS x = Some ?x"
    using False u(1,3) unfolding XHASH_EXPAND_BUCKETS_def Let_def do_lock_simps(1,3) u(1) nm
    by (simp add: nm do_lock_def XHASH_MAX_NUM_MUTEX_def del: upt_Suc power_Suc)
  have "m < allocated x" if "m \<in> set (take 1024 (bucket_mutex x))" for m
  proof -
    have "m \<in> set (bucket_mutex x)" using that by (rule in_set_takeD)
    then obtain i where "i < length (bucket_mutex x)" "m = bucket_mutex x ! i" unfolding in_set_conv_nth by blast
    then have "m = a + i mod 1024" using a(2) by simp
    moreover have "i mod 1024 < (1024 :: nat)" by simp
    ultimately show ?thesis using a(1) by linarith
  qed
  moreover have "m < allocated x" if "m \<in> set (freed_mutexes x)" for m using a(1) a(3) [OF that] by simp
  ultimately have "mutex_ok ?x" using n k'(1) \<open>k' < 24\<close> kk unfolding mutex_ok_def
    by (intro conjI exI [of _ "Suc k"] exI [of _ "allocated x"]) (auto simp: nth_append)
  moreover have "ut_inv u es" using u(2,3) ut(1) \<open>k' < 24\<close> kk unfolding ut_inv_def by (auto intro!: exI [of _ "Suc k"])
  moreover have "short_keys u es" using ut(2) key by (simp add: short_keys_def)
  ultimately have "x_inv ?x es" using inv(2) by (simp add: x_inv_def hash_inv_def)
  moreover have "xth.abs ?x es = xth.abs x es" using key by (simp add: xth.abs_def)
  ultimately show ?thesis using eq by (intro exI [of _ ?x] exI [of _ True]) simp
qed

lemma x_inv_do_lock [simp]: "x_inv (do_lock p x) es = x_inv x es"
  by (simp add: x_inv_def mutex_ok_def)

lemma abs_do_lock [simp]: "xth.abs (do_lock p x) es = xth.abs x es"
  by (simp add: xth.abs_def)

lemma key_bucket_do_lock [simp]: "key_bucket k (do_lock p x) = key_bucket k x"
  by (simp add: key_bucket_def)

lemma XHASH_FIND_do_lock [simp]: "XHASH_FIND k (do_lock p x) = XHASH_FIND k x"
  by (simp add: XHASH_FIND_def)

lemma XHASH_UNLOCK_spec:
  assumes inv: "x_inv x es" "es \<noteq> []" "length es < 2 ^ 32"
  shows "\<exists>x' grow. XHASH_UNLOCK_BUCKET key x = Some x' \<and> x_inv x' es \<and> xth.abs x' es = xth.abs x es
    \<and> lock_ops x' = lock_ops x @ [Unlock (Bucket_mutex (bucket_mutex x ! key_bucket key x)), Unlock (Expand_lock (head (xu x)))]
        @ (if grow then [Wrlock (Expand_lock (head (xu x))), Unlock (Expand_lock (head (xu x)))] else [])"
proof -
  let ?x = "do_lock (Unlock (Expand_lock (head (xu x)))) (do_lock (Unlock (Bucket_mutex (bucket_mutex x ! key_bucket key x))) x)"
  obtain x' grow where x': "XHASH_EXPAND_BUCKETS ?x = Some x'" "x_inv x' es" "xth.abs x' es = xth.abs ?x es"
    "lock_ops x' = lock_ops ?x @ (if grow then [Wrlock (Expand_lock (head (xu ?x))), Unlock (Expand_lock (head (xu ?x)))] else [])"
    using XHASH_EXPAND_spec [of ?x es] inv by auto
  let ?b = "buckets (tbl (xu x)) ! key_bucket key x"
  show ?thesis
  proof (cases "bkt_count ?b \<ge> (expand_mult ?b + 1) * HASH_BKT_CAPACITY_THRESH \<and> noexpand (tbl (xu x)) \<noteq> 1")
    case True
    then show ?thesis using x' by (intro exI [of _ x'] exI [of _ grow]) (simp add: XHASH_UNLOCK_BUCKET_def Let_def)
  next
    case False
    then show ?thesis using inv by (intro exI [of _ ?x] exI [of _ False]) (auto simp: XHASH_UNLOCK_BUCKET_def Let_def)
  qed
qed

lemma XHASH_ADD_keeps:
  assumes "x_inv x es" "es \<noteq> []" "e \<notin> set es" "e \<noteq> 0" "XHASH_ADD_KEYPTR key e x = Some x'"
  shows "num_buckets (tbl (xu x')) = num_buckets (tbl (xu x))" "head (xu x') = head (xu x)" "bucket_mutex x' = bucket_mutex x"
    "lock_ops x' = lock_ops x @ [Wrlock (Link_lock (head (xu x))), Unlock (Link_lock (head (xu x)))]"
proof -
  have ut: "ut_inv (xu x) es" using assms(1) by (simp add: x_inv_def hash_inv_def)
  then have h: "head (xu x) \<noteq> 0" using assms(2) by (cases es) (auto simp: ut_inv_def)
  have "ut_inv (xu x') (es @ [e]) \<and> num_buckets (tbl (xu x')) = num_buckets (tbl (xu x))"
    using XHASH_ADD_spec [OF ut assms(3,4), of key] assms(2,5) by auto
  then show "num_buckets (tbl (xu x')) = num_buckets (tbl (xu x))" "head (xu x') = head (xu x)"
    using ut assms(2) by (cases es; simp add: ut_inv_def)+
  show "bucket_mutex x' = bucket_mutex x"
    "lock_ops x' = lock_ops x @ [Wrlock (Link_lock (head (xu x))), Unlock (Link_lock (head (xu x)))]"
    using XHASH_ADD_mutexes [OF assms(5)] h by simp_all
qed

subsection \<open>Properties\<close>

definition empty_xut :: xut where
  "empty_xut = \<lparr>xu = empty_ut, bucket_mutex = [], allocated = 0, freed_mutexes = [], lock_ops = []\<rparr>"

lemma x_inv_empty: "x_inv empty_xut []" "xth.abs empty_xut [] = []"
  by (simp_all add: x_inv_def empty_xut_def hash_inv_empty xth.abs_def)

text \<open>
  C14: Adding a type the way the runtime does it, with the bucket of its key locked: the lock
  of the bucket and the expansion lock are taken, the list lock is held only while the list
  of all elements changes, and all are released in the opposite order. When the bucket has
  grown too long, the table is expanded only after that, under the expansion lock taken for
  writing. Afterwards the new element is found under its key, every other key is found as
  before, and every bucket again has a mutex that is allocated and that it shares exactly
  with the buckets whose numbers agree modulo 1024.
\<close>

theorem xhash_locked_add:
  assumes inv: "x_inv x es" "es \<noteq> []" "tbl_distinct (xth.abs x es)" "XHASH_FIND key x = Some 0"
    and e: "e \<notin> set es" "e \<noteq> 0" "Suc (length es) < 2 ^ 32" "length key < 2 ^ 32"
    and h: "h = head (xu x)" and m: "m = bucket_mutex x ! key_bucket key x"
  shows "\<exists>x' grow. Option.bind (XHASH_ADD_KEYPTR key e (XHASH_WRLOCK_BUCKET key x)) (XHASH_UNLOCK_BUCKET key) = Some x'
    \<and> x_inv x' (es @ [e]) \<and> mutex_ok x'
    \<and> (\<forall>k. length k < 2 ^ 32 \<longrightarrow> XHASH_FIND k x' = (if k = key then Some e else XHASH_FIND k x))
    \<and> lock_ops x' = lock_ops x @ [Rdlock (Expand_lock h), Wrlock (Bucket_mutex m), Wrlock (Link_lock h), Unlock (Link_lock h),
        Unlock (Bucket_mutex m), Unlock (Expand_lock h)] @ (if grow then [Wrlock (Expand_lock h), Unlock (Expand_lock h)] else [])"
proof -
  let ?x = "XHASH_WRLOCK_BUCKET key x"
  have x: "?x = do_lock (Wrlock (Bucket_mutex m)) (do_lock (Rdlock (Expand_lock h)) x)"
    by (simp add: XHASH_WRLOCK_BUCKET_def Let_def h m)
  obtain y where y: "XHASH_ADD_KEYPTR key e ?x = Some y" "x_inv y (es @ [e])" "xth.abs y (es @ [e]) = tbl_add key e (xth.abs x es)"
    using xth.add_abs [of ?x es e key] inv(1) e x by auto
  note k = XHASH_ADD_keeps [of ?x es e key y, OF _ inv(2) e(1,2) y(1)]
  have keeps: "num_buckets (tbl (xu y)) = num_buckets (tbl (xu x))" "head (xu y) = h" "bucket_mutex y = bucket_mutex x"
    "lock_ops y = lock_ops x @ [Rdlock (Expand_lock h), Wrlock (Bucket_mutex m), Wrlock (Link_lock h), Unlock (Link_lock h)]"
    using k inv(1) x h by simp_all
  then have kb: "bucket_mutex y ! key_bucket key y = m" by (simp add: key_bucket_def m)
  obtain x' grow where x': "XHASH_UNLOCK_BUCKET key y = Some x'" "x_inv x' (es @ [e])" "xth.abs x' (es @ [e]) = xth.abs y (es @ [e])"
    "lock_ops x' = lock_ops y @ [Unlock (Bucket_mutex m), Unlock (Expand_lock h)]
      @ (if grow then [Wrlock (Expand_lock h), Unlock (Expand_lock h)] else [])"
    using XHASH_UNLOCK_spec [OF y(2), of key] e(3) keeps(2) kb by auto
  have none: "tbl_find key (xth.abs x es) = None"
    using inv(4) xth.find_abs [OF inv(1) e(4) inv(3)] xth.elements [OF inv(1)] xth.abs_member tbl_find_set
    by (cases "tbl_find key (xth.abs x es)") fastforce+
  have abs: "xth.abs x' (es @ [e]) = tbl_add key e (xth.abs x es)" using x'(3) y(3) by simp
  then have d: "tbl_distinct (xth.abs x' (es @ [e]))" using inv(3) none by simp
  have "XHASH_FIND k x' = (if k = key then Some e else XHASH_FIND k x)" if "length k < 2 ^ 32" for k
    using xth.find_abs [OF x'(2) that d] xth.find_abs [OF inv(1) that inv(3)] abs by simp
  moreover have "mutex_ok x'" using x'(2) by (simp add: x_inv_def)
  ultimately show ?thesis using y(1) x' keeps(4) by (intro exI [of _ x'] exI [of _ grow]) simp
qed

theorem xhash_locked_add_witness:
  "\<exists>x y. XHASH_ADD_KEYPTR [7] 4096 empty_xut = Some x
     \<and> Option.bind (XHASH_ADD_KEYPTR [8] 8192 (XHASH_WRLOCK_BUCKET [8] x)) (XHASH_UNLOCK_BUCKET [8]) = Some y
     \<and> XHASH_FIND [8] y = Some 8192 \<and> XHASH_FIND [7] y = Some 4096"
proof -
  obtain x where x: "XHASH_ADD_KEYPTR [7] 4096 empty_xut = Some x" "x_inv x [4096]" "xth.abs x [4096] = [([7], 4096)]"
    using xth.add_abs [OF x_inv_empty(1), of 4096 "[7]"] by (auto simp: x_inv_empty tbl_add_def)
  have d: "tbl_distinct (xth.abs x [4096])" by (simp add: x(3) tbl_distinct_def)
  have f: "XHASH_FIND [8] x = Some 0" "XHASH_FIND [7] x = Some 4096"
    using xth.find_abs [OF x(2) _ d, of "[8]"] xth.find_abs [OF x(2) _ d, of "[7]"] by (simp_all add: x(3) tbl_find_def)
  obtain y where "Option.bind (XHASH_ADD_KEYPTR [8] 8192 (XHASH_WRLOCK_BUCKET [8] x)) (XHASH_UNLOCK_BUCKET [8]) = Some y"
    "\<forall>k. length k < 2 ^ 32 \<longrightarrow> XHASH_FIND k y = (if k = [8] then Some 8192 else XHASH_FIND k x)"
    using xhash_locked_add [OF x(2) _ d f(1), of 8192 "head (xu x)" "bucket_mutex x ! key_bucket [8] x"] by auto
  then show ?thesis using x(1) f(2) by auto
qed

end
