(* ===== verification/Nxhash.thy ===== *)
theory Nxhash
  imports Xhash
begin

text \<open>
  The table of src/contrib/uthash/uthash_nxform.h, which holds the map from old to new
  addresses: it never expands, so one lock per bucket is enough, and it is taken apart at
  the end of a traversal bucket by bucket (\<open>FREE_ALL_MALLOCED_ENTRIES\<close>), every thread its
  own share. The header defines a static array \<open>mutexes\<close>, of which every source file that
  includes it has a copy of its own.
\<close>

subsection \<open>State\<close>

text \<open>The two source files that include the header and expand its macros.\<close>

datatype source_file = Cstrider_api | Transform_c

record nxut =
  nxu :: ut
  nx_bucket_mutex :: "nat list"
  nx_allocated :: nat
  mutexes :: "source_file \<Rightarrow> nat \<Rightarrow> nat option"
  nx_lock_ops :: "lock_op list"

definition NXHASH_INITIAL_NUM_BUCKETS :: u32 where "NXHASH_INITIAL_NUM_BUCKETS = 32768"

definition NXHASH_INITIAL_NUM_BUCKETS_LOG2 :: u32 where "NXHASH_INITIAL_NUM_BUCKETS_LOG2 = 15"

definition nx_bucket :: "byte list \<Rightarrow> nxut \<Rightarrow> nat" where
  "nx_bucket key x = unat (HASH_TO_BKT (HASH_JEN key) (num_buckets (tbl (nxu x))))"

subsection \<open>Locks of a bucket\<close>

definition NXHASH_RDLOCK_BUCKET :: "byte list \<Rightarrow> nxut \<Rightarrow> nxut" where
  "NXHASH_RDLOCK_BUCKET key x = x\<lparr>nx_lock_ops := nx_lock_ops x @ [Rdlock (Bucket_mutex (nx_bucket_mutex x ! nx_bucket key x))]\<rparr>"

definition NXHASH_WRLOCK_BUCKET :: "byte list \<Rightarrow> nxut \<Rightarrow> nxut" where
  "NXHASH_WRLOCK_BUCKET key x = x\<lparr>nx_lock_ops := nx_lock_ops x @ [Wrlock (Bucket_mutex (nx_bucket_mutex x ! nx_bucket key x))]\<rparr>"

definition NXHASH_UNLOCK_BUCKET :: "byte list \<Rightarrow> nxut \<Rightarrow> nxut" where
  "NXHASH_UNLOCK_BUCKET key x = x\<lparr>nx_lock_ops := nx_lock_ops x @ [Unlock (Bucket_mutex (nx_bucket_mutex x ! nx_bucket key x))]\<rparr>"

subsection \<open>Find and add\<close>

definition NXHASH_FIND :: "byte list \<Rightarrow> nxut \<Rightarrow> addr option" where
  "NXHASH_FIND key x = HASH_FIND key (nxu x)"

definition NXHASH_MAKE_TABLE :: "source_file \<Rightarrow> nxut \<Rightarrow> nxut" where
  "NXHASH_MAKE_TABLE src x =
     (let u = nxu x;
          t = \<lparr>buckets = replicate (unat NXHASH_INITIAL_NUM_BUCKETS) empty_bucket,
               num_buckets = NXHASH_INITIAL_NUM_BUCKETS, log2_num_buckets = NXHASH_INITIAL_NUM_BUCKETS_LOG2, num_items = 0,
               tail = head u, ideal_chain_maxlen = 0, nonideal_items = 0, ineff_expands = 0, noexpand = 0,
               signature = HASH_SIGNATURE\<rparr>;
          n = unat NXHASH_INITIAL_NUM_BUCKETS;
          a = nx_allocated x
      in x\<lparr>nxu := u\<lparr>tbl := t\<rparr>, nx_bucket_mutex := map (\<lambda>i. a + i) [0..<n], nx_allocated := a + n,
           mutexes := (mutexes x)(src := (\<lambda>i. if i < n then Some (a + i) else mutexes x src i))\<rparr>)"

definition on_nxu :: "(ut \<Rightarrow> ut) \<Rightarrow> nxut \<Rightarrow> nxut" where
  "on_nxu f x = x\<lparr>nxu := f (nxu x)\<rparr>"

definition NXHASH_ADD_TO_BKT :: "nat \<Rightarrow> addr \<Rightarrow> nxut \<Rightarrow> nxut" where
  "NXHASH_ADD_TO_BKT i add = on_nxu (link_in_bkt i add)"

definition NXHASH_ADD_KEYPTR :: "source_file \<Rightarrow> byte list \<Rightarrow> addr \<Rightarrow> nxut \<Rightarrow> nxut option" where
  "NXHASH_ADD_KEYPTR src key add x =
     (let x = on_nxu (set_hh add (\<lambda>h. h\<lparr>next_elt := 0, hkey := key, keylen := of_nat (length key)\<rparr>)) x;
          x = (if head (nxu x) = 0
               then NXHASH_MAKE_TABLE src (on_nxu (\<lambda>u. set_hh add (\<lambda>h. h\<lparr>prev := 0\<rparr>) (u\<lparr>head := add\<rparr>)) x)
               else on_nxu (link_last add) x);
          x = on_nxu (set_tbl (\<lambda>t. t\<lparr>num_items := num_items t + 1\<rparr>)) x;
          x = on_nxu (set_hh add (\<lambda>h. h\<lparr>hashv := HASH_JEN key\<rparr>)) x
      in Some (NXHASH_ADD_TO_BKT (nx_bucket key x) add x))"

subsection \<open>Taking the table apart\<close>

text \<open>
  \<open>FREE_ALL_MALLOCED_ENTRIES\<close> frees the elements in the buckets of one thread's share. The
  model records what is passed to \<open>free\<close>, in order (\<open>None\<close> is NULL), and whether the
  element \<open>head\<close> points to is read after it was freed: the condition of the loop, the bucket
  and the step to the next element all go through \<open>(head)->hh.tbl\<close>.
\<close>

record free_log =
  freed_entries :: "addr list"
  freed_locks :: "nat option list"
  read_freed_head :: bool

definition read_head :: "addr \<Rightarrow> free_log \<Rightarrow> free_log" where
  "read_head first l = l\<lparr>read_freed_head := read_freed_head l \<or> first \<in> set (freed_entries l)\<rparr>"

partial_function (option) free_chain :: "(addr \<Rightarrow> UT_hash_handle) \<Rightarrow> addr \<Rightarrow> addr \<Rightarrow> free_log \<Rightarrow> free_log option" where
  [code]: "free_chain h first out l =
     (if out = 0 then Some l
      else
        let tmp = out;
            l = (if hh_next (h out) \<noteq> 0 then read_head first l else l);
            out = hh_next (h out)
        in free_chain h first out (l\<lparr>freed_entries := freed_entries l @ [tmp]\<rparr>))"

fun free_buckets :: "nat list \<Rightarrow> source_file \<Rightarrow> nxut \<Rightarrow> free_log \<Rightarrow> free_log option" where
  "free_buckets [] src x l = Some (read_head (head (nxu x)) l)"
| "free_buckets (i # is) src x l =
     (let l = read_head (head (nxu x)) l
      in Option.bind (free_chain (hh (nxu x)) (head (nxu x)) (hh_head (buckets (tbl (nxu x)) ! i)) l) (\<lambda>l.
           free_buckets is src x (l\<lparr>freed_locks := freed_locks l @ [mutexes x src i]\<rparr>)))"

definition FREE_ALL_MALLOCED_ENTRIES :: "source_file \<Rightarrow> nat \<Rightarrow> nat \<Rightarrow> nxut \<Rightarrow> free_log \<Rightarrow> free_log option" where
  "FREE_ALL_MALLOCED_ENTRIES src thd_num share x =
     (let part = unat (num_buckets (tbl (nxu x))) div share
      in free_buckets [thd_num * part..<part * (thd_num + 1)] src x)"

text \<open>All threads, one after the other, as the end of \<open>processqueue\<close> has them do it.\<close>

fun free_by_threads :: "nat list \<Rightarrow> source_file \<Rightarrow> nat \<Rightarrow> nxut \<Rightarrow> free_log \<Rightarrow> free_log option" where
  "free_by_threads [] src share x l = Some l"
| "free_by_threads (t # ts) src share x l =
     Option.bind (FREE_ALL_MALLOCED_ENTRIES src t share x l) (free_by_threads ts src share x)"

subsection \<open>A table of elements\<close>

lemma on_nxu_simps [simp]:
  "nxu (on_nxu f x) = f (nxu x)" "nx_bucket_mutex (on_nxu f x) = nx_bucket_mutex x"
  "nx_allocated (on_nxu f x) = nx_allocated x" "mutexes (on_nxu f x) = mutexes x" "nx_lock_ops (on_nxu f x) = nx_lock_ops x"
  by (simp_all add: on_nxu_def)

definition nxlisted :: "source_file \<Rightarrow> byte list \<Rightarrow> addr \<Rightarrow> nxut \<Rightarrow> ut" where
  "nxlisted src key e x =
     (if head (nxu x) = 0
      then set_hh e (\<lambda>h. h\<lparr>hashv := HASH_JEN key\<rparr>) (set_tbl (\<lambda>t. t\<lparr>num_items := num_items t + 1\<rparr>)
        (nxu (NXHASH_MAKE_TABLE src (on_nxu (\<lambda>u. set_hh e (\<lambda>h. h\<lparr>prev := 0\<rparr>) (u\<lparr>head := e\<rparr>))
          (on_nxu (set_hh e (\<lambda>h. h\<lparr>next_elt := 0, hkey := key, keylen := of_nat (length key)\<rparr>)) x)))))
      else listed key e (nxu x))"

lemma nxu_NXHASH_ADD_KEYPTR:
  assumes "NXHASH_ADD_KEYPTR src key e x = Some x'"
  shows "nxu x' = link_in_bkt (unat (HASH_TO_BKT (hashv (hh (nxlisted src key e x) e)) (num_buckets (tbl (nxlisted src key e x))))) e
    (nxlisted src key e x)"
  using assms by (auto simp: NXHASH_ADD_KEYPTR_def nxlisted_def listed_def Let_def NXHASH_ADD_TO_BKT_def nx_bucket_def
      NXHASH_MAKE_TABLE_def set_hh_def set_tbl_def)

lemma nxlisted_first:
  assumes "ut_inv (nxu x) []" "e \<noteq> 0"
  shows "listed_ok (nxlisted src key e x) [] e 15 \<and> head (nxlisted src key e x) = e"
proof -
  have "chains h (2 ^ 15) (replicate 32768 empty_bucket) {}" for h
    unfolding chains_def chain_def by (auto simp: empty_bucket_def intro: exI [of _ "[]"])
  then show ?thesis using assms
    by (simp add: ut_inv_def listed_ok_def nxlisted_def set_hh_def set_tbl_def NXHASH_MAKE_TABLE_def Let_def
        NXHASH_INITIAL_NUM_BUCKETS_def NXHASH_INITIAL_NUM_BUCKETS_LOG2_def)
qed

lemma nxlisted_hkey: "hkey (hh (nxlisted src key e x) y) = (if y = e then key else hkey (hh (nxu x) y))"
  using listed_hkey [of key e "nxu x" y]
  by (auto simp: nxlisted_def set_hh_def set_tbl_def NXHASH_MAKE_TABLE_def Let_def)

text \<open>The table always has the same number of buckets.\<close>

definition nx_inv :: "nxut \<Rightarrow> addr list \<Rightarrow> bool" where
  "nx_inv x es \<longleftrightarrow> hash_inv (nxu x) es \<and> (es \<noteq> [] \<longrightarrow> num_buckets (tbl (nxu x)) = NXHASH_INITIAL_NUM_BUCKETS)"

interpretation nxt: element_table nx_inv "\<lambda>x e. hkey (hh (nxu x) e)" NXHASH_FIND "NXHASH_ADD_KEYPTR src" "\<lambda>_ _. True"
  for src
proof
  show "distinct es \<and> 0 \<notin> set es" if "nx_inv x es" for x es
    using that by (simp add: nx_inv_def hash_inv_def ut_inv_def)
  show "\<exists>out. NXHASH_FIND key x = Some out \<and> (if out = 0 then \<forall>e \<in> set es. hkey (hh (nxu x) e) \<noteq> key
      else out \<in> set es \<and> hkey (hh (nxu x) out) = key)" if "nx_inv x es" "length key < 2 ^ 32" for x es key
    using uth.find_law [of "nxu x" es key] that by (simp add: NXHASH_FIND_def nx_inv_def)
  show "\<exists>x'. NXHASH_ADD_KEYPTR src key e x = Some x' \<and> nx_inv x' (es @ [e])
      \<and> (\<forall>y \<in> set (es @ [e]). hkey (hh (nxu x') y) = (if y = e then key else hkey (hh (nxu x) y)))"
    if "nx_inv x es" "True" "e \<notin> set es" "e \<noteq> 0" "length key < 2 ^ 32" for x es e key
  proof -
    note a = that
    have inv: "ut_inv (nxu x) es" "short_keys (nxu x) es" using a(1) by (simp_all add: nx_inv_def hash_inv_def)
    obtain x' where x': "NXHASH_ADD_KEYPTR src key e x = Some x'" by (simp add: NXHASH_ADD_KEYPTR_def Let_def)
    have k: "listed_ok (nxlisted src key e x) es e 15 \<and> head (nxlisted src key e x) = hd0 (es @ [e]) 0"
    proof (cases "es = []")
      case True
      then show ?thesis using nxlisted_first [of x e src key] inv(1) a(4) by simp
    next
      case False
      then obtain k where ok: "table_ok (nxu x) es k" "k < 32" using inv(1) unfolding ut_inv_def by blast
      have h: "head (nxu x) \<noteq> 0" using inv(1) False by (cases es) (auto simp: ut_inv_def)
      have "(2 ^ k :: u32) = 2 ^ 15" using ok(1) a(1) False by (simp add: nx_inv_def table_ok_def NXHASH_INITIAL_NUM_BUCKETS_def)
      then have "unat (2 ^ k :: u32) = unat (2 ^ 15 :: u32)" by (rule arg_cong)
      then have "(2 :: nat) ^ k = 2 ^ 15" using unat_pow2 ok(2) by simp
      then have "k = 15" by (rule power_inject_exp [THEN iffD1, rotated]) simp
      then show ?thesis using listed_later [OF ok(1), of e key] inv(1) a(3,4) False h
        by (cases es) (auto simp: ut_inv_def nxlisted_def)
    qed
    have l: "table_ok (nxu x') (es @ [e]) 15" "head (nxu x') = head (nxlisted src key e x)"
      "\<And>y. core (hh (nxu x') y) = core (hh (nxlisted src key e x) y)"
      using link_in_bkt_ok [of _ es e 15, OF conjunct1 [OF k] _ a(3,4) refl] nxu_NXHASH_ADD_KEYPTR [OF x'] by auto
    have key: "hkey (hh (nxu x') y) = (if y = e then key else hkey (hh (nxu x) y))" for y
      using l(3) nxlisted_hkey [of src key e x y] by (simp add: core_def)
    have "ut_inv (nxu x') (es @ [e])"
      using l(1,2) k inv(1) a(3,4) unfolding ut_inv_def by (auto intro!: exI [of _ 15])
    moreover have "short_keys (nxu x') (es @ [e])" using inv(2) a(5) key by (auto simp: short_keys_def)
    moreover have "num_buckets (tbl (nxu x')) = NXHASH_INITIAL_NUM_BUCKETS"
      using l(1) by (simp add: table_ok_def NXHASH_INITIAL_NUM_BUCKETS_def)
    ultimately show ?thesis using x' key by (auto simp: nx_inv_def hash_inv_def)
  qed
qed

subsection \<open>What is freed\<close>

lemma free_chain_spec:
  "sl (\<lambda>e. hh_next (h e)) xs \<Longrightarrow> \<exists>b. free_chain h first (hd0 xs 0) l
     = Some (l\<lparr>freed_entries := freed_entries l @ xs, read_freed_head := b\<rparr>)"
proof (induction xs arbitrary: l)
  case Nil
  show ?case by (subst free_chain.simps) (auto intro: exI [of _ "read_freed_head l"])
next
  case (Cons x xs)
  let ?l = "if hh_next (h x) \<noteq> 0 then read_head first l else l"
  obtain b where "free_chain h first (hd0 xs 0) (?l\<lparr>freed_entries := freed_entries ?l @ [x]\<rparr>)
      = Some (?l\<lparr>freed_entries := freed_entries ?l @ [x] @ xs, read_freed_head := b\<rparr>)"
    using Cons.IH [of "?l\<lparr>freed_entries := freed_entries ?l @ [x]\<rparr>"] Cons.prems by auto
  then have "free_chain h first x l = Some (?l\<lparr>freed_entries := freed_entries ?l @ [x] @ xs, read_freed_head := b\<rparr>)"
    using Cons.prems by (subst free_chain.simps) (simp add: Let_def)
  then show ?case by (auto simp: read_head_def)
qed

lemma free_buckets_spec:
  assumes "\<And>i. i \<in> set is \<Longrightarrow> sl (\<lambda>e. hh_next (hh (nxu x) e)) (cs i) \<and> hh_head (buckets (tbl (nxu x)) ! i) = hd0 (cs i) 0"
  shows "\<exists>b. free_buckets is src x l = Some (l\<lparr>freed_entries := freed_entries l @ concat (map cs is),
      freed_locks := freed_locks l @ map (mutexes x src) is, read_freed_head := b\<rparr>)
    \<and> (head (nxu x) \<in> set (freed_entries l @ concat (map cs is)) \<longrightarrow> b)"
  using assms
proof (induction "is" arbitrary: l)
  case Nil
  show ?case by (auto simp: read_head_def)
next
  case (Cons i "is")
  let ?l = "read_head (head (nxu x)) l"
  obtain b where b: "free_chain (hh (nxu x)) (head (nxu x)) (hh_head (buckets (tbl (nxu x)) ! i)) ?l
      = Some (?l\<lparr>freed_entries := freed_entries ?l @ cs i, read_freed_head := b\<rparr>)"
    using free_chain_spec [of "hh (nxu x)" "cs i" "head (nxu x)" ?l] Cons.prems [of i] by auto
  let ?m = "?l\<lparr>freed_entries := freed_entries ?l @ cs i, read_freed_head := b,
     freed_locks := freed_locks l @ [mutexes x src i]\<rparr>"
  obtain c where "free_buckets is src x ?m = Some (?m\<lparr>freed_entries := freed_entries ?m @ concat (map cs is),
      freed_locks := freed_locks ?m @ map (mutexes x src) is, read_freed_head := c\<rparr>)"
    "head (nxu x) \<in> set (freed_entries ?m @ concat (map cs is)) \<longrightarrow> c"
    using Cons.IH [of ?m] Cons.prems by auto
  then show ?case using b by (intro exI [of _ c]) (simp add: Let_def read_head_def)
qed

lemma concat_ranges: "concat (map (\<lambda>t. [t * p..<p * (t + 1)]) [0..<n]) = [0..<n * p]" for p :: nat
proof (induction n)
  case (Suc n)
  have "[0..<n * p] @ [n * p..<p * (n + 1)] = [0..<p * (n + 1)]"
    using upt_add_eq_append [of 0 "n * p" p] by (simp add: algebra_simps)
  then show ?case using Suc by (simp add: algebra_simps)
qed simp

lemma free_by_threads_spec:
  assumes rng: "\<And>t l. t \<in> set ts \<Longrightarrow> FREE_ALL_MALLOCED_ENTRIES src t share x l = free_buckets (rng t) src x l"
    and cs: "\<And>t i. t \<in> set ts \<Longrightarrow> i \<in> set (rng t) \<Longrightarrow>
      sl (\<lambda>e. hh_next (hh (nxu x) e)) (cs i) \<and> hh_head (buckets (tbl (nxu x)) ! i) = hd0 (cs i) 0"
  shows "\<exists>b. free_by_threads ts src share x l
    = Some (l\<lparr>freed_entries := freed_entries l @ concat (map cs (concat (map rng ts))),
      freed_locks := freed_locks l @ map (mutexes x src) (concat (map rng ts)), read_freed_head := b\<rparr>)
    \<and> (ts \<noteq> [] \<and> head (nxu x) \<in> set (freed_entries l @ concat (map cs (concat (map rng ts)))) \<longrightarrow> b)"
  using assms
proof (induction ts arbitrary: l)
  case Nil
  then show ?case by (intro exI [of _ "read_freed_head l"]) simp
next
  case (Cons t ts)
  obtain b where b: "FREE_ALL_MALLOCED_ENTRIES src t share x l = Some (l\<lparr>freed_entries := freed_entries l @ concat (map cs (rng t)),
      freed_locks := freed_locks l @ map (mutexes x src) (rng t), read_freed_head := b\<rparr>)"
    "head (nxu x) \<in> set (freed_entries l @ concat (map cs (rng t))) \<longrightarrow> b"
  proof -
    have "i \<in> set (rng t) \<Longrightarrow> sl (\<lambda>e. hh_next (hh (nxu x) e)) (cs i) \<and> hh_head (buckets (tbl (nxu x)) ! i) = hd0 (cs i) 0" for i
      using Cons.prems(2) [of t i] by simp
    from free_buckets_spec [of "rng t", OF this] show ?thesis using that Cons.prems(1) [of t l] by auto
  qed
  let ?m = "l\<lparr>freed_entries := freed_entries l @ concat (map cs (rng t)),
      freed_locks := freed_locks l @ map (mutexes x src) (rng t), read_freed_head := b\<rparr>"
  let ?rs = "concat (map rng ts)"
  obtain c where c: "free_by_threads ts src share x ?m = Some (?m\<lparr>freed_entries := freed_entries ?m @ concat (map cs ?rs),
      freed_locks := freed_locks ?m @ map (mutexes x src) ?rs, read_freed_head := c\<rparr>)"
    "ts \<noteq> [] \<and> head (nxu x) \<in> set (freed_entries ?m @ concat (map cs ?rs)) \<longrightarrow> c"
  proof -
    have "\<exists>b. free_by_threads ts src share x ?m = Some (?m\<lparr>freed_entries := freed_entries ?m @ concat (map cs ?rs),
        freed_locks := freed_locks ?m @ map (mutexes x src) ?rs, read_freed_head := b\<rparr>)
      \<and> (ts \<noteq> [] \<and> head (nxu x) \<in> set (freed_entries ?m @ concat (map cs ?rs)) \<longrightarrow> b)"
      by (rule Cons.IH) (use Cons.prems in auto)
    then show ?thesis using that by blast
  qed
  show ?case
  proof (cases "ts = []")
    case True
    then show ?thesis using b by (intro exI [of _ b]) simp
  next
    case False
    then show ?thesis using b(1) c by (intro exI [of _ c]) auto
  qed
qed

lemma chain_lists:
  assumes inv: "nx_inv x es" "es \<noteq> []"
  shows "\<exists>cs. (\<forall>i < 32768. sl (\<lambda>e. hh_next (hh (nxu x) e)) (cs i) \<and> hh_head (buckets (tbl (nxu x)) ! i) = hd0 (cs i) 0)
    \<and> mset (concat (map cs [0..<32768])) = mset es"
proof -
  obtain k where k: "k < 32" "table_ok (nxu x) es k" and dist: "distinct es"
    using inv unfolding nx_inv_def hash_inv_def ut_inv_def by blast
  have n: "num_buckets (tbl (nxu x)) = 2 ^ k" "length (buckets (tbl (nxu x))) = 2 ^ k" using k(2) by (simp_all add: table_ok_def)
  have "unat (2 ^ k :: u32) = 32768" using n(1) inv by (simp add: nx_inv_def NXHASH_INITIAL_NUM_BUCKETS_def)
  then have k2: "(2 :: nat) ^ k = 32768" using unat_pow2 [OF k(1)] by simp
  let ?P = "\<lambda>i xs. chain (hh (nxu x)) (buckets (tbl (nxu x)) ! i) xs \<and> set xs = {e \<in> set es. bkt_of (2 ^ k) (hh (nxu x) e) = i}"
  have "\<forall>i. \<exists>xs. i < 32768 \<longrightarrow> ?P i xs" using k(2) n(2) k2 unfolding table_ok_def chains_def by auto
  then obtain cs where cs: "\<forall>i. i < 32768 \<longrightarrow> ?P i (cs i)" by (rule choice [THEN exE])
  have lt: "bkt_of (2 ^ k) h < 32768" for h
    using bucket_mask [OF k(1), of "hashv h"] k2 by (simp add: bkt_of_def)
  have "mset (concat (map cs [0..<n])) = mset (filter (\<lambda>e. bkt_of (2 ^ k) (hh (nxu x) e) < n) es)" if "n \<le> 32768" for n
    using that
  proof (induction n)
    case (Suc n)
    let ?b = "\<lambda>e. bkt_of (2 ^ k) (hh (nxu x) e)"
    have "?P n (cs n)" using cs Suc.prems by auto
    then have "mset (cs n) = mset (filter (\<lambda>e. ?b e = n) es)"
      using dist by (intro set_eq_iff_mset_eq_distinct [THEN iffD1]) (auto simp: chain_def)
    moreover have "mset (filter (\<lambda>e. ?b e < Suc n) es) = mset (filter (\<lambda>e. ?b e < n) es) + mset (filter (\<lambda>e. ?b e = n) es)"
      by (induction es) (auto simp: less_Suc_eq)
    ultimately show ?case using Suc by simp
  qed simp
  from this [of 32768] have "mset (concat (map cs [0..<32768])) = mset es" using lt by (simp del: upt_rec_numeral)
  moreover have "sl (\<lambda>e. hh_next (hh (nxu x) e)) (cs i) \<and> hh_head (buckets (tbl (nxu x)) ! i) = hd0 (cs i) 0" if "i < 32768" for i
    using cs that dls_sl [of "\<lambda>e. hh_next (hh (nxu x) e)" "\<lambda>e. hh_prev (hh (nxu x) e)" 0 "cs i"] unfolding chain_def by auto
  ultimately show ?thesis by blast
qed

lemma free_all_threads:
  assumes inv: "nx_inv x es" "es \<noteq> []" and share: "share dvd 32768" "share > 0"
  shows "\<exists>l. free_by_threads [0..<share] src share x \<lparr>freed_entries = [], freed_locks = [], read_freed_head = False\<rparr> = Some l
    \<and> mset (freed_entries l) = mset es \<and> freed_locks l = map (mutexes x src) [0..<32768] \<and> read_freed_head l"
proof -
  let ?part = "32768 div share"
  let ?rng = "\<lambda>t. [t * ?part..<?part * (t + 1)]"
  let ?l = "\<lparr>freed_entries = [], freed_locks = [], read_freed_head = False\<rparr>"
  obtain cs where cs: "\<And>i. i < 32768 \<Longrightarrow> sl (\<lambda>e. hh_next (hh (nxu x) e)) (cs i) \<and> hh_head (buckets (tbl (nxu x)) ! i) = hd0 (cs i) 0"
    and m: "mset (concat (map cs [0..<32768])) = mset es"
    using chain_lists [OF inv] by blast
  have nb: "unat (num_buckets (tbl (nxu x))) = 32768" using inv by (simp add: nx_inv_def NXHASH_INITIAL_NUM_BUCKETS_def)
  have all: "concat (map ?rng [0..<share]) = [0..<32768]"
    using share(1) unfolding concat_ranges by simp
  have "\<exists>b. free_by_threads [0..<share] src share x ?l
      = Some (?l\<lparr>freed_entries := freed_entries ?l @ concat (map cs (concat (map ?rng [0..<share]))),
        freed_locks := freed_locks ?l @ map (mutexes x src) (concat (map ?rng [0..<share])), read_freed_head := b\<rparr>)
      \<and> ([0..<share] \<noteq> [] \<and> head (nxu x) \<in> set (freed_entries ?l @ concat (map cs (concat (map ?rng [0..<share])))) \<longrightarrow> b)"
  proof (rule free_by_threads_spec)
    show "FREE_ALL_MALLOCED_ENTRIES src t share x l = free_buckets (?rng t) src x l" for t l
      by (simp add: FREE_ALL_MALLOCED_ENTRIES_def nb Let_def)
    fix t i assume "t \<in> set [0..<share]" "i \<in> set (?rng t)"
    then have "i \<in> set (concat (map ?rng [0..<share]))" unfolding set_concat by (auto simp del: upt_Suc)
    then have "i < 32768" unfolding all by simp
    then show "sl (\<lambda>e. hh_next (hh (nxu x) e)) (cs i) \<and> hh_head (buckets (tbl (nxu x)) ! i) = hd0 (cs i) 0" by (rule cs)
  qed
  then obtain b where b: "free_by_threads [0..<share] src share x ?l
      = Some (?l\<lparr>freed_entries := concat (map cs [0..<32768]), freed_locks := map (mutexes x src) [0..<32768], read_freed_head := b\<rparr>)"
    "head (nxu x) \<in> set (concat (map cs [0..<32768])) \<longrightarrow> b"
    unfolding all using share(2) by (auto simp del: upt_rec_numeral)
  have "set (concat (map cs [0..<32768])) = set es" using m by (metis set_mset_mset)
  moreover have "head (nxu x) \<in> set es" using inv by (cases es) (auto simp: nx_inv_def hash_inv_def ut_inv_def)
  ultimately have b using b(2) by blast
  then show ?thesis using b(1) m by (simp del: upt_rec_numeral)
qed

lemma nx_add_mutexes: "NXHASH_ADD_KEYPTR src key e x = Some x' \<Longrightarrow> src \<noteq> src' \<Longrightarrow> mutexes x' src' = mutexes x src'"
  by (auto simp: NXHASH_ADD_KEYPTR_def Let_def NXHASH_ADD_TO_BKT_def NXHASH_MAKE_TABLE_def)

subsection \<open>Properties\<close>

definition empty_nxut :: nxut where
  "empty_nxut = \<lparr>nxu = empty_ut, nx_bucket_mutex = [], nx_allocated = 0, mutexes = (\<lambda>_ _. None), nx_lock_ops = []\<rparr>"

lemma one_mapping:
  "\<exists>x. NXHASH_ADD_KEYPTR Cstrider_api [7] 4096 empty_nxut = Some x \<and> nx_inv x [4096] \<and> mutexes x Transform_c = (\<lambda>_. None)"
proof -
  have "nx_inv empty_nxut []" by (simp add: nx_inv_def empty_nxut_def hash_inv_empty)
  from nxt.add_law [OF this, of 4096 "[7]" Cstrider_api] obtain x
    where x: "NXHASH_ADD_KEYPTR Cstrider_api [7] 4096 empty_nxut = Some x" "nx_inv x [4096]" by auto
  then show ?thesis using nx_add_mutexes [OF x(1), of Transform_c] by (auto simp: empty_nxut_def)
qed

text \<open>
  C15: At the end of a traversal the entries of the mapping table are freed by the threads
  together: when the number of threads divides the number of buckets, as 4 and 1 do, every
  entry is freed by exactly one thread, exactly once, whatever the entries are.
\<close>

theorem mapping_entries_freed_once:
  assumes "nx_inv x es" "es \<noteq> []" "share = 4 \<or> share = 1"
  shows "\<exists>l. free_by_threads [0..<share] src share x \<lparr>freed_entries = [], freed_locks = [], read_freed_head = False\<rparr> = Some l
    \<and> mset (freed_entries l) = mset es \<and> distinct (freed_entries l)"
proof -
  have "share dvd 32768" "share > 0" using assms(3) by auto
  from free_all_threads [OF assms(1,2) this, of src] obtain l
    where l: "free_by_threads [0..<share] src share x \<lparr>freed_entries = [], freed_locks = [], read_freed_head = False\<rparr> = Some l"
      "mset (freed_entries l) = mset es" by blast
  moreover have "distinct es" using nxt.elements [OF assms(1)] by blast
  ultimately show ?thesis by (metis mset_eq_imp_distinct_iff)
qed

theorem mapping_entries_freed_once_witness:
  "\<exists>x l. NXHASH_ADD_KEYPTR Cstrider_api [7] 4096 empty_nxut = Some x
     \<and> free_by_threads [0..<4] Transform_c 4 x \<lparr>freed_entries = [], freed_locks = [], read_freed_head = False\<rparr> = Some l
     \<and> freed_entries l = [4096]"
proof -
  obtain x where x: "NXHASH_ADD_KEYPTR Cstrider_api [7] 4096 empty_nxut = Some x" "nx_inv x [4096]" using one_mapping by blast
  obtain l where "free_by_threads [0..<4] Transform_c 4 x \<lparr>freed_entries = [], freed_locks = [], read_freed_head = False\<rparr> = Some l"
    "mset (freed_entries l) = mset [4096]"
    using mapping_entries_freed_once [OF x(2), of 4 Transform_c] by (auto simp del: upt_rec_numeral)
  then show ?thesis using x(1) by (auto simp del: upt_rec_numeral)
qed

text \<open>
  C40: Two faults of the same code. The loop reads \<open>(head)->hh.tbl\<close> after the entry \<open>head\<close>
  points to has been freed. And the locks of the buckets are never freed: they are stored in
  the copy of the static array \<open>mutexes\<close> of cstrider_api.c, which adds the entries, while
  transform.c, which frees them, passes the NULLs of its own copy to \<open>free\<close>.
\<close>

theorem mapping_free_faults:
  assumes "NXHASH_ADD_KEYPTR Cstrider_api key e x = Some x'" "nx_inv x' es" "es \<noteq> []" "mutexes x Transform_c = (\<lambda>_. None)"
    and "share = 4 \<or> share = 1"
  shows "mutexes x' Transform_c = (\<lambda>_. None)
    \<and> (\<exists>l. free_by_threads [0..<share] Transform_c share x' \<lparr>freed_entries = [], freed_locks = [], read_freed_head = False\<rparr> = Some l
        \<and> read_freed_head l \<and> set (freed_locks l) = {None})"
proof -
  have mx: "mutexes x' Transform_c = (\<lambda>_. None)" using nx_add_mutexes [OF assms(1), of Transform_c] assms(4) by simp
  have "share dvd 32768" "share > 0" using assms(5) by auto
  from free_all_threads [OF assms(2,3) this, of Transform_c] obtain l
    where l: "free_by_threads [0..<share] Transform_c share x' \<lparr>freed_entries = [], freed_locks = [], read_freed_head = False\<rparr> = Some l"
      "freed_locks l = map (mutexes x' Transform_c) [0..<32768]" "read_freed_head l" by blast
  have "set (freed_locks l) = {None}" unfolding l(2) mx
    by (simp add: image_constant_conv del: upt_rec_numeral)
  then show ?thesis using mx l by blast
qed

theorem mapping_free_faults_witness:
  "\<exists>x l. NXHASH_ADD_KEYPTR Cstrider_api [7] 4096 empty_nxut = Some x
     \<and> free_by_threads [0..<1] Transform_c 1 x \<lparr>freed_entries = [], freed_locks = [], read_freed_head = False\<rparr> = Some l
     \<and> read_freed_head l \<and> set (freed_locks l) = {None}"
proof -
  obtain x where x: "NXHASH_ADD_KEYPTR Cstrider_api [7] 4096 empty_nxut = Some x" "nx_inv x [4096]" using one_mapping by blast
  have "mutexes empty_nxut Transform_c = (\<lambda>_. None)" by (simp add: empty_nxut_def)
  from mapping_free_faults [OF x _ this, of 1] show ?thesis using x(1) by (auto simp del: upt_rec_numeral)
qed

end
