(* ===== verification/Hashsort.thy ===== *)
theory Hashsort
  imports Uthash
begin

text \<open>
  Sorting in src/contrib/uthash/uthash.h: \<open>HASH_SRT\<close>, Simon Tatham's bottom-up mergesort in place
  on the list of all elements. Loops along links return \<open>None\<close> when they do not return.
\<close>

subsection \<open>Sorting\<close>

text \<open>
  \<open>run_end\<close> is the loop that steps \<open>_hs_q\<close> over the first run and counts \<open>_hs_psize\<close>.
\<close>

fun run_end :: "nat \<Rightarrow> (addr \<Rightarrow> UT_hash_handle) \<Rightarrow> addr \<Rightarrow> u32 \<Rightarrow> addr \<times> u32" where
  "run_end 0 h q psize = (q, psize)"
| "run_end (Suc i) h q psize =
     (let psize = psize + 1; q = next_elt (h q)
      in if q = 0 then (q, psize) else run_end i h q psize)"

text \<open>Appending \<open>e\<close> behind \<open>t\<close> (\<open>_hs_tail\<close>); \<open>list\<close> is set by the first one.\<close>

definition put_last :: "addr \<Rightarrow> addr \<Rightarrow> (addr \<Rightarrow> UT_hash_handle) \<Rightarrow> addr \<Rightarrow> UT_hash_handle" where
  "put_last t e h =
     (let h = (if t \<noteq> 0 then h(t := (h t)\<lparr>next_elt := e\<rparr>) else h)
      in h(e := (h e)\<lparr>prev := t\<rparr>))"

partial_function (option) merge_two ::
    "(addr \<Rightarrow> addr \<Rightarrow> i32) \<Rightarrow> addr \<Rightarrow> u32 \<Rightarrow> addr \<Rightarrow> u32 \<Rightarrow> addr \<Rightarrow> addr \<Rightarrow> (addr \<Rightarrow> UT_hash_handle)
      \<Rightarrow> (addr \<times> addr \<times> addr \<times> (addr \<Rightarrow> UT_hash_handle)) option" where
  [code]: "merge_two cmp p psize q qsize list t h =
     (if psize > 0 \<or> qsize > 0 \<and> q \<noteq> 0
      then
        let left = (psize \<noteq> 0 \<and> (qsize = 0 \<or> q = 0 \<or> cmp p q \<le>s 0));
            e = (if left then p else q);
            p' = (if left then next_elt (h p) else p);
            q' = (if left then q else next_elt (h q));
            list' = (if t \<noteq> 0 then list else e)
        in merge_two cmp p' (if left then psize - 1 else psize) q' (if left then qsize else qsize - 1) list' e (put_last t e h)
      else Some (q, list, t, h))"

partial_function (option) merge_pass ::
    "(addr \<Rightarrow> addr \<Rightarrow> i32) \<Rightarrow> u32 \<Rightarrow> addr \<Rightarrow> u32 \<Rightarrow> addr \<Rightarrow> addr \<Rightarrow> (addr \<Rightarrow> UT_hash_handle)
      \<Rightarrow> (u32 \<times> addr \<times> addr \<times> (addr \<Rightarrow> UT_hash_handle)) option" where
  [code]: "merge_pass cmp insize p nmerges list t h =
     (if p = 0 then Some (nmerges, list, t, h)
      else
        let (q, psize) = run_end (unat insize) h p 0
        in Option.bind (merge_two cmp p psize q insize list t h) (\<lambda>(q, list, t, h).
             merge_pass cmp insize q (nmerges + 1) list t h))"

partial_function (option) sort_loop ::
    "(addr \<Rightarrow> addr \<Rightarrow> i32) \<Rightarrow> u32 \<Rightarrow> addr \<Rightarrow> (addr \<Rightarrow> UT_hash_handle) \<Rightarrow> (addr \<times> addr \<times> (addr \<Rightarrow> UT_hash_handle)) option" where
  [code]: "sort_loop cmp insize list h =
     Option.bind (merge_pass cmp insize list 0 0 0 h) (\<lambda>(nmerges, list, t, h).
       let h = h(t := (h t)\<lparr>next_elt := 0\<rparr>)
       in if nmerges \<le> 1 then Some (list, t, h) else sort_loop cmp (insize * 2) list h)"

definition HASH_SRT :: "(addr \<Rightarrow> addr \<Rightarrow> i32) \<Rightarrow> ut \<Rightarrow> ut option" where
  "HASH_SRT cmp u =
     (if head u = 0 then Some u
      else Option.bind (sort_loop cmp 1 (head u) (hh u)) (\<lambda>(list, t, h).
        Some (u\<lparr>head := list, tbl := (tbl u)\<lparr>tail := t\<rparr>, hh := h\<rparr>)))"

subsection \<open>Mergesort on lists\<close>

fun merge_lists :: "('a \<Rightarrow> 'a \<Rightarrow> bool) \<Rightarrow> 'a list \<Rightarrow> 'a list \<Rightarrow> 'a list" where
  "merge_lists le [] ys = ys"
| "merge_lists le xs [] = xs"
| "merge_lists le (x # xs) (y # ys) = (if le x y then x # merge_lists le xs (y # ys) else y # merge_lists le (x # xs) ys)"

function pass_lists :: "('a \<Rightarrow> 'a \<Rightarrow> bool) \<Rightarrow> nat \<Rightarrow> 'a list \<Rightarrow> 'a list" where
  "pass_lists le k xs =
     (if xs = [] \<or> k = 0 then []
      else merge_lists le (take k xs) (take k (drop k xs)) @ pass_lists le k (drop (2 * k) xs))"
  by pat_completeness auto
termination
  by (relation "measure (\<lambda>(le, k, xs). length xs)") auto

declare pass_lists.simps [simp del]

text \<open>Sorted in blocks of \<open>k\<close>, and what makes the comparison one: a total preorder on the elements.\<close>

function runs_ok :: "('a \<Rightarrow> 'a \<Rightarrow> bool) \<Rightarrow> nat \<Rightarrow> 'a list \<Rightarrow> bool" where
  "runs_ok le k xs = (if xs = [] \<or> k = 0 then True else sorted_wrt le (take k xs) \<and> runs_ok le k (drop k xs))"
  by pat_completeness auto
termination
  by (relation "measure (\<lambda>(le, k, xs). length xs)") auto

declare runs_ok.simps [simp del]

definition preorder_on :: "'a set \<Rightarrow> ('a \<Rightarrow> 'a \<Rightarrow> bool) \<Rightarrow> bool" where
  "preorder_on S le \<longleftrightarrow> (\<forall>a \<in> S. \<forall>b \<in> S. le a b \<or> le b a) \<and> (\<forall>a \<in> S. \<forall>b \<in> S. \<forall>c \<in> S. le a b \<longrightarrow> le b c \<longrightarrow> le a c)"

lemma set_merge_lists [simp]: "set (merge_lists le xs ys) = set xs \<union> set ys"
  by (induction le xs ys rule: merge_lists.induct) auto

lemma mset_merge_lists [simp]: "mset (merge_lists le xs ys) = mset xs + mset ys"
  by (induction le xs ys rule: merge_lists.induct) simp_all

lemma merge_lists_Nil2 [simp]: "merge_lists le xs [] = xs"
  by (cases xs) simp_all

lemma length_merge_lists [simp]: "length (merge_lists le xs ys) = length xs + length ys"
  by (induction le xs ys rule: merge_lists.induct) simp_all

lemma distinct_merge_lists: "distinct (merge_lists le xs ys) = distinct (xs @ ys)"
  using mset_eq_imp_distinct_iff [of "merge_lists le xs ys" "xs @ ys"] by simp

lemma sorted_merge_lists:
  "preorder_on S le \<Longrightarrow> set xs \<subseteq> S \<Longrightarrow> set ys \<subseteq> S \<Longrightarrow> sorted_wrt le xs \<Longrightarrow> sorted_wrt le ys \<Longrightarrow> sorted_wrt le (merge_lists le xs ys)"
proof (induction le xs ys rule: merge_lists.induct)
  case (3 le x xs y ys)
  show ?case
  proof (cases "le x y")
    case True
    then have "le x z" if "z \<in> set ys" for z using 3(3-7) that unfolding preorder_on_def by (metis list.set_intros sorted_wrt.simps(2) subsetD)
    then show ?thesis using True 3 by auto
  next
    case False
    then have yx: "le y x" using 3(3-5) unfolding preorder_on_def by (metis list.set_intros(1) subsetD)
    then have "le y z" if "z \<in> set xs" for z using 3(3-7) that unfolding preorder_on_def by (metis list.set_intros sorted_wrt.simps(2) subsetD)
    then show ?thesis using False yx 3 by auto
  qed
qed simp_all

text \<open>Merging keeps the order of equivalent elements.\<close>

lemma stable_merge_lists:
  "preorder_on S le \<Longrightarrow> set xs \<subseteq> S \<Longrightarrow> set ys \<subseteq> S \<Longrightarrow> z \<in> S \<Longrightarrow> sorted_wrt le xs \<Longrightarrow>
    filter (\<lambda>x. le x z \<and> le z x) (merge_lists le xs ys) = filter (\<lambda>x. le x z \<and> le z x) xs @ filter (\<lambda>x. le x z \<and> le z x) ys"
proof (induction le xs ys rule: merge_lists.induct)
  case (3 le x xs y ys)
  show ?case
  proof (cases "le x y")
    case True
    then show ?thesis using 3 by simp
  next
    case False
    have "\<not> (le w z \<and> le z w)" if "le y z \<and> le z y" "w \<in> set (x # xs)" for w
    proof
      assume "le w z \<and> le z w"
      moreover have "le x w \<or> w = x" using that(2) 3(7) by auto
      ultimately have "le x z" using 3(3,4,6) that(2) unfolding preorder_on_def by (metis list.set_intros(1) subsetD)
      then show False using False that(1) 3(3-6) unfolding preorder_on_def by (metis list.set_intros(1) subsetD)
    qed
    then have "filter (\<lambda>x. le x z \<and> le z x) (x # xs) = []" if "le y z \<and> le z y" using that by (simp only: filter_empty_conv) blast
    then show ?thesis using False 3 by (cases "le y z \<and> le z y") auto
  qed
qed simp_all

lemma runs_okD: "runs_ok le k xs \<Longrightarrow> 0 < k \<Longrightarrow> sorted_wrt le (take k xs) \<and> runs_ok le k (drop k xs)"
  by (cases "xs = []") (simp_all add: runs_ok.simps [of le k xs] runs_ok.simps [of le k "[]"])

lemma runs_okI: "0 < k \<Longrightarrow> sorted_wrt le (take k xs) \<Longrightarrow> runs_ok le k (drop k xs) \<Longrightarrow> runs_ok le k xs"
  by (simp add: runs_ok.simps [of le k xs])

lemma runs_ok_Nil [simp]: "runs_ok le k []"
  by (simp add: runs_ok.simps)

lemma runs_ok_one: "runs_ok le 1 xs"
  by (induction xs) (simp, rule runs_okI, simp_all)

lemma pass_lists_step:
  "xs \<noteq> [] \<Longrightarrow> 0 < k \<Longrightarrow> pass_lists le k xs = merge_lists le (take k xs) (take k (drop k xs)) @ pass_lists le k (drop (2 * k) xs)"
  by (simp add: pass_lists.simps [of le k xs])

lemma three_parts: "take k xs @ take k (drop k xs) @ drop (2 * k) xs = xs"
  by (metis append_take_drop_id drop_drop mult_2)

lemma mset_pass_lists: "0 < k \<Longrightarrow> mset (pass_lists le k xs) = mset xs"
proof (induction xs rule: length_induct)
  case (1 xs)
  show ?case
  proof (cases "xs = []")
    case False
    then have "mset (pass_lists le k (drop (2 * k) xs)) = mset (drop (2 * k) xs)" using 1 by simp
    then show ?thesis
      unfolding pass_lists_step [OF False 1(2)] mset_append mset_merge_lists
      using arg_cong [OF three_parts [of k xs], of mset] unfolding mset_append by (simp only: add.assoc)
  qed (simp add: pass_lists.simps)
qed

lemma pass_lists_spec:
  assumes "preorder_on S le"
  shows "set xs \<subseteq> S \<Longrightarrow> runs_ok le k xs \<Longrightarrow> 0 < k \<Longrightarrow>
    runs_ok le (2 * k) (pass_lists le k xs)
    \<and> (\<forall>z \<in> S. filter (\<lambda>x. le x z \<and> le z x) (pass_lists le k xs) = filter (\<lambda>x. le x z \<and> le z x) xs)"
proof (induction xs rule: length_induct)
  case (1 xs)
  show ?case
  proof (cases "xs = []")
    case True
    then show ?thesis by (simp add: pass_lists.simps runs_ok.simps)
  next
    case False
    let ?a = "take k xs" and ?b = "take k (drop k xs)" and ?r = "drop (2 * k) xs"
    have r: "sorted_wrt le ?a" "runs_ok le k (drop k xs)" using runs_okD [OF 1(3,4)] by simp_all
    have b: "sorted_wrt le ?b" "runs_ok le k ?r" using runs_okD [OF r(2) 1(4)] by (simp_all add: mult_2 add.commute)
    have s: "set ?a \<subseteq> S" "set ?b \<subseteq> S" "set ?r \<subseteq> S" using 1(2) by (auto dest: in_set_takeD in_set_dropD)
    have IH: "runs_ok le (2 * k) (pass_lists le k ?r)"
      "\<forall>z \<in> S. filter (\<lambda>x. le x z \<and> le z x) (pass_lists le k ?r) = filter (\<lambda>x. le x z \<and> le z x) ?r"
      using 1(1) [rule_format, of ?r] False s(3) b(2) 1(4) by simp_all
    let ?m = "merge_lists le ?a ?b"
    have p: "pass_lists le k xs = ?m @ pass_lists le k ?r" by (rule pass_lists_step [OF False 1(4)])
    note xs = three_parts [of k xs]
    have "sorted_wrt le ?m" using sorted_merge_lists [OF assms s(1,2) r(1) b(1)] .
    moreover have "take (2 * k) (?m @ pass_lists le k ?r) = ?m \<and> drop (2 * k) (?m @ pass_lists le k ?r) = pass_lists le k ?r"
    proof (cases "2 * k \<le> length xs")
      case True
      then have "length ?m = 2 * k" by auto
      then show ?thesis by (simp del: length_merge_lists)
    next
      case False
      then have "?r = []" "length ?m \<le> 2 * k" by auto
      then show ?thesis by (simp add: pass_lists.simps [of le k "[]"] del: length_merge_lists)
    qed
    ultimately have "runs_ok le (2 * k) (pass_lists le k xs)"
      unfolding p using 1(4) IH(1) by - (rule runs_okI, simp, simp only:, simp only:)
    moreover have "filter (\<lambda>x. le x z \<and> le z x) (pass_lists le k xs) = filter (\<lambda>x. le x z \<and> le z x) xs" if "z \<in> S" for z
      unfolding p filter_append stable_merge_lists [OF assms s(1,2) that r(1)] IH(2) [rule_format, OF that]
      using arg_cong [OF xs, of "filter (\<lambda>x. le x z \<and> le z x)"] unfolding filter_append by (simp only: append_assoc)
    ultimately show ?thesis by blast
  qed
qed

subsection \<open>The loops on the links\<close>

text \<open>The fields that sorting does not touch.\<close>

definition chain_part :: "UT_hash_handle \<Rightarrow> addr \<times> addr \<times> byte list \<times> u32 \<times> u32" where
  "chain_part h = (hh_prev h, hh_next h, hkey h, keylen h, hashv h)"

text \<open>The output so far: linked both ways, whatever the last element points to.\<close>

definition out_ok :: "(addr \<Rightarrow> UT_hash_handle) \<Rightarrow> addr list \<Rightarrow> bool" where
  "out_ok h acc \<longleftrightarrow> acc = [] \<or> dls ((\<lambda>e. next_elt (h e))(last acc := 0)) (\<lambda>e. prev (h e)) 0 acc 0"

fun seg :: "(addr \<Rightarrow> addr) \<Rightarrow> addr list \<Rightarrow> addr \<Rightarrow> bool" where
  "seg nx [] b = True"
| "seg nx (x # xs) b \<longleftrightarrow> x \<noteq> 0 \<and> nx x = hd0 xs b \<and> seg nx xs b"

lemma seg_cong: "(\<And>x. x \<in> set xs \<Longrightarrow> nx' x = nx x) \<Longrightarrow> seg nx' xs b = seg nx xs b"
  by (induction xs) auto

lemma seg_append: "seg nx (xs @ ys) b \<longleftrightarrow> seg nx xs (hd0 ys b) \<and> seg nx ys b"
  by (induction xs) auto

lemma seg_hd0: "seg nx xs 0 \<Longrightarrow> hd0 xs 0 = 0 \<longleftrightarrow> xs = []"
  by (cases xs) auto

lemma dls_seg: "dls nx pv p xs q \<Longrightarrow> seg nx xs q"
  by (induction xs arbitrary: p) auto

lemma out_ok_last0: "out_ok h acc \<Longrightarrow> last0 0 acc = 0 \<longleftrightarrow> acc = []"
  unfolding out_ok_def using dls_last0_zero by auto

lemma put_last_ok:
  assumes "out_ok h acc" "e \<notin> set acc" "e \<noteq> 0" "distinct acc"
  shows "out_ok (put_last (last0 0 acc) e h) (acc @ [e])"
    and "next_elt (put_last (last0 0 acc) e h e) = next_elt (h e)"
    and "x \<notin> set acc \<Longrightarrow> x \<noteq> e \<Longrightarrow> put_last (last0 0 acc) e h x = h x"
    and "chain_part (put_last (last0 0 acc) e h x) = chain_part (h x)"
proof -
  let ?t = "last0 0 acc" and ?h = "put_last (last0 0 acc) e h"
  have t: "acc \<noteq> [] \<Longrightarrow> ?t = last acc \<and> last acc \<in> set acc \<and> ?t \<noteq> 0" using out_ok_last0 [OF assms(1)] by (simp add: last0_def)
  show "next_elt (?h e) = next_elt (h e)" using t assms(2) by (cases "acc = []") (auto simp: put_last_def)
  show "x \<notin> set acc \<Longrightarrow> x \<noteq> e \<Longrightarrow> ?h x = h x" using t by (cases "acc = []") (auto simp: put_last_def)
  show "chain_part (?h x) = chain_part (h x)" by (simp add: put_last_def chain_part_def Let_def)
  show "out_ok ?h (acc @ [e])"
  proof (cases "acc = []")
    case True
    then show ?thesis using assms(3) by (simp add: out_ok_def put_last_def)
  next
    case False
    have d: "dls ((\<lambda>x. next_elt (h x))(last acc := 0)) (\<lambda>x. prev (h x)) 0 acc 0" using assms(1) False by (simp add: out_ok_def)
    have n: "(\<lambda>x. next_elt (?h x))(e := 0) = (((\<lambda>x. next_elt (h x))(last acc := 0))(e := 0))(last acc := e)"
      using t [OF False] assms(2) by (auto simp: put_last_def fun_eq_iff)
    have p: "(\<lambda>x. prev (?h x)) = (\<lambda>x. prev (h x))(e := last acc)"
      using t [OF False] by (auto simp: put_last_def fun_eq_iff)
    show ?thesis using dls_snoc [OF d assms(2-4) False] by (simp add: out_ok_def n p)
  qed
qed

text \<open>The loop over the first run.\<close>

lemma run_end_spec:
  assumes "seg (\<lambda>e. next_elt (h e)) xs 0" "xs \<noteq> []" "0 < n"
  shows "run_end n h (hd0 xs 0) c = (hd0 (drop n xs) 0, c + of_nat (min n (length xs)))"
  using assms
proof (induction n arbitrary: xs c)
  case (Suc n)
  obtain x ys where xs: "xs = x # ys" "next_elt (h x) = hd0 ys 0" "seg (\<lambda>e. next_elt (h e)) ys 0" using Suc.prems by (cases xs) auto
  show ?case
  proof (cases "ys = [] \<or> n = 0")
    case True
    then show ?thesis using xs by (cases "ys = []") (simp_all add: seg_hd0)
  next
    case False
    then show ?thesis using Suc.IH [of ys "c + 1"] xs by (simp add: seg_hd0 algebra_simps)
  qed
qed simp

text \<open>What merging leaves alone.\<close>

definition sort_frame :: "addr set \<Rightarrow> (addr \<Rightarrow> UT_hash_handle) \<Rightarrow> (addr \<Rightarrow> UT_hash_handle) \<Rightarrow> bool" where
  "sort_frame X h h' \<longleftrightarrow> (\<forall>x. x \<notin> X \<longrightarrow> h' x = h x) \<and> (\<forall>x. chain_part (h' x) = chain_part (h x))"

lemma sort_frame_trans: "sort_frame X h h' \<Longrightarrow> sort_frame Y h' h'' \<Longrightarrow> X \<subseteq> Z \<Longrightarrow> Y \<subseteq> Z \<Longrightarrow> sort_frame Z h h''"
  unfolding sort_frame_def by (metis subsetD)

lemma sort_frame_seg: "sort_frame X h h' \<Longrightarrow> set xs \<inter> X = {} \<Longrightarrow> seg (\<lambda>e. next_elt (h' e)) xs b = seg (\<lambda>e. next_elt (h e)) xs b"
  unfolding sort_frame_def by (rule seg_cong) auto

lemma put_last_step:
  assumes "out_ok h acc" "e \<notin> set acc" "e \<noteq> 0" "distinct acc" "list = hd0 acc 0"
  shows "out_ok (put_last (last0 0 acc) e h) (acc @ [e])" "sort_frame (insert e (set acc)) h (put_last (last0 0 acc) e h)"
    "(if last0 0 acc \<noteq> 0 then list else e) = hd0 (acc @ [e]) 0" "last0 0 (acc @ [e]) = e"
proof -
  show "out_ok (put_last (last0 0 acc) e h) (acc @ [e])" by (rule put_last_ok(1) [OF assms(1-4)])
  show "sort_frame (insert e (set acc)) h (put_last (last0 0 acc) e h)"
    unfolding sort_frame_def using put_last_ok(3,4) [OF assms(1-4)] by simp
  show "(if last0 0 acc \<noteq> 0 then list else e) = hd0 (acc @ [e]) 0"
    using out_ok_last0 [OF assms(1)] assms(5) by (cases acc) auto
qed simp

definition before_eq :: "(addr \<Rightarrow> addr \<Rightarrow> i32) \<Rightarrow> addr \<Rightarrow> addr \<Rightarrow> bool" where
  "before_eq cmp a b \<longleftrightarrow> cmp a b \<le>s 0"

lemma merge_two_left:
  "psize \<noteq> 0 \<Longrightarrow> qsize = 0 \<or> q = 0 \<or> cmp p q \<le>s 0 \<Longrightarrow> merge_two cmp p psize q qsize list t h
    = merge_two cmp (next_elt (h p)) (psize - 1) q qsize (if t \<noteq> 0 then list else p) p (put_last t p h)"
  by (subst merge_two.simps) (auto simp: Let_def word_neq_0_conv)

lemma merge_two_right:
  "psize = 0 \<or> qsize \<noteq> 0 \<and> q \<noteq> 0 \<and> \<not> cmp p q \<le>s 0 \<Longrightarrow> qsize \<noteq> 0 \<Longrightarrow> q \<noteq> 0 \<Longrightarrow> merge_two cmp p psize q qsize list t h
    = merge_two cmp p psize (next_elt (h q)) (qsize - 1) (if t \<noteq> 0 then list else q) q (put_last t q h)"
  by (subst merge_two.simps) (auto simp: Let_def word_neq_0_conv)

lemma merge_two_spec:
  "out_ok h acc \<Longrightarrow> seg (\<lambda>e. next_elt (h e)) ps b \<Longrightarrow> seg (\<lambda>e. next_elt (h e)) qs 0 \<Longrightarrow> distinct (acc @ ps @ qs) \<Longrightarrow>
    length ps < 2 ^ 32 \<Longrightarrow> k < 2 ^ 32 \<Longrightarrow> (ps \<noteq> [] \<Longrightarrow> p = hd0 ps b) \<Longrightarrow> list = hd0 acc 0 \<Longrightarrow>
   \<exists>h'. merge_two cmp p (of_nat (length ps)) (hd0 qs 0) (of_nat k) list (last0 0 acc) h
      = Some (hd0 (drop k qs) 0, hd0 (acc @ merge_lists (before_eq cmp) ps (take k qs)) 0,
          last0 0 (acc @ merge_lists (before_eq cmp) ps (take k qs)), h')
    \<and> out_ok h' (acc @ merge_lists (before_eq cmp) ps (take k qs)) \<and> sort_frame (set acc \<union> set ps \<union> set (take k qs)) h h'"
proof (induction "length ps + length (take k qs)" arbitrary: acc ps qs k p list h)
  case 0
  then have "ps = []" "k = 0 \<or> qs = []" by (cases qs; cases k; auto)+
  then have "\<not> (0 < (of_nat (length ps) :: u32) \<or> 0 < (of_nat k :: u32) \<and> hd0 qs 0 \<noteq> 0)" by auto
  then have "merge_two cmp p (of_nat (length ps)) (hd0 qs 0) (of_nat k) list (last0 0 acc) h = Some (hd0 qs 0, list, last0 0 acc, h)"
    by (subst merge_two.simps) (simp only: if_False)
  then show ?case using 0 \<open>ps = []\<close> \<open>k = 0 \<or> qs = []\<close> by (auto simp: sort_frame_def)
next
  case (Suc n)
  let ?t = "last0 0 acc"
  have u: "(of_nat (length ps) :: u32) = 0 \<longleftrightarrow> ps = []" "(of_nat k :: u32) = 0 \<longleftrightarrow> k = 0"
    using Suc.prems(5,6) by (auto simp: word_of_nat_eq_0_iff dest: dvd_imp_le)
  have q0: "hd0 qs 0 = 0 \<longleftrightarrow> qs = []" using seg_hd0 [OF Suc.prems(3)] .
  have d: "distinct acc" using Suc.prems(4) by simp
  show ?case
  proof (cases "\<exists>x xs. ps = x # xs \<and> (take k qs = [] \<or> before_eq cmp x (hd0 qs 0))")
    case True
    then obtain x xs where ps: "ps = x # xs" "take k qs = [] \<or> before_eq cmp x (hd0 qs 0)" by blast
    have x: "x \<notin> set acc" "x \<noteq> 0" "next_elt (h x) = hd0 xs b" "seg (\<lambda>e. next_elt (h e)) xs b" "p = x"
      using Suc.prems(2,4,7) ps(1) by auto
    note st = put_last_step [OF Suc.prems(1) x(1,2) d Suc.prems(8)]
    let ?h = "put_last ?t x h"
    have left: "of_nat (length ps) \<noteq> (0 :: u32)" "(of_nat k :: u32) = 0 \<or> hd0 qs 0 = 0 \<or> cmp p (hd0 qs 0) \<le>s 0"
      using ps u q0 x(5) by (auto simp: before_eq_def)
    have "merge_two cmp p (of_nat (length ps)) (hd0 qs 0) (of_nat k) list ?t h
        = merge_two cmp (next_elt (h x)) (of_nat (length ps) - 1) (hd0 qs 0) (of_nat k) (if ?t \<noteq> 0 then list else x) x ?h"
      using merge_two_left [of _ _ "hd0 qs 0" cmp p list ?t h, OF left] unfolding x(5) .
    then have run: "merge_two cmp p (of_nat (length ps)) (hd0 qs 0) (of_nat k) list ?t h
        = merge_two cmp (hd0 xs b) (of_nat (length xs)) (hd0 qs 0) (of_nat k) (hd0 (acc @ [x]) 0) (last0 0 (acc @ [x])) ?h"
      unfolding st(3,4) x(3) by (simp add: ps(1))
    have m: "merge_lists (before_eq cmp) ps (take k qs) = x # merge_lists (before_eq cmp) xs (take k qs)"
      using ps by (cases qs; cases k) auto
    have "set xs \<inter> insert x (set acc) = {}" "set qs \<inter> insert x (set acc) = {}" using Suc.prems(4) ps(1) by auto
    then have sg: "seg (\<lambda>e. next_elt (?h e)) xs b" "seg (\<lambda>e. next_elt (?h e)) qs 0"
      using sort_frame_seg [OF st(2)] x(4) Suc.prems(3) by auto
    have "\<exists>h'. merge_two cmp (hd0 xs b) (of_nat (length xs)) (hd0 qs 0) (of_nat k) (hd0 (acc @ [x]) 0) (last0 0 (acc @ [x])) ?h
      = Some (hd0 (drop k qs) 0, hd0 ((acc @ [x]) @ merge_lists (before_eq cmp) xs (take k qs)) 0,
          last0 0 ((acc @ [x]) @ merge_lists (before_eq cmp) xs (take k qs)), h')
      \<and> out_ok h' ((acc @ [x]) @ merge_lists (before_eq cmp) xs (take k qs))
      \<and> sort_frame (set (acc @ [x]) \<union> set xs \<union> set (take k qs)) ?h h'"
      by (rule Suc.hyps(1) [OF _ st(1) sg]) (use Suc ps(1) in auto)
    then obtain h' where h': "merge_two cmp (hd0 xs b) (of_nat (length xs)) (hd0 qs 0) (of_nat k) (hd0 (acc @ [x]) 0) (last0 0 (acc @ [x])) ?h
      = Some (hd0 (drop k qs) 0, hd0 (acc @ merge_lists (before_eq cmp) ps (take k qs)) 0,
          last0 0 (acc @ merge_lists (before_eq cmp) ps (take k qs)), h')"
      "out_ok h' (acc @ merge_lists (before_eq cmp) ps (take k qs))" "sort_frame (set (acc @ [x]) \<union> set xs \<union> set (take k qs)) ?h h'"
      unfolding m by auto
    have "sort_frame (set acc \<union> set ps \<union> set (take k qs)) h h'"
      by (rule sort_frame_trans [OF st(2) h'(3)]) (auto simp: ps(1))
    then show ?thesis using run h'(1,2) by auto
  next
    case False
    then have "take k qs \<noteq> []" using Suc.hyps(2) by (cases ps) auto
    then obtain y ys k' where qs: "qs = y # ys" "k = Suc k'" by (cases qs; cases k) auto
    have nle: "\<not> before_eq cmp x y" if "ps = x # xs" for x xs using False that qs by auto
    have y: "y \<notin> set acc" "y \<noteq> 0" "next_elt (h y) = hd0 ys 0" "seg (\<lambda>e. next_elt (h e)) ys 0"
      using Suc.prems(3,4) qs(1) by auto
    note st = put_last_step [OF Suc.prems(1) y(1,2) d Suc.prems(8)]
    let ?h = "put_last ?t y h"
    have right: "of_nat (length ps) = (0 :: u32) \<or> (of_nat k :: u32) \<noteq> 0 \<and> hd0 qs 0 \<noteq> 0 \<and> \<not> cmp p (hd0 qs 0) \<le>s 0"
      "(of_nat k :: u32) \<noteq> 0" "hd0 qs 0 \<noteq> 0"
      unfolding u q0 using qs nle Suc.prems(7) by (cases ps; auto simp: before_eq_def)+
    have "merge_two cmp p (of_nat (length ps)) (hd0 qs 0) (of_nat k) list ?t h
        = merge_two cmp p (of_nat (length ps)) (next_elt (h y)) (of_nat k - 1) (if ?t \<noteq> 0 then list else y) y ?h"
      using merge_two_right [of _ _ "hd0 qs 0" cmp p list ?t h, OF right] by (simp only: qs hd0_simps)
    then have run: "merge_two cmp p (of_nat (length ps)) (hd0 qs 0) (of_nat k) list ?t h
        = merge_two cmp p (of_nat (length ps)) (hd0 ys 0) (of_nat k') (hd0 (acc @ [y]) 0) (last0 0 (acc @ [y])) ?h"
      unfolding st(3,4) y(3) by (simp add: qs)
    have m: "merge_lists (before_eq cmp) ps (take k qs) = y # merge_lists (before_eq cmp) ps (take k' ys)"
      using qs nle by (cases ps) auto
    have "set ps \<inter> insert y (set acc) = {}" "set ys \<inter> insert y (set acc) = {}" using Suc.prems(4) qs(1) by auto
    then have sg: "seg (\<lambda>e. next_elt (?h e)) ps b" "seg (\<lambda>e. next_elt (?h e)) ys 0"
      using sort_frame_seg [OF st(2)] y(4) Suc.prems(2) by auto
    have "\<exists>h'. merge_two cmp p (of_nat (length ps)) (hd0 ys 0) (of_nat k') (hd0 (acc @ [y]) 0) (last0 0 (acc @ [y])) ?h
      = Some (hd0 (drop k' ys) 0, hd0 ((acc @ [y]) @ merge_lists (before_eq cmp) ps (take k' ys)) 0,
          last0 0 ((acc @ [y]) @ merge_lists (before_eq cmp) ps (take k' ys)), h')
      \<and> out_ok h' ((acc @ [y]) @ merge_lists (before_eq cmp) ps (take k' ys))
      \<and> sort_frame (set (acc @ [y]) \<union> set ps \<union> set (take k' ys)) ?h h'"
      by (rule Suc.hyps(1) [OF _ st(1) sg]) (use Suc qs in auto)
    then obtain h' where h': "merge_two cmp p (of_nat (length ps)) (hd0 ys 0) (of_nat k') (hd0 (acc @ [y]) 0) (last0 0 (acc @ [y])) ?h
      = Some (hd0 (drop k qs) 0, hd0 (acc @ merge_lists (before_eq cmp) ps (take k qs)) 0,
          last0 0 (acc @ merge_lists (before_eq cmp) ps (take k qs)), h')"
      "out_ok h' (acc @ merge_lists (before_eq cmp) ps (take k qs))" "sort_frame (set (acc @ [y]) \<union> set ps \<union> set (take k' ys)) ?h h'"
      unfolding m by (auto simp: qs)
    have "sort_frame (set acc \<union> set ps \<union> set (take k qs)) h h'"
      by (rule sort_frame_trans [OF st(2) h'(3)]) (auto simp: qs)
    then show ?thesis using run h'(1,2) by auto
  qed
qed

lemma merge_pass_spec:
  "out_ok h acc \<Longrightarrow> seg (\<lambda>e. next_elt (h e)) xs 0 \<Longrightarrow> distinct (acc @ xs) \<Longrightarrow> 0 < k \<Longrightarrow> k < 2 ^ 32 \<Longrightarrow> length xs < 2 ^ 32 \<Longrightarrow> list = hd0 acc 0 \<Longrightarrow>
   \<exists>h' c. merge_pass cmp (of_nat k) (hd0 xs 0) n list (last0 0 acc) h
      = Some (n + of_nat c, hd0 (acc @ pass_lists (before_eq cmp) k xs) 0, last0 0 (acc @ pass_lists (before_eq cmp) k xs), h')
    \<and> out_ok h' (acc @ pass_lists (before_eq cmp) k xs) \<and> sort_frame (set acc \<union> set xs) h h'
    \<and> (c \<le> 1 \<longleftrightarrow> length xs \<le> 2 * k) \<and> c \<le> length xs \<and> (c = 0 \<longrightarrow> xs = [])"
proof (induction xs arbitrary: acc n list h rule: length_induct)
  case (1 xs)
  show ?case
  proof (cases "xs = []")
    case True
    then show ?thesis using 1(2,8) by (intro exI [of _ h] exI [of _ 0]) (subst merge_pass.simps, simp add: pass_lists.simps sort_frame_def)
  next
    case False
    let ?ps = "take k xs" and ?qs = "drop k xs" and ?r = "drop (2 * k) xs"
    let ?m = "merge_lists (before_eq cmp) ?ps (take k ?qs)"
    have k: "unat (of_nat k :: u32) = k" using 1(6) by (simp add: unat_of_nat)
    have p0: "hd0 xs 0 \<noteq> 0" using seg_hd0 [OF 1(3)] False by simp
    have re: "run_end (unat (of_nat k :: u32)) h (hd0 xs 0) 0 = (hd0 ?qs 0, of_nat (length ?ps))"
      using run_end_spec [OF 1(3) False, of k 0] 1(5) k by (simp add: min.commute)
    have sg: "seg (\<lambda>e. next_elt (h e)) ?ps (hd0 ?qs 0)" "seg (\<lambda>e. next_elt (h e)) ?qs 0"
      using 1(3) seg_append [of "\<lambda>e. next_elt (h e)" ?ps ?qs 0] by simp_all
    have "hd0 xs 0 = hd0 ?ps (hd0 ?qs 0)" using hd0_simps(3) [of ?ps ?qs 0] by simp
    moreover have "distinct (acc @ ?ps @ ?qs)" "length ?ps < 2 ^ 32" using 1(4,7) by simp_all
    ultimately obtain h1 where h1: "merge_two cmp (hd0 xs 0) (of_nat (length ?ps)) (hd0 ?qs 0) (of_nat k) list (last0 0 acc) h
        = Some (hd0 ?r 0, hd0 (acc @ ?m) 0, last0 0 (acc @ ?m), h1)"
      "out_ok h1 (acc @ ?m)" "sort_frame (set acc \<union> set ?ps \<union> set (take k ?qs)) h h1"
      using merge_two_spec [OF 1(2) sg _ _ 1(6) _ 1(8), of "hd0 xs 0" cmp] by (auto simp: mult_2 simp del: length_take)
    have dr: "distinct (acc @ ?ps @ take k ?qs @ ?r)"
      using 1(4) append_take_drop_id [of k xs] append_take_drop_id [of k ?qs] by (simp add: mult_2 del: append_take_drop_id)
    have "set ?r \<inter> (set acc \<union> set ?ps \<union> set (take k ?qs)) = {}" using dr by auto
    then have sr: "seg (\<lambda>e. next_elt (h1 e)) ?r 0"
      using sort_frame_seg [OF h1(3), of ?r 0] sg(2) seg_append [of "\<lambda>e. next_elt (h e)" "take k ?qs" ?r 0]
        append_take_drop_id [of k ?qs] by (simp add: mult_2 del: append_take_drop_id)
    let ?acc = "acc @ ?m"
    have "\<exists>h' c. merge_pass cmp (of_nat k) (hd0 ?r 0) (n + 1) (hd0 ?acc 0) (last0 0 ?acc) h1
        = Some (n + 1 + of_nat c, hd0 (?acc @ pass_lists (before_eq cmp) k ?r) 0, last0 0 (?acc @ pass_lists (before_eq cmp) k ?r), h')
      \<and> out_ok h' (?acc @ pass_lists (before_eq cmp) k ?r) \<and> sort_frame (set ?acc \<union> set ?r) h1 h'
      \<and> (c \<le> 1 \<longleftrightarrow> length ?r \<le> 2 * k) \<and> c \<le> length ?r \<and> (c = 0 \<longrightarrow> ?r = [])"
    proof (rule 1(1) [rule_format, OF _ h1(2) sr])
      show "distinct (?acc @ ?r)" using dr by (auto simp: distinct_merge_lists)
    qed (use 1(5-7) False in auto)
    then obtain h' c where h': "merge_pass cmp (of_nat k) (hd0 ?r 0) (n + 1) (hd0 ?acc 0) (last0 0 ?acc) h1
        = Some (n + 1 + of_nat c, hd0 (?acc @ pass_lists (before_eq cmp) k ?r) 0, last0 0 (?acc @ pass_lists (before_eq cmp) k ?r), h')"
      "out_ok h' (?acc @ pass_lists (before_eq cmp) k ?r)" "sort_frame (set ?acc \<union> set ?r) h1 h'"
      "c \<le> length ?r" "c = 0 \<longrightarrow> ?r = []" by blast
    have run: "merge_pass cmp (of_nat k) (hd0 xs 0) n list (last0 0 acc) h
        = merge_pass cmp (of_nat k) (hd0 ?r 0) (n + 1) (hd0 ?acc 0) (last0 0 ?acc) h1"
      using p0 re h1(1) by (subst merge_pass.simps) simp
    have fr: "sort_frame (set acc \<union> set xs) h h'"
      by (rule sort_frame_trans [OF h1(3) h'(3)]) (auto dest: in_set_takeD in_set_dropD)
    have c: "Suc c \<le> 1 \<longleftrightarrow> length xs \<le> 2 * k" "Suc c \<le> length xs"
      using h'(4,5) False 1(5) by (cases "length xs \<le> 2 * k"; cases xs; auto)+
    show ?thesis
      unfolding run pass_lists_step [OF False 1(5)] using h'(1,2) fr c
      by (intro exI [of _ h'] exI [of _ "Suc c"]) (simp add: algebra_simps)
  qed
qed

text \<open>The result of sorting: sorted, a permutation, and equivalent elements in their old order.\<close>

definition sorts :: "('a \<Rightarrow> 'a \<Rightarrow> bool) \<Rightarrow> 'a list \<Rightarrow> 'a list \<Rightarrow> bool" where
  "sorts le xs ys \<longleftrightarrow> sorted_wrt le ys \<and> mset ys = mset xs
     \<and> (\<forall>z \<in> set xs. filter (\<lambda>x. le x z \<and> le z x) ys = filter (\<lambda>x. le x z \<and> le z x) xs)"

lemma sort_loop_spec:
  assumes pre: "preorder_on S (before_eq cmp)"
  shows "seg (\<lambda>e. next_elt (h e)) xs 0 \<Longrightarrow> distinct xs \<Longrightarrow> xs \<noteq> [] \<Longrightarrow> set xs \<subseteq> S \<Longrightarrow> 0 < k \<Longrightarrow> k < 2 ^ 32 \<Longrightarrow> length xs < 2 ^ 32 \<Longrightarrow>
    runs_ok (before_eq cmp) k xs \<Longrightarrow>
    \<exists>ys h'. sort_loop cmp (of_nat k) (hd0 xs 0) h = Some (hd0 ys 0, last0 0 ys, h')
      \<and> dls (\<lambda>e. next_elt (h' e)) (\<lambda>e. prev (h' e)) 0 ys 0 \<and> sorts (before_eq cmp) xs ys \<and> sort_frame (set xs) h h'"
proof (induction "length xs - k" arbitrary: xs k h rule: less_induct)
  case less
  let ?ys = "pass_lists (before_eq cmp) k xs"
  obtain h1 c where h1: "merge_pass cmp (of_nat k) (hd0 xs 0) 0 0 (last0 0 []) h = Some (of_nat c, hd0 ?ys 0, last0 0 ?ys, h1)"
    "out_ok h1 ?ys" "sort_frame (set xs) h h1" "c \<le> 1 \<longleftrightarrow> length xs \<le> 2 * k" "c \<le> length xs"
    using merge_pass_spec [of h "[]" xs k 0 cmp 0] less.prems by (auto simp: out_ok_def)
  let ?h = "h1(last0 0 ?ys := (h1 (last0 0 ?ys))\<lparr>next_elt := 0\<rparr>)"
  have m: "mset ?ys = mset xs" using mset_pass_lists [OF less.prems(5)] .
  have ys: "set ?ys = set xs" "distinct ?ys" "length ?ys = length xs"
    using mset_eq_setD [OF m] mset_eq_imp_distinct_iff [OF m] mset_eq_length [OF m] less.prems(2) by simp_all
  then have ne: "?ys \<noteq> []" using less.prems(3) by (metis length_0_conv)
  have l: "last0 0 ?ys = last ?ys" "last ?ys \<in> set xs" using ne ys(1) last_in_set [OF ne] by (simp_all add: last0_def)
  have d: "dls (\<lambda>e. next_elt (?h e)) (\<lambda>e. prev (?h e)) 0 ?ys 0"
  proof -
    have "(\<lambda>e. next_elt (?h e)) = (\<lambda>e. next_elt (h1 e))(last ?ys := 0)" "(\<lambda>e. prev (?h e)) = (\<lambda>e. prev (h1 e))"
      by (auto simp: l fun_eq_iff)
    then show ?thesis using h1(2) ne by (simp add: out_ok_def)
  qed
  have fr: "sort_frame (set xs) h ?h" using h1(3) l by (auto simp: sort_frame_def chain_part_def)
  have sp: "runs_ok (before_eq cmp) (2 * k) ?ys" using pass_lists_spec [OF pre less.prems(4,8,5)] by blast
  have st: "filter (\<lambda>x. before_eq cmp x z \<and> before_eq cmp z x) ?ys = filter (\<lambda>x. before_eq cmp x z \<and> before_eq cmp z x) xs" if "z \<in> S" for z
    using pass_lists_spec [OF pre less.prems(4,8,5)] that by blast
  have c: "of_nat c \<le> (1 :: u32) \<longleftrightarrow> length xs \<le> 2 * k"
    using h1(4,5) less.prems(7) by (simp add: word_le_nat_alt unat_of_nat)
  have run: "sort_loop cmp (of_nat k) (hd0 xs 0) h
      = (if length xs \<le> 2 * k then Some (hd0 ?ys 0, last0 0 ?ys, ?h) else sort_loop cmp (of_nat (2 * k)) (hd0 ?ys 0) ?h)"
    using h1(1) c by (subst sort_loop.simps) (simp add: Let_def mult.commute)
  show ?case
  proof (cases "length xs \<le> 2 * k")
    case True
    then have "sorted_wrt (before_eq cmp) ?ys" using runs_okD [OF sp] less.prems(5) ys(3) by simp
    then have "sorts (before_eq cmp) xs ?ys" using m st less.prems(4) unfolding sorts_def by blast
    then show ?thesis using True run d fr by auto
  next
    case False
    have "\<exists>zs h'. sort_loop cmp (of_nat (2 * k)) (hd0 ?ys 0) ?h = Some (hd0 zs 0, last0 0 zs, h')
      \<and> dls (\<lambda>e. next_elt (h' e)) (\<lambda>e. prev (h' e)) 0 zs 0 \<and> sorts (before_eq cmp) ?ys zs \<and> sort_frame (set ?ys) ?h h'"
      by (rule less.hyps [OF _ dls_seg [OF d] ys(2) ne]) (use False ys less.prems sp in auto)
    then obtain zs h' where z: "sort_loop cmp (of_nat (2 * k)) (hd0 ?ys 0) ?h = Some (hd0 zs 0, last0 0 zs, h')"
      "dls (\<lambda>e. next_elt (h' e)) (\<lambda>e. prev (h' e)) 0 zs 0" "sorts (before_eq cmp) ?ys zs" "sort_frame (set ?ys) ?h h'" by blast
    have "sorts (before_eq cmp) xs zs" using z(3) m st less.prems(4) ys(1) unfolding sorts_def by auto
    moreover have "sort_frame (set xs) h h'" using sort_frame_trans [OF fr z(4)] ys(1) by simp
    ultimately show ?thesis using False run z(1,2) by auto
  qed
qed

subsection \<open>The table after sorting\<close>

lemma sort_fields:
  assumes "chain_part h' = chain_part h"
  shows "hh_prev h' = hh_prev h" "hh_next h' = hh_next h" "hkey h' = hkey h" "keylen h' = keylen h" "hashv h' = hashv h"
  using assms by (simp_all add: chain_part_def)

lemma find_same:
  assumes "\<And>x. chain_part (h' x) = chain_part (h x)" "sl (\<lambda>e. hh_next (h e)) xs"
  shows "HASH_FIND_IN_BKT h' key (hd0 xs 0) = HASH_FIND_IN_BKT h key (hd0 xs 0)"
proof -
  note f = sort_fields [OF assms(1)]
  have "sl (\<lambda>e. hh_next (h' e)) xs" using assms(2) f(2) by simp
  moreover have "(\<lambda>e. hh_matches key (h' e)) = (\<lambda>e. hh_matches key (h e))" using f(3,4) by (simp add: hh_matches_def)
  ultimately show ?thesis using find_in_bkt_spec [of h' xs key] find_in_bkt_spec [of h xs key] assms(2) by simp
qed

lemma HASH_SRT_spec:
  assumes u: "hash_inv u es" "es \<noteq> []" "length es < 2 ^ 32" and pre: "preorder_on (set es) (before_eq cmp)"
  shows "\<exists>u' es'. HASH_SRT cmp u = Some u' \<and> hash_inv u' es' \<and> sorts (before_eq cmp) es es'
    \<and> (\<forall>key. HASH_FIND key u' = HASH_FIND key u)"
proof -
  obtain k where hd: "head u = hd0 es 0" "distinct es" "0 \<notin> set es" and k: "k < 32" "table_ok u es k" and sk: "short_keys u es"
    using u(1,2) unfolding hash_inv_def ut_inv_def by blast
  have h0: "head u \<noteq> 0" using hd u(2) by (cases es) auto
  have sg: "seg (\<lambda>e. next_elt (hh u e)) es 0" using k(2) dls_seg unfolding table_ok_def by blast
  have "\<exists>ys h'. sort_loop cmp (of_nat 1) (hd0 es 0) (hh u) = Some (hd0 ys 0, last0 0 ys, h')
      \<and> dls (\<lambda>e. next_elt (h' e)) (\<lambda>e. prev (h' e)) 0 ys 0 \<and> sorts (before_eq cmp) es ys \<and> sort_frame (set es) (hh u) h'"
    by (rule sort_loop_spec [OF pre sg hd(2) u(2)]) (use u(3) runs_ok_one [of "before_eq cmp" es] in simp_all)
  then obtain ys h' where s: "sort_loop cmp 1 (head u) (hh u) = Some (hd0 ys 0, last0 0 ys, h')"
    "dls (\<lambda>e. next_elt (h' e)) (\<lambda>e. prev (h' e)) 0 ys 0" "sorts (before_eq cmp) es ys" "\<And>x. chain_part (h' x) = chain_part (hh u x)"
    unfolding sort_frame_def hd(1) by auto
  note f = sort_fields [OF s(4)]
  have m: "mset ys = mset es" using s(3) by (simp add: sorts_def)
  have ys: "set ys = set es" "distinct ys" "length ys = length es" "ys \<noteq> []"
    using mset_eq_setD [OF m] mset_eq_imp_distinct_iff [OF m] mset_eq_length [OF m] hd(2) u(2) by auto
  let ?u = "u\<lparr>head := hd0 ys 0, tbl := (tbl u)\<lparr>tail := last0 0 ys\<rparr>, hh := h'\<rparr>"
  have "chains h' (2 ^ k) (buckets (tbl u)) (set es)" using k(2) f unfolding table_ok_def by (intro chains_cong [of "hh u" _ _ _ h']) auto
  then have "table_ok ?u ys k" using k(2) s(2) ys f by (simp add: table_ok_def last0_def)
  then have "hash_inv ?u ys" using ys hd(3) k(1) sk f(3) by (auto simp: hash_inv_def ut_inv_def short_keys_def)
  moreover have "HASH_SRT cmp u = Some ?u" using s(1) h0 by (simp add: HASH_SRT_def)
  moreover have "HASH_FIND key ?u = HASH_FIND key u" for key
  proof -
    let ?i = "unat (HASH_TO_BKT (HASH_JEN key) (2 ^ k))"
    have i: "?i < length (buckets (tbl u))" "num_buckets (tbl u) = 2 ^ k" using k bucket_mask [OF k(1)] by (simp_all add: table_ok_def)
    then obtain xs where "chain (hh u) (buckets (tbl u) ! ?i) xs" using k(2) unfolding table_ok_def chains_def by blast
    then have "hh_head (buckets (tbl u) ! ?i) = hd0 xs 0" "sl (\<lambda>e. hh_next (hh u e)) xs" using dls_sl unfolding chain_def by auto
    moreover have "hd0 ys 0 \<noteq> 0" using dls_hd0_zero [OF s(2)] ys(4) by simp
    ultimately show ?thesis using find_same [OF s(4)] h0 i(2) by (simp add: HASH_FIND_def)
  qed
  ultimately show ?thesis using s(3) by blast
qed

subsection \<open>Properties\<close>

text \<open>
  C25: \<open>HASH_SRT\<close> ends on every table and sorts it in place, for every comparison that is a total
  preorder on the elements: iteration meets the elements in ascending order, equivalent
  elements in their old order; no element is lost or duplicated; the links in both directions,
  the tail and the chains of the buckets stay intact, so that every look-up gives what it gave
  before and the integrity check succeeds.
\<close>

theorem hash_sort_stable:
  assumes "hash_inv u es" "es \<noteq> []" "length es < 2 ^ 32" "preorder_on (set es) (before_eq cmp)"
  shows "\<exists>u' es'. HASH_SRT cmp u = Some u' \<and> hash_inv u' es' \<and> HASH_ITER (hh u') (head u') = Some es'
    \<and> sorted_wrt (\<lambda>a b. cmp a b \<le>s 0) es' \<and> mset es' = mset es
    \<and> (\<forall>z \<in> set es. filter (\<lambda>x. cmp x z \<le>s 0 \<and> cmp z x \<le>s 0) es' = filter (\<lambda>x. cmp x z \<le>s 0 \<and> cmp z x \<le>s 0) es)
    \<and> (\<forall>key. HASH_FIND key u' = HASH_FIND key u) \<and> HASH_FSCK u' = Some True"
proof -
  obtain u' es' where s: "HASH_SRT cmp u = Some u'" "hash_inv u' es'" "sorts (before_eq cmp) es es'" "\<forall>key. HASH_FIND key u' = HASH_FIND key u"
    using HASH_SRT_spec [OF assms] by blast
  then have "ut_inv u' es'" by (simp add: hash_inv_def)
  then show ?thesis using s ut_inv_iter ut_inv_fsck by (intro exI [of _ u'] exI [of _ es']) (simp add: sorts_def before_eq_def [abs_def])
qed

text \<open>An example with two elements added in descending order.\<close>

definition by_address :: "addr \<Rightarrow> addr \<Rightarrow> i32" where
  "by_address a b = (if a < b then - 1 else if a = b then 0 else 1)"

lemma by_address_le: "by_address a b \<le>s 0 \<longleftrightarrow> a \<le> b"
proof -
  have "(- 1 :: i32) \<le>s 0" "\<not> (1 :: i32) \<le>s 0" by code_simp+
  then show ?thesis by (auto simp: by_address_def)
qed

lemma by_address_preorder: "preorder_on S (before_eq by_address)"
  by (auto simp: preorder_on_def before_eq_def by_address_le)

theorem hash_sort_stable_witness:
  "\<exists>u1 u u'. HASH_ADD_KEYPTR [7] 8192 empty_ut = Some u1 \<and> HASH_ADD_KEYPTR [8] 4096 u1 = Some u
     \<and> HASH_SRT by_address u = Some u' \<and> HASH_ITER (hh u') (head u') = Some [4096, 8192]"
proof -
  obtain u1 u where u: "HASH_ADD_KEYPTR [7] 8192 empty_ut = Some u1" "HASH_ADD_KEYPTR [8] 4096 u1 = Some u" "hash_inv u [8192, 4096]"
    using two_elements [of 8192 4096] by auto
  obtain u' es' where s: "HASH_SRT by_address u = Some u'" "HASH_ITER (hh u') (head u') = Some es'"
    "sorted_wrt (\<lambda>a b. by_address a b \<le>s 0) es'" "mset es' = mset [8192, 4096]"
    using hash_sort_stable [OF u(3) _ _ by_address_preorder] by auto
  have "length es' = 2" using mset_eq_length [OF s(4)] by simp
  then obtain a b where ab: "es' = [a, b]" by (auto simp: numeral_2_eq_2 length_Suc_conv)
  have "set es' = {8192, 4096}" using mset_eq_setD [OF s(4)] by simp
  then have "{a, b} = {8192, 4096 :: addr}" using ab by simp
  moreover have "a \<le> b" using s(3) ab by (simp add: by_address_le)
  moreover have "\<not> (8192 :: addr) \<le> 4096" by code_simp
  ultimately have "es' = [4096, 8192]" using ab by (auto simp: doubleton_eq_iff)
  then show ?thesis using u s by blast
qed

end
