(* ===== verification/Hashselect.thy ===== *)
theory Hashselect
  imports Uthash
begin

text \<open>
  Selecting in src/contrib/uthash/uthash.h: \<open>HASH_SELECT\<close> adds the elements of one table that
  satisfy a condition to a second table, which is linked through a second handle \<open>hh_dst\<close> of the
  same elements. The two handles are different fields, so the two tables have a handle map each.
\<close>

subsection \<open>Selecting\<close>

definition select_link :: "(addr \<Rightarrow> UT_hash_handle) \<Rightarrow> addr \<Rightarrow> ut \<Rightarrow> addr \<Rightarrow> ut" where
  "select_link src_hh elt dst last_elt =
     (let s = src_hh elt;
          dst = set_hh elt (\<lambda>h. h\<lparr>hkey := hkey s, keylen := keylen s, hashv := hashv s, prev := last_elt, next_elt := 0\<rparr>) dst;
          dst = (if last_elt \<noteq> 0 then set_hh last_elt (\<lambda>h. h\<lparr>next_elt := elt\<rparr>) dst else dst)
      in if head dst = 0 then HASH_MAKE_TABLE (dst\<lparr>head := elt\<rparr>) else dst)"

definition select_elt :: "(addr \<Rightarrow> UT_hash_handle) \<Rightarrow> addr \<Rightarrow> ut \<times> addr \<Rightarrow> (ut \<times> addr) option" where
  "select_elt src_hh elt = (\<lambda>(dst, last_elt).
     let dst = select_link src_hh elt dst last_elt;
         dst_bkt = HASH_TO_BKT (hashv (hh dst elt)) (num_buckets (tbl dst))
     in Option.bind (HASH_ADD_TO_BKT (unat dst_bkt) elt dst) (\<lambda>dst.
          Some (set_tbl (\<lambda>t. t\<lparr>num_items := num_items t + 1\<rparr>) dst, elt)))"

partial_function (option) select_chain ::
    "(addr \<Rightarrow> bool) \<Rightarrow> (addr \<Rightarrow> UT_hash_handle) \<Rightarrow> addr \<Rightarrow> ut \<times> addr \<Rightarrow> (ut \<times> addr) option" where
  [code]: "select_chain cond src_hh elt s =
     (if elt = 0 then Some s
      else Option.bind (if cond elt then select_elt src_hh elt s else Some s)
             (select_chain cond src_hh (hh_next (src_hh elt))))"

fun select_buckets ::
    "(addr \<Rightarrow> bool) \<Rightarrow> (addr \<Rightarrow> UT_hash_handle) \<Rightarrow> UT_hash_bucket list \<Rightarrow> ut \<times> addr \<Rightarrow> (ut \<times> addr) option" where
  "select_buckets cond src_hh [] s = Some s"
| "select_buckets cond src_hh (b # bs) s =
     Option.bind (select_chain cond src_hh (hh_head b) s) (select_buckets cond src_hh bs)"

definition HASH_SELECT :: "(addr \<Rightarrow> bool) \<Rightarrow> ut \<Rightarrow> ut \<Rightarrow> ut option" where
  "HASH_SELECT cond src dst =
     (if head src = 0 then Some dst
      else map_option fst
             (select_buckets cond (hh src) (take (unat (num_buckets (tbl src))) (buckets (tbl src))) (dst, 0)))"

subsection \<open>Adding to a bucket\<close>

text \<open>\<open>HASH_ADD_TO_BKT\<close> as far as the chains are concerned, whatever the list and the counts are.\<close>

lemma empty_chains: "chains h n (replicate m empty_bucket) {}"
  unfolding chains_def chain_def by (auto simp: empty_bucket_def intro: exI [of _ "[]"])

lemma add_to_bkt_chains:
  assumes k: "num_buckets (tbl u) = 2 ^ k" "log2_num_buckets (tbl u) = of_nat k" "length (buckets (tbl u)) = 2 ^ k" "k < 31"
    and c: "chains (hh u) (2 ^ k) (buckets (tbl u)) E" and e: "e \<notin> E" "e \<noteq> 0"
    and i: "i = unat (HASH_TO_BKT (hashv (hh u e)) (num_buckets (tbl u)))"
    and n: "num_items (tbl u) \<noteq> 0 \<or> buckets (tbl u) ! i = empty_bucket"
  shows "\<exists>u' k'. HASH_ADD_TO_BKT i e u = Some u' \<and> k' < 32 \<and> chains (hh u') (2 ^ k') (buckets (tbl u')) (insert e E)
    \<and> num_buckets (tbl u') = 2 ^ k' \<and> log2_num_buckets (tbl u') = of_nat k' \<and> length (buckets (tbl u')) = 2 ^ k'
    \<and> num_items (tbl u') = num_items (tbl u) \<and> tail (tbl u') = tail (tbl u) \<and> head u' = head u
    \<and> (\<forall>x. core (hh u' x) = core (hh u x)) \<and> k' \<le> Suc k"
proof -
  have i': "bkt_of (2 ^ k) (hh u e) = i" "i < length (buckets (tbl u))"
    using k bucket_mask [of k "hashv (hh u e)"] i by (simp_all add: bkt_of_def)
  note eq = link_in_bkt_eq [OF i'(2), of e]
  let ?u = "link_in_bkt i e u"
  have c': "chains (hh ?u) (2 ^ k) (buckets (tbl ?u)) (insert e E)"
    using chains_push [OF c e i'] unfolding eq by simp
  have same: "num_buckets (tbl ?u) = 2 ^ k" "log2_num_buckets (tbl ?u) = of_nat k" "length (buckets (tbl ?u)) = 2 ^ k"
    "num_items (tbl ?u) = num_items (tbl u)" "tail (tbl ?u) = tail (tbl u)" "head ?u = head u" "\<forall>x. core (hh ?u x) = core (hh u x)"
    using k by (simp_all add: eq)
  have here: "k < 32 \<and> chains (hh ?u) (2 ^ k) (buckets (tbl ?u)) (insert e E)" using c' k(4) by simp
  show ?thesis
  proof (cases "num_items (tbl u) = 0")
    case True
    then have "bkt_count (buckets (tbl ?u) ! i) = 1" "expand_mult (buckets (tbl ?u) ! i) = 0"
      using n i'(2) by (simp_all add: eq empty_bucket_def)
    moreover have "\<not> (10 :: u32) \<le> 1" by code_simp
    ultimately have "HASH_ADD_TO_BKT i e u = Some ?u" by (simp add: HASH_ADD_TO_BKT_def Let_def HASH_BKT_CAPACITY_THRESH_def)
    then show ?thesis using here same by (intro exI [of _ ?u] exI [of _ k]) simp
  next
    case False
    then obtain v where v: "HASH_EXPAND_BUCKETS ?u = Some v" "chains (hh v) (2 ^ Suc k) (buckets (tbl v)) (insert e E)"
      "num_buckets (tbl v) = 2 ^ Suc k" "log2_num_buckets (tbl v) = of_nat (Suc k)" "length (buckets (tbl v)) = 2 ^ Suc k"
      "num_items (tbl v) = num_items (tbl ?u)" "tail (tbl v) = tail (tbl ?u)" "head v = head ?u" "\<forall>e. core (hh v e) = core (hh ?u e)"
      using HASH_EXPAND_spec [OF same(1-3) k(4) c'] same(4) by auto
    have "HASH_ADD_TO_BKT i e u = Some v \<or> HASH_ADD_TO_BKT i e u = Some ?u" by (simp add: HASH_ADD_TO_BKT_def Let_def v(1))
    then show ?thesis
    proof
      assume "HASH_ADD_TO_BKT i e u = Some v"
      then show ?thesis using v same k(4) by (intro exI [of _ v] exI [of _ "Suc k"]) simp
    next
      assume "HASH_ADD_TO_BKT i e u = Some ?u"
      then show ?thesis using here same by (intro exI [of _ ?u] exI [of _ k]) simp
    qed
  qed
qed

subsection \<open>Selecting one element\<close>

text \<open>
  The table while it is filled: a table in order, but for its tail, which is still the first
  element.
\<close>

definition retail :: "addr \<Rightarrow> ut \<Rightarrow> ut" where
  "retail t = set_tbl (\<lambda>tb. tb\<lparr>tail := t\<rparr>)"

lemma retail_simps [simp]:
  "hh (retail t u) = hh u" "head (retail t u) = head u" "tail (tbl (retail t u)) = t"
  "num_buckets (tbl (retail t u)) = num_buckets (tbl u)" "log2_num_buckets (tbl (retail t u)) = log2_num_buckets (tbl u)"
  "buckets (tbl (retail t u)) = buckets (tbl u)" "num_items (tbl (retail t u)) = num_items (tbl u)"
  by (simp_all add: retail_def set_tbl_def)

definition sel_inv :: "ut \<Rightarrow> addr list \<Rightarrow> bool" where
  "sel_inv u xs \<longleftrightarrow> ut_inv (retail (last xs) u) xs \<and> (xs \<noteq> [] \<longrightarrow> tail (tbl u) = hd xs)"

text \<open>The tail is looked at by \<open>HASH_ADD_KEYPTR\<close> and \<open>HASH_DELETE\<close> only.\<close>

lemma retail_same:
  "HASH_FIND key (retail t u) = HASH_FIND key u" "HASH_FSCK (retail t u) = HASH_FSCK u" "HASH_COUNT (retail t u) = HASH_COUNT u"
  unfolding HASH_FIND_def HASH_FSCK_def HASH_COUNT_def retail_simps by (rule refl)+

lemma sel_inv_nonempty:
  assumes "sel_inv u xs" "xs \<noteq> []"
  obtains k where "k < 32" "table_ok (retail (last xs) u) xs k" "tail (tbl u) = hd xs" "head u = hd xs" "head u \<noteq> 0" "distinct xs" "0 \<notin> set xs"
  using assms that unfolding sel_inv_def ut_inv_def by (cases xs) auto

lemma sel_inv_Nil [simp]: "sel_inv u [] \<longleftrightarrow> head u = 0"
  by (simp add: sel_inv_def ut_inv_def)

text \<open>The state in which \<open>HASH_SELECT\<close> calls \<open>HASH_ADD_TO_BKT\<close>.\<close>

definition linked_ok :: "ut \<Rightarrow> addr list \<Rightarrow> addr \<Rightarrow> nat \<Rightarrow> bool" where
  "linked_ok v xs e k \<longleftrightarrow> dls (\<lambda>e. next_elt (hh v e)) (\<lambda>e. prev (hh v e)) 0 (xs @ [e]) 0 \<and> tail (tbl v) = hd (xs @ [e])
     \<and> head v = hd (xs @ [e]) \<and> num_items (tbl v) = of_nat (length xs) \<and> num_buckets (tbl v) = 2 ^ k \<and> log2_num_buckets (tbl v) = of_nat k
     \<and> length (buckets (tbl v)) = 2 ^ k \<and> chains (hh v) (2 ^ k) (buckets (tbl v)) (set xs)
     \<and> (\<forall>e \<in> set (xs @ [e]). keylen (hh v e) = of_nat (length (hkey (hh v e))) \<and> hashv (hh v e) = HASH_JEN (hkey (hh v e)))
     \<and> (xs = [] \<longrightarrow> buckets (tbl v) = replicate 32 empty_bucket \<and> k = 5)"

definition key_fields_ok :: "UT_hash_handle \<Rightarrow> bool" where
  "key_fields_ok h \<longleftrightarrow> keylen h = of_nat (length (hkey h)) \<and> hashv h = HASH_JEN (hkey h)"

lemma select_link_first:
  assumes "head u = 0" "e \<noteq> 0" "key_fields_ok (s e)"
  shows "linked_ok (select_link s e u 0) [] e 5"
  using assms empty_chains
  by (simp add: linked_ok_def select_link_def Let_def set_hh_def HASH_MAKE_TABLE_def HASH_INITIAL_NUM_BUCKETS_def
      HASH_INITIAL_NUM_BUCKETS_LOG2_def key_fields_ok_def)

lemma select_link_later:
  assumes ok: "table_ok (retail (last xs) u) xs k" "tail (tbl u) = hd xs" "head u = hd xs" "head u \<noteq> 0" "distinct xs" "0 \<notin> set xs"
    and e: "xs \<noteq> []" "e \<notin> set xs" "e \<noteq> 0" "key_fields_ok (s e)"
  shows "linked_ok (select_link s e u (last xs)) xs e k"
proof -
  let ?v = "select_link s e u (last xs)"
  let ?h = "hh ?v"
  have te: "last xs \<in> set xs" "last xs \<noteq> e" "last xs \<noteq> 0" using e(1,2) ok(6) last_in_set [OF e(1)] by metis+
  have nx: "(\<lambda>x. next_elt (?h x)) = ((\<lambda>x. next_elt (hh u x))(e := 0))(last xs := e)"
    and pv: "(\<lambda>x. prev (?h x)) = (\<lambda>x. prev (hh u x))(e := last xs)"
    using ok(4) te by (auto simp: select_link_def Let_def set_hh_def fun_eq_iff)
  have d: "dls (\<lambda>x. next_elt (?h x)) (\<lambda>x. prev (?h x)) 0 (xs @ [e]) 0"
    unfolding nx pv using ok(1,5) e by (intro dls_snoc) (simp_all add: table_ok_def)
  have c: "chains ?h (2 ^ k) (buckets (tbl u)) (set xs)"
    by (rule chains_cong [of "hh u"]) (use ok e te in \<open>auto simp: table_ok_def select_link_def Let_def set_hh_def\<close>)
  have f: "keylen (?h x) = of_nat (length (hkey (?h x))) \<and> hashv (?h x) = HASH_JEN (hkey (?h x))" if "x \<in> set (xs @ [e])" for x
    using that ok e te by (auto simp: table_ok_def select_link_def Let_def set_hh_def key_fields_ok_def)
  have "tbl ?v = tbl u" "head ?v = head u" using ok(4) te by (simp_all add: select_link_def Let_def set_hh_def)
  then show ?thesis using d c f ok e(1) unfolding linked_ok_def table_ok_def by simp
qed

lemma select_link_hkey: "hkey (hh (select_link s e u l) x) = (if x = e then hkey (s e) else hkey (hh u x))"
  by (simp add: select_link_def Let_def set_hh_def Let_def HASH_MAKE_TABLE_def)

lemma select_elt_spec:
  assumes inv: "sel_inv u xs" and e: "e \<notin> set xs" "e \<noteq> 0" "Suc (length xs) < 2 ^ 32" "key_fields_ok (s e)"
    and room: "xs \<noteq> [] \<Longrightarrow> num_buckets (tbl u) < 2 ^ 31"
  shows "\<exists>u'. select_elt s e (u, last0 0 xs) = Some (u', e) \<and> sel_inv u' (xs @ [e])
    \<and> (\<forall>x. hkey (hh u' x) = (if x = e then hkey (s e) else hkey (hh u x)))
    \<and> (\<exists>k \<le> 31. num_buckets (tbl u') = 2 ^ k \<and> (if xs = [] then k \<le> 6 else \<forall>j < 32. num_buckets (tbl u) = 2 ^ j \<longrightarrow> k \<le> Suc j))"
proof -
  let ?v = "select_link s e u (last0 0 xs)"
  have dist: "distinct (xs @ [e])" "0 \<notin> set (xs @ [e])" using inv e by (auto simp: sel_inv_def ut_inv_def)
  obtain k where k: "linked_ok ?v xs e k" "k < 31" "xs \<noteq> [] \<Longrightarrow> num_buckets (tbl u) = 2 ^ k"
  proof (cases "xs = []")
    case True
    then show ?thesis using that [of 5] select_link_first [of u e s] inv e by simp
  next
    case False
    then obtain k where ok: "k < 32" "table_ok (retail (last xs) u) xs k" "tail (tbl u) = hd xs" "head u = hd xs"
      "head u \<noteq> 0" "distinct xs" "0 \<notin> set xs" using sel_inv_nonempty [OF inv] by blast
    moreover have "k < 31" using unat_less_pow2 [OF _ ok(1)] room [OF False] ok(2) by (simp add: table_ok_def)
    ultimately show ?thesis using that [of k] select_link_later [of xs u k e s] e False by (simp add: last0_def table_ok_def)
  qed
  let ?i = "unat (HASH_TO_BKT (hashv (hh ?v e)) (num_buckets (tbl ?v)))"
  have n: "num_items (tbl ?v) \<noteq> 0 \<or> buckets (tbl ?v) ! ?i = empty_bucket"
  proof (cases "xs = []")
    case True
    then show ?thesis using k(1) bucket_mask [of 5 "hashv (hh ?v e)"] by (simp add: linked_ok_def)
  next
    case False
    have "unat (of_nat (length xs) :: u32) = length xs" using e(3) by (simp add: unat_of_nat)
    then show ?thesis using k(1) False by (auto simp: linked_ok_def)
  qed
  obtain w k' where w: "HASH_ADD_TO_BKT ?i e ?v = Some w" "k' < 32" "chains (hh w) (2 ^ k') (buckets (tbl w)) (insert e (set xs))"
    "num_buckets (tbl w) = 2 ^ k'" "log2_num_buckets (tbl w) = of_nat k'" "length (buckets (tbl w)) = 2 ^ k'"
    "num_items (tbl w) = num_items (tbl ?v)" "tail (tbl w) = tail (tbl ?v)" "head w = head ?v" "\<And>x. core (hh w x) = core (hh ?v x)" "k' \<le> Suc k"
    using add_to_bkt_chains [OF _ _ _ k(2) _ e(1,2) refl n] k(1) unfolding linked_ok_def by blast
  define u' where "u' = set_tbl (\<lambda>t. t\<lparr>num_items := num_items t + 1\<rparr>) w"
  have u': "hh u' = hh w" "head u' = head ?v" "tail (tbl u') = tail (tbl ?v)" "buckets (tbl u') = buckets (tbl w)"
    "num_buckets (tbl u') = 2 ^ k'" "log2_num_buckets (tbl u') = of_nat k'" "num_items (tbl u') = of_nat (length xs) + 1"
    using w k(1) by (simp_all add: u'_def set_tbl_def linked_ok_def)
  note f = core_fields [of "hh w" "hh ?v", OF w(10)]
  have "table_ok (retail e u') (xs @ [e]) k'"
    using k(1) w(3,6) unfolding table_ok_def linked_ok_def by (simp add: u' f)
  moreover have "head u' = hd0 (xs @ [e]) 0" "tail (tbl u') = hd (xs @ [e])"
    using u'(2,3) k(1) by (cases xs; simp add: linked_ok_def)+
  ultimately have "sel_inv u' (xs @ [e])" using dist w(2) by (auto simp: sel_inv_def ut_inv_def)
  moreover have "select_elt s e (u, last0 0 xs) = Some (u', e)" using w(1) by (simp add: select_elt_def Let_def u'_def)
  moreover have "k' \<le> 31 \<and> num_buckets (tbl u') = 2 ^ k' \<and> (if xs = [] then k' \<le> 6 else \<forall>j < 32. num_buckets (tbl u) = 2 ^ j \<longrightarrow> k' \<le> Suc j)"
  proof (cases "xs = []")
    case True
    then show ?thesis using k(1) w(2,11) u'(5) by (simp add: linked_ok_def)
  next
    case False
    have "j = k" if "j < 32" "(2 ^ j :: u32) = 2 ^ k" for j
      using arg_cong [OF that(2), of unat] unat_pow2 [OF that(1)] unat_pow2 [of k] k(2) by simp
    then show ?thesis using False k(3) w(2,11) u'(5) by auto
  qed
  ultimately show ?thesis using u'(1) f(3) select_link_hkey by auto
qed

subsection \<open>Selecting from all buckets\<close>

fun select_all :: "(addr \<Rightarrow> UT_hash_handle) \<Rightarrow> addr list \<Rightarrow> ut \<times> addr \<Rightarrow> (ut \<times> addr) option" where
  "select_all s [] st = Some st"
| "select_all s (e # es) st = Option.bind (select_elt s e st) (select_all s es)"

lemma select_all_append: "select_all s (xs @ ys) st = Option.bind (select_all s xs st) (select_all s ys)"
  by (induction xs arbitrary: st) (auto simp: bind_eq_Some_conv split: bind_split)

lemma select_chain_all:
  "sl (\<lambda>e. hh_next (s e)) xs \<Longrightarrow> select_chain cond s (hd0 xs 0) st = select_all s (filter cond xs) st"
proof (induction xs arbitrary: st)
  case (Cons x xs)
  then have "select_chain cond s (hd0 xs 0) = select_all s (filter cond xs)" by (intro ext) simp
  then show ?case using Cons.prems by (subst select_chain.simps) simp
qed (subst select_chain.simps, simp)

lemma select_buckets_all:
  "(\<And>i. i < length bs \<Longrightarrow> hh_head (bs ! i) = hd0 (cs i) 0 \<and> sl (\<lambda>e. hh_next (s e)) (cs i)) \<Longrightarrow>
     select_buckets cond s bs st = select_all s (filter cond (concat (map cs [0..<length bs]))) st"
proof (induction bs arbitrary: st cs)
  case (Cons b bs)
  have b: "select_chain cond s (hh_head b) st = select_all s (filter cond (cs 0)) st" for st
    using Cons.prems [of 0] select_chain_all [of s "cs 0" cond] by simp
  have IH: "select_buckets cond s bs st = select_all s (filter cond (concat (map (\<lambda>i. cs (Suc i)) [0..<length bs]))) st" for st
  proof (rule Cons.IH)
    fix i assume "i < length bs"
    then show "hh_head (bs ! i) = hd0 (cs (Suc i)) 0 \<and> sl (\<lambda>e. hh_next (s e)) (cs (Suc i))" using Cons.prems [of "Suc i"] by simp
  qed
  have "map cs [0..<length (b # bs)] = cs 0 # map (\<lambda>i. cs (Suc i)) [0..<length bs]"
    by (simp add: upt_conv_Cons map_Suc_upt [symmetric] del: upt_Suc)
  moreover have "select_buckets cond s bs = select_all s (filter cond (concat (map (\<lambda>i. cs (Suc i)) [0..<length bs])))"
    by (rule ext) (rule IH)
  ultimately show ?case using b by (simp add: select_all_append del: upt_Suc)
qed simp

lemma distinct_concat_upt:
  "(\<And>i. i < n \<Longrightarrow> distinct (cs i)) \<Longrightarrow> (\<And>i j. i < j \<Longrightarrow> j < n \<Longrightarrow> set (cs i) \<inter> set (cs j) = {})
     \<Longrightarrow> distinct (concat (map cs [0..<n]))"
proof (induction n)
  case (Suc n)
  have "distinct (concat (map cs [0..<n]))" by (rule Suc.IH) (use Suc.prems in auto)
  moreover have "set (cs i) \<inter> set (cs n) = {}" if "i < n" for i using Suc.prems(2) [OF that] by simp
  ultimately show ?case using Suc.prems(1) [of n] by (auto simp: disjoint_iff)
qed simp

text \<open>
  The table that is filled never reaches \<open>2 ^ 31\<close> buckets before its last element, whatever the
  order; 26 elements never get it there.
\<close>

definition select_room :: "(addr \<Rightarrow> bool) \<Rightarrow> ut \<Rightarrow> addr list \<Rightarrow> ut \<Rightarrow> bool" where
  "select_room cond src es dst \<longleftrightarrow> (\<forall>ys u l. distinct ys \<longrightarrow> ys \<noteq> [] \<longrightarrow> set ys \<subset> {e \<in> set es. cond e} \<longrightarrow>
     select_all (hh src) ys (dst, 0) = Some (u, l) \<longrightarrow> num_buckets (tbl u) < 2 ^ 31)"

lemma select_all_spec:
  assumes "sel_inv dst []" "distinct xs" "0 \<notin> set xs" "length xs < 2 ^ 32" "\<forall>e \<in> set xs. key_fields_ok (s e)"
    and room: "\<And>ys zs u l. xs = ys @ zs \<Longrightarrow> zs \<noteq> [] \<Longrightarrow> ys \<noteq> [] \<Longrightarrow> select_all s ys (dst, 0) = Some (u, l) \<Longrightarrow> num_buckets (tbl u) < 2 ^ 31"
  shows "\<exists>u. select_all s xs (dst, 0) = Some (u, last0 0 xs) \<and> sel_inv u xs \<and> (\<forall>x \<in> set xs. hkey (hh u x) = hkey (s x))"
  using assms
proof (induction xs rule: rev_induct)
  case (snoc e xs)
  have "\<exists>u. select_all s xs (dst, 0) = Some (u, last0 0 xs) \<and> sel_inv u xs \<and> (\<forall>x \<in> set xs. hkey (hh u x) = hkey (s x))"
  proof (rule snoc.IH)
    show "num_buckets (tbl u) < 2 ^ 31"
      if "xs = ys @ zs" "zs \<noteq> []" "ys \<noteq> []" "select_all s ys (dst, 0) = Some (u, l)" for ys zs u l
      using that snoc.prems(6) [of ys "zs @ [e]" u l] by simp
  qed (use snoc.prems in simp_all)
  then obtain u where u: "select_all s xs (dst, 0) = Some (u, last0 0 xs)" "sel_inv u xs" "\<forall>x \<in> set xs. hkey (hh u x) = hkey (s x)"
    by blast
  have "\<exists>u'. select_elt s e (u, last0 0 xs) = Some (u', e) \<and> sel_inv u' (xs @ [e])
      \<and> (\<forall>x. hkey (hh u' x) = (if x = e then hkey (s e) else hkey (hh u x)))"
    using snoc.prems(2-5) snoc.prems(6) [of xs "[e]" u "last0 0 xs"] u select_elt_spec [of u xs e s] by auto
  then show ?case using u by (auto simp: select_all_append)
qed simp

lemma select_all_small:
  assumes "sel_inv dst []" "distinct xs" "0 \<notin> set xs" "length xs \<le> 25" "\<forall>e \<in> set xs. key_fields_ok (s e)"
  shows "\<exists>u. select_all s xs (dst, 0) = Some (u, last0 0 xs) \<and> sel_inv u xs
    \<and> (xs \<noteq> [] \<longrightarrow> (\<exists>k \<le> 5 + length xs. num_buckets (tbl u) = 2 ^ k \<and> num_buckets (tbl u) < 2 ^ 31))"
  using assms
proof (induction xs rule: rev_induct)
  case (snoc e xs)
  have "\<exists>u. select_all s xs (dst, 0) = Some (u, last0 0 xs) \<and> sel_inv u xs
      \<and> (xs \<noteq> [] \<longrightarrow> (\<exists>k \<le> 5 + length xs. num_buckets (tbl u) = 2 ^ k \<and> num_buckets (tbl u) < 2 ^ 31))"
    by (rule snoc.IH) (use snoc.prems in simp_all)
  then obtain u where u: "select_all s xs (dst, 0) = Some (u, last0 0 xs)" "sel_inv u xs"
    "xs \<noteq> [] \<longrightarrow> (\<exists>k \<le> 5 + length xs. num_buckets (tbl u) = 2 ^ k \<and> num_buckets (tbl u) < 2 ^ 31)" by blast
  obtain u' k where u': "select_elt s e (u, last0 0 xs) = Some (u', e)" "sel_inv u' (xs @ [e])" "num_buckets (tbl u') = 2 ^ k"
    "if xs = [] then k \<le> 6 else \<forall>j < 32. num_buckets (tbl u) = 2 ^ j \<longrightarrow> k \<le> Suc j"
    using snoc.prems u select_elt_spec [of u xs e s] by auto
  have "k \<le> 5 + length (xs @ [e])"
  proof (cases "xs = []")
    case False
    then obtain j where j: "j \<le> 5 + length xs" "num_buckets (tbl u) = 2 ^ j" using u(3) by blast
    then have "j < 32" using snoc.prems(4) by simp
    then have "k \<le> Suc j" using u'(4) False j(2) by simp
    then show ?thesis using j(1) by simp
  qed (use u'(4) in simp)
  moreover then have "(2 ^ k :: u32) < 2 ^ 31"
    using snoc.prems(4) unat_pow2 [of k] unat_pow2 [of 31] power_strict_increasing [of k 31 "2 :: nat"] by (simp add: word_less_nat_alt)
  ultimately show ?case using u u' by (auto simp: select_all_append)
qed simp

text \<open>The elements that are selected, in the order in which the chains of the buckets have them.\<close>

lemma HASH_SELECT_order:
  assumes "hash_inv src es"
  shows "\<exists>sel. HASH_SELECT cond src dst = map_option fst (select_all (hh src) sel (dst, 0))
    \<and> distinct sel \<and> set sel = {e \<in> set es. cond e}"
proof (cases "es = []")
  case True
  then show ?thesis using assms by (intro exI [of _ "[]"]) (simp add: HASH_SELECT_def hash_inv_def ut_inv_def)
next
  case False
  then obtain k where k: "k < 32" "table_ok src es k" "head src \<noteq> 0"
    using assms unfolding hash_inv_def ut_inv_def by (cases es) auto
  have len: "length (buckets (tbl src)) = 2 ^ k" "unat (num_buckets (tbl src)) = 2 ^ k" "chains (hh src) (2 ^ k) (buckets (tbl src)) (set es)"
    using k(2) unat_pow2 [OF k(1)] by (simp_all add: table_ok_def)
  obtain cs where c: "\<forall>i < 2 ^ k. chain (hh src) (buckets (tbl src) ! i) (cs i) \<and> set (cs i) = {e \<in> set es. bkt_of (2 ^ k) (hh src e) = i}"
    using chains_lists [OF len(3)] unfolding len(1) by blast
  then have cs: "\<And>i. i < 2 ^ k \<Longrightarrow> chain (hh src) (buckets (tbl src) ! i) (cs i)"
    "\<And>i. i < 2 ^ k \<Longrightarrow> set (cs i) = {e \<in> set es. bkt_of (2 ^ k) (hh src e) = i}" by blast+
  define all where "all = concat (map cs [0..<2 ^ k])"
  have "bkt_of (2 ^ k) (hh src e) < 2 ^ k" for e using bucket_mask [OF k(1)] by (simp add: bkt_of_def)
  then have set: "set all = set es" using cs(2) by (auto simp: all_def)
  have dist: "distinct all" unfolding all_def
  proof (rule distinct_concat_upt)
    show "distinct (cs i)" if "i < 2 ^ k" for i using cs(1) [OF that] by (simp add: chain_def)
    show "set (cs i) \<inter> set (cs j) = {}" if "i < j" "j < 2 ^ k" for i j using cs(2) [of i] cs(2) [of j] that by auto
  qed
  have "select_buckets cond (hh src) (buckets (tbl src)) (dst, 0)
      = select_all (hh src) (filter cond (concat (map cs [0..<length (buckets (tbl src))]))) (dst, 0)"
  proof (rule select_buckets_all)
    fix i assume "i < length (buckets (tbl src))"
    then show "hh_head (buckets (tbl src) ! i) = hd0 (cs i) 0 \<and> sl (\<lambda>e. hh_next (hh src e)) (cs i)"
      using cs(1) [of i] len(1) dls_sl [of "\<lambda>e. hh_next (hh src e)" "\<lambda>e. hh_prev (hh src e)" 0 "cs i"] by (simp add: chain_def)
  qed
  then have "HASH_SELECT cond src dst = map_option fst (select_all (hh src) (filter cond all) (dst, 0))"
    using k(3) len by (simp add: HASH_SELECT_def all_def)
  then show ?thesis using set dist by (intro exI [of _ "filter cond all"]) auto
qed

lemma hash_inv_fields:
  assumes "hash_inv src es"
  shows "0 \<notin> set es" "\<forall>e \<in> set es. key_fields_ok (hh src e)"
  using assms by (cases es; auto simp: hash_inv_def ut_inv_def table_ok_def key_fields_ok_def)+

lemma HASH_SELECT_spec:
  assumes src: "hash_inv src es" "length es < 2 ^ 32" and dst: "head dst = 0" and room: "select_room cond src es dst"
  shows "\<exists>u xs. HASH_SELECT cond src dst = Some u \<and> sel_inv u xs \<and> distinct xs \<and> set xs = {e \<in> set es. cond e}
    \<and> (\<forall>x \<in> set xs. hkey (hh u x) = hkey (hh src x))"
proof -
  obtain sel where sel: "HASH_SELECT cond src dst = map_option fst (select_all (hh src) sel (dst, 0))"
    "distinct sel" "set sel = {e \<in> set es. cond e}" using HASH_SELECT_order [OF src(1)] by blast
  have "\<exists>u. select_all (hh src) sel (dst, 0) = Some (u, last0 0 sel) \<and> sel_inv u sel
      \<and> (\<forall>x \<in> set sel. hkey (hh u x) = hkey (hh src x))"
  proof (rule select_all_spec)
    have "length sel = card (set sel)" using distinct_card [OF sel(2)] by simp
    also have "\<dots> \<le> card (set es)" using sel(3) by (intro card_mono) auto
    also have "\<dots> \<le> length es" by (rule card_length)
    finally show "length sel < 2 ^ 32" using src(2) by simp
    show "num_buckets (tbl u) < 2 ^ 31"
      if "sel = ys @ zs" "zs \<noteq> []" "ys \<noteq> []" "select_all (hh src) ys (dst, 0) = Some (u, l)" for ys zs u l
    proof -
      have "distinct (ys @ zs)" "set ys \<union> set zs = {e \<in> set es. cond e}" using sel that(1) by auto
      then have "distinct ys" "set ys \<subset> {e \<in> set es. cond e}" using that(2) by (cases zs; auto)+
      then show ?thesis using room that(3,4) unfolding select_room_def by blast
    qed
  qed (use dst sel hash_inv_fields [OF src(1)] in auto)
  then show ?thesis using sel by auto
qed

lemma HASH_SELECT_few:
  assumes src: "hash_inv src es" and "head dst = 0" "card {e \<in> set es. cond e} \<le> 25" "{e \<in> set es. cond e} \<noteq> {}"
  shows "\<exists>u. HASH_SELECT cond src dst = Some u \<and> num_buckets (tbl u) < 2 ^ 31"
proof -
  obtain sel where sel: "HASH_SELECT cond src dst = map_option fst (select_all (hh src) sel (dst, 0))"
    "distinct sel" "set sel = {e \<in> set es. cond e}" using HASH_SELECT_order [OF src] by blast
  then have "length sel \<le> 25" "sel \<noteq> []" using assms(3,4) distinct_card [OF sel(2)] by auto
  then show ?thesis using select_all_small [of dst sel "hh src"] sel assms(2) hash_inv_fields [OF src] by auto
qed

lemma select_room_small:
  assumes src: "hash_inv src es" and "head dst = 0" "card {e \<in> set es. cond e} \<le> 26"
  shows "select_room cond src es dst"
  unfolding select_room_def
proof (intro allI impI)
  fix ys u l
  assume ys: "distinct ys" "ys \<noteq> []" "set ys \<subset> {e \<in> set es. cond e}" "select_all (hh src) ys (dst, 0) = Some (u, l)"
  have "length ys < 26" using psubset_card_mono [OF _ ys(3)] assms(3) distinct_card [OF ys(1)] by simp
  then show "num_buckets (tbl u) < 2 ^ 31"
    using select_all_small [of dst ys "hh src"] ys assms(2) hash_inv_fields [OF src] by auto
qed

lemma sel_inv_results:
  assumes "sel_inv u xs"
  shows "HASH_ITER (hh u) (head u) = Some xs" "HASH_FSCK u = Some True" "HASH_COUNT u = of_nat (length xs)"
proof -
  have inv: "ut_inv (retail (last xs) u) xs" using assms by (simp add: sel_inv_def)
  show "HASH_ITER (hh u) (head u) = Some xs" using ut_inv_iter [OF inv] by simp
  show "HASH_FSCK u = Some True" using ut_inv_fsck [OF inv] by (simp add: retail_same)
  show "HASH_COUNT u = of_nat (length xs)" using hash_count [OF inv] by (simp add: retail_same)
qed

lemma sel_inv_find:
  assumes "sel_inv u xs" "short_keys u xs" "length key < 2 ^ 32"
  shows "\<exists>out. HASH_FIND key u = Some out \<and> (if out = 0 then \<forall>e \<in> set xs. hkey (hh u e) \<noteq> key
    else out \<in> set xs \<and> hkey (hh u out) = key)"
proof -
  have "ut_inv (retail (last xs) u) xs" "short_keys (retail (last xs) u) xs" using assms by (simp_all add: sel_inv_def short_keys_def)
  from HASH_FIND_spec [OF this assms(3)] show ?thesis unfolding retail_same retail_simps .
qed

text \<open>What \<open>HASH_ADD_KEYPTR\<close> does to such a table: it links the element behind the first one.\<close>

lemma add_after_select:
  assumes inv: "sel_inv u xs" and n: "2 \<le> length xs" "Suc (length xs) < 2 ^ 32" and e: "e \<notin> set xs" "e \<noteq> 0"
    and room: "num_buckets (tbl u) < 2 ^ 31"
  shows "\<exists>u'. HASH_ADD_KEYPTR key e u = Some u' \<and> HASH_ITER (hh u') (head u') = Some [head u, e]
    \<and> HASH_COUNT u' = of_nat (Suc (length xs)) \<and> HASH_FSCK u' = Some False"
proof -
  have ne: "xs \<noteq> []" using n(1) by auto
  obtain k where k: "k < 32" "table_ok (retail (last xs) u) xs k" "tail (tbl u) = hd xs" "head u = hd xs" "head u \<noteq> 0"
    "distinct xs" "0 \<notin> set xs" using sel_inv_nonempty [OF inv ne] by blast
  have k31: "k < 31" using unat_less_pow2 [OF _ k(1)] room k(2) by (simp add: table_ok_def)
  have he: "hd xs \<noteq> e" "hd xs \<noteq> 0" using ne e(1) k by auto
  let ?v = "listed key e u"
  have v: "head ?v = head u" "num_buckets (tbl ?v) = 2 ^ k" "log2_num_buckets (tbl ?v) = of_nat k"
    "buckets (tbl ?v) = buckets (tbl u)" "length (buckets (tbl ?v)) = 2 ^ k" "num_items (tbl ?v) = of_nat (Suc (length xs))"
    using k by (simp_all add: listed_def link_last_def set_hh_def set_tbl_def Let_def table_ok_def)
  have h: "next_elt (hh ?v (hd xs)) = e" "next_elt (hh ?v e) = 0" "prev (hh ?v e) = hd xs" "prev (hh ?v (hd xs)) = 0"
    using k he ne by (cases xs; simp add: listed_def link_last_def set_hh_def set_tbl_def Let_def table_ok_def)+
  have c: "chains (hh ?v) (2 ^ k) (buckets (tbl ?v)) (set xs)"
    by (rule chains_cong [of "hh u"])
      (use k e he in \<open>auto simp: table_ok_def listed_def link_last_def set_hh_def set_tbl_def Let_def\<close>)
  have items: "unat (of_nat (Suc (length xs)) :: u32) = Suc (length xs)" using n(2) by (simp add: unat_of_nat del: of_nat_Suc)
  then have nz: "num_items (tbl ?v) \<noteq> 0" unfolding v(6) by (metis Zero_not_Suc unat_0)
  let ?i = "unat (HASH_TO_BKT (hashv (hh ?v e)) (num_buckets (tbl ?v)))"
  obtain w k' where w: "HASH_ADD_TO_BKT ?i e ?v = Some w" "k' < 32" "chains (hh w) (2 ^ k') (buckets (tbl w)) (insert e (set xs))"
    "num_buckets (tbl w) = 2 ^ k'" "length (buckets (tbl w)) = 2 ^ k'"
    "num_items (tbl w) = num_items (tbl ?v)" "head w = head ?v" "\<And>x. core (hh w x) = core (hh ?v x)"
    using add_to_bkt_chains [OF v(2,3,5) k31 c e refl] nz by blast
  note f = core_fields [of "hh w" "hh ?v", OF w(8)]
  have "HASH_ADD_KEYPTR key e u = Some w" using w(1) by (simp add: HASH_ADD_KEYPTR_listed)
  moreover have "sl (\<lambda>x. next_elt (hh w x)) [hd xs, e]" using h he e(2) by (simp add: f)
  then have "HASH_ITER (hh w) (head w) = Some [head u, e]"
    using HASH_ITER_spec [of "hh w" "[hd xs, e]"] k(4) w(7) v(1) by simp
  moreover have "HASH_COUNT w = of_nat (Suc (length xs))" using w(6,7) v(1,6) k(5) by (simp add: HASH_COUNT_def)
  moreover have "HASH_FSCK w = Some False"
  proof -
    have "dls (\<lambda>x. next_elt (hh w x)) (\<lambda>x. prev (hh w x)) 0 [hd xs, e] 0" using h he e(2) by (simp add: f)
    then have 1: "fsck_list (hh w) 0 (head w) 0 = Some (Some 2)" using fsck_list_spec [of "hh w" 0 "[hd xs, e]" 0] k(4) w(7) v(1) by simp
    have "fsck_buckets (hh w) (buckets (tbl w)) 0 = Some (Some (of_nat (length (e # xs))))"
      by (rule fsck_buckets_chains [OF _ w(5,2)]) (use w(3) e k in auto)
    then have 2: "fsck_buckets (hh w) (take (unat (num_buckets (tbl w))) (buckets (tbl w))) 0 = Some (Some (num_items (tbl w)))"
      using w(4-6) v(6) unat_pow2 [OF w(2)] by simp
    have "num_items (tbl w) \<noteq> 2" using items n(1) w(6) v(6) by (auto simp del: of_nat_Suc)
    then show ?thesis using 1 2 k(5) w(7) v(1) by (simp add: HASH_FSCK_def)
  qed
  ultimately show ?thesis by blast
qed

subsection \<open>Properties\<close>

text \<open>
  C26: \<open>HASH_SELECT\<close> into an empty table ends and leaves a table of exactly the elements that
  satisfy the condition, each once: iteration meets them, the count is right, the integrity
  check succeeds and a look-up finds an element with the key among them when there is one.
\<close>

theorem hash_select_correct:
  assumes "hash_inv src es" "length es < 2 ^ 32" "head dst = 0" "select_room cond src es dst"
  shows "\<exists>u xs. HASH_SELECT cond src dst = Some u \<and> HASH_ITER (hh u) (head u) = Some xs
    \<and> distinct xs \<and> set xs = {e \<in> set es. cond e} \<and> HASH_COUNT u = of_nat (length xs) \<and> HASH_FSCK u = Some True
    \<and> (\<forall>key. length key < 2 ^ 32 \<longrightarrow> (\<exists>out. HASH_FIND key u = Some out
         \<and> (if out = 0 then \<forall>e \<in> set es. cond e \<longrightarrow> hkey (hh src e) \<noteq> key
            else out \<in> set es \<and> cond out \<and> hkey (hh src out) = key)))"
proof -
  obtain u xs where u: "HASH_SELECT cond src dst = Some u" "sel_inv u xs" "distinct xs" "set xs = {e \<in> set es. cond e}"
    "\<forall>x \<in> set xs. hkey (hh u x) = hkey (hh src x)" using HASH_SELECT_spec [OF assms] by blast
  have sk: "short_keys u xs" using u(4,5) assms(1) by (simp add: hash_inv_def short_keys_def)
  have "\<exists>out. HASH_FIND key u = Some out \<and> (if out = 0 then \<forall>e \<in> set es. cond e \<longrightarrow> hkey (hh src e) \<noteq> key
      else out \<in> set es \<and> cond out \<and> hkey (hh src out) = key)" if k: "length key < 2 ^ 32" for key
  proof -
    obtain out where o: "HASH_FIND key u = Some out" "if out = 0 then \<forall>e \<in> set xs. hkey (hh u e) \<noteq> key
      else out \<in> set xs \<and> hkey (hh u out) = key" using sel_inv_find [OF u(2) sk k] by blast
    then show ?thesis using u(4,5) by (cases "out = 0") auto
  qed
  then show ?thesis using u sel_inv_results [OF u(2)] by (intro exI [of _ u] exI [of _ xs]) simp
qed

text \<open>
  C37: \<open>HASH_SELECT\<close> leaves the tail of the table it fills at the first element. The next
  \<open>HASH_ADD_KEYPTR\<close> therefore links its element behind the first one: of two or more selected
  elements iteration then meets the first and the new one only, although all are counted, and
  the integrity check fails.
\<close>

theorem hash_select_add_loses:
  assumes "hash_inv src es" "Suc (length es) < 2 ^ 32" "head dst = 0" "select_room cond src es dst"
    "HASH_SELECT cond src dst = Some u" "2 \<le> card {e \<in> set es. cond e}" "e \<notin> set es" "e \<noteq> 0" "num_buckets (tbl u) < 2 ^ 31"
  shows "\<exists>u'. HASH_ADD_KEYPTR key e u = Some u' \<and> HASH_ITER (hh u') (head u') = Some [head u, e]
    \<and> HASH_COUNT u' = of_nat (Suc (card {e \<in> set es. cond e})) \<and> HASH_FSCK u' = Some False"
proof -
  obtain xs where xs: "sel_inv u xs" "distinct xs" "set xs = {e \<in> set es. cond e}"
    using HASH_SELECT_spec [OF assms(1) _ assms(3,4)] assms(2,5) by auto
  then have card: "length xs = card {e \<in> set es. cond e}" using distinct_card [of xs] by simp
  also have "\<dots> \<le> card (set es)" by (intro card_mono) auto
  also have "\<dots> \<le> length es" by (rule card_length)
  finally show ?thesis using add_after_select [OF xs(1), of e key] assms xs(3) unfolding card [symmetric] by simp
qed

text \<open>In the examples both elements of a table are selected.\<close>

lemma room_for_two: "hash_inv u [a, b] \<Longrightarrow> select_room (\<lambda>_. True) u [a, b] empty_ut"
proof -
  assume "hash_inv u [a, b]"
  moreover have "card {a, b} \<le> 26" using card_length [of "[a, b]"] by simp
  moreover have "{e \<in> set [a, b]. True} = {a, b}" by auto
  ultimately show ?thesis using select_room_small [of u "[a, b]" empty_ut "\<lambda>_. True"] by (simp add: empty_ut_def)
qed

theorem hash_select_correct_witness:
  "\<exists>u1 u v xs. HASH_ADD_KEYPTR [7] 4096 empty_ut = Some u1 \<and> HASH_ADD_KEYPTR [8] 8192 u1 = Some u
     \<and> HASH_SELECT (\<lambda>_. True) u empty_ut = Some v \<and> HASH_ITER (hh v) (head v) = Some xs \<and> set xs = {4096, 8192}"
proof -
  obtain u1 u where u: "HASH_ADD_KEYPTR [7] 4096 empty_ut = Some u1" "HASH_ADD_KEYPTR [8] 8192 u1 = Some u" "hash_inv u [4096, 8192]"
    using two_elements [of 4096 8192] by auto
  obtain v xs where "HASH_SELECT (\<lambda>_. True) u empty_ut = Some v" "HASH_ITER (hh v) (head v) = Some xs"
    "set xs = {e \<in> set [4096, 8192]. True}"
    using hash_select_correct [OF u(3) _ _ room_for_two [OF u(3)]] by (auto simp: empty_ut_def)
  moreover have "{e \<in> set [4096, 8192 :: addr]. True} = {4096, 8192}" by auto
  ultimately show ?thesis using u(1,2) by metis
qed

theorem hash_select_add_loses_witness:
  "\<exists>u1 u v w f. HASH_ADD_KEYPTR [7] 4096 empty_ut = Some u1 \<and> HASH_ADD_KEYPTR [8] 8192 u1 = Some u
     \<and> HASH_SELECT (\<lambda>_. True) u empty_ut = Some v \<and> HASH_ADD_KEYPTR [9] 12288 v = Some w
     \<and> HASH_COUNT w = 3 \<and> HASH_ITER (hh w) (head w) = Some [f, 12288] \<and> HASH_FSCK w = Some False"
proof -
  obtain u1 u where u: "HASH_ADD_KEYPTR [7] 4096 empty_ut = Some u1" "HASH_ADD_KEYPTR [8] 8192 u1 = Some u" "hash_inv u [4096, 8192]"
    using two_elements [of 4096 8192] by auto
  have e: "head empty_ut = 0" by (simp add: empty_ut_def)
  have c: "{e \<in> set [4096, 8192 :: addr]. True} = {4096, 8192}" by auto
  obtain v where v: "HASH_SELECT (\<lambda>_. True) u empty_ut = Some v" "num_buckets (tbl v) < 2 ^ 31"
    using HASH_SELECT_few [OF u(3) e, of "\<lambda>_. True"] unfolding c by auto
  have "2 \<le> card {e \<in> set [4096, 8192 :: addr]. True}" unfolding c by simp
  then show ?thesis
    using hash_select_add_loses [OF u(3) _ e room_for_two [OF u(3)] v(1) _ _ _ v(2), of 12288 "[9]"] u(1,2) v(1) unfolding c by auto
qed

end
