(* ===== verification/Serial.thy ===== *)
theory Serial
  imports Transform
begin

text \<open>
  The serialization service of src/examples/heap_serialize/serial.c (the same file is in
  src/examples/figure4 and src/examples/figure10): the callbacks that write a heap to a
  file and the callbacks that read it back.
\<close>

subsection \<open>Files, strings and memory\<close>

text \<open>
  The file \<open>ser\<close>: the bytes written so far and the bytes still to be read. \<open>serial_config\<close>
  holds the generated type numbers, the allocator, and \<open>junk\<close>, what an uninitialised local
  variable happens to hold; \<open>free\<close> is recorded in the field \<open>freed\<close> of the state.
\<close>

record serial_file =
  ser_out :: "byte list"
  ser_in :: "byte list"

record 'u serial_config =
  TYPE_OPAQUE_PTR_i :: ctyp
  TYPE_CHAR_NT_i :: ctyp
  TYPE_CHAR_NT_PTR_i :: ctyp
  malloc_fn :: "64 word \<Rightarrow> 'u cstate \<Rightarrow> addr \<times> 'u cstate"
  junk :: "64 word"

text \<open>A service that serializes may keep further state in the record.\<close>

type_synonym 'a sstate = "'a serial_file_scheme cstate"

type_synonym 'a sconfig = "'a serial_file_scheme serial_config"

definition SER_SYMBOL :: "64 word" where
  "SER_SYMBOL = 2"

definition write_bytes :: "byte list \<Rightarrow> 'a sstate \<Rightarrow> 'a sstate" where
  "write_bytes bs s = s\<lparr>user := (user s)\<lparr>ser_out := ser_out (user s) @ bs\<rparr>\<rparr>"

text \<open>\<open>fread\<close> of \<open>n\<close> bytes: the bytes that are there, at most \<open>n\<close>, and the file behind them.\<close>

definition read_bytes :: "nat \<Rightarrow> 'a sstate \<Rightarrow> byte list \<times> 'a sstate" where
  "read_bytes n s = (take n (ser_in (user s)), s\<lparr>user := (user s)\<lparr>ser_in := drop n (ser_in (user s))\<rparr>\<rparr>)"

text \<open>A local variable after \<open>fread\<close> into it: the bytes read, then the old ones.\<close>

definition into_local64 :: "64 word \<Rightarrow> byte list \<Rightarrow> 64 word" where
  "into_local64 old bs = of_bytes (bs @ drop (length bs) (bytes64 old))"

definition into_local32 :: "32 word \<Rightarrow> byte list \<Rightarrow> 32 word" where
  "into_local32 old bs = of_bytes (bs @ drop (length bs) (bytes32 old))"

definition c_string :: "heap \<Rightarrow> addr \<Rightarrow> string option" where
  "c_string h a = map_option (\<lambda>n. map (char_of \<circ> unat) (load_bytes h a n)) (c_strlen h a 0)"

subsection \<open>Writing\<close>

definition serial_internal_write :: "addr \<Rightarrow> i32 \<Rightarrow> 'a sstate \<Rightarrow> 'a sstate" where
  "serial_internal_write to_wr sz s = write_bytes (load_bytes (heap s) to_wr (unat (scast sz :: 64 word))) s"

definition serial_prim :: "addr \<Rightarrow> ctyp \<Rightarrow> 'a sstate \<Rightarrow> 'a sstate result" where
  "serial_prim inp type s =
     rbind (cstrider_get_size (type_table_of s) type) (\<lambda>sz.
       Inr (write_bytes (load_bytes (heap s) inp (unat (scast sz :: 64 word))) s))"

text \<open>\<open>serial_prim\<close> on the address of a local variable of eight bytes.\<close>

definition serial_prim_local :: "64 word \<Rightarrow> ctyp \<Rightarrow> 'a sstate \<Rightarrow> 'a sstate result" where
  "serial_prim_local v type s =
     rbind (cstrider_get_size (type_table_of s) type) (\<lambda>sz.
       let n = unat (scast sz :: 64 word)
       in if n > 8 then Inl Wild_access else Inr (write_bytes (take n (bytes64 v)) s))"

definition serial_write_token :: "64 word \<Rightarrow> 'a sstate \<Rightarrow> 'a sstate" where
  "serial_write_token i s = write_bytes (bytes64 i) s"

text \<open>
  \<open>serial_char_str\<close> on a string in memory, and on the name of a symbol, which the symbol
  table keeps in memory of its own.
\<close>

definition serial_char_str :: "addr \<Rightarrow> 'a sstate \<Rightarrow> 'a sstate result" where
  "serial_char_str a s =
     (case c_strlen (heap s) a 0 of
        None \<Rightarrow> Inl Wild_access
      | Some n \<Rightarrow>
          let len = of_nat (n + 1) :: i32;
              s = write_bytes (bytes32 len) s
          in Inr (write_bytes (load_bytes (heap s) a (unat (scast len :: 64 word))) s))"

definition symbol_bytes :: "string \<Rightarrow> byte list" where
  "symbol_bytes name = map of_char name @ [0]"

definition serial_symbol_str :: "string \<Rightarrow> 'a sstate \<Rightarrow> 'a sstate" where
  "serial_symbol_str name s =
     (let len = of_nat (length name + 1) :: i32
      in write_bytes (take (unat (scast len :: 64 word)) (symbol_bytes name)) (write_bytes (bytes32 len) s))"

definition serial_ptr ::
    "'a sconfig \<Rightarrow> addr \<Rightarrow> ctyp \<Rightarrow> addr \<Rightarrow> 'a sstate \<Rightarrow> (bool \<times> 'a sstate) result" where
  "serial_ptr c inp type out s =
     (let v = load64 (heap s) inp
      in if v = 0 then Inr (False, serial_write_token 0 s)
         else case lookup_addr v s of
           Some symbol \<Rightarrow>
             rbind (serial_prim_local 2 (TYPE_OPAQUE_PTR_i c) s) (\<lambda>s. Inr (False, serial_symbol_str symbol s))
         | None \<Rightarrow>
             rbind (serial_prim inp type s) (\<lambda>s.
               if type = TYPE_CHAR_NT_PTR_i c
               then rbind (serial_char_str v s) (\<lambda>s. Inr (False, s))
               else Inr (True, s)))"

definition serial_ptr_mapped ::
    "addr \<Rightarrow> ctyp \<Rightarrow> addr \<Rightarrow> 'a sstate \<Rightarrow> (addr \<times> 'a sstate) result" where
  "serial_ptr_mapped inp type lookup s =
     (case lookup_addr (load64 (heap s) inp) s of
        Some symbol \<Rightarrow> Inr (lookup, serial_symbol_str symbol (serial_write_token SER_SYMBOL s))
      | None \<Rightarrow> rbind (serial_prim inp type s) (\<lambda>s. Inr (lookup, s)))"

definition serial_struct :: "addr \<Rightarrow> ctyp \<Rightarrow> addr \<Rightarrow> 'a sstate \<Rightarrow> (bool \<times> 'a sstate) result" where
  "serial_struct inp type out s = Inr (True, s)"

definition ser_funs :: "'a sconfig \<Rightarrow> 'a serial_file_scheme traversal" where
  "ser_funs c = \<lparr>perfaction_prim = (\<lambda>vis inp type out s. serial_prim inp type s),
     perfaction_struct = (\<lambda>vis. serial_struct), perfaction_ptr = (\<lambda>vis. serial_ptr c),
     perfaction_ptr_mapped = (\<lambda>vis. serial_ptr_mapped)\<rparr>"

subsection \<open>Reading\<close>

definition serial_internal_read :: "addr \<Rightarrow> i32 \<Rightarrow> 'a sstate \<Rightarrow> 'a sstate" where
  "serial_internal_read to_rd sz s =
     (let (bs, s) = read_bytes (unat (scast sz :: 64 word)) s in s\<lparr>heap := store_bytes (heap s) to_rd bs\<rparr>)"

definition deserial_prim :: "ctyp \<Rightarrow> addr \<Rightarrow> 'a sstate \<Rightarrow> 'a sstate result" where
  "deserial_prim type out s =
     rbind (cstrider_get_size (type_table_of s) type) (\<lambda>sz.
       let (bs, s) = read_bytes (unat (scast sz :: 64 word)) s
       in Inr (s\<lparr>heap := store_bytes (heap s) out bs\<rparr>))"

text \<open>\<open>deserial_char_str\<close> returns the pointer it stores through its argument.\<close>

definition deserial_char_str :: "'a sconfig \<Rightarrow> 'a sstate \<Rightarrow> addr \<times> 'a sstate" where
  "deserial_char_str c s =
     (let (lb, s) = read_bytes 4 s;
          len = into_local32 (ucast (junk c)) lb;
          (tmp, s) = malloc_fn c (scast len) s;
          (bs, s) = read_bytes (unat (scast len :: 64 word)) s
      in (tmp, s\<lparr>heap := store_bytes (heap s) tmp bs\<rparr>))"

definition deserial_symbol :: "'a sconfig \<Rightarrow> addr \<Rightarrow> 'a sstate \<Rightarrow> 'a sstate result" where
  "deserial_symbol c out s =
     (let (symbol, s) = deserial_char_str c s
      in case c_string (heap s) symbol of
           None \<Rightarrow> Inl Wild_access
         | Some key \<Rightarrow>
             Inr (s\<lparr>heap := store64 (heap s) out (lookup_key key s), freed := freed s @ [symbol]\<rparr>))"

definition deserial_new ::
    "'a sconfig \<Rightarrow> 'a serial_file_scheme visitor \<Rightarrow> 64 word \<Rightarrow> ctyp \<Rightarrow> addr \<Rightarrow> 'a sstate \<Rightarrow> 'a sstate result" where
  "deserial_new c vis present type out s =
     rbind (cstrider_get_ptrtype (type_table_of s) type) (\<lambda>next_type.
       if next_type = TYPE_CHAR_NT_i c
       then let (tgt, s) = deserial_char_str c s
            in Inr (add_mapping present tgt (s\<lparr>heap := store64 (heap s) out tgt\<rparr>))
       else
         rbind (cstrider_get_size (type_table_of s) next_type) (\<lambda>size.
         rbind (cstrider_is_array (type_table_of s) next_type) (\<lambda>isarr.
         rbind (if isarr then cstrider_get_array_len (type_table_of s) next_type else Inr size) (\<lambda>to_alloc.
           let (tgt, s) = malloc_fn c (scast to_alloc) s;
               s = add_mapping present tgt s;
               s = s\<lparr>heap := store64 (heap s) out tgt\<rparr>
           in vis tgt next_type tgt s))))"

definition deserial_ptr ::
    "'a sconfig \<Rightarrow> 'a serial_file_scheme visitor \<Rightarrow> addr \<Rightarrow> ctyp \<Rightarrow> addr \<Rightarrow> 'a sstate \<Rightarrow> (bool \<times> 'a sstate) result" where
  "deserial_ptr c vis inp type out s =
     (let (bs, s) = read_bytes 8 s;
          present = into_local64 (junk c) bs
      in rbind
           (if present = SER_SYMBOL then deserial_symbol c out s
            else if present = 0 then Inr (s\<lparr>heap := store64 (heap s) out 0\<rparr>)
            else if find_mapping present s \<noteq> 0
                 then Inr (s\<lparr>heap := store64 (heap s) out (find_mapping present s)\<rparr>)
                 else deserial_new c vis present type out s)
           (\<lambda>s. Inr (False, s)))"

definition deserial_ptr_mapped :: "addr \<Rightarrow> ctyp \<Rightarrow> addr \<Rightarrow> 'a sstate \<Rightarrow> (addr \<times> 'a sstate) result" where
  "deserial_ptr_mapped inp type lookup s = Inl Assert_failed"

definition deserial_struct :: "addr \<Rightarrow> ctyp \<Rightarrow> addr \<Rightarrow> 'a sstate \<Rightarrow> (bool \<times> 'a sstate) result" where
  "deserial_struct inp type out s = Inr (True, s)"

definition deser_funs :: "'a sconfig \<Rightarrow> 'a serial_file_scheme traversal" where
  "deser_funs c = \<lparr>perfaction_prim = (\<lambda>vis inp type out s. deserial_prim type out s),
     perfaction_struct = (\<lambda>vis. deserial_struct), perfaction_ptr = deserial_ptr c,
     perfaction_ptr_mapped = (\<lambda>vis. deserial_ptr_mapped)\<rparr>"

subsection \<open>What is written is what is read\<close>

lemma write_bytes_simps [simp]:
  "heap (write_bytes bs s) = heap s" "tstate (write_bytes bs s) = tstate s"
  "ser_out (user (write_bytes bs s)) = ser_out (user s) @ bs"
  "ser_in (user (write_bytes bs s)) = ser_in (user s)"
  "write_bytes bs (write_bytes as s) = write_bytes (as @ bs) s"
  by (simp_all add: write_bytes_def)

lemma read_bytes_append:
  assumes "ser_in (user s) = bs @ rest" "length bs = n"
  shows "read_bytes n s = (bs, s\<lparr>user := (user s)\<lparr>ser_in := rest\<rparr>\<rparr>)"
  using assms by (simp add: read_bytes_def)

lemma into_local_bytes [simp]: "into_local64 old (bytes64 v) = v" "into_local32 old' (bytes32 v') = v'"
  by (simp_all add: into_local64_def into_local32_def)

lemma unat_len:
  assumes "k + 1 < 2 ^ 31"
  shows "unat (scast (of_nat (k + 1) :: i32) :: 64 word) = k + 1"
  using unat_scast_nonneg [of "of_nat (k + 1)"] nonneg_i32_of_nat(1) [OF assms] by simp

lemma serial_char_str_eq:
  assumes "string_at (heap s) a k" "k + 1 < 2 ^ 31"
  shows "serial_char_str a s = Inr (write_bytes (bytes32 (of_nat (k + 1)) @ load_bytes (heap s) a (k + 1)) s)"
  using c_strlen_string [OF assms(1)] unat_len [OF assms(2)]
  by (simp add: serial_char_str_def Let_def del: of_nat_add)

text \<open>What \<open>malloc\<close> may do: return some address and change what unallocated memory holds.\<close>

definition malloc_only :: "'a sconfig \<Rightarrow> bool" where
  "malloc_only c \<longleftrightarrow> (\<forall>n s. \<exists>a h. malloc_fn c n s = (a, s\<lparr>heap := h\<rparr>))"

lemma deserial_char_str_eq:
  assumes "malloc_only c" "ser_in (user s) = bytes32 (of_nat (k + 1)) @ bs @ rest"
    "length bs = k + 1" "k + 1 < 2 ^ 31"
  shows "\<exists>tmp h. deserial_char_str c s =
      (tmp, s\<lparr>user := (user s)\<lparr>ser_in := rest\<rparr>, heap := h\<rparr>) \<and> load_bytes h tmp (k + 1) = bs"
proof -
  let ?s1 = "s\<lparr>user := (user s)\<lparr>ser_in := bs @ rest\<rparr>\<rparr>"
  let ?len = "of_nat (k + 1) :: i32"
  obtain tmp h where m: "malloc_fn c (scast ?len) ?s1 = (tmp, ?s1\<lparr>heap := h\<rparr>)"
    using assms(1) unfolding malloc_only_def by blast
  have r1: "read_bytes 4 s = (bytes32 ?len, ?s1)" using assms(2) by (intro read_bytes_append) simp_all
  have r2: "read_bytes (k + 1) (?s1\<lparr>heap := h\<rparr>) = (bs, s\<lparr>user := (user s)\<lparr>ser_in := rest\<rparr>, heap := h\<rparr>)"
    using assms(3) read_bytes_append [of "?s1\<lparr>heap := h\<rparr>" bs rest "k + 1"] by simp
  have "load_bytes (store_bytes h tmp bs) tmp (k + 1) = bs"
    using load_store_bytes [of bs h tmp] assms(3,4) by simp
  moreover have "deserial_char_str c s = (tmp, s\<lparr>user := (user s)\<lparr>ser_in := rest\<rparr>, heap := store_bytes h tmp bs\<rparr>)"
    using r1 r2 m unat_len [OF assms(4)] by (simp add: deserial_char_str_def Let_def del: of_nat_add)
  ultimately show ?thesis by blast
qed

lemma unat_of_char: "unat (of_char ch :: byte) = of_char ch"
  unfolding of_nat_of_char [symmetric, where 'a = byte] unat_of_nat
  by (simp add: take_bit_nat_eq_self)

lemma c_string_symbol:
  assumes "load_bytes h a (length name + 1) = symbol_bytes name" "CHR 0x00 \<notin> set name"
  shows "c_string h a = Some name"
proof -
  have b: "h (a + of_nat i) = symbol_bytes name ! i" if "i \<le> length name" for i
    using that assms(1) nth_load_bytes [of i "length name + 1" h a] by simp
  have nz: "(of_char ch :: byte) \<noteq> 0" if "ch \<in> set name" for ch
  proof
    assume "(of_char ch :: byte) = 0"
    then have "(of_char ch :: nat) = 0" using unat_of_char [of ch] by simp
    then have "of_char ch = (of_char (CHR 0x00) :: nat)" by simp
    then have "ch = CHR 0x00" by (simp only: of_char_eq_iff)
    then show False using that assms(2) by simp
  qed
  have "h (a + of_nat i) \<noteq> 0" if "i < length name" for i
    using b [of i] nz [of "name ! i"] that by (simp add: symbol_bytes_def nth_append)
  moreover have "h (a + of_nat (length name)) = 0" using b [of "length name"] by (simp add: symbol_bytes_def nth_append)
  ultimately have "c_strlen h a 0 = Some (length name)"
    by (intro c_strlen_string) (auto simp: string_at_def list_all_iff)
  moreover have "load_bytes h a (length name) = map of_char name"
    by (rule nth_equalityI) (simp_all add: b symbol_bytes_def nth_append)
  ultimately show ?thesis by (simp add: c_string_def comp_def unat_of_char)
qed

subsection \<open>Properties\<close>

text \<open>
  The bytes a step of the writer adds to the file, and a reader that has them in front of it.
\<close>

definition added :: "'a sstate \<Rightarrow> 'a sstate \<Rightarrow> byte list" where
  "added s s' = drop (length (ser_out (user s))) (ser_out (user s'))"

lemma added_write [simp]: "added s (write_bytes bs s) = bs"
  by (simp add: added_def)

lemma serial_prim_ptr:
  assumes "cstrider_get_size (type_table_of s) t = Inr 8"
  shows "serial_prim a t s = Inr (write_bytes (bytes64 (load64 (heap s) a)) s)"
proof -
  have "bytes64 (load64 (heap s) a) = load_bytes (heap s) a 8"
    by (simp add: load64_def bytes64_of_bytes)
  moreover have "unat (scast (8 :: i32) :: 64 word) = 8" by simp
  ultimately show ?thesis using assms by (simp add: serial_prim_def)
qed

text \<open>
  An example configuration: type 1 is an object of 8 bytes, 2 a pointer to it, 3 and 4 are
  \<open>char\<close> and a pointer to a string, 5 is an opaque pointer. In \<open>example_writer\<close> the
  pointer at 4096 points to a string \<open>hi\<close> at 8192, and \<open>g\<close> is a symbol at 12288, to
  which the pointer at 4104 points.
\<close>

definition example_config :: "serial_file serial_config" where
  "example_config = \<lparr>TYPE_OPAQUE_PTR_i = 5, TYPE_CHAR_NT_i = 3, TYPE_CHAR_NT_PTR_i = 4,
     malloc_fn = (\<lambda>n s. (65536, s)), junk = 0\<rparr>"

definition example_writer :: "serial_file cstate" where
  "example_writer = (start_state \<lparr>ser_out = [], ser_in = []\<rparr>)
     \<lparr>heap := store_bytes (store64 (store64 (\<lambda>_. 0) 4096 8192) 4104 12288) 8192 [104, 105, 0],
      tstate := \<lparr>type_hashtbl = [(1, example_entry 1 (- 1)), (2, example_entry 2 1), (3, example_entry 3 (- 1)),
        (4, example_entry 4 3), (5, example_entry 5 (- 1))], held = (\<lambda>_. 0)\<rparr>,
      name_to_addr_hash := [(''g'', \<lparr>entry_name = ''g'', entry_addr = 12288, entry_size = 8, auto_migrate = 0\<rparr>)],
      addr_to_name_hash := [(12288, \<lparr>entry_name = ''g'', entry_addr = 12288, entry_size = 8, auto_migrate = 0\<rparr>)]\<rparr>"

definition reader_of :: "byte list \<Rightarrow> serial_file cstate" where
  "reader_of bs = example_writer\<lparr>heap := (\<lambda>_. 0), user := \<lparr>ser_out = [], ser_in = bs\<rparr>\<rparr>"

lemma example_config_sel:
  "TYPE_OPAQUE_PTR_i example_config = 5" "TYPE_CHAR_NT_i example_config = 3" "TYPE_CHAR_NT_PTR_i example_config = 4"
  "malloc_fn example_config n s = (65536, s)" "(8192 :: addr) \<noteq> 0" "(8192 :: addr) \<noteq> SER_SYMBOL"
  by (simp_all add: example_config_def SER_SYMBOL_def)

lemma example_malloc: "malloc_only example_config"
proof -
  have "\<exists>h. s = s\<lparr>heap := h\<rparr>" for s :: "serial_file cstate" by (rule exI [of _ "heap s"]) simp
  then show ?thesis by (simp add: malloc_only_def example_config_def)
qed

lemma example_types:
  "cstrider_get_size (type_table_of example_writer) 1 = Inr 8" "cstrider_get_size (type_table_of example_writer) 2 = Inr 8"
  "cstrider_get_size (type_table_of example_writer) 4 = Inr 8" "cstrider_get_size (type_table_of example_writer) 5 = Inr 8"
  "cstrider_get_ptrtype (type_table_of example_writer) 4 = Inr 3" "cstrider_get_ptrtype (type_table_of example_writer) 2 = Inr 1"
  "cstrider_is_array (type_table_of example_writer) 1 = Inr False"
  by (simp_all add: example_writer_def cstrider_get_size_def cstrider_get_ptrtype_def cstrider_is_array_def
      query_def get_typeinfo_from_table_def tbl_find_def example_entry_def)

lemma example_memory:
  "load64 (heap example_writer) 4096 = 8192" "load64 (heap example_writer) 4104 = 12288"
  "load64 (heap example_writer) 4112 = 0" "string_at (heap example_writer) 8192 2"
  by code_simp+

lemma example_symbols:
  "lookup_addr 8192 example_writer = None" "lookup_addr 12288 example_writer = Some ''g''"
  "lookup_key ''g'' (reader_of bs) = 12288" "find_mapping v (reader_of bs) = 0"
  "type_table_of (reader_of bs) = type_table_of example_writer" "user (reader_of bs) = \<lparr>ser_out = [], ser_in = bs\<rparr>"
  by (simp_all add: example_writer_def lookup_addr_def tbl_find_def reader_of_def lookup_key_def find_mapping_def
      cstrider_get_symbol_addr_new_def cstrider_get_symbol_addr_old_def start_state_def)

text \<open>
  A value of a primitive type that was written with \<open>serial_prim\<close> is read back by
  \<open>deserial_prim\<close> byte for byte, into any place, and the reader has consumed exactly what
  the writer wrote.
\<close>

theorem prim_round_trip:
  assumes w: "serial_prim a t s = Inr s'" and r: "type_table_of r = type_table_of s"
    "ser_in (user r) = added s s' @ rest"
  shows "\<exists>r' n. deserial_prim t b r = Inr r' \<and> load_bytes (heap r') b n = load_bytes (heap s) a n
    \<and> length (added s s') = n \<and> ser_in (user r') = rest
    \<and> (\<forall>x. (\<forall>i<n. x \<noteq> b + of_nat i) \<longrightarrow> heap r' x = heap r x)"
proof -
  obtain sz where sz: "cstrider_get_size (type_table_of s) t = Inr sz"
    using w by (cases "cstrider_get_size (type_table_of s) t") (auto simp: serial_prim_def)
  let ?n = "unat (scast sz :: 64 word)"
  let ?bs = "load_bytes (heap s) a ?n"
  have s': "s' = write_bytes ?bs s" using w sz by (simp add: serial_prim_def)
  have "read_bytes ?n r = (?bs, r\<lparr>user := (user r)\<lparr>ser_in := rest\<rparr>\<rparr>)"
    using r(2) s' by (intro read_bytes_append) simp_all
  then have "deserial_prim t b r = Inr (r\<lparr>user := (user r)\<lparr>ser_in := rest\<rparr>, heap := store_bytes (heap r) b ?bs\<rparr>)"
    using sz r(1) by (simp add: deserial_prim_def)
  moreover have "load_bytes (store_bytes (heap r) b ?bs) b ?n = ?bs"
    using load_store_bytes [of ?bs "heap r" b] unsigned_less [of "scast sz :: 64 word"] by simp
  moreover have "store_bytes (heap r) b ?bs x = heap r x" if "\<forall>i<?n. x \<noteq> b + of_nat i" for x
    using that by (intro store_bytes_outside) simp
  ultimately show ?thesis by (intro exI exI [of _ ?n]) (auto simp: s')
qed

theorem prim_round_trip_witness:
  "\<exists>s' r'. serial_prim 4096 1 example_writer = Inr s' \<and> deserial_prim 1 256 (reader_of (added example_writer s')) = Inr r'
     \<and> load_bytes (heap r') 256 8 = load_bytes (heap example_writer) 4096 8"
proof -
  let ?s = "write_bytes (bytes64 8192) example_writer"
  have "serial_prim 4096 1 example_writer = Inr ?s"
    using serial_prim_ptr [OF example_types(1), of 4096] by (simp add: example_memory)
  then show ?thesis
    using prim_round_trip [of 4096 1 example_writer ?s "reader_of (bytes64 8192)" "[]" 256]
    by (auto simp: example_symbols)
qed

text \<open>
  The pointers that are not followed: NULL is read back as NULL, and a pointer to a symbol
  is read back as the address the reader has for the symbol of that name (NULL if it has
  none); the buffer for the name is freed, and the reader consumes exactly what was written.
\<close>

theorem ptr_token_round_trip:
  assumes w: "serial_ptr c a t out s = Inr (follow, s')" and r: "ser_in (user r) = added s s' @ rest"
    and v: "load64 (heap s) a = 0 \<or> (lookup_addr (load64 (heap s) a) s = Some name
        \<and> CHR 0x00 \<notin> set name \<and> length name + 1 < 2 ^ 31 \<and> malloc_only c
        \<and> cstrider_get_size (type_table_of s) (TYPE_OPAQUE_PTR_i c) = Inr 8)"
  shows "\<not> follow \<and> (\<exists>r'. deserial_ptr c vis inp t b r = Inr (False, r') \<and> ser_in (user r') = rest
    \<and> load64 (heap r') b = (if load64 (heap s) a = 0 then 0 else lookup_key name r))"
proof (cases "load64 (heap s) a = 0")
  case True
  then have "s' = write_bytes (bytes64 0) s" "\<not> follow" using w by (simp_all add: serial_ptr_def serial_write_token_def)
  moreover then have "read_bytes 8 r = (bytes64 0, r\<lparr>user := (user r)\<lparr>ser_in := rest\<rparr>\<rparr>)"
    using r by (intro read_bytes_append) simp_all
  ultimately show ?thesis using True by (simp add: deserial_ptr_def SER_SYMBOL_def)
next
  case False
  with v have n: "lookup_addr (load64 (heap s) a) s = Some name" "CHR 0x00 \<notin> set name" "length name + 1 < 2 ^ 31"
    "malloc_only c" "cstrider_get_size (type_table_of s) (TYPE_OPAQUE_PTR_i c) = Inr 8" by auto
  have len: "length (symbol_bytes name) = length name + 1" by (simp add: symbol_bytes_def)
  have "s' = write_bytes (bytes64 2 @ bytes32 (of_nat (length name + 1)) @ symbol_bytes name) s" "\<not> follow"
    using w n False unat_len [OF n(3)]
    by (auto simp: serial_ptr_def serial_prim_local_def serial_symbol_str_def Let_def len simp del: of_nat_add)
  moreover then have rd: "read_bytes 8 r = (bytes64 2, r\<lparr>user := (user r)\<lparr>ser_in :=
      bytes32 (of_nat (length name + 1)) @ symbol_bytes name @ rest\<rparr>\<rparr>)" (is "_ = (_, ?r1)")
    using r by (intro read_bytes_append) simp_all
  obtain tmp h where d: "deserial_char_str c ?r1 = (tmp, ?r1\<lparr>user := (user ?r1)\<lparr>ser_in := rest\<rparr>, heap := h\<rparr>)"
    "load_bytes h tmp (length name + 1) = symbol_bytes name"
    using deserial_char_str_eq [OF n(4), of ?r1 "length name" "symbol_bytes name" rest] n(3) len by auto
  have k: "lookup_key name (r\<lparr>user := u, heap := h\<rparr>) = lookup_key name r" for u
    by (simp add: lookup_key_def cstrider_get_symbol_addr_new_def cstrider_get_symbol_addr_old_def)
  ultimately show ?thesis
    using False rd d c_string_symbol [OF d(2) n(2)]
    by (simp add: deserial_ptr_def SER_SYMBOL_def deserial_symbol_def k Let_def)
qed

theorem ptr_token_round_trip_witness:
  "\<exists>s' r'. serial_ptr example_config 4104 2 4104 example_writer = Inr (False, s')
     \<and> deserial_ptr example_config (\<lambda>_ _ _ s. Inr s) 256 2 256 (reader_of (added example_writer s')) = Inr (False, r')
     \<and> load64 (heap r') 256 = 12288"
proof -
  obtain s' where s': "serial_ptr example_config 4104 2 4104 example_writer = Inr (False, s')"
    using example_types(4) example_symbols(2)
    by (auto simp: serial_ptr_def example_memory example_config_def serial_prim_local_def)
  have "cstrider_get_size (type_table_of example_writer) (TYPE_OPAQUE_PTR_i example_config) = Inr 8"
    using example_types(4) by (simp add: example_config_def)
  with s' show ?thesis
    using ptr_token_round_trip [OF s', of "reader_of (added example_writer s')" "[]" "''g''" "\<lambda>_ _ _ s. Inr s" 256 256]
      example_malloc example_symbols
    by (auto simp: example_memory)
qed

text \<open>
  C29: A pointer to a string that is met for the first time is read back as a pointer to newly
  allocated memory with the same string, terminator included, and later pointers to the
  old string will be mapped to the new one.
\<close>

theorem string_round_trip:
  assumes v: "load64 (heap s) a = v" "v \<noteq> 0" "v \<noteq> SER_SYMBOL" "lookup_addr v s = None"
    and t: "t = TYPE_CHAR_NT_PTR_i c" "cstrider_get_size (type_table_of s) t = Inr 8"
    "cstrider_get_ptrtype (type_table_of r) t = Inr (TYPE_CHAR_NT_i c)"
    and str: "string_at (heap s) v k" "k + 1 < 2 ^ 31"
    and w: "serial_ptr c a t out s = Inr (follow, s')" and r: "ser_in (user r) = added s s' @ rest"
    "find_mapping v r = 0" "malloc_only c" "\<And>n s. disjoint_blocks (fst (malloc_fn c n s)) (k + 1) b 8"
  shows "\<not> follow \<and> (\<exists>r' tgt. deserial_ptr c vis inp t b r = Inr (False, r') \<and> ser_in (user r') = rest
    \<and> load64 (heap r') b = tgt \<and> find_mapping v r' = tgt
    \<and> load_bytes (heap r') tgt (k + 1) = load_bytes (heap s) v (k + 1))"
proof -
  let ?bs = "load_bytes (heap s) v (k + 1)"
  have s': "s' = write_bytes (bytes64 v @ bytes32 (of_nat (k + 1)) @ ?bs) s" "\<not> follow"
    using w v t(1) serial_prim_ptr [OF t(2), of a] serial_char_str_eq [of "write_bytes (bytes64 v) s" v k] str
    by (auto simp: serial_ptr_def simp del: of_nat_add)
  let ?r1 = "r\<lparr>user := (user r)\<lparr>ser_in := bytes32 (of_nat (k + 1)) @ ?bs @ rest\<rparr>\<rparr>"
  have rd: "read_bytes 8 r = (bytes64 v, ?r1)" using r(1) s'(1) by (intro read_bytes_append) simp_all
  obtain tmp h where d: "deserial_char_str c ?r1 = (tmp, ?r1\<lparr>user := (user ?r1)\<lparr>ser_in := rest\<rparr>, heap := h\<rparr>)"
    "load_bytes h tmp (k + 1) = ?bs"
    using deserial_char_str_eq [OF r(3), of ?r1 k ?bs rest] str(2) by auto
  have "tmp = fst (malloc_fn c (scast (of_nat (k + 1) :: i32)) (snd (read_bytes 4 ?r1)))"
    using d(1) by (auto simp: deserial_char_str_def read_bytes_def into_local32_def Let_def split: prod.splits
        simp del: of_nat_add)
  then have dis: "disjoint_blocks tmp (k + 1) b 8" using r(4) by simp
  let ?r2 = "r\<lparr>user := (user r)\<lparr>ser_in := rest\<rparr>, heap := store64 h b tmp\<rparr>"
  have f1: "find_mapping v ?r1 = 0" "find_mapping v ?r2 = 0"
    using r(2) by simp_all
  have "deserial_ptr c vis inp t b r = Inr (False, add_mapping v tmp ?r2)"
    using rd v(2,3) f1(1) t(3) d(1) by (simp add: deserial_ptr_def deserial_new_def)
  moreover have "load_bytes (store64 h b tmp) tmp (k + 1) = ?bs"
    using d(2) dis by (simp add: store64_def load_store_bytes_disjoint)
  moreover have "find_mapping v (add_mapping v tmp ?r2) = tmp" using v(2) f1(2) by (simp add: mapping.find_add)
  ultimately show ?thesis using s'(2)
    by (intro conjI exI [of _ "add_mapping v tmp ?r2"] exI [of _ tmp]) simp_all
qed

theorem string_round_trip_witness:
  "\<exists>s' r'. serial_ptr example_config 4096 4 4096 example_writer = Inr (False, s')
     \<and> deserial_ptr example_config (\<lambda>_ _ _ s. Inr s) 256 4 256 (reader_of (added example_writer s')) = Inr (False, r')
     \<and> load_bytes (heap r') (load64 (heap r') 256) 3 = [104, 105, 0]"
proof -
  have b: "load_bytes (heap example_writer) 8192 3 = [104, 105, 0]" by code_simp
  obtain s' where s': "serial_ptr example_config 4096 4 4096 example_writer = Inr (False, s')"
    using serial_prim_ptr [OF example_types(3), of 4096] example_symbols(1)
      serial_char_str_eq [of "write_bytes (bytes64 8192) example_writer" 8192 2]
    by (auto simp: serial_ptr_def example_memory example_config_def)
  have d: "disjoint_blocks (fst (malloc_fn example_config n u)) (2 + 1) 256 8" for n u
    unfolding example_config_sel fst_conv by (rule disjoint_blocksI) simp_all
  have "\<exists>r' tgt. deserial_ptr example_config (\<lambda>_ _ _ s. Inr s) 256 4 256 (reader_of (added example_writer s')) = Inr (False, r')
      \<and> ser_in (user r') = [] \<and> load64 (heap r') 256 = tgt \<and> find_mapping 8192 r' = tgt
      \<and> load_bytes (heap r') tgt (2 + 1) = load_bytes (heap example_writer) 8192 (2 + 1)"
  proof (rule string_round_trip [OF example_memory(1) example_config_sel(5,6) example_symbols(1) _ example_types(3)
        _ example_memory(4) _ s' _ example_symbols(4) example_malloc d, THEN conjunct2])
    show "cstrider_get_ptrtype (type_table_of (reader_of (added example_writer s'))) 4 = Inr (TYPE_CHAR_NT_i example_config)"
      unfolding example_symbols(5) example_config_sel by (rule example_types(5))
  qed (simp_all add: example_symbols example_config_sel)
  then show ?thesis using s' b by auto
qed

text \<open>
  A pointer to an object that is met for the first time: the writer writes the pointer and
  goes on to the object, and the reader allocates the object's size, maps the old address
  to the new one, stores the new pointer and goes on to fill the new object with what the
  file has next.
\<close>

theorem object_round_trip:
  assumes v: "load64 (heap s) a = v" "v \<noteq> 0" "v \<noteq> SER_SYMBOL" "lookup_addr v s = None"
    and t: "t \<noteq> TYPE_CHAR_NT_PTR_i c" "cstrider_get_size (type_table_of s) t = Inr 8"
    "cstrider_get_ptrtype (type_table_of r) t = Inr nt" "nt \<noteq> TYPE_CHAR_NT_i c"
    "cstrider_get_size (type_table_of r) nt = Inr sz" "cstrider_is_array (type_table_of r) nt = Inr isarr"
    "(if isarr then cstrider_get_array_len (type_table_of r) nt else Inr sz) = Inr alloc"
    and w: "serial_ptr c a t out s = Inr (follow, s')" and r: "ser_in (user r) = added s s' @ rest"
    "find_mapping v r = 0" "malloc_only c"
  shows "follow \<and> (\<exists>r' tgt. deserial_ptr c vis inp t b r = rbind (vis tgt nt tgt r') (\<lambda>r. Inr (False, r))
    \<and> ser_in (user r') = rest \<and> load64 (heap r') b = tgt \<and> find_mapping v r' = tgt)"
proof -
  have s': "s' = write_bytes (bytes64 v) s" "follow"
    using w v t(1) serial_prim_ptr [OF t(2), of a] by (auto simp: serial_ptr_def)
  let ?r1 = "r\<lparr>user := (user r)\<lparr>ser_in := rest\<rparr>\<rparr>"
  have rd: "read_bytes 8 r = (bytes64 v, ?r1)" using r(1) s'(1) by (intro read_bytes_append) simp_all
  obtain tgt h where m: "malloc_fn c (scast alloc) ?r1 = (tgt, ?r1\<lparr>heap := h\<rparr>)"
    using r(3) unfolding malloc_only_def by blast
  have f1: "find_mapping v ?r1 = 0" "find_mapping v (?r1\<lparr>heap := h\<rparr>) = 0" using r(2) by simp_all
  let ?r2 = "add_mapping v tgt (?r1\<lparr>heap := h\<rparr>)"
  let ?r' = "?r2\<lparr>heap := store64 (heap ?r2) b tgt\<rparr>"
  have "deserial_ptr c vis inp t b r = rbind (vis tgt nt tgt ?r') (\<lambda>r. Inr (False, r))"
    using rd v(2,3) f1(1) t(3-7) m by (cases isarr) (simp_all add: deserial_ptr_def deserial_new_def Let_def)
  moreover have "find_mapping v ?r' = tgt" using v(2) f1(2) by (simp add: mapping.find_add)
  ultimately show ?thesis using s'(2) by (intro conjI exI [of _ ?r'] exI [of _ tgt]) auto
qed

theorem object_round_trip_witness:
  "\<exists>s' r'. serial_ptr example_config 4096 2 4096 example_writer = Inr (True, s')
     \<and> deserial_ptr example_config (\<lambda>_ _ _ s. Inr s) 256 2 256 (reader_of (added example_writer s')) = Inr (False, r')"
proof -
  obtain s' where s': "serial_ptr example_config 4096 2 4096 example_writer = Inr (True, s')"
    using serial_prim_ptr [OF example_types(2), of 4096] example_symbols(1)
    by (auto simp: serial_ptr_def example_memory example_config_def)
  then show ?thesis
    using object_round_trip [OF example_memory(1) _ _ example_symbols(1) _ example_types(2) _ _ _ _ _ s',
        of "reader_of (added example_writer s')" 1 8 False 8 "[]" "\<lambda>_ _ _ s. Inr s" 256 256] example_malloc
    by (auto simp: example_symbols SER_SYMBOL_def example_config_def example_types)
qed

text \<open>
  A pointer that is met again is written by \<open>serial_ptr_mapped\<close>, and \<open>deserial_ptr\<close>
  stores the address the old one is mapped to, without reading or allocating anything else.
\<close>

theorem mapped_round_trip:
  assumes v: "load64 (heap s) a = v" "v \<noteq> 0" "v \<noteq> SER_SYMBOL" "lookup_addr v s = None"
    and t: "cstrider_get_size (type_table_of s) t = Inr 8"
    and w: "serial_ptr_mapped a t lookup s = Inr (lookup', s')" and r: "ser_in (user r) = added s s' @ rest"
    "find_mapping v r = tgt" "tgt \<noteq> 0"
  shows "lookup' = lookup \<and> (\<exists>r'. deserial_ptr c vis inp t b r = Inr (False, r') \<and> ser_in (user r') = rest
    \<and> load64 (heap r') b = tgt \<and> pxform_mappings r' = pxform_mappings r)"
proof -
  have s': "s' = write_bytes (bytes64 v) s" "lookup' = lookup"
    using w v serial_prim_ptr [OF t, of a] by (simp_all add: serial_ptr_mapped_def)
  have "read_bytes 8 r = (bytes64 v, r\<lparr>user := (user r)\<lparr>ser_in := rest\<rparr>\<rparr>)"
    using r(1) s'(1) by (intro read_bytes_append) simp_all
  moreover have "find_mapping v (r\<lparr>user := u\<rparr>) = tgt" for u using r(2) by simp
  ultimately show ?thesis using s'(2) v(2,3) r(3) by (simp add: deserial_ptr_def)
qed

theorem mapped_round_trip_witness:
  "\<exists>s' r'. serial_ptr_mapped 4096 2 8192 example_writer = Inr (8192, s')
     \<and> deserial_ptr example_config (\<lambda>_ _ _ s. Inr s) 256 2 256 (add_mapping 8192 65536 (reader_of (added example_writer s')))
         = Inr (False, r') \<and> load64 (heap r') 256 = 65536"
proof -
  obtain s' where s': "serial_ptr_mapped 4096 2 8192 example_writer = Inr (8192, s')"
    using serial_prim_ptr [OF example_types(2), of 4096] example_symbols(1)
    by (auto simp: serial_ptr_mapped_def example_memory)
  then show ?thesis
    using mapped_round_trip [OF example_memory(1) _ _ example_symbols(1) example_types(2) s',
        of "add_mapping 8192 65536 (reader_of (added example_writer s'))" "[]" 65536 example_config "\<lambda>_ _ _ s. Inr s" 256 256]
    by (auto simp: example_symbols SER_SYMBOL_def mapping.find_add)
qed

end
