(* ===== verification/Respects.thy ===== *)
theory Respects
  imports Transform
begin

text \<open>
  Relations between the states before and after a sequential traversal. A service whose
  callbacks respect a reflexive and transitive relation, in the places where \<open>visit\<close> calls
  them, makes every \<open>visit\<close> and the processing loop respect it. The services of the examples
  instantiate the relation with what they count, record or keep.
\<close>

subsection \<open>The contract\<close>

text \<open>The bookkeeping at the start of \<open>visit\<close>.\<close>

definition note_visit :: "addr \<Rightarrow> ctyp \<Rightarrow> 'u cstate \<Rightarrow> 'u cstate" where
  "note_visit a t s = s\<lparr>visitcalls := visitcalls s + 1, seen := seen s @ [(a, t)]\<rparr>"

definition keeps :: "('u cstate \<Rightarrow> 'u cstate \<Rightarrow> bool) \<Rightarrow> 'u visitor \<Rightarrow> bool" where
  "keeps R vis \<longleftrightarrow> (\<forall>a t b s s'. vis a t b s = Inr s' \<longrightarrow> R s s')"

lemma keepsD: "keeps R vis \<Longrightarrow> vis a t b s = Inr s' \<Longrightarrow> R s s'"
  unfolding keeps_def by blast

text \<open>
  Generated transformers only call \<open>visit\<close>: whatever relation between states every visit
  respects, they respect.
\<close>

definition only_visits :: "'u env \<Rightarrow> bool" where
  "only_visits E \<longleftrightarrow> (\<forall>k vis R. reflp R \<longrightarrow> transp R \<longrightarrow> keeps R vis
      \<longrightarrow> (\<forall>a b t s s'. gen_transformer E k vis a b t s = Inr s' \<longrightarrow> R s s'))"

lemma only_visitsD:
  "only_visits E \<Longrightarrow> reflp R \<Longrightarrow> transp R \<Longrightarrow> keeps R vis \<Longrightarrow> gen_transformer E k vis a b t s = Inr s' \<Longrightarrow> R s s'"
  unfolding only_visits_def by blast

text \<open>
  The relation says nothing about parallel traversals, in which arrays are split and types
  are added while the traversal runs.
\<close>

locale visit_relation =
  fixes E :: "'u env"
    and R :: "'u cstate \<Rightarrow> 'u cstate \<Rightarrow> bool"
  assumes refl: "R s s"
    and trans: "R s s' \<Longrightarrow> R s' s'' \<Longrightarrow> R s s''"
    and parallel: "is_parallel s \<Longrightarrow> R s s'"
    and queues: "R s (s\<lparr>queue_array := qa\<rparr>)"
    and wrlock: "R s (transform_map_wrlock i s)"
    and unlock: "R s (transform_map_unlock i s)"
    and mapping: "R s (add_mapping i v s)"
    and noted: "\<not> cstrider_is_prim E t \<Longrightarrow> get_typeinfo_from_table (type_table_of s) t = Some ti \<Longrightarrow>
      memoized_is_ptr ti \<or> memoized_is_array ti \<Longrightarrow> R s (note_visit a t s)"
    and prim: "keeps R vis \<Longrightarrow> cstrider_is_prim E t \<Longrightarrow>
      perfaction_prim (perf_funs E) vis a t b (note_visit a t s) = Inr s' \<Longrightarrow> R s s'"
    and struct: "keeps R vis \<Longrightarrow> \<not> cstrider_is_prim E t \<Longrightarrow> get_typeinfo_from_table (type_table_of s) t = Some ti \<Longrightarrow>
      \<not> memoized_is_ptr ti \<Longrightarrow> \<not> memoized_is_array ti \<Longrightarrow>
      perfaction_struct (perf_funs E) vis a t b (note_visit a t s) = Inr (r, s') \<Longrightarrow> R s s'"
    and ptr: "keeps R vis \<Longrightarrow> perfaction_ptr (perf_funs E) vis a t b s = Inr (r, s') \<Longrightarrow> R s s'"
    and ptr_mapped: "keeps R vis \<Longrightarrow> perfaction_ptr_mapped (perf_funs E) vis a t l s = Inr (l', s') \<Longrightarrow>
      R s (s'\<lparr>heap := store64 (heap s') b l'\<rparr>)"
begin

lemma reflp_R: "reflp R" and transp_R: "transp R"
  using refl trans by (auto intro: reflpI transpI)

lemma addtoqueue_keeps: "addtoqueue t s = Inr s' \<Longrightarrow> R s s'"
  using queues refl by (auto simp: addtoqueue_def rbind_def Let_def split: option.splits sum.splits)

lemma array_loop_keeps: "keeps R vis \<Longrightarrow> array_loop vis n si so t a b s = Inr s' \<Longrightarrow> R s s'"
proof (induction n arbitrary: a b s)
  case 0
  then show ?case by (simp add: refl)
next
  case (Suc n)
  then obtain s1 where "vis a t b s = Inr s1" "array_loop vis n si so t (a + si) (b + so) s1 = Inr s'"
    by (auto simp: rbind_def split: sum.splits)
  then have "R s s1" "R s1 s'" using Suc keepsD by blast+
  then show ?case by (rule trans)
qed

lemma transform_array_keeps: "keeps R vis \<Longrightarrow> transform_array vis a t b s = Inr s' \<Longrightarrow> R s s'"
  by (auto simp: transform_array_def rbind_def split: sum.splits dest: array_loop_keeps)

lemma split_array_keeps: "keeps R vis \<Longrightarrow> transform_split_array pad vis a t b s = Inr s' \<Longrightarrow> R s s'"
  using parallel transform_array_keeps by (cases "is_parallel s") (auto simp: transform_split_array_def)

lemma visit_ptr_step_keeps:
  assumes v: "keeps R vis" and p: "visit_ptr_step E vis ti a t b s = Inr s'"
  shows "R s s'"
proof (cases "a = 0")
  case True
  then show ?thesis using p refl by (simp add: visit_ptr_step_def)
next
  case False
  let ?i = "load64 (heap s) a"
  let ?s = "transform_map_wrlock ?i s"
  show ?thesis
  proof (cases "find_mapping ?i ?s = 0")
    case True
    then obtain r s1 where s1: "perfaction_ptr (perf_funs E) vis a t b ?s = Inr (r, s1)"
      and s2: "(let s = transform_map_unlock ?i (add_mapping (load64 (heap s1) a) (load64 (heap s1) b) s1)
         in if \<not> r \<or> memoized_is_funptr ti then Inr s
            else vis (load64 (heap s) a) (memoized_get_ptrtype ti) (load64 (heap s) b) s) = Inr s'"
      using p False by (auto simp: visit_ptr_step_def Let_def rbind_def split: sum.splits if_splits)
    have "R s s1" using wrlock ptr [OF v s1] trans by blast
    moreover have "R s1 (transform_map_unlock ?i (add_mapping (load64 (heap s1) a) (load64 (heap s1) b) s1))" (is "R s1 ?t")
      using mapping unlock trans by blast
    moreover have "R ?t s'" using s2 refl keepsD [OF v] by (auto simp: Let_def split: if_splits)
    ultimately show ?thesis using trans by blast
  next
    case mapped: False
    then obtain l s1 where s1: "perfaction_ptr_mapped (perf_funs E) vis a t (find_mapping ?i ?s) ?s = Inr (l, s1)"
      and s': "s' = transform_map_unlock ?i (s1\<lparr>heap := store64 (heap s1) b l\<rparr>)"
      using p False by (auto simp: visit_ptr_step_def Let_def rbind_def split: sum.splits if_splits)
    show ?thesis using ptr_mapped [OF v s1, of b] wrlock unlock trans unfolding s' by blast
  qed
qed

lemma visit_step_keeps:
  assumes v: "keeps R vis"
  shows "keeps R (visit_step E vis)"
  unfolding keeps_def
proof (intro allI impI)
  fix a t b s s' assume st: "visit_step E vis a t b s = Inr s'"
  show "R s s'"
  proof (cases "t = - 1")
    case True
    then show ?thesis using st refl by (auto simp: visit_step_def)
  next
    case False
    show ?thesis
    proof (cases "cstrider_is_prim E t")
      case True
      then show ?thesis using st False prim [OF v] by (simp add: visit_step_def note_visit_def)
    next
      case nprim: False
      then obtain ti where ti: "get_typeinfo_from_table (type_table_of s) t = Some ti"
        using st False by (auto simp: visit_step_def Let_def split: option.splits)
      note step = st [unfolded visit_step_def Let_def note_visit_def [symmetric]]
      consider (p) "memoized_is_ptr ti" "visit_ptr_step E vis ti a t b (note_visit a t s) = Inr s'"
        | (a) "memoized_is_array ti" "transform_split_array (padding E) vis a t b (note_visit a t s) = Inr s'"
        | (s) r s1 where "\<not> memoized_is_ptr ti" "\<not> memoized_is_array ti"
            "perfaction_struct (perf_funs E) vis a t b (note_visit a t s) = Inr (r, s1)"
            "(if r then addtoqueue (transform_make_enq a t b False) s1 else Inr s1) = Inr s'"
        using step False nprim ti by (auto simp: rbind_def note_visit_def split: if_splits sum.splits)
      then show ?thesis
      proof cases
        case p
        then show ?thesis using noted [OF nprim ti] visit_ptr_step_keeps [OF v] trans by blast
      next
        case a
        then show ?thesis using noted [OF nprim ti] split_array_keeps [OF v] trans by blast
      next
        case s
        have "R s1 s'" using s(4) addtoqueue_keeps refl by (auto split: if_splits)
        then show ?thesis using struct [OF v nprim ti s(1-3)] trans by blast
      qed
    qed
  qed
qed

lemma visit_keeps: "keeps R (visit fuel E)"
  by (induction fuel) (simp_all add: visit_step_keeps, simp add: keeps_def)

lemma callxformer_keeps:
  assumes v: "keeps R vis" and g: "only_visits E" and c: "callxformer E vis t s = Inr s'"
  shows "R s s'"
proof -
  obtain f where f: "(if issplit t then transform_array vis (task_in t) (task_type t) (task_out t) s
      else call_fptr E f vis (task_in t) (task_out t) (task_type t) s) = Inr s'"
    using c by (auto simp: callxformer_def rbind_def split: sum.splits)
  then show ?thesis
    using transform_array_keeps [OF v] keepsD [OF v] only_visitsD [OF g reflp_R transp_R v]
    by (cases f) (auto simp: call_fptr_def transform_prim_def transform_fptr_def split: if_splits)
qed

lemma process_loop_keeps:
  "keeps R vis \<Longrightarrow> only_visits E \<Longrightarrow> process_loop n E vis s = Inr s' \<Longrightarrow> R s s'"
proof (induction n arbitrary: s)
  case (Suc n)
  obtain d qa where d: "dequeue 1 (queue_array s) 1 0 = Inr (d, qa)" using Suc.prems(3) by (auto simp: rbind_def split: sum.splits)
  show ?case
  proof (cases d)
    case None
    then show ?thesis using Suc.prems(3) d queues by (auto simp: rbind_def)
  next
    case (Some t)
    then obtain s1 where s1: "callxformer E vis t (s\<lparr>queue_array := qa\<rparr>) = Inr s1"
      "process_loop n E vis (s1\<lparr>queue_array := (queue_array s1)[0 := deq_task_finished (queue_array s1 ! 0)]\<rparr>) = Inr s'"
      using Suc.prems(3) d by (auto simp: rbind_def split: sum.splits)
    have "R (s\<lparr>queue_array := qa\<rparr>) s1" by (rule callxformer_keeps [OF Suc.prems(1,2) s1(1)])
    then show ?thesis using queues Suc.IH [OF Suc.prems(1,2) s1(2)] trans by blast
  qed
qed simp

lemma run_keeps:
  assumes "only_visits E" "rbind (visit fuel E a t b s) (process_loop n E (visit fuel E)) = Inr s'"
  shows "R s s'"
proof -
  obtain s1 where "visit fuel E a t b s = Inr s1" "process_loop n E (visit fuel E) s1 = Inr s'"
    using assms(2) by (auto simp: rbind_def split: sum.splits)
  then show ?thesis
    using keepsD [OF visit_keeps] process_loop_keeps [OF visit_keeps assms(1)] trans by blast
qed

end

end
