(* ===== verification/Update.thy ===== *)
theory Update
  imports Respects
begin

text \<open>
  The dynamic update service of src/examples/redis-2.0.2/update.c: a traversal that moves
  the heap of the old version of a program to the new one. The look-up functions for the
  symbols of the two versions, \<open>vmareas_init\<close> and \<open>vmareas_free\<close> belong to Kitsune and are
  parameters, as is \<open>malloc\<close>.
\<close>

subsection \<open>The service\<close>

record 'u update_config =
  kitsune_lookup_addr_old :: "addr \<Rightarrow> string option"
  kitsune_lookup_key_new :: "string \<Rightarrow> addr"
  update_malloc :: "64 word \<Rightarrow> 'u cstate \<Rightarrow> addr \<times> 'u cstate"
  vmareas_init :: "'u cstate \<Rightarrow> 'u cstate"
  vmareas_free :: "'u cstate \<Rightarrow> 'u cstate"

definition update_init :: "'u update_config \<Rightarrow> 'u cstate \<Rightarrow> 'u cstate" where
  "update_init c s = vmareas_init c s"

definition update_free :: "'u update_config \<Rightarrow> 'u cstate \<Rightarrow> 'u cstate" where
  "update_free c s = vmareas_free c s"

definition update_prim :: "addr \<Rightarrow> ctyp \<Rightarrow> addr \<Rightarrow> 'u cstate \<Rightarrow> 'u cstate result" where
  "update_prim inp type out s =
     (if inp \<noteq> out
      then rbind (cstrider_get_size (type_table_of s) type) (\<lambda>sz.
             Inr (s\<lparr>heap := store_bytes (heap s) out (load_bytes (heap s) inp (unat (scast sz :: 64 word)))\<rparr>))
      else Inr s)"

definition update_struct :: "addr \<Rightarrow> ctyp \<Rightarrow> addr \<Rightarrow> 'u cstate \<Rightarrow> (bool \<times> 'u cstate) result" where
  "update_struct inp type out s = Inr (True, s)"

definition update_ptr ::
    "'u update_config \<Rightarrow> addr \<Rightarrow> ctyp \<Rightarrow> addr \<Rightarrow> 'u cstate \<Rightarrow> (bool \<times> 'u cstate) result" where
  "update_ptr c inp type out s =
     (let v = load64 (heap s) inp
      in if v = 0 then Inr (False, s\<lparr>heap := store64 (heap s) out 0\<rparr>)
         else case kitsune_lookup_addr_old c v of
           Some symbol \<Rightarrow>
             (let lookup = kitsune_lookup_key_new c symbol
              in if lookup = 0 then Inl Assert_failed
                 else Inr (False, s\<lparr>heap := store64 (heap s) out lookup\<rparr>))
         | None \<Rightarrow>
             rbind (cstrider_get_size (type_table_of s) type) (\<lambda>sz.
             rbind (cstrider_get_out_size (type_table_of s) type) (\<lambda>osz.
               if sz \<noteq> osz
               then let s = transform_delayedfree v 0 s;
                        (m, s) = update_malloc c (scast osz) s
                    in Inr (True, s\<lparr>heap := store64 (heap s) out m\<rparr>)
               else Inr (True, s\<lparr>heap := store64 (heap s) out v\<rparr>))))"

definition update_ptr_mapped :: "addr \<Rightarrow> ctyp \<Rightarrow> addr \<Rightarrow> 'u cstate \<Rightarrow> (addr \<times> 'u cstate) result" where
  "update_ptr_mapped inp type lookup s = Inr (lookup, s)"

definition update_funs :: "'u update_config \<Rightarrow> 'u traversal" where
  "update_funs c = \<lparr>perfaction_prim = (\<lambda>vis. update_prim), perfaction_struct = (\<lambda>vis. update_struct),
     perfaction_ptr = (\<lambda>vis. update_ptr c), perfaction_ptr_mapped = (\<lambda>vis. update_ptr_mapped)\<rparr>"

text \<open>\<open>malloc\<close> returns memory, and may change what unallocated memory holds.\<close>

definition update_malloc_ok :: "'u update_config \<Rightarrow> bool" where
  "update_malloc_ok c \<longleftrightarrow> (\<forall>n s. \<exists>a h. update_malloc c n s = (a, s\<lparr>heap := h\<rparr>) \<and> a \<noteq> 0)"

definition malloc_avoids :: "'u update_config \<Rightarrow> addr \<Rightarrow> bool" where
  "malloc_avoids c a \<longleftrightarrow> (\<forall>n s m s'. update_malloc c n s = (m, s') \<longrightarrow> load64 (heap s') a = load64 (heap s) a)"

lemma update_malloc_okE:
  assumes "update_malloc_ok c"
  obtains a h where "update_malloc c n s = (a, s\<lparr>heap := h\<rparr>)" "a \<noteq> 0"
  using assms unfolding update_malloc_ok_def by blast

subsection \<open>Mappings last\<close>

text \<open>
  A sequential traversal keeps the table of types and every mapping it has made.
\<close>

definition keeps_mappings :: "'u cstate \<Rightarrow> 'u cstate \<Rightarrow> bool" where
  "keeps_mappings s s' \<longleftrightarrow> (\<not> is_parallel s \<longrightarrow>
     \<not> is_parallel s' \<and> tstate s' = tstate s \<and> (\<forall>v. find_mapping v s \<noteq> 0 \<longrightarrow> find_mapping v s' = find_mapping v s))"

lemma keeps_mappings_frame:
  "is_parallel s' = is_parallel s \<Longrightarrow> tstate s' = tstate s \<Longrightarrow> pxform_mappings s' = pxform_mappings s \<Longrightarrow> keeps_mappings s s'"
  by (simp add: keeps_mappings_def find_mapping_def)

lemma keeps_mappings_trans: "keeps_mappings s s' \<Longrightarrow> keeps_mappings s' s'' \<Longrightarrow> keeps_mappings s s''"
  by (simp add: keeps_mappings_def)

lemma update_ptr_frame:
  assumes "update_ptr c a t b s = Inr (r, s')" "update_malloc_ok c"
  shows "is_parallel s' = is_parallel s \<and> tstate s' = tstate s \<and> pxform_mappings s' = pxform_mappings s"
proof -
  obtain m h where "update_malloc c (case cstrider_get_out_size (type_table_of s) t of Inr osz \<Rightarrow> scast osz | Inl _ \<Rightarrow> 0)
      (transform_delayedfree (load64 (heap s) a) 0 s) = (m, (transform_delayedfree (load64 (heap s) a) 0 s)\<lparr>heap := h\<rparr>)"
    using update_malloc_okE [OF assms(2)] by blast
  then show ?thesis using assms(1)
    by (auto simp: update_ptr_def Let_def rbind_def transform_delayedfree_def split: if_splits option.splits sum.splits)
qed

text \<open>The allocator of a configuration, replaced by one that returns memory.\<close>

definition sane_malloc :: "'u update_config \<Rightarrow> 'u update_config" where
  "sane_malloc c = (if update_malloc_ok c then c else c\<lparr>update_malloc := (\<lambda>n s. (1, s))\<rparr>)"

lemma sane_malloc_ok [simp]: "update_malloc_ok (sane_malloc (c :: 'u update_config))"
proof -
  have "\<exists>h. s = s\<lparr>heap := h\<rparr>" for s :: "'u cstate" by (rule exI [of _ "heap s"]) simp
  then show ?thesis by (simp add: sane_malloc_def update_malloc_ok_def)
qed

lemma sane_malloc_id [simp]: "update_malloc_ok c \<Longrightarrow> sane_malloc c = c"
  by (simp add: sane_malloc_def)

interpretation upd: visit_relation "G\<lparr>perf_funs := update_funs (sane_malloc c)\<rparr>" keeps_mappings for G c
proof unfold_locales
  fix s s' :: "'a cstate" and a b l l' :: addr and t r and vis :: "'a visitor"
  show "keeps_mappings s s'" if "perfaction_ptr (perf_funs (G\<lparr>perf_funs := update_funs (sane_malloc c)\<rparr>)) vis a t b s = Inr (r, s')"
    using that update_ptr_frame [of "sane_malloc c"] by (intro keeps_mappings_frame) (auto simp: update_funs_def)
  show "keeps_mappings s (s'\<lparr>heap := store64 (heap s') b l'\<rparr>)"
    if "perfaction_ptr_mapped (perf_funs (G\<lparr>perf_funs := update_funs (sane_malloc c)\<rparr>)) vis a t l s = Inr (l', s')"
    using that by (intro keeps_mappings_frame) (auto simp: update_funs_def update_ptr_mapped_def)
  show "keeps_mappings s s'"
    if "perfaction_prim (perf_funs (G\<lparr>perf_funs := update_funs (sane_malloc c)\<rparr>)) vis a t b (note_visit a t s) = Inr s'"
    using that by (intro keeps_mappings_frame)
      (auto simp: update_funs_def update_prim_def note_visit_def rbind_def split: if_splits sum.splits)
  show "keeps_mappings s s'"
    if "perfaction_struct (perf_funs (G\<lparr>perf_funs := update_funs (sane_malloc c)\<rparr>)) vis a t b (note_visit a t s) = Inr (r, s')"
    using that by (intro keeps_mappings_frame) (auto simp: update_funs_def update_struct_def note_visit_def)
next
  fix s s' s'' :: "'a cstate" and i v :: addr
  show "keeps_mappings s s' \<Longrightarrow> keeps_mappings s' s'' \<Longrightarrow> keeps_mappings s s''" by (rule keeps_mappings_trans)
  show "keeps_mappings s (add_mapping i v s)" by (simp add: keeps_mappings_def mapping.mapped_mono)
  show "is_parallel s \<Longrightarrow> keeps_mappings s s'" by (simp add: keeps_mappings_def)
qed (auto intro: keeps_mappings_frame simp: note_visit_def)

subsection \<open>Properties\<close>

definition ptr_type :: "'u env \<Rightarrow> 'u cstate \<Rightarrow> ctyp \<Rightarrow> type_hash_entry \<Rightarrow> bool" where
  "ptr_type E s t ti \<longleftrightarrow> t \<noteq> - 1 \<and> \<not> cstrider_is_prim E t
     \<and> get_typeinfo_from_table (type_table_of s) t = Some ti \<and> memoized_is_ptr ti"

lemma visit_pointer:
  "ptr_type E s t ti \<Longrightarrow> visit (Suc f) E a t b s = visit_ptr_step E (visit f E) ti a t b (note_visit a t s)"
  by (simp add: ptr_type_def visit_step_def note_visit_def)

lemma note_visit_frame [simp]:
  "heap (note_visit a t s) = heap s" "tstate (note_visit a t s) = tstate s" "is_parallel (note_visit a t s) = is_parallel s"
  "find_mapping v (note_visit a t s) = find_mapping v s" "freelater_hash (note_visit a t s) = freelater_hash s"
  by (simp_all add: note_visit_def find_mapping_def)

text \<open>The address the new version uses for the pointer value \<open>v\<close>.\<close>

definition new_address :: "'u update_config \<Rightarrow> addr \<Rightarrow> bool \<Rightarrow> addr \<Rightarrow> bool" where
  "new_address c v same n \<longleftrightarrow> n \<noteq> 0
     \<and> (case kitsune_lookup_addr_old c v of Some symbol \<Rightarrow> n = kitsune_lookup_key_new c symbol | None \<Rightarrow> same \<longrightarrow> n = v)"

lemma update_ptr_new:
  assumes "update_ptr c a t b s = Inr (r, s')" "update_malloc_ok c" "malloc_avoids c a" "disjoint_blocks a 8 b 8"
    and "load64 (heap s) a = v" "v \<noteq> 0"
  shows "load64 (heap s') a = v
    \<and> new_address c v (cstrider_get_size (type_table_of s) t = cstrider_get_out_size (type_table_of s) t) (load64 (heap s') b)"
proof (cases "kitsune_lookup_addr_old c v")
  case None
  then obtain sz osz where sz: "cstrider_get_size (type_table_of s) t = Inr sz" "cstrider_get_out_size (type_table_of s) t = Inr osz"
    using assms(1,5,6) by (auto simp: update_ptr_def rbind_def split: sum.splits)
  obtain m h where m: "update_malloc c (scast osz) (transform_delayedfree v 0 s) = (m, (transform_delayedfree v 0 s)\<lparr>heap := h\<rparr>)" "m \<noteq> 0"
    using update_malloc_okE [OF assms(2)] by blast
  have "load64 h a = load64 (heap s) a"
    using assms(3) m(1) unfolding malloc_avoids_def by (fastforce simp: transform_delayedfree_def)
  then show ?thesis using assms None sz m
    by (auto simp: update_ptr_def rbind_def new_address_def load64_store64_disjoint split: if_splits)
next
  case (Some symbol)
  then show ?thesis using assms(1,4-6)
    by (auto simp: update_ptr_def new_address_def Let_def load64_store64_disjoint split: if_splits)
qed

lemma visit_new_pointer:
  assumes E: "perf_funs E = update_funs c" and c: "update_malloc_ok c" "malloc_avoids c a" and p: "ptr_type E s t ti"
    and s: "\<not> is_parallel s" "load64 (heap s) a = v" "v \<noteq> 0" "find_mapping v s = 0"
    and ab: "a \<noteq> 0" "disjoint_blocks a 8 b 8" and run: "visit (Suc f) E a t b s = Inr s'"
  shows "new_address c v (cstrider_get_size (type_table_of s) t = cstrider_get_out_size (type_table_of s) t) (find_mapping v s')
    \<and> keeps_mappings s s'"
proof -
  let ?s = "note_visit a t s"
  have e: "E\<lparr>perf_funs := update_funs (sane_malloc c)\<rparr> = E" using E c by simp
  note keep = upd.visit_keeps [where G = E and c = c, unfolded e]
  have w: "transform_map_wrlock v ?s = ?s" "transform_map_unlock v s1 = s1" if "\<not> is_parallel s1" for s1 :: "'a cstate"
    using s(1) that by (simp_all add: transform_map_wrlock_def transform_map_unlock_def)
  have "visit_ptr_step E (visit f E) ti a t b ?s = Inr s'" using run visit_pointer [OF p] by simp
  then obtain r s1 where u: "update_ptr c a t b ?s = Inr (r, s1)" and k: "keeps_mappings (add_mapping (load64 (heap s1) a) (load64 (heap s1) b) s1) s'"
    using ab(1) s w E keepsD [OF keep] update_ptr_frame [OF _ c(1)]
    by (auto simp: visit_ptr_step_def Let_def rbind_def update_funs_def keeps_mappings_frame split: sum.splits if_splits)
  have n: "load64 (heap s1) a = v"
    "new_address c v (cstrider_get_size (type_table_of s) t = cstrider_get_out_size (type_table_of s) t) (load64 (heap s1) b)"
    using update_ptr_new [OF u c ab(2)] s by simp_all
  have "find_mapping v s1 = 0" using update_ptr_frame [OF u c(1)] s(3,4) by (simp add: find_mapping_def note_visit_def)
  then have "find_mapping v (add_mapping v (load64 (heap s1) b) s1) = load64 (heap s1) b"
    using s(3) by (simp add: mapping.find_add)
  moreover have "\<not> is_parallel s1" using update_ptr_frame [OF u c(1)] s(1) by simp
  ultimately have "find_mapping v s' = load64 (heap s1) b" using k n unfolding keeps_mappings_def new_address_def by auto
  moreover have "keeps_mappings s s'" using keepsD [OF keep run] .
  ultimately show ?thesis using n(2) by simp
qed

text \<open>
  C32: An update keeps sharing. After a sequential update has visited a pointer (whose old and
  new places do not overlap) and worked off the queue, every later visit of a pointer with the
  same old value returns and stores the same new address: that of the symbol of the same name
  in the new version, the old address itself when the sizes agree, or else memory that was
  allocated for it.
\<close>

theorem update_sharing:
  assumes "perf_funs E = update_funs c" "update_malloc_ok c" "malloc_avoids c a1" "only_visits E"
    and "ptr_type E s t1 ti1" "ptr_type E s t2 ti2" "\<not> is_parallel s"
    and "load64 (heap s) a1 = v" "v \<noteq> 0" "find_mapping v s = 0" "a1 \<noteq> 0" "disjoint_blocks a1 8 b1 8"
    and "rbind (visit (Suc f) E a1 t1 b1 s) (process_loop n E (visit (Suc f) E)) = Inr s2"
    and "load64 (heap s2) a2 = v" "a2 \<noteq> 0" "b2 \<noteq> 0"
  shows "\<exists>s3. visit (Suc g) E a2 t2 b2 s2 = Inr s3 \<and> load64 (heap s3) b2 = find_mapping v s2
    \<and> new_address c v (cstrider_get_size (type_table_of s) t1 = cstrider_get_out_size (type_table_of s) t1) (find_mapping v s2)"
proof -
  have e: "E\<lparr>perf_funs := update_funs (sane_malloc c)\<rparr> = E" using assms(1,2) by simp
  obtain s1 where s1: "visit (Suc f) E a1 t1 b1 s = Inr s1" "process_loop n E (visit (Suc f) E) s1 = Inr s2"
    using assms(13) by (auto simp: rbind_def split: sum.splits)
  have n: "new_address c v (cstrider_get_size (type_table_of s) t1 = cstrider_get_out_size (type_table_of s) t1) (find_mapping v s1)"
    and k1: "keeps_mappings s s1"
    using visit_new_pointer [OF assms(1-3,5,7-12) s1(1)] by blast+
  have "keeps_mappings s1 s2"
    using upd.process_loop_keeps [where G = E and c = c, unfolded e, OF _ assms(4) s1(2)]
      upd.visit_keeps [where G = E and c = c, unfolded e] by blast
  then have 2: "find_mapping v s2 = find_mapping v s1" "\<not> is_parallel s2" "tstate s2 = tstate s"
    using k1 n assms(7) unfolding keeps_mappings_def new_address_def by auto
  have "ptr_type E s2 t2 ti2" using assms(6) 2(3) by (simp add: ptr_type_def)
  note visit_pointer [OF this, of g a2 b2]
  moreover have "find_mapping v s2 \<noteq> 0" using n 2(1) by (simp add: new_address_def)
  ultimately have "visit (Suc g) E a2 t2 b2 s2 = Inr (let s = note_visit a2 t2 s2 in s\<lparr>heap := store64 (heap s) b2 (find_mapping v s2)\<rparr>)"
    using assms(1,9,14-16) 2(2)
    by (simp add: visit_ptr_step_def Let_def update_funs_def update_ptr_mapped_def transform_map_wrlock_def transform_map_unlock_def)
  then show ?thesis using n 2(1) by (simp add: Let_def)
qed

text \<open>The example: type 1 is primitive, 2 a pointer to it; 4096 and 4104 both hold the address 8192.\<close>

definition update_example_config :: "unit update_config" where
  "update_example_config = \<lparr>kitsune_lookup_addr_old = (\<lambda>a. if a = 12288 then Some ''g'' else None),
     kitsune_lookup_key_new = (\<lambda>k. 16384), update_malloc = (\<lambda>n s. (65536, s)), vmareas_init = id, vmareas_free = id\<rparr>"

definition update_example_env :: "unit env" where
  "update_example_env = \<lparr>perf_funs = update_funs update_example_config, gen_arrays = example_arrays,
     cstrider_is_prim = (\<lambda>t. t = 1), gen_transformer = (\<lambda>k vis inp out t s. vis inp 1 out s),
     visitalls = [], root_function = (\<lambda>f vis s. Inr s), cstrider_register_init = (\<lambda>s. Inr s), padding = []\<rparr>"

definition update_example_state :: "ctyp \<Rightarrow> unit cstate" where
  "update_example_state o2 = launch_helpers ((start_state ())
     \<lparr>heap := store64 (store64 (\<lambda>_. 0) 4096 8192) 4104 8192,
      tstate := \<lparr>type_hashtbl = [(1, example_entry 1 (- 1)), (2, (example_entry 2 1)\<lparr>out_type := o2\<rparr>),
        (3, (example_entry 3 1)\<lparr>size_of_entry := 16\<rparr>)], held = (\<lambda>_. 0)\<rparr>\<rparr>)"

lemma update_example_ok: "update_malloc_ok update_example_config" "malloc_avoids update_example_config a"
  "only_visits update_example_env" "ptr_type update_example_env (update_example_state o2) 2 ((example_entry 2 1)\<lparr>out_type := o2\<rparr>)"
  "\<not> is_parallel (update_example_state o2)" "find_mapping x (update_example_state o2) = 0"
proof -
  have "\<exists>h. s = s\<lparr>heap := h\<rparr>" for s :: "unit cstate" by (rule exI [of _ "heap s"]) simp
  then show "update_malloc_ok update_example_config" by (simp add: update_malloc_ok_def update_example_config_def)
  show "malloc_avoids update_example_config a" by (simp add: malloc_avoids_def update_example_config_def)
  show "only_visits update_example_env" unfolding only_visits_def using keepsD by (auto simp: update_example_env_def)
qed (simp_all add: ptr_type_def update_example_env_def update_example_state_def launch_helpers_def start_state_def
    get_typeinfo_from_table_def tbl_find_def example_entry_def memoized_is_ptr_def find_mapping_def)

text \<open>
  \<open>update_ptr\<close> compares the sizes of the pointer type, not of the type it points to. A
  pointer type of \<open>mktypptr\<close> has no other type in the new version, so the object is reused
  in place whatever its size in the new version is.
\<close>

lemma update_reuses_pointee:
  assumes "get_typeinfo_from_table (type_table_of s) t = Some te" "out_type te = - 1"
    and "load64 (heap s) a = v" "v \<noteq> 0" "kitsune_lookup_addr_old c v = None"
  shows "update_ptr c a t b s = Inr (True, s\<lparr>heap := store64 (heap s) b v\<rparr>)"
  using assms by (simp add: update_ptr_def cstrider_get_size_def cstrider_get_out_size_def query_def)

lemma update_example_run:
  "\<exists>s2. rbind (visit (Suc 1) update_example_env 4096 2 256 (update_example_state (- 1)))
      (process_loop 1 update_example_env (visit (Suc 1) update_example_env)) = Inr s2 \<and> load64 (heap s2) 4104 = 8192"
proof -
  let ?s = "update_example_state (- 1)" and ?E = update_example_env
  let ?te = "(example_entry 2 1)\<lparr>out_type := - 1\<rparr>" and ?n = "note_visit 4096 2 (update_example_state (- 1))"
  have h: "load64 (heap ?s) 4096 = 8192" "load64 (heap ?s) 4104 = 8192" by code_simp+
  have E: "perf_funs ?E = update_funs update_example_config" "cstrider_is_prim ?E 1" by (simp_all add: update_example_env_def)
  have ti: "get_typeinfo_from_table (type_table_of ?s) 2 = Some ?te" using update_example_ok(4) [of "- 1"] by (simp add: ptr_type_def)
  have p: "visit 1 ?E x 1 x u = Inr (note_visit x 1 u)" for x u
    using E by (simp add: visit_step_def update_funs_def update_prim_def note_visit_def)
  have "update_ptr update_example_config 4096 2 256 ?n = Inr (True, ?n\<lparr>heap := store64 (heap ?s) 256 8192\<rparr>)"
    using update_reuses_pointee [of ?n 2 ?te 4096 8192 update_example_config 256] ti h(1) by (simp add: update_example_config_def)
  moreover have "disjoint_blocks 4096 8 256 8" "disjoint_blocks 4104 8 256 8" by (rule disjoint_blocksI; simp)+
  moreover have "memoized_get_ptrtype ?te = 1" "\<not> memoized_is_funptr ?te"
    by (simp_all add: memoized_get_ptrtype_def memoized_is_funptr_def example_entry_def TYPE_FUNPTR_def)
  moreover have "find_mapping 8192 ?n = 0" "\<not> is_parallel ?n" using update_example_ok(5,6) by simp_all
  ultimately have v: "visit (Suc 1) ?E 4096 2 256 ?s
      = Inr (note_visit 8192 1 (add_mapping 8192 8192 (?n\<lparr>heap := store64 (heap ?s) 256 8192\<rparr>)))" (is "_ = Inr ?s1")
    unfolding visit_pointer [OF update_example_ok(4)] using h E(1)
    by (simp add: visit_ptr_step_def update_funs_def transform_map_wrlock_def transform_map_unlock_def load64_store64_disjoint Let_def p
        del: visit.simps One_nat_def)
  have s1: "load64 (heap ?s1) 4104 = 8192" "queue_array ?s1 = queue_array ?s"
    using h(2) disjoint_blocksI [of 256 8 4104 8] by (simp_all add: load64_store64_disjoint note_visit_def)
  have "case dequeue 1 (queue_array ?s) 1 0 of Inr (None, _) \<Rightarrow> True | _ \<Rightarrow> False" by code_simp
  then obtain qa where "dequeue 1 (queue_array ?s1) 1 0 = Inr (None, qa)"
    unfolding s1(2) by (auto split: sum.splits option.splits prod.splits)
  then show ?thesis using v s1(1) by (simp add: rbind_def del: visit.simps)
qed

theorem update_sharing_witness:
  "\<exists>s2 s3. rbind (visit 2 update_example_env 4096 2 256 (update_example_state (- 1)))
      (process_loop 1 update_example_env (visit 2 update_example_env)) = Inr s2
     \<and> visit 2 update_example_env 4104 2 264 s2 = Inr s3 \<and> load64 (heap s3) 264 = 8192"
proof -
  let ?s = "update_example_state (- 1)"
  obtain s2 where s2: "rbind (visit (Suc 1) update_example_env 4096 2 256 ?s)
      (process_loop 1 update_example_env (visit (Suc 1) update_example_env)) = Inr s2" "load64 (heap s2) 4104 = 8192"
    using update_example_run by blast
  have h: "load64 (heap ?s) 4096 = 8192" by code_simp
  have sz: "cstrider_get_size (type_table_of ?s) 2 = cstrider_get_out_size (type_table_of ?s) 2"
    by (simp add: update_example_state_def launch_helpers_def start_state_def cstrider_get_size_def cstrider_get_out_size_def
        query_def get_typeinfo_from_table_def tbl_find_def example_entry_def)
  have d: "disjoint_blocks 4096 8 256 8" by (rule disjoint_blocksI) simp_all
  have E: "perf_funs update_example_env = update_funs update_example_config" by (simp add: update_example_env_def)
  have "\<exists>s3. visit (Suc 1) update_example_env 4104 2 264 s2 = Inr s3 \<and> load64 (heap s3) 264 = find_mapping 8192 s2
    \<and> new_address update_example_config 8192
        (cstrider_get_size (type_table_of ?s) 2 = cstrider_get_out_size (type_table_of ?s) 2) (find_mapping 8192 s2)"
    by (rule update_sharing [OF E update_example_ok(1-4,4,5) h _ update_example_ok(6) _ d s2]) simp_all
  moreover have "kitsune_lookup_addr_old update_example_config 8192 = None" by (simp add: update_example_config_def)
  ultimately show ?thesis using s2(1) sz unfolding Suc_1 new_address_def by auto
qed

text \<open>
  \<open>visit\<close> saves the old pointer because \<open>in\<close> is lost when \<open>in\<close> and \<open>out\<close> are the same
  place, but then uses \<open>*in\<close>. When an object that changes its size is updated in place, the
  new memory is mapped to itself, the old address stays unmapped (so the next pointer to the
  object gets other memory), the old object is scheduled to be freed, and the traversal goes
  on from the new memory to itself: the contents of the old object are never read.
\<close>

theorem update_in_place_loses:
  assumes "perf_funs E = update_funs c" "update_malloc_ok c" "ptr_type E s t ti" "\<not> memoized_is_funptr ti" "\<not> is_parallel s"
    and "load64 (heap s) a = v" "v \<noteq> 0" "find_mapping v s = 0" "a \<noteq> 0" "kitsune_lookup_addr_old c v = None"
    and "cstrider_get_size (type_table_of s) t = Inr sz" "cstrider_get_out_size (type_table_of s) t = Inr osz" "sz \<noteq> osz"
  shows "\<exists>m s'. visit (Suc f) E a t a s = visit f E m (memoized_get_ptrtype ti) m s' \<and> load64 (heap s') a = m
    \<and> find_mapping m s' \<noteq> 0 \<and> (m \<noteq> v \<longrightarrow> find_mapping v s' = 0) \<and> tbl_find v (freelater_hash s') = Some 0"
proof -
  let ?s = "note_visit a t s"
  let ?d = "transform_delayedfree v 0 ?s"
  obtain m h where m: "update_malloc c (scast osz) ?d = (m, ?d\<lparr>heap := h\<rparr>)" "m \<noteq> 0"
    using update_malloc_okE [OF assms(2)] by blast
  let ?t = "?d\<lparr>heap := store64 h a m\<rparr>"
  have u: "update_ptr c a t a ?s = Inr (True, ?t)" using assms(6,7,10-13) m(1) by (simp add: update_ptr_def Let_def rbind_def)
  have "visit (Suc f) E a t a s = visit f E m (memoized_get_ptrtype ti) m (add_mapping m m ?t)"
    unfolding visit_pointer [OF assms(3)] using assms(1,4-9) u
    by (simp add: visit_ptr_step_def Let_def update_funs_def transform_map_wrlock_def transform_map_unlock_def transform_delayedfree_def)
  moreover have "find_mapping x ?t = find_mapping x s" for x by (simp add: find_mapping_def transform_delayedfree_def note_visit_def)
  then have "find_mapping m (add_mapping m m ?t) \<noteq> 0" "m \<noteq> v \<longrightarrow> find_mapping v (add_mapping m m ?t) = 0"
    using m(2) assms(8) by (auto simp: mapping.find_add)
  ultimately show ?thesis by (intro exI [of _ m] exI [of _ "add_mapping m m ?t"]) (simp add: transform_delayedfree_def)
qed

theorem update_in_place_loses_witness:
  "\<exists>m s'. visit 2 update_example_env 4096 2 4096 (update_example_state 3) = visit 1 update_example_env m 1 m s'
     \<and> load64 (heap s') 4096 = m \<and> tbl_find 8192 (freelater_hash s') = Some 0"
proof -
  let ?s = "update_example_state 3"
  have h: "load64 (heap ?s) 4096 = 8192" by code_simp
  have sz: "cstrider_get_size (type_table_of ?s) 2 = Inr 8" "cstrider_get_out_size (type_table_of ?s) 2 = Inr 16"
    by (simp_all add: update_example_state_def launch_helpers_def start_state_def cstrider_get_size_def cstrider_get_out_size_def
        query_def get_typeinfo_from_table_def tbl_find_def example_entry_def)
  have E: "perf_funs update_example_env = update_funs update_example_config" by (simp add: update_example_env_def)
  have t: "memoized_get_ptrtype ((example_entry 2 1)\<lparr>out_type := 3\<rparr>) = 1" "\<not> memoized_is_funptr ((example_entry 2 1)\<lparr>out_type := 3\<rparr>)"
    by (simp_all add: memoized_get_ptrtype_def memoized_is_funptr_def example_entry_def TYPE_FUNPTR_def)
  have "kitsune_lookup_addr_old update_example_config 8192 = None" by (simp add: update_example_config_def)
  note p = update_in_place_loses [OF E update_example_ok(1,4) t(2) update_example_ok(5) h _ update_example_ok(6) _ this sz, of 1, unfolded Suc_1 t(1)]
  show ?thesis using p by auto
qed

end
