(* ===== verification/Blocks.thy ===== *)
theory Blocks
  imports Runtime
begin

text \<open>
  Allocated memory. \<open>malloc\<close> and \<open>realloc\<close> are parameters of the services that allocate; the
  field \<open>blocks\<close> of the state lists the blocks in use with their sizes. The contract says what
  the C library promises of them.
\<close>

record 'u allocator =
  malloc_c :: "64 word \<Rightarrow> 'u cstate \<Rightarrow> addr \<times> 'u cstate"
  realloc_c :: "addr \<Rightarrow> 64 word \<Rightarrow> 'u cstate \<Rightarrow> addr \<times> 'u cstate"

subsection \<open>The contract of the allocator\<close>

text \<open>
  \<open>malloc\<close> returns NULL or a block that overlaps no other, and \<open>realloc\<close> of a block NULL or a
  block with the old contents in place of it; the contents of the other blocks stay.
\<close>

definition same_blocks :: "(addr \<times> nat) list \<Rightarrow> heap \<Rightarrow> heap \<Rightarrow> bool" where
  "same_blocks bl h h' \<longleftrightarrow> list_all (\<lambda>(b, m). load_bytes h' b m = load_bytes h b m) bl"

definition apart :: "addr \<Rightarrow> nat \<Rightarrow> (addr \<times> nat) list \<Rightarrow> bool" where
  "apart a n bl \<longleftrightarrow> list_all (\<lambda>(b, m). disjoint_blocks a n b m) bl"

definition malloc_ok :: "'u allocator \<Rightarrow> bool" where
  "malloc_ok A \<longleftrightarrow> (\<forall>n st. \<exists>a h. malloc_c A n st = (a, st\<lparr>heap := h, blocks := if a = 0 then blocks st else (a, unat n) # blocks st\<rparr>)
     \<and> (a \<noteq> 0 \<longrightarrow> unat a + unat n \<le> 2 ^ 64 \<and> apart a (unat n) (blocks st)) \<and> same_blocks (blocks st) (heap st) h)"

definition realloc_ok :: "'u allocator \<Rightarrow> bool" where
  "realloc_ok A \<longleftrightarrow> (\<forall>p m n st. (p, m) \<in> set (blocks st) \<longrightarrow>
     (\<exists>q h. realloc_c A p n st = (q, st\<lparr>heap := h, blocks := if q = 0 then blocks st else (q, unat n) # remove1 (p, m) (blocks st)\<rparr>)
       \<and> (q = 0 \<longrightarrow> h = heap st)
       \<and> (q \<noteq> 0 \<longrightarrow> unat q + unat n \<le> 2 ^ 64 \<and> apart q (unat n) (remove1 (p, m) (blocks st))
            \<and> load_bytes h q (min m (unat n)) = load_bytes (heap st) p (min m (unat n)))
       \<and> same_blocks (remove1 (p, m) (blocks st)) (heap st) h))"

fun separate :: "(addr \<times> nat) list \<Rightarrow> bool" where
  "separate [] = True"
| "separate ((a, n) # bl) = (apart a n bl \<and> separate bl)"

lemma malloc_okE:
  assumes "malloc_ok A"
  obtains a h where "malloc_c A n st = (a, st\<lparr>heap := h, blocks := if a = 0 then blocks st else (a, unat n) # blocks st\<rparr>)"
    "a \<noteq> 0 \<longrightarrow> unat a + unat n \<le> 2 ^ 64 \<and> apart a (unat n) (blocks st)" "same_blocks (blocks st) (heap st) h"
  using assms unfolding malloc_ok_def by blast

lemma same_blocks_refl [simp]: "same_blocks bl h h"
  by (simp add: same_blocks_def list_all_iff)

lemma same_blocks_trans: "same_blocks bl h h' \<Longrightarrow> same_blocks bl h' h'' \<Longrightarrow> same_blocks bl h h''"
  by (fastforce simp: same_blocks_def list_all_iff)

lemma same_blocksD: "same_blocks bl h h' \<Longrightarrow> (b, m) \<in> set bl \<Longrightarrow> load_bytes h' b m = load_bytes h b m"
  by (auto simp: same_blocks_def list_all_iff)

lemma apartD: "apart a n bl \<Longrightarrow> (b, m) \<in> set bl \<Longrightarrow> disjoint_blocks a n b m"
  by (auto simp: apart_def list_all_iff)

lemma separate_apart: "separate bl \<Longrightarrow> (p, m) \<in> set bl \<Longrightarrow> apart p m (remove1 (p, m) bl)"
proof (induction bl rule: separate.induct)
  case (2 a n bl)
  show ?case
  proof (cases "(p, m) = (a, n)")
    case True
    then show ?thesis using 2 by simp
  next
    case False
    then have "apart p m (remove1 (p, m) bl)" "(p, m) \<in> set bl" using 2 by auto
    moreover have "disjoint_blocks p m a n" using 2(2) apartD [of a n bl p m] calculation(2) disjoint_blocks_sym by auto
    ultimately show ?thesis using False by (auto simp: apart_def)
  qed
qed simp

lemma separate_remove1: "separate bl \<Longrightarrow> separate (remove1 x bl)"
proof (induction bl rule: separate.induct)
  case (2 a n bl)
  then show ?case using notin_set_remove1 [of _ bl x] by (auto simp: apart_def list_all_iff)
qed simp

text \<open>A part of a block, and stores into it.\<close>

lemma sub_disjoint:
  assumes "disjoint_blocks c k b m" "i + n \<le> m"
  shows "disjoint_blocks c k (b + of_nat i) n"
  unfolding disjoint_blocks_def
proof (intro allI impI)
  fix j l assume "j < k" "l < n"
  then have "c + of_nat j \<noteq> b + of_nat (i + l)" using assms unfolding disjoint_blocks_def by (metis add_less_cancel_left less_le_trans)
  then show "c + of_nat j \<noteq> b + of_nat i + of_nat l" by (simp add: add.assoc)
qed

lemma load_bytes_sub: "i + n \<le> m \<Longrightarrow> load_bytes h (b + of_nat i) n = take n (drop i (load_bytes h b m))"
  by (rule nth_equalityI) (simp_all add: add.assoc)

lemma load_bytes_append: "load_bytes h a (i + j) = load_bytes h a i @ load_bytes h (a + of_nat i) j"
  by (rule nth_equalityI) (auto simp: nth_append algebra_simps)

lemma store_same_blocks:
  assumes "apart b m bl" "i + length xs \<le> m"
  shows "same_blocks bl h (store_bytes h (b + of_nat i) xs)"
  unfolding same_blocks_def list_all_iff
proof (intro ballI)
  fix x assume x: "x \<in> set bl"
  obtain c k where [simp]: "x = (c, k)" by (cases x)
  have "disjoint_blocks c k b m" using apartD [OF assms(1)] x disjoint_blocks_sym [of c k b m] by simp
  then show "case x of (c, k) \<Rightarrow> load_bytes (store_bytes h (b + of_nat i) xs) c k = load_bytes h c k"
    using load_store_bytes_disjoint [OF sub_disjoint] assms(2) by simp
qed

lemma store_bytes_cases:
  assumes "length xs < 2 ^ 64"
  shows "store_bytes h a xs x = (if unat (x - a) < length xs then xs ! unat (x - a) else h x)"
proof (cases "unat (x - a) < length xs")
  case True
  then show ?thesis using store_bytes_nth [OF True assms, of h a] by simp
next
  case False
  have "x \<noteq> a + of_nat i" if "i < length xs" for i
    using that assms False by (auto simp: unat_of_nat)
  then show ?thesis using False store_bytes_outside [of xs x a h] by simp
qed

lemma store_bytes_commute:
  assumes "disjoint_blocks a (length xs) b (length ys)" "length xs < 2 ^ 64" "length ys < 2 ^ 64"
  shows "store_bytes (store_bytes h a xs) b ys = store_bytes (store_bytes h b ys) a xs"
proof
  fix x
  have "\<not> (unat (x - a) < length xs \<and> unat (x - b) < length ys)"
  proof
    assume "unat (x - a) < length xs \<and> unat (x - b) < length ys"
    then have "a + of_nat (unat (x - a)) \<noteq> b + of_nat (unat (x - b))"
      using assms(1) unfolding disjoint_blocks_def by blast
    then show False by simp
  qed
  then show "store_bytes (store_bytes h a xs) b ys x = store_bytes (store_bytes h b ys) a xs x"
    using assms(2,3) by (auto simp: store_bytes_cases)
qed

lemma block_base: "disjoint_blocks (b + of_nat i) n b m" "disjoint_blocks b m (b + of_nat i) n" if "m \<le> i" "i + n \<le> 2 ^ 64"
  using offset_blocks [of i n 0 m b] offset_blocks [of 0 m i n b] that by simp_all

lemma load64_store_bytes_disjoint: "disjoint_blocks a 8 b (length bs) \<Longrightarrow> load64 (store_bytes h b bs) a = load64 h a"
  by (simp add: load64_def load_store_bytes_disjoint)

lemma same_blocks_subset: "same_blocks bl h h' \<Longrightarrow> set bl' \<subseteq> set bl \<Longrightarrow> same_blocks bl' h h'"
  by (auto simp: same_blocks_def list_all_iff)

lemma unat_scast_small: "n < 2 ^ 31 \<Longrightarrow> unat (scast (of_nat n :: i32) :: 64 word) = n"
  by (simp add: scast_eq signed_of_nat signed_take_bit_int_eq_self unsigned_of_nat take_bit_nat_eq_self)

end
