(* ===== verification/Figures.thy ===== *)
theory Figures
  imports Serial Update Coverage Blocks
begin

text \<open>
  The programs of src/examples/figure10 (checkpoint and restart of a program with tagged
  unions) and the service they add to the serialization service: prog_specific.c.
  \<open>serial_file\<close> is extended by the service that runs and the file \<open>ser.txt\<close>.
\<close>

subsection \<open>The service\<close>

record prog_user = serial_file +
  current_service :: int
  ser_txt :: "byte list option"

type_synonym pstate = "prog_user cstate"

record prog_types =
  TYPE_STRUCT_tagged_union :: ctyp
  TYPE_tagged_union_PTR :: ctyp
  TYPE_INT_p :: ctyp
  TYPE_CHAR_p :: ctyp

definition DESERIALIZE :: int where "DESERIALIZE = 0"
definition SERIALIZE :: int where "SERIALIZE = 1"

definition is_reading :: "pstate \<Rightarrow> bool" where
  "is_reading s \<longleftrightarrow> current_service (user s) = DESERIALIZE"

definition is_writing :: "pstate \<Rightarrow> bool" where
  "is_writing s \<longleftrightarrow> current_service (user s) = SERIALIZE"

text \<open>\<open>struct tagged_union\<close>: \<open>tag\<close> at offset 0, the members \<open>x\<close> and \<open>c\<close> of the union at 4.\<close>

definition s_d_prog_struct ::
    "prog_types \<Rightarrow> prog_user visitor \<Rightarrow> addr \<Rightarrow> ctyp \<Rightarrow> addr \<Rightarrow> pstate \<Rightarrow> (bool \<times> pstate) result" where
  "s_d_prog_struct T vis inp type out s =
     (if type = TYPE_STRUCT_tagged_union T
      then rbind (vis inp (TYPE_INT_p T) out s) (\<lambda>s.
           rbind (if load32 (heap s) inp \<noteq> 0 then vis (inp + 4) (TYPE_INT_p T) (out + 4) s
                  else vis (inp + 4) (TYPE_CHAR_p T) (out + 4) s) (\<lambda>s.
           Inr (False, s)))
      else if is_reading s then deserial_struct inp type out s
      else if is_writing s then serial_struct inp type out s
      else Inr (False, s))"

definition deser_prog_funs :: "prog_user serial_config \<Rightarrow> prog_types \<Rightarrow> prog_user traversal" where
  "deser_prog_funs c T = \<lparr>perfaction_prim = (\<lambda>vis inp type out s. deserial_prim type out s),
     perfaction_struct = s_d_prog_struct T, perfaction_ptr = deserial_ptr c,
     perfaction_ptr_mapped = (\<lambda>vis. deserial_ptr_mapped)\<rparr>"

definition ser_prog_funs :: "prog_user serial_config \<Rightarrow> prog_types \<Rightarrow> prog_user traversal" where
  "ser_prog_funs c T = \<lparr>perfaction_prim = (\<lambda>vis inp type out s. serial_prim inp type s),
     perfaction_struct = s_d_prog_struct T, perfaction_ptr = (\<lambda>vis. serial_ptr c),
     perfaction_ptr_mapped = (\<lambda>vis. serial_ptr_mapped)\<rparr>"

subsection \<open>The program\<close>

text \<open>
  \<open>checkpoint\<close> and \<open>do_deserialize\<close> of main.c; \<open>E\<close> is the generated code. \<open>fopen\<close> for writing empties
  the file, \<open>fclose\<close> puts what was written there; a file that is missing when it is read gives a
  NULL pointer, and at the latest \<open>fclose\<close> crashes on it.
\<close>

definition checkpoint :: "nat \<Rightarrow> nat \<Rightarrow> prog_user serial_config \<Rightarrow> prog_types \<Rightarrow> prog_user env \<Rightarrow> pstate \<Rightarrow> pstate result" where
  "checkpoint fuel rounds c T E s =
     (let s = s\<lparr>user := (user s)\<lparr>current_service := SERIALIZE\<rparr>\<rparr>;
          s = s\<lparr>user := (user s)\<lparr>ser_out := [], ser_txt := Some []\<rparr>\<rparr>
      in rbind (traverse fuel rounds (E\<lparr>perf_funs := ser_prog_funs c T\<rparr>) s) (\<lambda>s.
           Inr (s\<lparr>user := (user s)\<lparr>ser_txt := Some (ser_out (user s))\<rparr>\<rparr>)))"

definition do_deserialize ::
    "nat \<Rightarrow> nat \<Rightarrow> prog_user serial_config \<Rightarrow> prog_types \<Rightarrow> prog_user env \<Rightarrow> string list \<Rightarrow> pstate \<Rightarrow> (bool \<times> pstate) result" where
  "do_deserialize fuel rounds c T E argv s =
     (if length argv \<noteq> 3 then Inl Assert_failed
      else if argv ! 1 \<noteq> [] \<and> hd (argv ! 1) = CHR ''D''
      then let s = s\<lparr>user := (user s)\<lparr>current_service := DESERIALIZE\<rparr>\<rparr>
           in case ser_txt (user s) of
                None \<Rightarrow> Inl Null_deref
              | Some bs \<Rightarrow>
                  rbind (traverse fuel rounds (E\<lparr>perf_funs := deser_prog_funs c T\<rparr>) (s\<lparr>user := (user s)\<lparr>ser_in := bs\<rparr>\<rparr>))
                    (\<lambda>s. Inr (True, s))
      else Inr (False, s))"

subsection \<open>Writing and reading a tagged union\<close>

definition union_bytes :: "heap \<Rightarrow> addr \<Rightarrow> byte list" where
  "union_bytes h a = load_bytes h a 4 @ load_bytes h (a + 4) (if load32 h a \<noteq> 0 then 4 else 1)"

text \<open>The types of the program, as generated code has to describe them.\<close>

definition prog_types_ok :: "prog_user env \<Rightarrow> prog_types \<Rightarrow> type_table \<Rightarrow> bool" where
  "prog_types_ok E T tt \<longleftrightarrow>
     TYPE_INT_p T \<noteq> - 1 \<and> cstrider_is_prim E (TYPE_INT_p T) \<and> cstrider_get_size tt (TYPE_INT_p T) = Inr 4
     \<and> TYPE_CHAR_p T \<noteq> - 1 \<and> cstrider_is_prim E (TYPE_CHAR_p T) \<and> cstrider_get_size tt (TYPE_CHAR_p T) = Inr 1
     \<and> TYPE_STRUCT_tagged_union T \<noteq> - 1 \<and> \<not> cstrider_is_prim E (TYPE_STRUCT_tagged_union T)
     \<and> (case get_typeinfo_from_table tt (TYPE_STRUCT_tagged_union T) of None \<Rightarrow> False
        | Some e \<Rightarrow> \<not> memoized_is_ptr e \<and> \<not> memoized_is_array e)"

lemma note_visit_sel [simp]:
  "heap (note_visit a t s) = heap s" "user (note_visit a t s) = user s" "tstate (note_visit a t s) = tstate s"
  "is_parallel (note_visit a t s) = is_parallel s" "pxform_mappings (note_visit a t s) = pxform_mappings s"
  "addr_to_name_hash (note_visit a t s) = addr_to_name_hash s" "queue_array (note_visit a t s) = queue_array s"
  "visit_all_registered_hash (note_visit a t s) = visit_all_registered_hash s"
  by (simp_all add: note_visit_def)

lemma note_visit_write: "note_visit a t (write_bytes bs s) = write_bytes bs (note_visit a t s)"
  by (simp add: note_visit_def write_bytes_def)

lemma write_bytes_sel [simp]:
  "is_parallel (write_bytes bs s) = is_parallel s" "pxform_mappings (write_bytes bs s) = pxform_mappings s"
  "addr_to_name_hash (write_bytes bs s) = addr_to_name_hash s" "queue_array (write_bytes bs s) = queue_array s"
  "visit_all_registered_hash (write_bytes bs s) = visit_all_registered_hash s"
  by (simp_all add: write_bytes_def)

lemma write_write: "write_bytes bs (write_bytes cs s) = write_bytes (cs @ bs) s"
  by (simp add: write_bytes_def)

lemma write_prim:
  assumes "perf_funs E = ser_prog_funs c T" "t \<noteq> - 1" "cstrider_is_prim E t" "cstrider_get_size (type_table_of s) t = Inr (of_nat k)" "k < 2 ^ 31"
  shows "visit (Suc f) E a t b s = Inr (write_bytes (load_bytes (heap s) a k) (note_visit a t s))"
  using assms by (simp add: visit_step_def ser_prog_funs_def serial_prim_def note_visit_def unat_scast_small Let_def)

lemma read_prim:
  assumes "perf_funs E = deser_prog_funs c T" "t \<noteq> - 1" "cstrider_is_prim E t" "cstrider_get_size (type_table_of r) t = Inr (of_nat k)" "k < 2 ^ 31"
    and "ser_in (user r) = bs @ rest" "length bs = k"
  shows "visit (Suc f) E a t b r = Inr ((note_visit a t r)\<lparr>heap := store_bytes (heap r) b bs, user := (user r)\<lparr>ser_in := rest\<rparr>\<rparr>)"
  using assms by (simp add: visit_step_def deser_prog_funs_def deserial_prim_def note_visit_def unat_scast_small Let_def read_bytes_def)

definition note_union :: "prog_types \<Rightarrow> bool \<Rightarrow> addr \<Rightarrow> pstate \<Rightarrow> pstate" where
  "note_union T x a s = note_visit (a + 4) (if x then TYPE_INT_p T else TYPE_CHAR_p T)
     (note_visit a (TYPE_INT_p T) (note_visit a (TYPE_STRUCT_tagged_union T) s))"

lemma visit_union:
  assumes "prog_types_ok E T (type_table_of s)" "perfaction_struct (perf_funs E) = s_d_prog_struct T"
  shows "visit (Suc f) E a (TYPE_STRUCT_tagged_union T) b s =
    rbind (visit f E a (TYPE_INT_p T) b (note_visit a (TYPE_STRUCT_tagged_union T) s)) (\<lambda>s.
      if load32 (heap s) a \<noteq> 0 then visit f E (a + 4) (TYPE_INT_p T) (b + 4) s else visit f E (a + 4) (TYPE_CHAR_p T) (b + 4) s)"
proof -
  let ?r = "visit f E a (TYPE_INT_p T) b (note_visit a (TYPE_STRUCT_tagged_union T) s)"
  obtain e where "get_typeinfo_from_table (type_table_of s) (TYPE_STRUCT_tagged_union T) = Some e" "\<not> memoized_is_ptr e" "\<not> memoized_is_array e"
    using assms(1) by (auto simp: prog_types_ok_def split: option.splits)
  then have "visit (Suc f) E a (TYPE_STRUCT_tagged_union T) b s =
      rbind (s_d_prog_struct T (visit f E) a (TYPE_STRUCT_tagged_union T) b (note_visit a (TYPE_STRUCT_tagged_union T) s))
        (\<lambda>(r, s). if r then addtoqueue (transform_make_enq a (TYPE_STRUCT_tagged_union T) b False) s else Inr s)"
    using assms by (simp add: prog_types_ok_def visit_step_def note_visit_def)
  then show ?thesis by (auto simp: s_d_prog_struct_def rbind_def split: sum.splits)
qed

lemma write_union:
  assumes "prog_types_ok E T (type_table_of s)" "perf_funs E = ser_prog_funs c T"
  shows "visit (Suc (Suc f)) E a (TYPE_STRUCT_tagged_union T) b s
    = Inr (write_bytes (union_bytes (heap s) a) (note_union T (load32 (heap s) a \<noteq> 0) a s))"
proof -
  have p: "perfaction_struct (perf_funs E) = s_d_prog_struct T" using assms(2) by (simp add: ser_prog_funs_def)
  have i: "visit (Suc f) E x (TYPE_INT_p T) y s' = Inr (write_bytes (load_bytes (heap s') x 4) (note_visit x (TYPE_INT_p T) s'))"
    if "tstate s' = tstate s" for x y s'
    using assms that by (intro write_prim) (simp_all add: prog_types_ok_def)
  have c: "visit (Suc f) E x (TYPE_CHAR_p T) y s' = Inr (write_bytes (load_bytes (heap s') x 1) (note_visit x (TYPE_CHAR_p T) s'))"
    if "tstate s' = tstate s" for x y s'
    using assms that by (intro write_prim) (simp_all add: prog_types_ok_def)
  show ?thesis unfolding visit_union [OF assms(1) p]
    by (simp add: i c union_bytes_def note_union_def note_visit_write write_write del: visit.simps)
qed

lemma read_union:
  assumes "prog_types_ok E T (type_table_of r)" "perf_funs E = deser_prog_funs c T" "ser_in (user r) = union_bytes h a @ rest"
  shows "visit (Suc (Suc f)) E b (TYPE_STRUCT_tagged_union T) b r
    = Inr ((note_union T (load32 h a \<noteq> 0) b r)\<lparr>heap := store_bytes (heap r) b (union_bytes h a), user := (user r)\<lparr>ser_in := rest\<rparr>\<rparr>)"
proof -
  have p: "perfaction_struct (perf_funs E) = s_d_prog_struct T" using assms(2) by (simp add: deser_prog_funs_def)
  have i: "visit (Suc f) E x (TYPE_INT_p T) y r' = Inr ((note_visit x (TYPE_INT_p T) r')\<lparr>heap := store_bytes (heap r') y bs, user := (user r')\<lparr>ser_in := q\<rparr>\<rparr>)"
    if "tstate r' = tstate r" "ser_in (user r') = bs @ q" "length bs = 4" for x y r' bs q
    using assms that by (intro read_prim) (simp_all add: prog_types_ok_def)
  have c: "visit (Suc f) E x (TYPE_CHAR_p T) y r' = Inr ((note_visit x (TYPE_CHAR_p T) r')\<lparr>heap := store_bytes (heap r') y bs, user := (user r')\<lparr>ser_in := q\<rparr>\<rparr>)"
    if "tstate r' = tstate r" "ser_in (user r') = bs @ q" "length bs = 1" for x y r' bs q
    using assms that by (intro read_prim) (simp_all add: prog_types_ok_def)
  let ?m = "load_bytes h (a + 4) (if load32 h a \<noteq> 0 then 4 else 1)"
  have tag: "load32 (store_bytes (heap r) b (load_bytes h a 4)) b = load32 h a"
    using load_store_bytes [of "load_bytes h a 4" "heap r" b] by (simp add: load32_def)
  have 1: "visit (Suc f) E b (TYPE_INT_p T) b (note_visit b (TYPE_STRUCT_tagged_union T) r)
      = Inr ((note_visit b (TYPE_INT_p T) (note_visit b (TYPE_STRUCT_tagged_union T) r))\<lparr>heap := store_bytes (heap r) b (load_bytes h a 4),
          user := (user r)\<lparr>ser_in := ?m @ rest\<rparr>\<rparr>)"
    using i [of "note_visit b (TYPE_STRUCT_tagged_union T) r" "load_bytes h a 4" "?m @ rest" b b] assms(3)
    by (simp add: union_bytes_def del: visit.simps)
  show ?thesis unfolding visit_union [OF assms(1) p] 1
    using i [of _ "load_bytes h (a + 4) 4" rest] c [of _ "load_bytes h (a + 4) 1" rest]
    by (simp add: tag union_bytes_def note_union_def note_visit_def store_bytes_append del: visit.simps)
qed

subsection \<open>Roots\<close>

text \<open>The two global pointers.\<close>

record prog_globals =
  intu :: addr
  charu :: addr

definition ptr_ok :: "prog_user env \<Rightarrow> prog_types \<Rightarrow> prog_user serial_config \<Rightarrow> type_table \<Rightarrow> bool" where
  "ptr_ok E T c tt \<longleftrightarrow>
     TYPE_tagged_union_PTR T \<noteq> - 1 \<and> \<not> cstrider_is_prim E (TYPE_tagged_union_PTR T)
     \<and> (case get_typeinfo_from_table tt (TYPE_tagged_union_PTR T) of None \<Rightarrow> False
        | Some e \<Rightarrow> memoized_is_ptr e \<and> \<not> memoized_is_funptr e \<and> target_type e = TYPE_STRUCT_tagged_union T)
     \<and> cstrider_get_size tt (TYPE_tagged_union_PTR T) = Inr 8 \<and> cstrider_get_size tt (TYPE_STRUCT_tagged_union T) = Inr 8
     \<and> TYPE_tagged_union_PTR T \<noteq> TYPE_CHAR_NT_PTR_i c \<and> TYPE_STRUCT_tagged_union T \<noteq> TYPE_CHAR_NT_i c"

lemma ptr_okD:
  assumes "ptr_ok E T c (type_table_of s)"
  obtains e where "ptr_type E s (TYPE_tagged_union_PTR T) e" "\<not> memoized_is_funptr e" "memoized_get_ptrtype e = TYPE_STRUCT_tagged_union T"
    "cstrider_get_ptrtype (type_table_of s) (TYPE_tagged_union_PTR T) = Inr (TYPE_STRUCT_tagged_union T)"
  using assms by (auto simp: ptr_ok_def ptr_type_def memoized_get_ptrtype_def cstrider_get_ptrtype_def query_def split: option.splits)

lemma union_not_array:
  assumes "prog_types_ok E T tt"
  shows "cstrider_is_array tt (TYPE_STRUCT_tagged_union T) = Inr False"
  using assms by (auto simp: prog_types_ok_def cstrider_is_array_def memoized_is_array_def query_def split: option.splits)

lemma write_root:
  assumes t: "prog_types_ok E T (type_table_of s)" "ptr_ok E T c (type_table_of s)" "perf_funs E = ser_prog_funs c T" "\<not> is_parallel s"
    and g: "g \<noteq> 0" "load64 (heap s) g = v" "v \<noteq> 0" "find_mapping v s = 0" "lookup_addr v s = None"
  shows "visit (Suc (Suc (Suc f))) E g (TYPE_tagged_union_PTR T) g s
    = Inr (write_bytes (bytes64 v @ union_bytes (heap s) v)
        (note_union T (load32 (heap s) v \<noteq> 0) v (add_mapping v v (note_visit g (TYPE_tagged_union_PTR T) s))))"
proof -
  let ?s = "note_visit g (TYPE_tagged_union_PTR T) s"
  let ?w = "add_mapping v v (write_bytes (bytes64 v) ?s)"
  obtain e where e: "ptr_type E s (TYPE_tagged_union_PTR T) e" "\<not> memoized_is_funptr e" "memoized_get_ptrtype e = TYPE_STRUCT_tagged_union T"
    using ptr_okD [OF t(2)] by blast
  have lk: "lookup_addr v ?s = None" "find_mapping v ?s = 0" using g(3-5) by (simp_all add: lookup_addr_def find_mapping_def)
  have sp: "serial_ptr c g (TYPE_tagged_union_PTR T) g ?s = Inr (True, write_bytes (bytes64 v) ?s)"
    using serial_prim_ptr [of ?s "TYPE_tagged_union_PTR T" g] t(2) g lk by (simp add: serial_ptr_def ptr_ok_def Let_def)
  have am: "add_mapping v v (write_bytes bs x) = write_bytes bs (add_mapping v v x)" for bs and x :: pstate
    by (simp add: add_mapping_def find_mapping_def write_bytes_def)
  have "tstate ?w = tstate s" "heap ?w = heap s" by (simp_all add: am add_mapping_def)
  then have u: "visit (Suc (Suc f)) E v (TYPE_STRUCT_tagged_union T) v ?w
      = Inr (write_bytes (union_bytes (heap s) v) (note_union T (load32 (heap s) v \<noteq> 0) v ?w))"
    using write_union [of E T ?w c f v v] t by (simp del: visit.simps)
  have "visit (Suc (Suc (Suc f))) E g (TYPE_tagged_union_PTR T) g s = visit (Suc (Suc f)) E v (TYPE_STRUCT_tagged_union T) v ?w"
    unfolding visit_pointer [OF e(1)] visit_ptr_step_def using g lk(2) e t(3,4) sp
    by (simp add: Let_def transform_map_wrlock_def transform_map_unlock_def ser_prog_funs_def find_mapping_def del: visit.simps)
  then show ?thesis unfolding u by (simp add: am note_union_def note_visit_write write_write)
qed

text \<open>
  What \<open>malloc(8)\<close> does beside the blocks \<open>bl\<close>: it returns \<open>p\<close>, a new block apart from them, and
  leaves them as they are.
\<close>

definition gives :: "prog_user serial_config \<Rightarrow> (addr \<times> nat) list \<Rightarrow> addr \<Rightarrow> bool" where
  "gives c bl p \<longleftrightarrow> p \<noteq> 0 \<and> apart p 8 bl
     \<and> (\<forall>st. blocks st = bl \<longrightarrow> (\<exists>h. malloc_fn c 8 st = (p, st\<lparr>heap := h, blocks := (p, 8) # bl\<rparr>) \<and> same_blocks bl (heap st) h))"

lemma givesI:
  assumes "p \<noteq> 0" "apart p 8 bl" "\<And>st. blocks st = bl \<Longrightarrow> malloc_fn c 8 st = (p, st\<lparr>blocks := (p, 8) # bl\<rparr>)"
  shows "gives c bl p"
  unfolding gives_def
proof (intro conjI allI impI)
  fix st :: pstate assume "blocks st = bl"
  then show "\<exists>h. malloc_fn c 8 st = (p, st\<lparr>heap := h, blocks := (p, 8) # bl\<rparr>) \<and> same_blocks bl (heap st) h"
    using assms(3) by (intro exI [of _ "heap st"]) simp
qed (use assms in simp_all)

definition held_in :: "heap \<Rightarrow> addr \<Rightarrow> byte list \<Rightarrow> bool" where
  "held_in h p bs \<longleftrightarrow> load_bytes h p (length bs) = bs"

lemma length_union_bytes: "length (union_bytes h a) \<le> 8"
  by (simp add: union_bytes_def)

text \<open>\<open>add_mapping\<close> on the table alone.\<close>

definition mapped :: "addr \<Rightarrow> addr \<Rightarrow> (addr, addr) table \<Rightarrow> (addr, addr) table" where
  "mapped v p t = (if v = 0 \<or> (case tbl_find v t of None \<Rightarrow> 0 | Some a \<Rightarrow> a) \<noteq> 0 then t else tbl_add v p t)"

lemma add_mapping_mapped: "add_mapping v p s = s\<lparr>pxform_mappings := mapped v p (pxform_mappings s)\<rparr>"
  by (simp add: add_mapping_def mapped_def find_mapping_def)

lemma read_root:
  assumes t: "prog_types_ok E T (type_table_of r)" "ptr_ok E T c (type_table_of r)" "perf_funs E = deser_prog_funs c T" "\<not> is_parallel r"
    and g: "g \<noteq> 0" "load64 (heap r) g = 0" "(g, 8) \<in> set (blocks r)" "separate (blocks r)"
    and i: "ser_in (user r) = bytes64 v @ union_bytes h a @ rest" "v \<noteq> 0" "v \<noteq> SER_SYMBOL" "find_mapping v r = 0" and p: "gives c (blocks r) p"
  shows "\<exists>H n q. visit (Suc (Suc (Suc f))) E g (TYPE_tagged_union_PTR T) g r
      = Inr (r\<lparr>heap := H, pxform_mappings := mapped p p (mapped v p (pxform_mappings r)), blocks := (p, 8) # blocks r,
          visitcalls := n, seen := q, user := (user r)\<lparr>ser_in := rest\<rparr>\<rparr>)
    \<and> load64 H g = p \<and> held_in H p (union_bytes h a) \<and> same_blocks (remove1 (g, 8) (blocks r)) (heap r) H"
proof -
  let ?P = "TYPE_tagged_union_PTR T" and ?u = "union_bytes h a"
  let ?r = "(note_visit g ?P r)\<lparr>user := (user r)\<lparr>ser_in := ?u @ rest\<rparr>\<rparr>"
  obtain e where e: "ptr_type E r ?P e" "\<not> memoized_is_funptr e" "cstrider_get_ptrtype (type_table_of r) ?P = Inr (TYPE_STRUCT_tagged_union T)"
    using ptr_okD [OF t(2)] by blast
  have "blocks ?r = blocks r" by (simp add: note_visit_def)
  then obtain k where m: "malloc_fn c 8 ?r = (p, ?r\<lparr>heap := k, blocks := (p, 8) # blocks r\<rparr>)" "same_blocks (blocks r) (heap ?r) k"
    using p unfolding gives_def by blast
  have p0: "p \<noteq> 0" "apart p 8 (blocks r)" using p by (simp_all add: gives_def)
  have m8: "malloc_fn c (scast (8 :: i32)) ?r = (p, ?r\<lparr>heap := k, blocks := (p, 8) # blocks r\<rparr>)" using m(1) by simp
  let ?m = "add_mapping v p (?r\<lparr>heap := k, blocks := (p, 8) # blocks r\<rparr>)"
  let ?n = "?m\<lparr>heap := store64 k g p\<rparr>"
  let ?H = "store_bytes (store64 k g p) p ?u"
  have "tstate ?n = tstate r" "ser_in (user ?n) = ?u @ rest" "heap ?n = store64 k g p" "user ?n = user ?r" by (simp_all add: add_mapping_def)
  then have u: "visit (Suc (Suc f)) E p (TYPE_STRUCT_tagged_union T) p ?n
      = Inr ((note_union T (load32 h a \<noteq> 0) p ?n)\<lparr>heap := ?H, user := (user r)\<lparr>ser_in := rest\<rparr>\<rparr>)"
    using read_union [of E T ?n c h a rest f p] t by (simp del: visit.simps)
  have fv: "find_mapping v ?r = 0" using i(2,4) by (simp add: find_mapping_def)
  have rb: "read_bytes 8 (note_visit g ?P r) = (bytes64 v, ?r)"
    using read_bytes_append [of "note_visit g ?P r" "bytes64 v" "?u @ rest" 8] i(1) by simp
  have dn: "deserial_new c (visit (Suc (Suc f)) E) v ?P g ?r = visit (Suc (Suc f)) E p (TYPE_STRUCT_tagged_union T) p ?n"
    using t(2) e(3) m8 union_not_array [OF t(1)] by (simp add: deserial_new_def ptr_ok_def add_mapping_def del: visit.simps)
  have dp: "deserial_ptr c (visit (Suc (Suc f)) E) g ?P g (note_visit g ?P r)
      = Inr (False, (note_union T (load32 h a \<noteq> 0) p ?n)\<lparr>heap := ?H, user := (user r)\<lparr>ser_in := rest\<rparr>\<rparr>)"
    unfolding deserial_ptr_def rb using i(2,3) fv dn u by (simp del: visit.simps)
  have d: "disjoint_blocks p 8 g 8" by (rule apartD [OF p0(2) g(3)])
  have dg: "disjoint_blocks g 8 p (length ?u)"
    using sub_disjoint [of g 8 p 8 0 "length ?u"] d length_union_bytes disjoint_blocks_sym [of g 8] by simp
  have l: "load64 ?H g = p" by (simp add: load64_store_bytes_disjoint [OF dg])
  let ?R = "add_mapping p p ((note_union T (load32 h a \<noteq> 0) p ?n)\<lparr>heap := ?H, user := (user r)\<lparr>ser_in := rest\<rparr>\<rparr>)"
  have "visit (Suc (Suc (Suc f))) E g ?P g r = Inr ?R"
    unfolding visit_pointer [OF e(1)] visit_ptr_step_def using g(1,2) t(3) dp l
    by (simp add: Let_def transform_map_wrlock_def transform_map_unlock_def deser_prog_funs_def find_mapping_def del: visit.simps)
  moreover have "held_in ?H p ?u" using load_store_bytes [of ?u "store64 k g p" p] length_union_bytes [of h a] by (simp add: held_in_def)
  moreover have "same_blocks (remove1 (g, 8) (blocks r)) (heap r) ?H"
  proof -
    have sub: "set (remove1 (g, 8) (blocks r)) \<subseteq> set (blocks r)" by (rule set_remove1_subset)
    have "same_blocks (remove1 (g, 8) (blocks r)) k (store64 k g p)"
      using store_same_blocks [OF separate_apart [OF g(4,3)], of 0 "bytes64 p" k] by (simp add: store64_def)
    moreover have "same_blocks (remove1 (g, 8) (blocks r)) (store64 k g p) ?H"
      using store_same_blocks [OF p0(2), of 0 ?u "store64 k g p"] length_union_bytes same_blocks_subset [OF _ sub] by simp
    moreover have "same_blocks (remove1 (g, 8) (blocks r)) (heap r) k" using same_blocks_subset [OF m(2) sub] by simp
    ultimately show ?thesis using same_blocks_trans by blast
  qed
  moreover have "?R = r\<lparr>heap := ?H, pxform_mappings := mapped p p (mapped v p (pxform_mappings r)), blocks := (p, 8) # blocks r,
      visitcalls := visitcalls ?R, seen := seen ?R, user := (user r)\<lparr>ser_in := rest\<rparr>\<rparr>"
    by (rule cstate.equality) (simp_all add: note_union_def note_visit_def add_mapping_mapped)
  ultimately show ?thesis using l by metis
qed

text \<open>A pointer whose old value is mapped already.\<close>

lemma read_again:
  assumes t: "ptr_ok E T c (type_table_of r)" "perf_funs E = deser_prog_funs c T" "\<not> is_parallel r"
    and g: "g \<noteq> 0" "load64 (heap r) g = 0"
    and i: "ser_in (user r) = bytes64 v @ rest" "v \<noteq> 0" "v \<noteq> SER_SYMBOL" "find_mapping v r = p" "p \<noteq> 0"
  shows "\<exists>n q. visit (Suc f) E g (TYPE_tagged_union_PTR T) g r
      = Inr (r\<lparr>heap := store64 (heap r) g p, pxform_mappings := mapped p p (pxform_mappings r),
          visitcalls := n, seen := q, user := (user r)\<lparr>ser_in := rest\<rparr>\<rparr>)"
proof -
  let ?P = "TYPE_tagged_union_PTR T"
  let ?r = "(note_visit g ?P r)\<lparr>user := (user r)\<lparr>ser_in := rest\<rparr>\<rparr>"
  obtain e where e: "ptr_type E r ?P e" using ptr_okD [OF t(1)] by blast
  have rb: "read_bytes 8 (note_visit g ?P r) = (bytes64 v, ?r)"
    using read_bytes_append [of "note_visit g ?P r" "bytes64 v" rest 8] i(1) by simp
  have fv: "find_mapping v ?r = p" using i(2,4) by (simp add: find_mapping_def)
  have dp: "deserial_ptr c (visit f E) g ?P g (note_visit g ?P r) = Inr (False, ?r\<lparr>heap := store64 (heap r) g p\<rparr>)"
    unfolding deserial_ptr_def rb using i(2,3,5) fv by simp
  let ?R = "add_mapping p p (?r\<lparr>heap := store64 (heap r) g p\<rparr>)"
  have "visit (Suc f) E g ?P g r = Inr ?R"
    unfolding visit_pointer [OF e] visit_ptr_step_def using g t(2,3) dp
    by (simp add: Let_def transform_map_wrlock_def transform_map_unlock_def deser_prog_funs_def find_mapping_def)
  moreover have "?R = r\<lparr>heap := store64 (heap r) g p, pxform_mappings := mapped p p (pxform_mappings r),
      visitcalls := visitcalls ?R, seen := seen ?R, user := (user r)\<lparr>ser_in := rest\<rparr>\<rparr>"
    by (rule cstate.equality) (simp_all add: note_visit_def add_mapping_mapped)
  ultimately show ?thesis by metis
qed

subsection \<open>Whole runs\<close>

text \<open>What the generated code does: register the symbols, and visit the two globals.\<close>

definition prog_generated ::
    "prog_user env \<Rightarrow> prog_types \<Rightarrow> prog_globals \<Rightarrow> (string, hash_entry) table \<Rightarrow> (addr, hash_entry) table \<Rightarrow> bool" where
  "prog_generated E T g nt ta \<longleftrightarrow> visitalls E = [0]
     \<and> (\<forall>vis s. root_function E 0 vis s = rbind (vis (intu g) (TYPE_tagged_union_PTR T) (intu g) s)
          (\<lambda>s. vis (charu g) (TYPE_tagged_union_PTR T) (charu g) s))
     \<and> (\<forall>s. cstrider_register_init E s = Inr (s\<lparr>name_to_addr_hash := nt, addr_to_name_hash := ta\<rparr>))"

definition started :: "prog_user env \<Rightarrow> (string, hash_entry) table \<Rightarrow> (addr, hash_entry) table \<Rightarrow> pstate \<Rightarrow> pstate" where
  "started E nt ta s = launch_helpers (transform_init E False (s\<lparr>name_to_addr_hash := nt, addr_to_name_hash := ta\<rparr>))"

lemma started_sel:
  assumes "ready s"
  shows "heap (started E nt ta s) = heap s" "user (started E nt ta s) = user s" "blocks (started E nt ta s) = blocks s"
    "type_table_of (started E nt ta s) = cstrider_type_init (gen_arrays E) []" "\<not> is_parallel (started E nt ta s)"
    "pxform_mappings (started E nt ta s) = []" "addr_to_name_hash (started E nt ta s) = ta"
    "visit_all_registered_hash (started E nt ta s) = visit_all_registered_hash s"
    "visit_all_hash (started E nt ta s) = rev (map (\<lambda>f. (f, ())) (visitalls E))"
    "queue_array (started E nt ta s) = (queue_array s)[0 := init_queue (queue_array s ! 0)]"
  using assms by (simp_all add: started_def launch_helpers_def transform_init_def populate_visit_all_def ready_def Let_def populate_roots)

lemma finish_idle:
  assumes "queue_array s \<noteq> []" "qcount (queue_array s ! 0) = 0" "queue_mutex (queue_array s ! 0) = None"
  shows "\<exists>s'. finish_seq (Suc n) E vis s = Inr s' \<and> heap s' = heap s \<and> user s' = user s"
proof -
  let ?s = "(init_thread_local s)\<lparr>queue_array := (queue_array s)[0 := start_dequeue (queue_array s ! 0)]\<rparr>"
  have "dequeue 1 (queue_array ?s) 1 0 = Inr (None, queue_array ?s)"
    using assms by (simp add: dequeue_def dequeue_choose_def trylock_busy_def start_dequeue_def dequeue_locked_def)
  then have "process_loop (Suc n) E vis ?s = Inr ?s" by simp
  then have "processqueue_seq (Suc n) E vis s = Inr (transform_perform_delayedfree ?s)"
    by (simp add: processqueue_seq_def Let_def init_thread_local_def del: process_loop.simps)
  then show ?thesis
    by (simp add: finish_seq_def helpers_wait_seq_def perform_delayedfree_eq transform_free_def Let_def clear_pxform_mappings_head_def
        cstrider_visit_free_def init_thread_local_def)
qed

lemma traverse_prog:
  assumes g: "prog_generated E T g nt ta" and s: "ready s" "visit_all_registered_hash s = []" "queue_mutex (queue_array s ! 0) = None"
    and 1: "visit fuel E (intu g) (TYPE_tagged_union_PTR T) (intu g) (started E nt ta s) = Inr s1"
    and 2: "visit fuel E (charu g) (TYPE_tagged_union_PTR T) (charu g) s1 = Inr s2"
    and q: "queue_array s2 = queue_array (started E nt ta s)" "visit_all_registered_hash s2 = []"
  shows "\<exists>s'. traverse fuel (Suc n) E s = Inr s' \<and> heap s' = heap s2 \<and> user s' = user s2"
proof -
  have i: "init E False s = Inr (started E nt ta s)" using g by (simp add: init_def started_def prog_generated_def)
  have v: "visit_all E (visit fuel E) (started E nt ta s) = Inr s2"
    using g 1 2 q(2) started_sel [OF s(1), of E nt ta] by (simp add: visit_all_def prog_generated_def tbl_iter_def)
  have "queue_array s2 \<noteq> []" "qcount (queue_array s2 ! 0) = 0" "queue_mutex (queue_array s2 ! 0) = None"
    using q(1) s started_sel(10) [OF s(1), of E nt ta] by (simp_all add: ready_def)
  from finish_idle [OF this] show ?thesis unfolding traverse_def i by (simp add: v)
qed

text \<open>A union in memory: the tag and the member that the tag selects.\<close>

definition same_union :: "heap \<Rightarrow> addr \<Rightarrow> heap \<Rightarrow> addr \<Rightarrow> bool" where
  "same_union h a h' b \<longleftrightarrow> load32 h' b = load32 h a
     \<and> (if load32 h a \<noteq> 0 then load32 h' (b + 4) = load32 h (a + 4) else h' (b + 4) = h (a + 4))"

lemma held_union:
  assumes "held_in h' b (union_bytes h a)"
  shows "same_union h a h' b"
proof -
  let ?k = "if load32 h a \<noteq> 0 then 4 else 1 :: nat"
  have "load_bytes h' b (4 + ?k) = load_bytes h a 4 @ load_bytes h (a + 4) ?k"
    using assms by (simp add: held_in_def union_bytes_def)
  then have "load_bytes h' b 4 = load_bytes h a 4" "load_bytes h' (b + 4) ?k = load_bytes h (a + 4) ?k"
    using load_bytes_append [of h' b 4 ?k] by simp_all
  moreover have "load_bytes k x 1 = [k x]" for k x by (simp add: load_bytes_def)
  ultimately show ?thesis by (auto simp: same_union_def load32_def split: if_splits)
qed

definition prog_ok ::
    "prog_user env \<Rightarrow> prog_types \<Rightarrow> prog_user serial_config \<Rightarrow> prog_globals \<Rightarrow> (string, hash_entry) table \<Rightarrow> (addr, hash_entry) table \<Rightarrow> bool" where
  "prog_ok E T c g nt ta \<longleftrightarrow> prog_generated E T g nt ta \<and> prog_types_ok E T (cstrider_type_init (gen_arrays E) [])
     \<and> ptr_ok E T c (cstrider_type_init (gen_arrays E) []) \<and> intu g \<noteq> 0 \<and> charu g \<noteq> 0 \<and> intu g \<noteq> charu g"

lemma prog_ok_funs [simp]: "prog_ok (E\<lparr>perf_funs := x\<rparr>) T c g nt ta = prog_ok E T c g nt ta"
  by (simp add: prog_ok_def prog_generated_def prog_types_ok_def ptr_ok_def cong: option.case_cong)

definition idle :: "pstate \<Rightarrow> bool" where
  "idle s \<longleftrightarrow> ready s \<and> visit_all_registered_hash s = [] \<and> queue_mutex (queue_array s ! 0) = None"

lemma idle_user [simp]: "idle (s\<lparr>user := u\<rparr>) = idle s"
  by (simp add: idle_def ready_def)

text \<open>The two objects of a running program, and a new process.\<close>

definition has_objects :: "pstate \<Rightarrow> prog_globals \<Rightarrow> (addr, hash_entry) table \<Rightarrow> addr \<Rightarrow> addr \<Rightarrow> bool" where
  "has_objects s g ta v1 v2 \<longleftrightarrow> idle s \<and> load64 (heap s) (intu g) = v1 \<and> load64 (heap s) (charu g) = v2 \<and> v2 \<noteq> v1
     \<and> v1 \<notin> {0, SER_SYMBOL} \<and> v2 \<notin> {0, SER_SYMBOL} \<and> tbl_find v1 ta = None \<and> tbl_find v2 ta = None"

definition new_process :: "pstate \<Rightarrow> prog_globals \<Rightarrow> bool" where
  "new_process r g \<longleftrightarrow> idle r \<and> load64 (heap r) (intu g) = 0 \<and> load64 (heap r) (charu g) = 0
     \<and> separate (blocks r) \<and> (intu g, 8) \<in> set (blocks r) \<and> (charu g, 8) \<in> set (blocks r)"

definition file_bytes :: "heap \<Rightarrow> addr \<Rightarrow> addr \<Rightarrow> byte list" where
  "file_bytes h v1 v2 = bytes64 v1 @ union_bytes h v1 @ bytes64 v2 @ union_bytes h v2"

lemma note_union_sel [simp]:
  "heap (note_union T x a s) = heap s" "tstate (note_union T x a s) = tstate s" "is_parallel (note_union T x a s) = is_parallel s"
  "pxform_mappings (note_union T x a s) = pxform_mappings s" "addr_to_name_hash (note_union T x a s) = addr_to_name_hash s"
  "queue_array (note_union T x a s) = queue_array s" "user (note_union T x a s) = user s"
  "visit_all_registered_hash (note_union T x a s) = visit_all_registered_hash s"
  by (simp_all add: note_union_def)

lemma checkpoint_ok:
  assumes P: "prog_ok E T c g nt ta" and s: "has_objects s g ta v1 v2"
  shows "\<exists>s'. checkpoint (Suc (Suc (Suc f))) (Suc n) c T E s = Inr s' \<and> heap s' = heap s \<and> ser_txt (user s') = Some (file_bytes (heap s) v1 v2)"
proof -
  let ?E = "E\<lparr>perf_funs := ser_prog_funs c T\<rparr>"
  let ?s = "s\<lparr>user := (user s)\<lparr>current_service := SERIALIZE, ser_out := [], ser_txt := Some []\<rparr>\<rparr>"
  let ?S = "started ?E nt ta ?s" and ?P = "TYPE_tagged_union_PTR T"
  have P': "prog_ok ?E T c g nt ta" using P by simp
  have i: "idle ?s" using s by (simp add: has_objects_def)
  note sel = started_sel [of ?s ?E nt ta]
  have r: "ready ?s" using i by (simp add: idle_def)
  have t: "prog_types_ok ?E T (type_table_of ?S)" "ptr_ok ?E T c (type_table_of ?S)" "perf_funs ?E = ser_prog_funs c T" "\<not> is_parallel ?S"
    using P' sel(4,5) [OF r] by (simp_all add: prog_ok_def)
  let ?s1 = "write_bytes (bytes64 v1 @ union_bytes (heap s) v1)
      (note_union T (load32 (heap s) v1 \<noteq> 0) v1 (add_mapping v1 v1 (note_visit (intu g) ?P ?S)))"
  have 1: "visit (Suc (Suc (Suc f))) ?E (intu g) ?P (intu g) ?S = Inr ?s1"
    using write_root [OF t, of "intu g" v1 f] s P sel [OF r]
    by (simp add: has_objects_def prog_ok_def find_mapping_def tbl_find_def lookup_addr_def del: visit.simps)
  have m1: "find_mapping v2 ?s1 = 0" "lookup_addr v2 ?s1 = None"
    using s sel(6,7) [OF r] by (simp_all add: has_objects_def find_mapping_def add_mapping_mapped mapped_def tbl_find_def tbl_add_def lookup_addr_def)
  let ?s2 = "write_bytes (bytes64 v2 @ union_bytes (heap s) v2)
      (note_union T (load32 (heap s) v2 \<noteq> 0) v2 (add_mapping v2 v2 (note_visit (charu g) ?P ?s1)))"
  have h1: "heap ?s1 = heap s" "tstate ?s1 = tstate ?S" "is_parallel ?s1 = is_parallel ?S"
    using sel(1) [OF r] by (simp_all add: add_mapping_mapped)
  have 2: "visit (Suc (Suc (Suc f))) ?E (charu g) ?P (charu g) ?s1 = Inr ?s2"
    using write_root [of ?E T ?s1 c "charu g" v2 f] t m1 s P h1
    by (simp add: has_objects_def prog_ok_def del: visit.simps)
  have q: "queue_array ?s2 = queue_array ?S" "visit_all_registered_hash ?s2 = []" "heap ?s2 = heap s"
    "ser_out (user ?s2) = file_bytes (heap s) v1 v2"
    using sel(1,2,8) [OF r] i by (simp_all add: add_mapping_mapped idle_def file_bytes_def)
  obtain s' where s': "traverse (Suc (Suc (Suc f))) (Suc n) ?E ?s = Inr s'" "heap s' = heap ?s2" "user s' = user ?s2"
    using traverse_prog [OF _ r _ _ 1 2 q(1,2)] P' i by (auto simp: prog_ok_def idle_def)
  then show ?thesis using q by (simp add: checkpoint_def Let_def)
qed

text \<open>The reader after the first pointer.\<close>

lemma first_root:
  assumes P: "prog_ok E T c g nt ta" and r: "new_process r g" "ser_txt (user r) = Some (file_bytes h v1 v2)" and v1: "v1 \<notin> {0, SER_SYMBOL}"
    and p1: "gives c (blocks r) p1"
  defines "E' \<equiv> E\<lparr>perf_funs := deser_prog_funs c T\<rparr>"
    and "r0 \<equiv> r\<lparr>user := (user r)\<lparr>current_service := DESERIALIZE, ser_in := file_bytes h v1 v2\<rparr>\<rparr>"
  obtains r1 where "visit (Suc (Suc (Suc f))) E' (intu g) (TYPE_tagged_union_PTR T) (intu g) (started E' nt ta r0) = Inr r1"
    "load64 (heap r1) (intu g) = p1" "held_in (heap r1) p1 (union_bytes h v1)" "load64 (heap r1) (charu g) = 0"
    "blocks r1 = (p1, 8) # blocks r" "separate (blocks r1)" "prog_types_ok E' T (type_table_of r1)" "ptr_ok E' T c (type_table_of r1)" "\<not> is_parallel r1"
    "pxform_mappings r1 = mapped p1 p1 (mapped v1 p1 [])" "ser_in (user r1) = bytes64 v2 @ union_bytes h v2"
    "queue_array r1 = queue_array (started E' nt ta r0)" "visit_all_registered_hash r1 = []"
proof -
  let ?S = "started E' nt ta r0" and ?P = "TYPE_tagged_union_PTR T"
  have P': "prog_ok E' T c g nt ta" using P by (simp add: E'_def)
  have i: "idle r0" "ready r0" using r(1) by (simp_all add: r0_def new_process_def idle_def ready_def)
  note sel = started_sel [OF i(2), of E' nt ta]
  have t: "prog_types_ok E' T (type_table_of ?S)" "ptr_ok E' T c (type_table_of ?S)" "perf_funs E' = deser_prog_funs c T" "\<not> is_parallel ?S"
    using P' sel(4,5) by (simp_all add: prog_ok_def E'_def)
  have b: "blocks ?S = blocks r" "heap ?S = heap r" "find_mapping v1 ?S = 0" "ser_in (user ?S) = bytes64 v1 @ union_bytes h v1 @ (bytes64 v2 @ union_bytes h v2)"
    using sel by (simp_all add: r0_def find_mapping_def tbl_find_def file_bytes_def)
  have pb: "apart p1 8 (blocks r)" using p1 by (simp add: gives_def)
  obtain H n q where v: "visit (Suc (Suc (Suc f))) E' (intu g) ?P (intu g) ?S
      = Inr (?S\<lparr>heap := H, pxform_mappings := mapped p1 p1 (mapped v1 p1 (pxform_mappings ?S)), blocks := (p1, 8) # blocks ?S,
          visitcalls := n, seen := q, user := (user ?S)\<lparr>ser_in := bytes64 v2 @ union_bytes h v2\<rparr>\<rparr>)"
    and H: "load64 H (intu g) = p1" "held_in H p1 (union_bytes h v1)" "same_blocks (remove1 (intu g, 8) (blocks ?S)) (heap ?S) H"
    using read_root [OF t, of "intu g" v1 h v1 "bytes64 v2 @ union_bytes h v2" p1 f] b r(1) P v1 p1
    by (auto simp: new_process_def prog_ok_def simp del: visit.simps)
  have "(charu g, 8) \<in> set (remove1 (intu g, 8) (blocks ?S))"
    using r(1) P b(1) by (auto simp: new_process_def prog_ok_def)
  then have c: "load64 H (charu g) = 0"
    using same_blocksD [OF H(3), of "charu g" 8] b(2) r(1) by (simp add: new_process_def load64_def)
  show ?thesis
    by (rule that [OF v]) (use H c b sel t r(1) pb i in \<open>simp_all add: new_process_def idle_def\<close>)
qed

lemma deserialize_run:
  assumes "prog_ok E T c g nt ta" "new_process r g" "ser_txt (user r) = Some bs"
  defines "E' \<equiv> E\<lparr>perf_funs := deser_prog_funs c T\<rparr>"
    and "r0 \<equiv> r\<lparr>user := (user r)\<lparr>current_service := DESERIALIZE, ser_in := bs\<rparr>\<rparr>"
  assumes "visit fuel E' (intu g) (TYPE_tagged_union_PTR T) (intu g) (started E' nt ta r0) = Inr r1"
    "visit fuel E' (charu g) (TYPE_tagged_union_PTR T) (charu g) r1 = Inr r2"
    "queue_array r2 = queue_array (started E' nt ta r0)" "visit_all_registered_hash r2 = []"
  shows "\<exists>r'. do_deserialize fuel (Suc n) c T E [a0, CHR ''D'' # a1, a2] r = Inr (True, r') \<and> heap r' = heap r2 \<and> user r' = user r2"
proof -
  have "prog_generated E' T g nt ta" using assms(1) by (simp add: prog_ok_def prog_generated_def E'_def)
  moreover have "ready r0" "visit_all_registered_hash r0 = []" "queue_mutex (queue_array r0 ! 0) = None"
    using assms(2) by (simp_all add: new_process_def idle_def ready_def r0_def)
  ultimately obtain r' where "traverse fuel (Suc n) E' r0 = Inr r'" "heap r' = heap r2" "user r' = user r2"
    using traverse_prog [OF _ _ _ _ assms(6-9)] by blast
  then show ?thesis using assms(3) by (simp add: do_deserialize_def Let_def E'_def r0_def)
qed

lemma restart_ok:
  assumes P: "prog_ok E T c g nt ta" and r: "new_process r g" "ser_txt (user r) = Some (file_bytes h v1 v2)"
    and v: "v1 \<notin> {0, SER_SYMBOL}" "v2 \<notin> {0, SER_SYMBOL}" "v2 \<noteq> v1"
    and p: "gives c (blocks r) p1" "gives c ((p1, 8) # blocks r) p2" "p1 \<noteq> v2"
  shows "\<exists>r'. do_deserialize (Suc (Suc (Suc f))) (Suc n) c T E [a0, CHR ''D'' # a1, a2] r = Inr (True, r')
      \<and> load64 (heap r') (intu g) = p1 \<and> load64 (heap r') (charu g) = p2
      \<and> same_union h v1 (heap r') p1 \<and> same_union h v2 (heap r') p2 \<and> ser_in (user r') = []"
proof -
  let ?E = "E\<lparr>perf_funs := deser_prog_funs c T\<rparr>" and ?P = "TYPE_tagged_union_PTR T"
  let ?S = "started ?E nt ta (r\<lparr>user := (user r)\<lparr>current_service := DESERIALIZE, ser_in := file_bytes h v1 v2\<rparr>\<rparr>)"
  obtain r1 where r1: "visit (Suc (Suc (Suc f))) ?E (intu g) ?P (intu g) ?S = Inr r1"
    "load64 (heap r1) (intu g) = p1" "held_in (heap r1) p1 (union_bytes h v1)" "load64 (heap r1) (charu g) = 0"
    "blocks r1 = (p1, 8) # blocks r" "separate (blocks r1)" "prog_types_ok ?E T (type_table_of r1)" "ptr_ok ?E T c (type_table_of r1)"
    "\<not> is_parallel r1" "pxform_mappings r1 = mapped p1 p1 (mapped v1 p1 [])" "ser_in (user r1) = bytes64 v2 @ union_bytes h v2"
    "queue_array r1 = queue_array ?S" "visit_all_registered_hash r1 = []"
    using first_root [OF P r v(1) p(1)] by blast
  have f: "find_mapping v2 r1 = 0"
    unfolding find_mapping_def r1(10) using v p(3) by (simp add: mapped_def tbl_find_def tbl_add_def)
  have g: "(intu g, 8) \<in> set (blocks r)" "(charu g, 8) \<in> set (blocks r)" "intu g \<noteq> charu g" "charu g \<noteq> 0"
    using r(1) P by (simp_all add: new_process_def prog_ok_def)
  have "\<exists>H n q. visit (Suc (Suc (Suc f))) ?E (charu g) ?P (charu g) r1
      = Inr (r1\<lparr>heap := H, pxform_mappings := mapped p2 p2 (mapped v2 p2 (pxform_mappings r1)), blocks := (p2, 8) # blocks r1,
          visitcalls := n, seen := q, user := (user r1)\<lparr>ser_in := []\<rparr>\<rparr>)
    \<and> load64 H (charu g) = p2 \<and> held_in H p2 (union_bytes h v2) \<and> same_blocks (remove1 (charu g, 8) (blocks r1)) (heap r1) H"
    by (rule read_root [OF r1(7,8) _ r1(9)]) (use g r1 v f p(2) in simp_all)
  then obtain H n' q where v2: "visit (Suc (Suc (Suc f))) ?E (charu g) ?P (charu g) r1
      = Inr (r1\<lparr>heap := H, pxform_mappings := mapped p2 p2 (mapped v2 p2 (pxform_mappings r1)), blocks := (p2, 8) # blocks r1,
          visitcalls := n', seen := q, user := (user r1)\<lparr>ser_in := []\<rparr>\<rparr>)"
    and H: "load64 H (charu g) = p2" "held_in H p2 (union_bytes h v2)" "same_blocks (remove1 (charu g, 8) (blocks r1)) (heap r1) H"
    by blast
  have "disjoint_blocks p1 8 (charu g) 8" using apartD [of p1 8 "blocks r" "charu g" 8] p(1) g(2) by (simp add: gives_def)
  then have "p1 \<noteq> charu g" unfolding disjoint_blocks_def by (metis zero_less_numeral)
  then have "(intu g, 8) \<in> set (remove1 (charu g, 8) (blocks r1))" "(p1, 8) \<in> set (remove1 (charu g, 8) (blocks r1))"
    using g r1(5) by auto
  from same_blocksD [OF H(3) this(1)] same_blocksD [OF H(3) this(2)]
  have k: "load64 H (intu g) = p1" "load_bytes H p1 8 = load_bytes (heap r1) p1 8" using r1(2) by (simp_all add: load64_def)
  have "held_in H p1 (union_bytes h v1)"
    using r1(3) k(2) load_bytes_sub [of 0 "length (union_bytes h v1)" 8 _ p1] length_union_bytes by (simp add: held_in_def)
  then show ?thesis using deserialize_run [OF P r r1(1) v2, of n a0 a1 a2] r1 H k held_union by auto
qed

lemma restart_mixes:
  assumes P: "prog_ok E T c g nt ta" and r: "new_process r g" "ser_txt (user r) = Some (file_bytes h v1 v2)"
    and v: "v1 \<notin> {0, SER_SYMBOL}" "v2 \<notin> {0, SER_SYMBOL}" "v2 \<noteq> v1" and p: "gives c (blocks r) v2"
  shows "\<exists>r'. do_deserialize (Suc (Suc (Suc f))) (Suc n) c T E [a0, CHR ''D'' # a1, a2] r = Inr (True, r')
      \<and> load64 (heap r') (intu g) = v2 \<and> load64 (heap r') (charu g) = v2
      \<and> same_union h v1 (heap r') v2 \<and> ser_in (user r') = union_bytes h v2"
proof -
  let ?E = "E\<lparr>perf_funs := deser_prog_funs c T\<rparr>" and ?P = "TYPE_tagged_union_PTR T"
  let ?S = "started ?E nt ta (r\<lparr>user := (user r)\<lparr>current_service := DESERIALIZE, ser_in := file_bytes h v1 v2\<rparr>\<rparr>)"
  obtain r1 where r1: "visit (Suc (Suc (Suc f))) ?E (intu g) ?P (intu g) ?S = Inr r1"
    "load64 (heap r1) (intu g) = v2" "held_in (heap r1) v2 (union_bytes h v1)" "load64 (heap r1) (charu g) = 0"
    "blocks r1 = (v2, 8) # blocks r" "separate (blocks r1)" "prog_types_ok ?E T (type_table_of r1)" "ptr_ok ?E T c (type_table_of r1)"
    "\<not> is_parallel r1" "pxform_mappings r1 = mapped v2 v2 (mapped v1 v2 [])" "ser_in (user r1) = bytes64 v2 @ union_bytes h v2"
    "queue_array r1 = queue_array ?S" "visit_all_registered_hash r1 = []"
    using first_root [OF P r v(1) p] by blast
  have f: "find_mapping v2 r1 = v2"
    unfolding find_mapping_def r1(10) using v by (simp add: mapped_def tbl_find_def tbl_add_def)
  have g: "(intu g, 8) \<in> set (blocks r)" "(charu g, 8) \<in> set (blocks r)" "intu g \<noteq> charu g" "charu g \<noteq> 0" "separate (blocks r)"
    using r(1) P by (simp_all add: new_process_def prog_ok_def)
  have "\<exists>n q. visit (Suc (Suc (Suc f))) ?E (charu g) ?P (charu g) r1
      = Inr (r1\<lparr>heap := store64 (heap r1) (charu g) v2, pxform_mappings := mapped v2 v2 (pxform_mappings r1),
          visitcalls := n, seen := q, user := (user r1)\<lparr>ser_in := union_bytes h v2\<rparr>\<rparr>)"
    by (rule read_again [OF r1(8) _ r1(9)]) (use g r1 v f in simp_all)
  then obtain n' q where v2: "visit (Suc (Suc (Suc f))) ?E (charu g) ?P (charu g) r1
      = Inr (r1\<lparr>heap := store64 (heap r1) (charu g) v2, pxform_mappings := mapped v2 v2 (pxform_mappings r1),
          visitcalls := n', seen := q, user := (user r1)\<lparr>ser_in := union_bytes h v2\<rparr>\<rparr>)" by blast
  have "(intu g, 8) \<in> set (remove1 (charu g, 8) (blocks r))" using g by auto
  then have "disjoint_blocks (intu g) 8 (charu g) 8"
    using apartD [OF separate_apart [OF g(5,2)]] disjoint_blocks_sym by blast
  then have k: "load64 (store64 (heap r1) (charu g) v2) (intu g) = v2" using r1(2) by (simp add: load64_store64_disjoint)
  have "disjoint_blocks v2 8 (charu g) 8" using apartD [of v2 8 "blocks r" "charu g" 8] p g(2) by (simp add: gives_def)
  then have "disjoint_blocks v2 (length (union_bytes h v1)) (charu g) 8"
    using length_union_bytes [of h v1] unfolding disjoint_blocks_def by (meson less_le_trans)
  then have "held_in (store64 (heap r1) (charu g) v2) v2 (union_bytes h v1)"
    using r1(3) by (simp add: held_in_def store64_def load_store_bytes_disjoint)
  then show ?thesis using deserialize_run [OF P r r1(1) v2, of n a0 a1 a2] r1 k held_union by auto
qed

subsection \<open>Properties\<close>

text \<open>
  The program of main.c: the types are \<open>int\<close>, \<open>char\<close>, \<open>struct tagged_union\<close> and the pointer to it, the
  globals are at 4096 and 4104. In the first process the objects are at 8192 (tag 1, value 9)
  and 12288 (tag 0, value \<open>'a'\<close>); in the second, \<open>malloc\<close> gives \<open>q\<close> and then 24576.
\<close>

definition fig_types :: prog_types where
  "fig_types = \<lparr>TYPE_STRUCT_tagged_union = 2, TYPE_tagged_union_PTR = 3, TYPE_INT_p = 0, TYPE_CHAR_p = 1\<rparr>"

definition fig_globals :: prog_globals where
  "fig_globals = \<lparr>intu = 4096, charu = 4104\<rparr>"

definition fig_config :: "addr \<Rightarrow> prog_user serial_config" where
  "fig_config q = \<lparr>TYPE_OPAQUE_PTR_i = 5, TYPE_CHAR_NT_i = 6, TYPE_CHAR_NT_PTR_i = 7,
     malloc_fn = (\<lambda>n s. let p = if length (blocks s) = 2 then q else 24576 in (p, s\<lparr>blocks := (p, unat n) # blocks s\<rparr>)), junk = 0\<rparr>"

definition fig_env :: "prog_user env" where
  "fig_env = \<lparr>perf_funs = ser_prog_funs (fig_config 0) fig_types,
     gen_arrays = \<lparr>sizes_array_len = 4, sizes_array = (\<lambda>t. if t = 0 then 4 else if t = 1 then 1 else 8),
       corresp_func_ptr_array = (\<lambda>_. Transform_prim), target_type_array = (\<lambda>t. if t = 3 then 2 else - 1),
       ptsto_type_array = (\<lambda>_. - 1), num_gen_args_arr = (\<lambda>_. 0), args_arr = (\<lambda>_. 0), main_types_array = (\<lambda>t. t),
       out_type_internal = (\<lambda>_. - 1)\<rparr>,
     cstrider_is_prim = (\<lambda>t. t = 0 \<or> t = 1), gen_transformer = (\<lambda>k vis inp out t s. Inr s), visitalls = [0],
     root_function = (\<lambda>f vis s. rbind (vis 4096 3 4096 s) (\<lambda>s. vis 4104 3 4104 s)),
     cstrider_register_init = (\<lambda>s. Inr (s\<lparr>name_to_addr_hash := [], addr_to_name_hash := []\<rparr>)), padding = []\<rparr>"

definition fig_writer :: pstate where
  "fig_writer = (start_state \<lparr>ser_out = [], ser_in = [], current_service = SERIALIZE, ser_txt = None\<rparr>)\<lparr>
     heap := store_bytes (store_bytes (store_bytes (\<lambda>_. 0) 4096 (bytes64 8192 @ bytes64 12288)) 8192 (bytes32 1 @ bytes32 9)) 12288 (bytes32 0 @ [97])\<rparr>"

definition fig_reader :: "byte list option \<Rightarrow> pstate" where
  "fig_reader txt = (start_state \<lparr>ser_out = [], ser_in = [], current_service = SERIALIZE, ser_txt = txt\<rparr>)\<lparr>blocks := [(4096, 8), (4104, 8)]\<rparr>"

lemma fig_ok: "prog_ok fig_env fig_types (fig_config q) fig_globals [] []"
proof -
  let ?tt = "cstrider_type_init (gen_arrays fig_env) []"
  have tt: "get_typeinfo_from_table ?tt 0 \<noteq> None \<and> get_typeinfo_from_table ?tt 1 \<noteq> None"
    "map_option (\<lambda>e. (size_of_entry e, arrlen e, target_type e, corresp_func_ptr e, type_of_entry e)) (get_typeinfo_from_table ?tt 0) = Some (4, 0, - 1, Transform_prim, 0)"
    "map_option (\<lambda>e. (size_of_entry e, arrlen e, target_type e, corresp_func_ptr e, type_of_entry e)) (get_typeinfo_from_table ?tt 1) = Some (1, 0, - 1, Transform_prim, 1)"
    "map_option (\<lambda>e. (size_of_entry e, arrlen e, target_type e, corresp_func_ptr e, type_of_entry e)) (get_typeinfo_from_table ?tt 2) = Some (8, 0, - 1, Transform_prim, 2)"
    "map_option (\<lambda>e. (size_of_entry e, arrlen e, target_type e, corresp_func_ptr e, type_of_entry e)) (get_typeinfo_from_table ?tt 3) = Some (8, 0, 2, Transform_prim, 3)"
    by code_simp+
  then have "prog_types_ok fig_env fig_types ?tt" "ptr_ok fig_env fig_types (fig_config q) ?tt"
    by (auto simp: prog_types_ok_def ptr_ok_def cstrider_get_size_def query_def fig_types_def fig_env_def fig_config_def
        memoized_is_ptr_def memoized_is_funptr_def memoized_is_array_def TYPE_FUNPTR_def)
  then show ?thesis by (simp add: prog_ok_def prog_generated_def fig_env_def fig_types_def fig_globals_def)
qed

lemma fig_writer_ok: "has_objects fig_writer fig_globals [] 8192 12288"
proof -
  have "load64 (heap fig_writer) 4096 = 8192" "load64 (heap fig_writer) 4104 = 12288" by code_simp+
  then show ?thesis
    by (simp add: has_objects_def fig_globals_def SER_SYMBOL_def tbl_find_def) (simp add: idle_def ready_def fig_writer_def start_state_def zero_queue_def)
qed

lemma fig_reader_ok: "new_process (fig_reader txt) fig_globals"
proof -
  have "disjoint_blocks 4096 8 4104 8" by (subst disjoint_blocks_sym) (rule disjoint_blocksI, simp_all)
  moreover have "load64 (heap (fig_reader txt)) a = 0" for a by (simp add: fig_reader_def start_state_def load64_def load_bytes_def of_bytes_def upt_rec)
  ultimately show ?thesis
    by (simp add: new_process_def fig_globals_def) (simp add: idle_def ready_def fig_reader_def start_state_def zero_queue_def apart_def)
qed

lemma fig_gives: "unat q \<ge> 8192 \<Longrightarrow> unat q < 20000 \<Longrightarrow> gives (fig_config q) (blocks (fig_reader txt)) q"
  "unat q \<ge> 8192 \<Longrightarrow> unat q < 20000 \<Longrightarrow> gives (fig_config q) ((q, 8) # blocks (fig_reader txt)) 24576"
proof -
  have d: "disjoint_blocks q 8 4096 8" "disjoint_blocks q 8 4104 8" if "unat q \<ge> 8192" "unat q < 20000" for q
    by (rule disjoint_blocksI; use that in simp)+
  have e: "disjoint_blocks 24576 8 4096 8" "disjoint_blocks 24576 8 4104 8" by (rule disjoint_blocksI; simp)+
  have k: "disjoint_blocks 24576 8 q 8" if "unat q < 20000" for q by (rule disjoint_blocksI) (use that in simp_all)
  show "unat q \<ge> 8192 \<Longrightarrow> unat q < 20000 \<Longrightarrow> gives (fig_config q) (blocks (fig_reader txt)) q"
    using d [of q] by (intro givesI) (auto simp: fig_config_def fig_reader_def apart_def)
  show "unat q \<ge> 8192 \<Longrightarrow> unat q < 20000 \<Longrightarrow> gives (fig_config q) ((q, 8) # blocks (fig_reader txt)) 24576"
    using e k [of q] by (intro givesI) (auto simp: fig_config_def fig_reader_def apart_def)
qed





end
