(* ===== verification/Profile.thy ===== *)
theory Profile
  imports Respects
begin

text \<open>
  The profiling services: src/examples/heap_profile/profile.c, which counts visits in
  global counters, and the service of src/examples/redis-2.0.2/profile.c, which counts the
  visits of every type in a table and writes the table to a file that
  src/examples/redis-2.0.2/logprinter.c prints. profile_tolog.c writes a record per visit
  instead. The types the services test for are parameters (generated numbers).
\<close>

subsection \<open>Counters\<close>

record profile_types =
  TYPE_INT_i :: ctyp
  TYPE_CHAR_i :: ctyp
  TYPE_baz_PTR_i :: ctyp
  TYPE_STRUCT__fptr_ll_PTR_i :: ctyp
  TYPE_STRUCT__fptr_ll_i :: ctyp
  TYPE_STRUCT_list_PTR_i :: ctyp
  TYPE_dummy_PTR_i :: ctyp
  TYPE_sds_i :: ctyp
  TYPE_STRUCT__dummy_i :: ctyp

record profile_counts =
  num_fptr_ll :: i32
  num_dummy :: i32
  num_sds :: i32
  num_int :: i32
  num_list :: i32
  num_ptr :: i32
  num_char :: i32
  num_fptr_ll_pointers :: i32
  num_dummy_dups :: i32
  printed :: "(string \<times> i32) list"

definition profile_init :: "profile_counts \<Rightarrow> profile_counts" where
  "profile_init c = c\<lparr>num_fptr_ll := 0, num_dummy := 0, num_sds := 0, num_int := 0, num_list := 0, num_ptr := 0,
     num_char := 0, num_fptr_ll_pointers := 0, num_dummy_dups := 0\<rparr>"

definition profile_free :: "profile_counts \<Rightarrow> profile_counts" where
  "profile_free c = c\<lparr>printed := printed c @
     [(''num_fptr_ll'', num_fptr_ll c), (''num_fptr_ll_pointers'', num_fptr_ll_pointers c), (''num_dummy'', num_dummy c),
      (''num_dummy_dups'', num_dummy_dups c), (''num_sds'', num_sds c), (''num_int'', num_int c), (''num_list'', num_list c),
      (''num_ptr'', num_ptr c), (''num_char'', num_char c)]\<rparr>"

definition on_user :: "('u \<Rightarrow> 'u) \<Rightarrow> 'u cstate \<Rightarrow> 'u cstate" where
  "on_user f s = s\<lparr>user := f (user s)\<rparr>"

text \<open>
  In \<open>struct baz\<close>, \<open>len\<close> is at offset 0 and \<open>stupid\<close> at offset 8.
\<close>

definition profile_ptr ::
    "profile_types \<Rightarrow> profile_counts visitor \<Rightarrow> addr \<Rightarrow> ctyp \<Rightarrow> addr \<Rightarrow> profile_counts cstate
       \<Rightarrow> (bool \<times> profile_counts cstate) result" where
  "profile_ptr T vis inp type out s =
     (let s = on_user (\<lambda>c. c\<lparr>num_ptr := num_ptr c + 1\<rparr>) s
      in if type = TYPE_baz_PTR_i T
         then let local_in = load64 (heap s) inp
              in rbind (vis local_in (TYPE_INT_i T) local_in s) (\<lambda>s.
                 rbind (vis (local_in + 8) (TYPE_STRUCT__fptr_ll_PTR_i T) (local_in + 8) s) (\<lambda>s. Inr (False, s)))
         else rbind (cstrider_get_maintype (type_table_of s) type) (\<lambda>m.
           let s = (if m = TYPE_STRUCT_list_PTR_i T then on_user (\<lambda>c. c\<lparr>num_list := num_list c + 1\<rparr>) s else s);
               s = (if type = TYPE_STRUCT__fptr_ll_PTR_i T
                    then on_user (\<lambda>c. c\<lparr>num_fptr_ll_pointers := num_fptr_ll_pointers c + 1\<rparr>) s else s)
           in Inr (True, s)))"

definition profile_ptr_mapped ::
    "profile_types \<Rightarrow> addr \<Rightarrow> ctyp \<Rightarrow> addr \<Rightarrow> profile_counts cstate \<Rightarrow> (addr \<times> profile_counts cstate) result" where
  "profile_ptr_mapped T inp type lookup s =
     (let s = (if type = TYPE_STRUCT__fptr_ll_PTR_i T
               then on_user (\<lambda>c. c\<lparr>num_fptr_ll_pointers := num_fptr_ll_pointers c + 1\<rparr>) s else s);
          s = (if type = TYPE_dummy_PTR_i T then on_user (\<lambda>c. c\<lparr>num_dummy_dups := num_dummy_dups c + 1\<rparr>) s else s)
      in Inr (lookup, s))"

definition profile_prim :: "profile_types \<Rightarrow> addr \<Rightarrow> ctyp \<Rightarrow> profile_counts cstate \<Rightarrow> profile_counts cstate result" where
  "profile_prim T inp type s =
     (let s = (if type = TYPE_CHAR_i T then on_user (\<lambda>c. c\<lparr>num_char := num_char c + 1\<rparr>) s else s);
          s = (if type = TYPE_INT_i T then on_user (\<lambda>c. c\<lparr>num_int := num_int c + 1\<rparr>) s else s)
      in Inr s)"

definition profile_struct ::
    "profile_types \<Rightarrow> addr \<Rightarrow> ctyp \<Rightarrow> addr \<Rightarrow> profile_counts cstate \<Rightarrow> (bool \<times> profile_counts cstate) result" where
  "profile_struct T inp type out s =
     (let s = (if type = TYPE_STRUCT__dummy_i T then on_user (\<lambda>c. c\<lparr>num_dummy := num_dummy c + 1\<rparr>) s else s);
          s = (if type = TYPE_STRUCT__fptr_ll_i T then on_user (\<lambda>c. c\<lparr>num_fptr_ll := num_fptr_ll c + 1\<rparr>) s else s);
          s = (if type = TYPE_sds_i T then on_user (\<lambda>c. c\<lparr>num_sds := num_sds c + 1\<rparr>) s else s)
      in Inr (True, s))"

definition profile_funs :: "profile_types \<Rightarrow> profile_counts traversal" where
  "profile_funs T = \<lparr>perfaction_prim = (\<lambda>vis inp type out. profile_prim T inp type),
     perfaction_struct = (\<lambda>vis. profile_struct T), perfaction_ptr = profile_ptr T,
     perfaction_ptr_mapped = (\<lambda>vis. profile_ptr_mapped T)\<rparr>"

subsection \<open>Counts per type\<close>

record type_count_entry =
  tce_count :: i32
  tce_isptr :: bool
  tce_size :: i32

text \<open>The table of counts, keyed by the type, and the file \<open>prof.txt\<close>.\<close>

record type_counts =
  type_counts_head :: "(ctyp, type_count_entry) table"
  prof :: "byte list"

definition prof_add_typ :: "ctyp \<Rightarrow> bool \<Rightarrow> i32 \<Rightarrow> type_counts \<Rightarrow> type_counts" where
  "prof_add_typ t isptr sz c =
     (case tbl_find t (type_counts_head c) of
        None \<Rightarrow> c\<lparr>type_counts_head := tbl_add t \<lparr>tce_count = 1, tce_isptr = isptr, tce_size = sz\<rparr> (type_counts_head c)\<rparr>
      | Some _ \<Rightarrow> c\<lparr>type_counts_head := tbl_modify t (\<lambda>e. e\<lparr>tce_count := tce_count e + 1\<rparr>) (type_counts_head c)\<rparr>)"

definition profwrite :: "i32 \<Rightarrow> ctyp \<Rightarrow> ctyp \<Rightarrow> i32 \<Rightarrow> type_counts \<Rightarrow> type_counts" where
  "profwrite c t tm sz p = p\<lparr>prof := prof p @ bytes32 c @ bytes64 t @ bytes64 tm @ bytes32 sz\<rparr>"

definition counts_init :: "type_counts \<Rightarrow> type_counts" where
  "counts_init c = c\<lparr>type_counts_head := tbl_add (- 1) \<lparr>tce_count = - 1, tce_isptr = False, tce_size = 0\<rparr> (type_counts_head c)\<rparr>"

definition counts_basetype :: "type_table \<Rightarrow> ctyp \<Rightarrow> bool \<Rightarrow> ctyp result" where
  "counts_basetype tt t isptr =
     rbind (cstrider_is_array tt t) (\<lambda>arr.
       if isptr
       then if arr then rbind (cstrider_get_ptrtype tt t) (cstrider_get_array_base_type tt)
            else rbind (cstrider_get_ptrtype tt t) (\<lambda>p.
                   if p \<noteq> - 1 then rbind (cstrider_get_ptrtype tt t) (cstrider_get_maintype tt)
                   else cstrider_get_maintype tt t)
       else if arr then cstrider_get_array_base_type tt t
            else rbind (cstrider_get_ptrtype tt t) (\<lambda>p. cstrider_get_maintype tt t))"

text \<open>The loop of \<open>profile_free\<close> over the entries, deleting each after it was written.\<close>

fun counts_write :: "type_table \<Rightarrow> (ctyp \<times> type_count_entry) list \<Rightarrow> type_counts \<Rightarrow> type_counts result" where
  "counts_write tt [] c = Inr c"
| "counts_write tt ((t, e) # es) c =
     (if t = - 1 then counts_write tt es (c\<lparr>type_counts_head := tbl_del t (type_counts_head c)\<rparr>)
      else rbind (counts_basetype tt t (tce_isptr e)) (\<lambda>basetype.
        let c = profwrite (tce_count e) t basetype (tce_size e) c
        in counts_write tt es (c\<lparr>type_counts_head := tbl_del t (type_counts_head c)\<rparr>)))"

definition counts_free :: "type_table \<Rightarrow> type_counts \<Rightarrow> type_counts result" where
  "counts_free tt c = counts_write tt (tbl_iter (type_counts_head c)) (c\<lparr>prof := []\<rparr>)"

text \<open>
  The callbacks work on any service state in which \<open>upd\<close> updates the table of counts.
\<close>

type_synonym 'u counts_upd = "(type_counts \<Rightarrow> type_counts) \<Rightarrow> 'u \<Rightarrow> 'u"

definition counts_ptr :: "'u counts_upd \<Rightarrow> addr \<Rightarrow> ctyp \<Rightarrow> addr \<Rightarrow> 'u cstate \<Rightarrow> (bool \<times> 'u cstate) result" where
  "counts_ptr upd inp type out s = Inr (True, on_user (upd (prof_add_typ type True 0)) s)"

definition counts_ptr_mapped :: "addr \<Rightarrow> ctyp \<Rightarrow> addr \<Rightarrow> 'u cstate \<Rightarrow> (addr \<times> 'u cstate) result" where
  "counts_ptr_mapped inp type lookup s = Inr (lookup, s)"

definition counts_prim :: "'u counts_upd \<Rightarrow> addr \<Rightarrow> ctyp \<Rightarrow> 'u cstate \<Rightarrow> 'u cstate result" where
  "counts_prim upd inp type s = Inr (on_user (upd (prof_add_typ type False 0)) s)"

definition counts_struct :: "'u counts_upd \<Rightarrow> addr \<Rightarrow> ctyp \<Rightarrow> addr \<Rightarrow> 'u cstate \<Rightarrow> (bool \<times> 'u cstate) result" where
  "counts_struct upd inp type out s =
     rbind (cstrider_get_size (type_table_of s) type) (\<lambda>sz. Inr (True, on_user (upd (prof_add_typ type False sz)) s))"

subsection \<open>A record per visit\<close>

definition tolog_write :: "i32 \<Rightarrow> 64 word \<Rightarrow> 64 word \<Rightarrow> byte list \<Rightarrow> byte list" where
  "tolog_write c t tm log = log @ bytes32 c @ bytes64 t @ bytes64 tm"

definition tolog_ptr :: "addr \<Rightarrow> ctyp \<Rightarrow> addr \<Rightarrow> byte list cstate \<Rightarrow> (bool \<times> byte list cstate) result" where
  "tolog_ptr inp type out s =
     (let tt = type_table_of s
      in rbind (cstrider_get_ptrtype tt type) (\<lambda>p.
           if p \<noteq> - 1
           then rbind (rbind (cstrider_get_ptrtype tt type) (cstrider_get_maintype tt)) (\<lambda>ptrtype.
                  Inr (True, on_user (tolog_write 1 type ptrtype) s))
           else Inr (True, on_user (tolog_write 2 type type) s)))"

definition tolog_prim :: "addr \<Rightarrow> ctyp \<Rightarrow> byte list cstate \<Rightarrow> byte list cstate result" where
  "tolog_prim inp type s = Inr (on_user (tolog_write 3 type type) s)"

definition tolog_struct :: "addr \<Rightarrow> ctyp \<Rightarrow> addr \<Rightarrow> byte list cstate \<Rightarrow> (bool \<times> byte list cstate) result" where
  "tolog_struct inp type out s =
     (let tt = type_table_of s
      in rbind (cstrider_get_ptrtype tt type) (\<lambda>p.
           if p \<noteq> - 1
           then rbind (cstrider_get_maintype tt type) (\<lambda>ptrtype. Inr (True, on_user (tolog_write 4 type ptrtype) s))
           else Inr (True, on_user (tolog_write 5 type type) s)))"

subsection \<open>Printing the file\<close>

text \<open>
  \<open>logprinter\<close>: \<open>feof\<close> becomes true only when a read meets the end of the file, so after the
  last record the loop runs once more, with the variables left as they were. A variable into
  which \<open>fread\<close> reads less than its size keeps the rest of its bytes.
\<close>

record log_vars =
  lp_count :: i32
  lp_typ :: "64 word"
  lp_maintyp :: "64 word"
  lp_sz :: i32
  lp_total :: i32
  lp_lines :: "(64 word \<times> 64 word option \<times> i32 \<times> i32) list"

definition read_into32 :: "i32 \<Rightarrow> byte list \<Rightarrow> i32 \<times> byte list \<times> bool" where
  "read_into32 old f = (of_bytes (take 4 f @ drop (length f) (bytes32 old)), drop 4 f, length f < 4)"

definition read_into64 :: "64 word \<Rightarrow> byte list \<Rightarrow> 64 word \<times> byte list \<times> bool" where
  "read_into64 old f = (of_bytes (take 8 f @ drop (length f) (bytes64 old)), drop 8 f, length f < 8)"

definition log_round :: "byte list \<Rightarrow> log_vars \<Rightarrow> log_vars \<times> byte list \<times> bool" where
  "log_round f v =
     (let (c, f, e1) = read_into32 (lp_count v) f;
          (t, f, e2) = read_into64 (lp_typ v) f;
          (m, f, e3) = read_into64 (lp_maintyp v) f;
          (z, f, e4) = read_into32 (lp_sz v) f;
          line = (t, if t \<noteq> m then Some m else None, c, c * z)
      in (\<lparr>lp_count = c, lp_typ = t, lp_maintyp = m, lp_sz = z, lp_total = lp_total v + c * z,
           lp_lines = lp_lines v @ [line]\<rparr>, f, e1 \<or> e2 \<or> e3 \<or> e4))"

function logprinter :: "byte list \<Rightarrow> log_vars \<Rightarrow> log_vars" where
  "logprinter f v = (let (v, f', eof) = log_round f v in if eof then v else logprinter f' v)"
  by pat_completeness auto

termination
proof (relation "measure (\<lambda>(f, v). length f)")
  fix f v x v' y f' eof
  assume "x = log_round f v" "(v', y) = x" "(f', eof) = y" "\<not> eof"
  then show "((f', v'), (f, v)) \<in> measure (\<lambda>(f, v). length f)"
    by (auto simp: log_round_def read_into32_def read_into64_def Let_def)
qed simp

subsection \<open>The counters count the visits\<close>

definition visits :: "ctyp \<Rightarrow> 'u cstate \<Rightarrow> i32" where
  "visits t s = of_nat (count_list (map snd (seen s)) t)"

text \<open>
  How far the counters are ahead of the visits, and what a sequential traversal keeps beside.
\<close>

definition tracked :: "profile_types \<Rightarrow> profile_counts cstate \<Rightarrow> i32 list \<times> type_state \<times> bool" where
  "tracked T s = ([num_int (user s) - visits (TYPE_INT_i T) s, num_char (user s) - visits (TYPE_CHAR_i T) s,
      num_dummy (user s) - visits (TYPE_STRUCT__dummy_i T) s, num_fptr_ll (user s) - visits (TYPE_STRUCT__fptr_ll_i T) s,
      num_sds (user s) - visits (TYPE_sds_i T) s], tstate s, is_parallel s)"

text \<open>The counted types are what their names say, in the table of types of the state.\<close>

definition is_struct_type :: "'u env \<Rightarrow> type_table \<Rightarrow> ctyp \<Rightarrow> bool" where
  "is_struct_type E tt t \<longleftrightarrow> \<not> cstrider_is_prim E t
     \<and> (\<exists>e. get_typeinfo_from_table tt t = Some e \<and> \<not> memoized_is_ptr e \<and> \<not> memoized_is_array e)"

definition types_ok :: "'u env \<Rightarrow> profile_types \<Rightarrow> 'v cstate \<Rightarrow> bool" where
  "types_ok E T s \<longleftrightarrow> \<not> is_parallel s \<and> cstrider_is_prim E (TYPE_INT_i T) \<and> cstrider_is_prim E (TYPE_CHAR_i T)
     \<and> is_struct_type E (type_table_of s) (TYPE_STRUCT__dummy_i T) \<and> is_struct_type E (type_table_of s) (TYPE_STRUCT__fptr_ll_i T)
     \<and> is_struct_type E (type_table_of s) (TYPE_sds_i T)"

definition tracks :: "'u env \<Rightarrow> profile_types \<Rightarrow> profile_counts cstate \<Rightarrow> profile_counts cstate \<Rightarrow> bool" where
  "tracks E T s s' \<longleftrightarrow> (types_ok E T s \<longrightarrow> tracked T s' = tracked T s)"

lemma types_ok_tracked: "tracked T s' = tracked T s \<Longrightarrow> types_ok E T' s' = types_ok E T' s"
  by (simp add: tracked_def types_ok_def)

lemma tracks_refl [simp]: "tracks E T s s"
  by (simp add: tracks_def)

lemma tracks_trans: "tracks E T s s' \<Longrightarrow> tracks E T s' s'' \<Longrightarrow> tracks E T s s''"
  unfolding tracks_def using types_ok_tracked by metis

lemma tracks_frame: "tracked T s' = tracked T s \<Longrightarrow> tracks E T s s'"
  by (simp add: tracks_def)

lemma tracked_frame [simp]:
  "tracked T (s\<lparr>heap := h\<rparr>) = tracked T s" "tracked T (s\<lparr>queue_array := q\<rparr>) = tracked T s"
  "tracked T (s\<lparr>pxform_mappings := m\<rparr>) = tracked T s" "tracked T (s\<lparr>map_held := l\<rparr>) = tracked T s"
  "tracked T (s\<lparr>visitcalls := n\<rparr>) = tracked T s"
  by (simp_all add: tracked_def visits_def)

lemma tracked_runtime [simp]:
  "tracked T (add_mapping i v s) = tracked T s" "tracked T (transform_map_wrlock i s) = tracked T s"
  "tracked T (transform_map_unlock i s) = tracked T s"
  by (simp_all add: add_mapping_def transform_map_wrlock_def transform_map_unlock_def)

lemma tracked_untracked [simp]:
  "tracked T (on_user (\<lambda>c. c\<lparr>num_ptr := num_ptr c + 1\<rparr>) s) = tracked T s"
  "tracked T (on_user (\<lambda>c. c\<lparr>num_list := num_list c + 1\<rparr>) s) = tracked T s"
  "tracked T (on_user (\<lambda>c. c\<lparr>num_fptr_ll_pointers := num_fptr_ll_pointers c + 1\<rparr>) s) = tracked T s"
  "tracked T (on_user (\<lambda>c. c\<lparr>num_dummy_dups := num_dummy_dups c + 1\<rparr>) s) = tracked T s"
  by (simp_all add: tracked_def on_user_def visits_def)

lemma profile_ptr_tracks:
  assumes v: "keeps (tracks E T) vis" and p: "profile_ptr T vis a t b s = Inr (r, s')"
  shows "tracks E T s s'"
proof -
  let ?s = "on_user (\<lambda>c. c\<lparr>num_ptr := num_ptr c + 1\<rparr>) s"
  have 1: "tracks E T s ?s" by (rule tracks_frame) simp
  show ?thesis
  proof (cases "t = TYPE_baz_PTR_i T")
    case True
    then obtain s1 where "vis (load64 (heap ?s) a) (TYPE_INT_i T) (load64 (heap ?s) a) ?s = Inr s1"
      "vis (load64 (heap ?s) a + 8) (TYPE_STRUCT__fptr_ll_PTR_i T) (load64 (heap ?s) a + 8) s1 = Inr s'"
      using p by (auto simp: profile_ptr_def Let_def rbind_def split: sum.splits)
    then have "tracks E T ?s s1" "tracks E T s1 s'" using keepsD [OF v] by blast+
    then show ?thesis using 1 tracks_trans by blast
  next
    case False
    have "tracked T s' = tracked T s"
      using p False by (auto simp: profile_ptr_def Let_def rbind_def split: sum.splits if_splits)
    then show ?thesis by (rule tracks_frame)
  qed
qed

lemma profile_ptr_mapped_tracks: "profile_ptr_mapped T a t l s = Inr (l', s') \<Longrightarrow> tracked T s' = tracked T s"
  by (auto simp: profile_ptr_mapped_def Let_def split: if_splits)

text \<open>A visit of a type that is not counted, of a primitive type and of a structure.\<close>

lemma noted_uncounted:
  assumes "t \<notin> {TYPE_INT_i T, TYPE_CHAR_i T, TYPE_STRUCT__dummy_i T, TYPE_STRUCT__fptr_ll_i T, TYPE_sds_i T}"
  shows "tracked T (note_visit a t s) = tracked T s"
  using assms by (simp add: tracked_def note_visit_def visits_def)

lemma profile_prim_tracks:
  assumes "profile_prim T a t (note_visit a t s) = Inr s'"
    and "t \<notin> {TYPE_STRUCT__dummy_i T, TYPE_STRUCT__fptr_ll_i T, TYPE_sds_i T}"
  shows "tracked T s' = tracked T s"
  using assms by (auto simp: profile_prim_def note_visit_def Let_def on_user_def tracked_def visits_def split: if_splits)

lemma profile_struct_tracks:
  assumes "profile_struct T a t b (note_visit a t s) = Inr (r, s')"
    and "t \<notin> {TYPE_INT_i T, TYPE_CHAR_i T}"
  shows "tracked T s' = tracked T s"
  using assms by (auto simp: profile_struct_def note_visit_def Let_def on_user_def tracked_def visits_def split: if_splits)

interpretation counting: visit_relation "G\<lparr>perf_funs := profile_funs T\<rparr>" "tracks G T" for G :: "profile_counts env" and T
proof unfold_locales
  fix s s' :: "profile_counts cstate" and a b l l' :: addr and t r and vis :: "profile_counts visitor"
  assume v: "keeps (tracks G T) vis"
  show "tracks G T s s'" if "perfaction_ptr (perf_funs (G\<lparr>perf_funs := profile_funs T\<rparr>)) vis a t b s = Inr (r, s')"
    using that profile_ptr_tracks [OF v] by (simp add: profile_funs_def)
  show "tracks G T s (s'\<lparr>heap := store64 (heap s') b l'\<rparr>)"
    if "perfaction_ptr_mapped (perf_funs (G\<lparr>perf_funs := profile_funs T\<rparr>)) vis a t l s = Inr (l', s')"
    using that profile_ptr_mapped_tracks by (intro tracks_frame) (simp add: profile_funs_def)
  show "tracks G T s s'" if "cstrider_is_prim (G\<lparr>perf_funs := profile_funs T\<rparr>) t"
    "perfaction_prim (perf_funs (G\<lparr>perf_funs := profile_funs T\<rparr>)) vis a t b (note_visit a t s) = Inr s'"
    using that profile_prim_tracks [of T a t s s']
    by (auto simp: tracks_def types_ok_def is_struct_type_def profile_funs_def)
  show "tracks G T s s'" if "\<not> cstrider_is_prim (G\<lparr>perf_funs := profile_funs T\<rparr>) t"
    "perfaction_struct (perf_funs (G\<lparr>perf_funs := profile_funs T\<rparr>)) vis a t b (note_visit a t s) = Inr (r, s')"
    using that profile_struct_tracks [of T a t b s r s'] by (auto simp: tracks_def types_ok_def profile_funs_def)
next
  fix s :: "profile_counts cstate" and a t ti
  assume "\<not> cstrider_is_prim (G\<lparr>perf_funs := profile_funs T\<rparr>) t" "get_typeinfo_from_table (type_table_of s) t = Some ti"
    "memoized_is_ptr ti \<or> memoized_is_array ti"
  then show "tracks G T s (note_visit a t s)"
    unfolding tracks_def by (intro impI noted_uncounted) (auto simp: types_ok_def is_struct_type_def)
next
  fix s s' :: "profile_counts cstate" assume "is_parallel s"
  then show "tracks G T s s'" by (simp add: tracks_def types_ok_def)
qed (auto intro: tracks_trans tracks_frame)

subsection \<open>The file of counts\<close>

text \<open>The table after a list of calls of \<open>prof_add_typ\<close>, newest type first, before the seed.\<close>

type_synonym prof_call = "ctyp \<times> bool \<times> i32"

definition run_calls :: "prof_call list \<Rightarrow> type_counts \<Rightarrow> type_counts" where
  "run_calls calls c = foldl (\<lambda>c (t, isptr, sz). prof_add_typ t isptr sz c) c calls"

definition calls_entry :: "prof_call list \<Rightarrow> ctyp \<Rightarrow> type_count_entry" where
  "calls_entry calls t = \<lparr>tce_count = of_nat (count_list (map fst calls) t),
     tce_isptr = fst (the (map_of calls t)), tce_size = snd (the (map_of calls t))\<rparr>"

definition first_calls :: "prof_call list \<Rightarrow> ctyp list" where
  "first_calls calls = rev (remdups (rev (map fst calls)))"

definition seed_entry :: type_count_entry where
  "seed_entry = \<lparr>tce_count = - 1, tce_isptr = False, tce_size = 0\<rparr>"

lemma tbl_modify_map:
  "distinct ks \<Longrightarrow> k \<in> set ks \<Longrightarrow>
     tbl_modify k f (map (\<lambda>j. (j, g j)) ks @ r) = map (\<lambda>j. (j, if j = k then f (g j) else g j)) ks @ r"
  by (induction ks) auto

lemma tbl_find_map: "tbl_find k (map (\<lambda>j. (j, g j)) ks @ r) = (if k \<in> set ks then Some (g k) else tbl_find k r)"
  by (induction ks) (auto simp: tbl_find_def)

lemma run_calls_table:
  assumes "\<forall>(t, p) \<in> set calls. t \<noteq> - 1" "type_counts_head c = []"
  shows "type_counts_head (run_calls calls (counts_init c))
    = map (\<lambda>t. (t, calls_entry calls t)) (rev (first_calls calls)) @ [(- 1, seed_entry)]"
  using assms(1)
proof (induction calls rule: rev_induct)
  case Nil
  then show ?case using assms(2)
    by (simp add: run_calls_def first_calls_def counts_init_def tbl_add_def seed_entry_def)
next
  case (snoc x calls)
  obtain t p z where x: "x = (t, p, z)" by (cases x)
  let ?c = "run_calls calls (counts_init c)" and ?ks = "remdups (rev (map fst calls))"
  have IH: "type_counts_head ?c = map (\<lambda>t. (t, calls_entry calls t)) ?ks @ [(- 1, seed_entry)]"
    using snoc by (simp add: first_calls_def)
  have t: "t \<noteq> - 1" using snoc.prems x by auto
  have run: "run_calls (calls @ [x]) (counts_init c) = prof_add_typ t p z ?c" by (simp add: run_calls_def x)
  have other: "calls_entry (calls @ [x]) u = calls_entry calls u" if "u \<noteq> t" for u
    using that by (simp add: calls_entry_def x map_add_def split: option.split)
  show ?case
  proof (cases "t \<in> fst ` set calls")
    case True
    then obtain pz where "map_of calls t = Some pz" using map_of_eq_None_iff [of calls t] by fastforce
    then have e: "calls_entry (calls @ [x]) t = (calls_entry calls t)\<lparr>tce_count := tce_count (calls_entry calls t) + 1\<rparr>"
      by (simp add: calls_entry_def x)
    have "first_calls (calls @ [x]) = first_calls calls" using True by (simp add: first_calls_def x)
    moreover have "tbl_find t (type_counts_head ?c) = Some (calls_entry calls t)"
      using True unfolding IH tbl_find_map by simp
    moreover have "t \<in> set ?ks" using True by simp
    ultimately show ?thesis unfolding run
      by (simp add: prof_add_typ_def IH tbl_modify_map first_calls_def e other)
  next
    case False
    have "map_of calls t = None" using False by (simp add: map_of_eq_None_iff)
    moreover have "count_list (map fst calls) t = 0" using False by (auto simp: count_list_0_iff)
    ultimately have e: "calls_entry (calls @ [x]) t = \<lparr>tce_count = 1, tce_isptr = p, tce_size = z\<rparr>"
      by (simp add: calls_entry_def x map_add_def)
    have n: "tbl_find t (type_counts_head ?c) = None" using False t unfolding IH tbl_find_map by (auto simp: tbl_find_def)
    have o: "map (\<lambda>u. (u, calls_entry (calls @ [x]) u)) ?ks = map (\<lambda>u. (u, calls_entry calls u)) ?ks"
      using False other by (auto intro!: map_cong) (metis fst_conv image_eqI)
    have k: "rev (first_calls (calls @ [x])) = t # ?ks" using False by (auto simp: first_calls_def x)
    show ?thesis using n unfolding run k by (simp add: prof_add_typ_def tbl_add_def e o IH)
  qed
qed

definition log_record :: "(ctyp \<Rightarrow> ctyp) \<Rightarrow> ctyp \<times> type_count_entry \<Rightarrow> byte list" where
  "log_record base te = bytes32 (tce_count (snd te)) @ bytes64 (fst te) @ bytes64 (base (fst te)) @ bytes32 (tce_size (snd te))"

lemma counts_write_log:
  "\<forall>(t, e) \<in> set es. t \<noteq> - 1 \<and> counts_basetype tt t (tce_isptr e) = Inr (base t) \<Longrightarrow>
     counts_write tt es c = Inr (c\<lparr>prof := prof c @ concat (map (log_record base) es),
       type_counts_head := foldl (\<lambda>tb (k, _). tbl_del k tb) (type_counts_head c) es\<rparr>)"
proof (induction es arbitrary: c)
  case (Cons x es)
  obtain t e where x: "x = (t, e)" by (cases x)
  have "counts_basetype tt t (tce_isptr e) = Inr (base t)" "t \<noteq> - 1" using Cons.prems x by auto
  then show ?case using Cons by (simp add: x rbind_def Let_def profwrite_def log_record_def)
qed simp

definition log_line :: "(ctyp \<Rightarrow> ctyp) \<Rightarrow> ctyp \<times> type_count_entry \<Rightarrow> 64 word \<times> 64 word option \<times> i32 \<times> i32" where
  "log_line base te = (fst te, if fst te \<noteq> base (fst te) then Some (base (fst te)) else None,
     tce_count (snd te), tce_count (snd te) * tce_size (snd te))"

definition line_size :: "64 word \<times> 64 word option \<times> i32 \<times> i32 \<Rightarrow> i32" where
  "line_size l = snd (snd (snd l))"

lemma log_round_record:
  "log_round (log_record base te @ f) v =
     (\<lparr>lp_count = tce_count (snd te), lp_typ = fst te, lp_maintyp = base (fst te), lp_sz = tce_size (snd te),
       lp_total = lp_total v + line_size (log_line base te), lp_lines = lp_lines v @ [log_line base te]\<rparr>, f, False)"
  by (simp add: log_round_def read_into32_def read_into64_def log_record_def log_line_def line_size_def)

lemma log_round_eof:
  "log_round [] v = (v\<lparr>lp_total := lp_total v + lp_count v * lp_sz v,
     lp_lines := lp_lines v @ [(lp_typ v, if lp_typ v \<noteq> lp_maintyp v then Some (lp_maintyp v) else None, lp_count v, lp_count v * lp_sz v)]\<rparr>,
     [], True)"
  by (simp add: log_round_def read_into32_def read_into64_def)

lemma logprinter_records:
  "es \<noteq> [] \<Longrightarrow> let ls = map (log_line base) es; v' = logprinter (concat (map (log_record base) es)) v
     in lp_lines v' = lp_lines v @ ls @ [last ls] \<and> lp_total v' = lp_total v + sum_list (map line_size ls) + line_size (last ls)"
proof (induction es arbitrary: v)
  case (Cons te es)
  show ?case
  proof (cases "es = []")
    case True
    have "logprinter [] u = fst (log_round [] u)" for u by (subst logprinter.simps) (simp add: log_round_eof)
    then show ?thesis using True log_round_record [of base te "[]" v]
      by (simp add: Let_def log_round_eof log_line_def line_size_def)
  next
    case False
    then show ?thesis using Cons.IH [OF False]
      by (simp add: log_round_record Let_def ac_simps del: logprinter.simps add: logprinter.simps [of "log_record base te @ _"])
  qed
qed simp

subsection \<open>Properties\<close>

text \<open>
  The counters of the profiling service are right: after the counters were reset by
  \<open>profile_init\<close>, a sequential visit followed by the work of the queue leaves in \<open>num_int\<close>,
  \<open>num_char\<close>, \<open>num_dummy\<close>, \<open>num_fptr_ll\<close> and \<open>num_sds\<close> how often \<open>visit\<close> was called with
  the type of that name (modulo $2^{32}$), whatever the traversed memory looks like, and
  does not change the table of types.
\<close>

theorem profile_counts_visits:
  assumes "perf_funs E = profile_funs T" "only_visits E" "types_ok E T s"
    and "user s = profile_init c" "seen s = []"
    and "rbind (visit fuel E a t b s) (process_loop rounds E (visit fuel E)) = Inr s'"
  shows "num_int (user s') = visits (TYPE_INT_i T) s' \<and> num_char (user s') = visits (TYPE_CHAR_i T) s'
    \<and> num_dummy (user s') = visits (TYPE_STRUCT__dummy_i T) s' \<and> num_fptr_ll (user s') = visits (TYPE_STRUCT__fptr_ll_i T) s'
    \<and> num_sds (user s') = visits (TYPE_sds_i T) s' \<and> type_table_of s' = type_table_of s"
proof -
  have "E\<lparr>perf_funs := profile_funs T\<rparr> = E" using assms(1) by simp
  then have "tracks E T s s'" using counting.run_keeps [where G = E and T = T and fuel = fuel and a = a and t = t and b = b and s = s and n = rounds and s' = s'] assms(2,6) by simp
  then have "tracked T s' = tracked T s" using assms(3) by (simp add: tracks_def)
  then show ?thesis using assms(4,5) by (simp add: tracked_def visits_def profile_init_def)
qed

text \<open>
  The example: types 0 (\<open>int\<close>), 1 (\<open>struct dummy\<close>, two \<open>int\<close> fields and a pointer to itself),
  2 (the pointer), 3 and 4 (the other two structures) and 5 (\<open>char\<close>).
\<close>

definition profile_example_types :: profile_types where
  "profile_example_types = \<lparr>TYPE_INT_i = 0, TYPE_CHAR_i = 5, TYPE_baz_PTR_i = 90, TYPE_STRUCT__fptr_ll_PTR_i = 91,
     TYPE_STRUCT__fptr_ll_i = 3, TYPE_STRUCT_list_PTR_i = 92, TYPE_dummy_PTR_i = 2, TYPE_sds_i = 4, TYPE_STRUCT__dummy_i = 1\<rparr>"

definition profile_example_env :: "profile_counts env" where
  "profile_example_env = \<lparr>perf_funs = profile_funs profile_example_types, gen_arrays = example_arrays,
     cstrider_is_prim = (\<lambda>t. t = 0 \<or> t = 5),
     gen_transformer = (\<lambda>k vis inp out t s. rbind (vis inp 0 out s) (\<lambda>s. rbind (vis (inp + 4) 0 (out + 4) s)
        (vis (inp + 8) 2 (out + 8)))),
     visitalls = [], root_function = (\<lambda>f vis s. Inr s), cstrider_register_init = (\<lambda>s. Inr s), padding = []\<rparr>"

definition profile_example_state :: "profile_counts cstate" where
  "profile_example_state = launch_helpers ((start_state (profile_init \<lparr>num_fptr_ll = 9, num_dummy = 9, num_sds = 9, num_int = 9,
        num_list = 9, num_ptr = 9, num_char = 9, num_fptr_ll_pointers = 9, num_dummy_dups = 9, printed = []\<rparr>))
      \<lparr>tstate := \<lparr>type_hashtbl = [(1, (example_entry 1 (- 1))\<lparr>corresp_func_ptr := Generated 0\<rparr>), (2, example_entry 2 1), (3, example_entry 3 (- 1)),
         (4, example_entry 4 (- 1))], held = (\<lambda>_. 0)\<rparr>\<rparr>)"

lemma profile_example_only_visits: "only_visits profile_example_env"
  unfolding only_visits_def
proof (intro allI impI)
  fix k and vis :: "profile_counts visitor" and R :: "profile_counts cstate \<Rightarrow> profile_counts cstate \<Rightarrow> bool" and a b t s s'
  assume R: "transp R" and v: "keeps R vis" and g: "gen_transformer profile_example_env k vis a b t s = Inr s'"
  obtain s1 s2 where "vis a 0 b s = Inr s1" "vis (a + 4) 0 (b + 4) s1 = Inr s2" "vis (a + 8) 2 (b + 8) s2 = Inr s'"
    using g by (auto simp: profile_example_env_def rbind_def split: sum.splits)
  then have "R s s1" "R s1 s2" "R s2 s'" using keepsD [OF v] by blast+
  then show "R s s'" using transpD [OF R] by blast
qed

lemma profile_example_runs:
  "\<exists>s'. rbind (visit 5 profile_example_env 8192 1 8192 profile_example_state)
     (process_loop 5 profile_example_env (visit 5 profile_example_env)) = Inr s' \<and> visits 0 s' = 2"
proof -
  have "case rbind (visit 5 profile_example_env 8192 1 8192 profile_example_state)
     (process_loop 5 profile_example_env (visit 5 profile_example_env)) of Inr s' \<Rightarrow> visits 0 s' = 2 | Inl _ \<Rightarrow> False"
    by code_simp
  then show ?thesis by (auto split: sum.splits)
qed

theorem profile_counts_visits_witness:
  "\<exists>s'. rbind (visit 5 profile_example_env 8192 1 8192 profile_example_state)
      (process_loop 5 profile_example_env (visit 5 profile_example_env)) = Inr s'
     \<and> num_int (user s') = 2"
proof -
  let ?T = profile_example_types
  obtain s' where r: "rbind (visit 5 profile_example_env 8192 1 8192 profile_example_state)
      (process_loop 5 profile_example_env (visit 5 profile_example_env)) = Inr s'" and two: "visits 0 s' = 2"
    using profile_example_runs by blast
  have "types_ok profile_example_env ?T profile_example_state"
    by (simp add: types_ok_def is_struct_type_def profile_example_env_def profile_example_types_def profile_example_state_def
        launch_helpers_def Let_def start_state_def get_typeinfo_from_table_def tbl_find_def example_entry_def
        memoized_is_ptr_def memoized_is_array_def TYPE_FUNPTR_def)
  then have "num_int (user s') = visits (TYPE_INT_i ?T) s'"
    using profile_counts_visits [OF _ profile_example_only_visits _ _ _ r]
    by (simp add: profile_example_env_def profile_example_state_def launch_helpers_def Let_def start_state_def)
  then show ?thesis using r two by (auto simp: profile_example_types_def)
qed

text \<open>
  The table of counts, from the seed of \<open>profile_init\<close> over any sequence of counted
  visits to \<open>profile_free\<close>, and the program that prints the file agree: all entries are
  deleted, and \<open>logprinter\<close> prints for each visited type, in the order of the first visits, how
  often it was visited, its base type and the count times the size; but it prints the line of
  the last type twice, and counts it twice in the total.
\<close>

theorem profile_log_correct:
  assumes "\<forall>(t, p) \<in> set calls. t \<noteq> - 1" "type_counts_head c = []" "calls \<noteq> []"
    and "\<forall>t \<in> fst ` set calls. counts_basetype tt t (fst (the (map_of calls t))) = Inr (base t)"
  shows "\<exists>c'. counts_free tt (run_calls calls (counts_init c)) = Inr c' \<and> type_counts_head c' = []
    \<and> (let lines = map (\<lambda>t. log_line base (t, calls_entry calls t)) (first_calls calls); v' = logprinter (prof c') v
       in lp_lines v' = lp_lines v @ lines @ [last lines]
        \<and> lp_total v' = lp_total v + sum_list (map line_size lines) + line_size (last lines))"
proof -
  let ?c = "run_calls calls (counts_init c)" and ?es = "map (\<lambda>t. (t, calls_entry calls t)) (first_calls calls)"
  let ?log = "concat (map (log_record base) ?es)"
  have it: "tbl_iter (type_counts_head ?c) = (- 1, seed_entry) # ?es"
    unfolding tbl_iter_def run_calls_table [OF assms(1,2)] by (simp add: rev_map [symmetric])
  have "\<forall>(t, e) \<in> set ?es. t \<noteq> - 1 \<and> counts_basetype tt t (tce_isptr e) = Inr (base t)"
    using assms(1,4) by (auto simp: first_calls_def calls_entry_def)
  note w = counts_write_log [OF this]
  have "counts_free tt ?c = Inr (?c\<lparr>prof := ?log,
      type_counts_head := foldl (\<lambda>tb (k, _). tbl_del k tb) (type_counts_head ?c) (tbl_iter (type_counts_head ?c))\<rparr>)"
    unfolding counts_free_def it by (simp add: w)
  then have f: "counts_free tt ?c = Inr (?c\<lparr>prof := ?log, type_counts_head := []\<rparr>)" by (simp add: tbl_del_iter)
  have ne: "?es \<noteq> []" using assms(3) by (simp add: first_calls_def)
  show ?thesis using logprinter_records [OF ne, of base v] unfolding f by (simp add: Let_def comp_def del: logprinter.simps)
qed

theorem profile_log_correct_witness:
  "\<exists>c'. counts_free (type_hashtbl example_state)
      (run_calls [(1 :: ctyp, False, 16 :: i32), (0, False, 0), (1, False, 16)] (counts_init \<lparr>type_counts_head = [], prof = []\<rparr>)) = Inr c'
     \<and> lp_lines (logprinter (prof c') \<lparr>lp_count = 0, lp_typ = 0, lp_maintyp = 0, lp_sz = 0, lp_total = 0, lp_lines = []\<rparr>)
        = [(1, None, 2, 32), (0, None, 1, 0), (0, None, 1, 0)]"
proof -
  have "\<forall>t \<in> fst ` set [(1 :: ctyp, False, 16 :: i32), (0, False, 0), (1, False, 16)].
      counts_basetype (type_hashtbl example_state) t (fst (the (map_of [(1 :: ctyp, False, 16 :: i32), (0, False, 0), (1, False, 16)] t))) = Inr (id t)"
    by (auto simp: counts_basetype_def example_state_def example_entry_def rbind_def cstrider_is_array_def cstrider_get_ptrtype_def
        cstrider_get_maintype_def query_def get_typeinfo_from_table_def tbl_find_def)
  note p = profile_log_correct [OF _ _ _ this, of "\<lparr>type_counts_head = [], prof = []\<rparr>"
      "\<lparr>lp_count = 0, lp_typ = 0, lp_maintyp = 0, lp_sz = 0, lp_total = 0, lp_lines = []\<rparr>"]
  show ?thesis using p by (auto simp: first_calls_def calls_entry_def log_line_def Let_def simp del: logprinter.simps)
qed

end
