(* ===== verification/Sds.thy ===== *)
theory Sds
  imports Blocks
begin

text \<open>
  The strings of src/examples/redis-2.0.2/sds.c and the allocation functions of zmalloc.c
  under them. A string is a pointer to its bytes; in front of them are a length (at -16) and
  the number of unused bytes (at -8), behind them a zero byte. \<open>malloc\<close> and \<open>realloc\<close> are
  parameters; \<open>free\<close> is recorded in the field \<open>freed\<close>. \<open>sdscatprintf\<close>, which formats with
  \<open>vsnprintf\<close>, is not modelled, and neither are the functions behind \<open>sdscmp\<close>.
\<close>

subsection \<open>Allocation\<close>

definition zmalloc :: "'u allocator \<Rightarrow> 64 word \<Rightarrow> 'u cstate \<Rightarrow> addr \<times> 'u cstate" where
  "zmalloc A n st = malloc_c A n st"

definition zrealloc :: "'u allocator \<Rightarrow> addr \<Rightarrow> 64 word \<Rightarrow> 'u cstate \<Rightarrow> addr \<times> 'u cstate" where
  "zrealloc A p n st = realloc_c A p n st"

definition zfree :: "addr \<Rightarrow> 'u cstate \<Rightarrow> 'u cstate" where
  "zfree p st = st\<lparr>freed := freed st @ [p]\<rparr>"

subsection \<open>Making strings\<close>

definition sizeof_sdshdr :: "64 word" where
  "sizeof_sdshdr = 16"

definition sdsnewlen :: "'u allocator \<Rightarrow> addr \<Rightarrow> 64 word \<Rightarrow> 'u cstate \<Rightarrow> (addr \<times> 'u cstate) result" where
  "sdsnewlen A init initlen st =
     (let (sh, st) = zmalloc A (sizeof_sdshdr + initlen + 1) st
      in if sh = 0 then Inl Aborted
         else
           let h = store64 (heap st) sh initlen;
               h = store64 h (sh + 8) 0;
               h = (if initlen \<noteq> 0
                    then if init \<noteq> 0 then store_bytes h (sh + 16) (load_bytes h init (unat initlen))
                         else store_bytes h (sh + 16) (replicate (unat initlen) 0)
                    else h);
               h = h(sh + 16 + initlen := 0)
           in Inr (sh + 16, st\<lparr>heap := h\<rparr>))"

text \<open>\<open>sdsempty\<close>: the address of the empty literal is not used when the length is zero.\<close>

definition sdsempty :: "'u allocator \<Rightarrow> 'u cstate \<Rightarrow> (addr \<times> 'u cstate) result" where
  "sdsempty A st = sdsnewlen A 0 0 st"

definition sdsnew :: "'u allocator \<Rightarrow> addr \<Rightarrow> 'u cstate \<Rightarrow> (addr \<times> 'u cstate) result" where
  "sdsnew A init st =
     (case if init = 0 then Some 0 else c_strlen (heap st) init 0 of
        None \<Rightarrow> Inl Wild_access
      | Some n \<Rightarrow> sdsnewlen A init (of_nat n) st)"

definition sdslen :: "addr \<Rightarrow> 'u cstate \<Rightarrow> 64 word" where
  "sdslen s st = load64 (heap st) (s - sizeof_sdshdr)"

definition sdsdup :: "'u allocator \<Rightarrow> addr \<Rightarrow> 'u cstate \<Rightarrow> (addr \<times> 'u cstate) result" where
  "sdsdup A s st = sdsnewlen A s (sdslen s st) st"

definition sdsfree :: "addr \<Rightarrow> 'u cstate \<Rightarrow> 'u cstate" where
  "sdsfree s st = (if s = 0 then st else zfree (s - sizeof_sdshdr) st)"

definition sdsavail :: "addr \<Rightarrow> 'u cstate \<Rightarrow> 64 word" where
  "sdsavail s st = load64 (heap st) (s - sizeof_sdshdr + 8)"

text \<open>\<open>reallen\<close> is an \<open>int\<close>.\<close>

definition sdsupdatelen :: "addr \<Rightarrow> 'u cstate \<Rightarrow> 'u cstate result" where
  "sdsupdatelen s st =
     (case c_strlen (heap st) s 0 of
        None \<Rightarrow> Inl Wild_access
      | Some n \<Rightarrow>
          let sh = s - sizeof_sdshdr;
              reallen = scast (of_nat n :: i32) :: 64 word;
              h = store64 (heap st) (sh + 8) (load64 (heap st) (sh + 8) + (load64 (heap st) sh - reallen))
          in Inr (st\<lparr>heap := store64 h sh reallen\<rparr>))"

subsection \<open>Changing strings\<close>

definition sdsMakeRoomFor :: "'u allocator \<Rightarrow> addr \<Rightarrow> 64 word \<Rightarrow> 'u cstate \<Rightarrow> (addr \<times> 'u cstate) result" where
  "sdsMakeRoomFor A s addlen st =
     (if addlen \<le> sdsavail s st then Inr (s, st)
      else
        let len = sdslen s st;
            sh = s - sizeof_sdshdr;
            newlen = (len + addlen) * 2;
            (newsh, st) = zrealloc A sh (sizeof_sdshdr + newlen + 1) st
        in if newsh = 0 then Inl Aborted
           else Inr (newsh + 16, st\<lparr>heap := store64 (heap st) (newsh + 8) (newlen - len)\<rparr>))"

definition sdscatlen :: "'u allocator \<Rightarrow> addr \<Rightarrow> addr \<Rightarrow> 64 word \<Rightarrow> 'u cstate \<Rightarrow> (addr \<times> 'u cstate) result" where
  "sdscatlen A s t len st =
     (let curlen = sdslen s st
      in rbind (sdsMakeRoomFor A s len st) (\<lambda>(s, st).
           if s = 0 then Inr (0, st)
           else
             let sh = s - sizeof_sdshdr;
                 h = store_bytes (heap st) (s + curlen) (load_bytes (heap st) t (unat len));
                 h = store64 h sh (curlen + len);
                 h = store64 h (sh + 8) (load64 h (sh + 8) - len);
                 h = h(s + (curlen + len) := 0)
             in Inr (s, st\<lparr>heap := h\<rparr>)))"

definition sdscat :: "'u allocator \<Rightarrow> addr \<Rightarrow> addr \<Rightarrow> 'u cstate \<Rightarrow> (addr \<times> 'u cstate) result" where
  "sdscat A s t st =
     (case c_strlen (heap st) t 0 of None \<Rightarrow> Inl Wild_access | Some n \<Rightarrow> sdscatlen A s t (of_nat n) st)"

text \<open>
  \<open>sdscpylen\<close>: the room that is asked for is \<open>len - sh->len\<close>, modulo \<open>2 ^ 64\<close>.
\<close>

definition sdscpylen :: "'u allocator \<Rightarrow> addr \<Rightarrow> addr \<Rightarrow> 64 word \<Rightarrow> 'u cstate \<Rightarrow> (addr \<times> 'u cstate) result" where
  "sdscpylen A s t len st =
     (let sh = s - sizeof_sdshdr;
          totlen = load64 (heap st) (sh + 8) + load64 (heap st) sh
      in rbind (if totlen < len then sdsMakeRoomFor A s (len - load64 (heap st) sh) st else Inr (s, st)) (\<lambda>(s, st).
           if s = 0 then Inr (0, st)
           else
             let sh = s - sizeof_sdshdr;
                 totlen = load64 (heap st) (sh + 8) + load64 (heap st) sh;
                 h = store_bytes (heap st) s (load_bytes (heap st) t (unat len));
                 h = h(s + len := 0);
                 h = store64 h sh len;
                 h = store64 h (sh + 8) (totlen - len)
             in Inr (s, st\<lparr>heap := h\<rparr>)))"

definition sdscpy :: "'u allocator \<Rightarrow> addr \<Rightarrow> addr \<Rightarrow> 'u cstate \<Rightarrow> (addr \<times> 'u cstate) result" where
  "sdscpy A s t st =
     (case c_strlen (heap st) t 0 of None \<Rightarrow> Inl Wild_access | Some n \<Rightarrow> sdscpylen A s t (of_nat n) st)"

text \<open>
  \<open>strchr(cset, c)\<close> on the string \<open>cset\<close>: it also finds the terminator. The loops of
  \<open>sdstrim\<close> run over the offsets of \<open>sp\<close> and \<open>ep\<close> from \<open>s\<close>; \<open>n\<close> is the length of the string.
\<close>

definition strchr :: "byte list \<Rightarrow> byte \<Rightarrow> bool" where
  "strchr cset c \<longleftrightarrow> c \<in> set cset \<or> c = 0"

function trim_front :: "heap \<Rightarrow> byte list \<Rightarrow> addr \<Rightarrow> nat \<Rightarrow> nat \<Rightarrow> nat" where
  "trim_front h cset s n i = (if i < n \<and> strchr cset (h (s + of_nat i)) then trim_front h cset s n (Suc i) else i)"
  by pat_completeness auto
termination
  by (relation "measure (\<lambda>(h, cset, s, n, i). n - i)") auto

fun trim_back :: "heap \<Rightarrow> byte list \<Rightarrow> addr \<Rightarrow> nat \<Rightarrow> nat" where
  "trim_back h cset s 0 = 0"
| "trim_back h cset s (Suc j) = (if strchr cset (h (s + of_nat (Suc j))) then trim_back h cset s j else Suc j)"

definition sdstrim :: "addr \<Rightarrow> byte list \<Rightarrow> 'u cstate \<Rightarrow> addr \<times> 'u cstate" where
  "sdstrim s cset st =
     (let sh = s - sizeof_sdshdr;
          n = unat (sdslen s st);
          sp = trim_front (heap st) cset s n 0;
          len = (if n = 0 then 0
                 else let ep = trim_back (heap st) cset s (n - 1) in if ep < sp then 0 else (ep - sp) + 1);
          h = (if sp \<noteq> 0 then store_bytes (heap st) s (load_bytes (heap st) (s + of_nat sp) len) else heap st);
          h = h(s + of_nat len := 0);
          h = store64 h (sh + 8) (load64 h (sh + 8) + (load64 h sh - of_nat len));
          h = store64 h sh (of_nat len)
      in (s, st\<lparr>heap := h\<rparr>))"

text \<open>
  \<open>sdsrange\<close>: \<open>start\<close> and \<open>end\<close> are \<open>long\<close>, and \<open>(signed)len\<close> is the length as an \<open>int\<close>.
\<close>

definition range_index :: "64 word \<Rightarrow> 64 word \<Rightarrow> 64 word" where
  "range_index len i = (if i <s 0 then let i = len + i in if i <s 0 then 0 else i else i)"

definition range_len :: "64 word \<Rightarrow> 64 word \<Rightarrow> 64 word" where
  "range_len start stop = (if stop <s start then 0 else stop - start + 1)"

definition range_clip :: "64 word \<Rightarrow> 64 word \<Rightarrow> 64 word" where
  "range_clip len i = (if scast (ucast len :: i32) \<le>s i then len - 1 else i)"

definition sdsrange :: "addr \<Rightarrow> 64 word \<Rightarrow> 64 word \<Rightarrow> 'u cstate \<Rightarrow> addr \<times> 'u cstate" where
  "sdsrange s start stop st =
     (let sh = s - sizeof_sdshdr;
          len = sdslen s st
      in if len = 0 then (s, st)
         else
           let start = range_index len start;
               stop = range_index len stop;
               newlen = range_len start stop;
               (start, newlen) = (if newlen \<noteq> 0
                 then let start = range_clip len start; stop = range_clip len stop in (start, range_len start stop)
                 else (0, newlen));
               h = (if start \<noteq> 0 then store_bytes (heap st) s (load_bytes (heap st) (s + start) (unat newlen)) else heap st);
               h = h(s + newlen := 0);
               h = store64 h (sh + 8) (load64 h (sh + 8) + (load64 h sh - newlen));
               h = store64 h sh newlen
           in (s, st\<lparr>heap := h\<rparr>))"

text \<open>\<open>tolower\<close> and \<open>toupper\<close> in the C locale; \<open>len\<close> is an \<open>int\<close>.\<close>

definition tolower :: "byte \<Rightarrow> byte" where
  "tolower c = (if 65 \<le> c \<and> c \<le> 90 then c + 32 else c)"

definition toupper :: "byte \<Rightarrow> byte" where
  "toupper c = (if 97 \<le> c \<and> c \<le> 122 then c - 32 else c)"

definition sdsmapcase :: "(byte \<Rightarrow> byte) \<Rightarrow> addr \<Rightarrow> 'u cstate \<Rightarrow> 'u cstate" where
  "sdsmapcase f s st =
     (let len = ucast (sdslen s st) :: i32;
          n = (if len <s 0 then 0 else unat len)
      in st\<lparr>heap := store_bytes (heap st) s (map f (load_bytes (heap st) s n))\<rparr>)"

definition sdstolower :: "addr \<Rightarrow> 'u cstate \<Rightarrow> 'u cstate" where
  "sdstolower = sdsmapcase tolower"

definition sdstoupper :: "addr \<Rightarrow> 'u cstate \<Rightarrow> 'u cstate" where
  "sdstoupper = sdsmapcase toupper"

text \<open>\<open>memcmp\<close>, of which only the sign is used, and the comparison; its result is an \<open>int\<close>.\<close>

fun memcmp :: "byte list \<Rightarrow> byte list \<Rightarrow> i32" where
  "memcmp (x # xs) (y # ys) = (if x = y then memcmp xs ys else if x < y then - 1 else 1)"
| "memcmp _ _ = 0"

definition sdscmp :: "addr \<Rightarrow> addr \<Rightarrow> 'u cstate \<Rightarrow> i32" where
  "sdscmp s1 s2 st =
     (let l1 = sdslen s1 st; l2 = sdslen s2 st;
          minlen = (if l1 < l2 then l1 else l2);
          cmp = memcmp (load_bytes (heap st) s1 (unat minlen)) (load_bytes (heap st) s2 (unat minlen))
      in if cmp = 0 then ucast (l1 - l2) else cmp)"

subsection \<open>A string in memory\<close>

definition sds_mem :: "heap \<Rightarrow> addr \<Rightarrow> byte list \<Rightarrow> nat \<Rightarrow> bool" where
  "sds_mem h b bs fr \<longleftrightarrow> load64 h b = of_nat (length bs) \<and> load64 h (b + of_nat 8) = of_nat fr
     \<and> load_bytes h (b + of_nat 16) (length bs) = bs \<and> h (b + of_nat (16 + length bs)) = 0"

definition sds_at :: "'u cstate \<Rightarrow> addr \<Rightarrow> byte list \<Rightarrow> nat \<Rightarrow> bool" where
  "sds_at st s bs fr \<longleftrightarrow> s \<noteq> 0 \<and> (s - 16, 17 + length bs + fr) \<in> set (blocks st) \<and> 17 + length bs + fr < 2 ^ 64
     \<and> sds_mem (heap st) (s - 16) bs fr"

text \<open>Writing a string into its block: the header, the bytes from the \<open>o\<close>-th on and the terminator.\<close>

definition sds_put :: "heap \<Rightarrow> addr \<Rightarrow> nat \<Rightarrow> 64 word \<Rightarrow> 64 word \<Rightarrow> byte list \<Rightarrow> heap" where
  "sds_put h b n len fr xs =
     store_bytes (store_bytes (store64 (store64 h b len) (b + of_nat 8) fr) (b + of_nat (16 + n)) xs)
       (b + of_nat (16 + n + length xs)) [0]"

lemma put_commute:
  assumes "17 + n + length xs < 2 ^ 64"
  shows "store64 (store_bytes h (b + of_nat (16 + n)) xs) b L = store_bytes (store64 h b L) (b + of_nat (16 + n)) xs"
    and "store64 (store_bytes h (b + of_nat (16 + n)) xs) (b + of_nat 8) F = store_bytes (store64 h (b + of_nat 8) F) (b + of_nat (16 + n)) xs"
    and "store64 (store_bytes h (b + of_nat (16 + n + length xs)) [0]) b L = store_bytes (store64 h b L) (b + of_nat (16 + n + length xs)) [0]"
    and "store64 (store_bytes h (b + of_nat (16 + n + length xs)) [0]) (b + of_nat 8) F
      = store_bytes (store64 h (b + of_nat 8) F) (b + of_nat (16 + n + length xs)) [0]"
    and "store64 (store64 h (b + of_nat 8) F) b L = store64 (store64 h b L) (b + of_nat 8) F"
  unfolding store64_def using assms
  by (intro store_bytes_commute block_base offset_blocks; simp; fail)+

text \<open>The orders in which the functions write the parts.\<close>

lemma put_orders:
  fixes b :: addr
  assumes "17 + n + length xs < 2 ^ 64"
  defines "D \<equiv> b + of_nat (16 + n)" and "T \<equiv> b + of_nat (16 + n + length xs)"
  shows "store_bytes (store64 (store64 (store_bytes h D xs) b L) (b + of_nat 8) F) T [0] = sds_put h b n L F xs"
    and "store64 (store64 (store_bytes (store_bytes h D xs) T [0]) b L) (b + of_nat 8) F = sds_put h b n L F xs"
    and "store64 (store64 (store_bytes (store_bytes h D xs) T [0]) (b + of_nat 8) F) b L = sds_put h b n L F xs"
  using assms(1) by (simp_all only: D_def T_def sds_put_def put_commute)

lemma put_mem:
  assumes size: "17 + n + length xs < 2 ^ 64" and "L = of_nat (n + length xs)" "F = of_nat fr"
  shows "sds_mem (sds_put h b n L F xs) b (load_bytes h (b + of_nat 16) n @ xs) fr"
proof -
  let ?D = "b + of_nat (16 + n)" and ?T = "b + of_nat (16 + n + length xs)"
  let ?h2 = "store64 (store64 h b L) (b + of_nat 8) F"
  let ?h3 = "store_bytes ?h2 ?D xs"
  let ?h4 = "store_bytes ?h3 ?T [0]"
  have put: "sds_put h b n L F xs = ?h4" by (simp add: sds_put_def)
  have d: "disjoint_blocks (b + of_nat 8) 8 ?D (length xs)" "disjoint_blocks (b + of_nat 8) 8 ?T (length [0 :: byte])"
    "disjoint_blocks (b + of_nat 16) n ?D (length xs)" "disjoint_blocks (b + of_nat 16) n ?T (length [0 :: byte])"
    "disjoint_blocks (b + of_nat 16) n (b + of_nat 8) (length (bytes64 F))" "disjoint_blocks ?D (length xs) ?T (length [0 :: byte])"
    by (rule offset_blocks; use size in simp)+
  have d0: "disjoint_blocks b 8 ?D (length xs)" "disjoint_blocks b 8 ?T (length [0 :: byte])" "disjoint_blocks b 8 (b + of_nat 8) 8"
    "disjoint_blocks (b + of_nat 16) n b (length (bytes64 L))"
    by (rule block_base; use size in simp)+
  have 1: "load64 ?h4 b = L"
    by (simp only: load64_store_bytes_disjoint [OF d0(1)] load64_store_bytes_disjoint [OF d0(2)] load64_store64_disjoint [OF d0(3)]
        load64_store64)
  have 2: "load64 ?h4 (b + of_nat 8) = F"
    by (simp only: load64_store_bytes_disjoint [OF d(1)] load64_store_bytes_disjoint [OF d(2)] load64_store64)
  have 3: "load_bytes ?h4 (b + of_nat 16) n = load_bytes h (b + of_nat 16) n"
    by (simp only: store64_def load_store_bytes_disjoint [OF d(3)] load_store_bytes_disjoint [OF d(4)]
        load_store_bytes_disjoint [OF d(5)] load_store_bytes_disjoint [OF d0(4)])
  have 4: "load_bytes ?h4 ?D (length xs) = xs"
    using size by (simp only: load_store_bytes_disjoint [OF d(6)] load_store_bytes)
  have "load_bytes ?h4 (b + of_nat 16) (n + length xs) = load_bytes h (b + of_nat 16) n @ xs"
    using 3 4 by (simp add: load_bytes_append add.assoc)
  then show ?thesis unfolding put using 1 2 assms(2,3) by (simp add: sds_mem_def add.assoc)
qed

lemma put_same:
  assumes "apart b m bl" "17 + n + length xs \<le> m"
  shows "same_blocks bl h (sds_put h b n L F xs)"
proof -
  note st = store_same_blocks [OF assms(1)]
  have "same_blocks bl h (store64 h b L)" using st [of 0 "bytes64 L" h] assms(2) by (simp add: store64_def)
  moreover have "same_blocks bl g (store64 g (b + of_nat 8) F)" for g
    using st [of 8 "bytes64 F" g] assms(2) by (simp add: store64_def)
  moreover have "same_blocks bl g (store_bytes g (b + of_nat (16 + n)) xs)" for g using st [of "16 + n" xs g] assms(2) by simp
  moreover have "same_blocks bl g (store_bytes g (b + of_nat (16 + n + length xs)) [0])" for g
    using st [of "16 + n + length xs" "[0]" g] assms(2) by simp
  ultimately show ?thesis unfolding sds_put_def by (meson same_blocks_trans)
qed

text \<open>A range of bytes that lies in one of the blocks.\<close>

definition within :: "(addr \<times> nat) list \<Rightarrow> addr \<Rightarrow> nat \<Rightarrow> bool" where
  "within bl t n \<longleftrightarrow> list_ex (\<lambda>(b, m). unat (t - b) + n \<le> m) bl"

lemma same_blocks_within: "same_blocks bl h h' \<Longrightarrow> within bl t n \<Longrightarrow> load_bytes h' t n = load_bytes h t n"
proof -
  assume s: "same_blocks bl h h'" and "within bl t n"
  then obtain b m where b: "(b, m) \<in> set bl" "unat (t - b) + n \<le> m" by (auto simp: within_def list_ex_iff)
  have "t = b + of_nat (unat (t - b))" by simp
  then show ?thesis using same_blocksD [OF s b(1)] load_bytes_sub [OF b(2), of h b] load_bytes_sub [OF b(2), of h' b] by metis
qed

text \<open>The blocks other than that of a string; no operation on the string touches them.\<close>

definition others :: "'u cstate \<Rightarrow> addr \<Rightarrow> nat \<Rightarrow> (addr \<times> nat) list" where
  "others st s n = remove1 (s - 16, 17 + n) (blocks st)"

lemma sds_mem_bytes:
  "sds_mem h b bs fr \<longleftrightarrow> load_bytes h b (17 + length bs) = bytes64 (of_nat (length bs)) @ bytes64 (of_nat fr) @ bs @ [0]"
proof -
  have l: "load_bytes h b (17 + length bs) = load_bytes h b 8 @ load_bytes h (b + of_nat 8) 8
      @ load_bytes h (b + of_nat 16) (length bs) @ load_bytes h (b + of_nat (16 + length bs)) 1"
    using load_bytes_append [of h b 8 "8 + (length bs + 1)"] load_bytes_append [of h "b + of_nat 8" 8 "length bs + 1"]
      load_bytes_append [of h "b + of_nat 16" "length bs" 1] by (simp add: add.assoc)
  have "load_bytes h x 8 = bytes64 w \<longleftrightarrow> load64 h x = w" for x w
    using bytes64_of_bytes [of "load_bytes h x 8"] by (auto simp: load64_def)
  moreover have "load_bytes h x 1 = [0] \<longleftrightarrow> h x = 0" for x by (simp add: load_bytes_def)
  ultimately show ?thesis unfolding l sds_mem_def by (simp add: append_eq_append_conv)
qed

lemma sds_at_frame:
  assumes "sds_at st s bs fr" "(s - 16, 17 + length bs + fr) \<in> set bl" "set bl \<subseteq> set (blocks st')" "same_blocks bl (heap st) (heap st')"
  shows "sds_at st' s bs fr"
proof -
  have "load_bytes (heap st') (s - 16) (17 + length bs) = load_bytes (heap st) (s - 16) (17 + length bs)"
    using assms(2,4) by (intro same_blocks_within) (auto simp: within_def list_ex_iff intro!: bexI [of _ "(s - 16, 17 + length bs + fr)"])
  then show ?thesis using assms by (auto simp: sds_at_def sds_mem_bytes)
qed

lemma sds_header: "sds_at st s bs fr \<Longrightarrow> sdslen s st = of_nat (length bs) \<and> sdsavail s st = of_nat fr"
  by (simp add: sds_at_def sds_mem_def sdslen_def sdsavail_def sizeof_sdshdr_def)

lemma sdsnewlen_ok:
  assumes A: "malloc_ok A" "separate (blocks st)" and src: "init \<noteq> 0" "within (blocks st) init (length xs)"
    "load_bytes (heap st) init (length xs) = xs" and size: "17 + length xs < 2 ^ 64"
  shows "sdsnewlen A init (of_nat (length xs)) st = Inl Aborted
    \<or> (\<exists>s h. sdsnewlen A init (of_nat (length xs)) st = Inr (s, st\<lparr>heap := h, blocks := (s - 16, 17 + length xs) # blocks st\<rparr>)
         \<and> sds_at (st\<lparr>heap := h, blocks := (s - 16, 17 + length xs) # blocks st\<rparr>) s xs 0
         \<and> separate ((s - 16, 17 + length xs) # blocks st) \<and> same_blocks (blocks st) (heap st) h)"
proof -
  have n: "unat (16 + of_nat (length xs) + 1 :: 64 word) = 17 + length xs" "unat (of_nat (length xs) :: 64 word) = length xs"
    using size by (simp_all add: unat_word_ariths unat_of_nat)
  obtain a h where m: "malloc_c A (16 + of_nat (length xs) + 1) st = (a, st\<lparr>heap := h, blocks := if a = 0 then blocks st else (a, 17 + length xs) # blocks st\<rparr>)"
    "a \<noteq> 0 \<longrightarrow> unat a + (17 + length xs) \<le> 2 ^ 64 \<and> apart a (17 + length xs) (blocks st)" "same_blocks (blocks st) (heap st) h"
    using A(1) n(1) unfolding malloc_ok_def by metis
  show ?thesis
  proof (cases "a = 0")
    case True
    then show ?thesis using m(1) by (simp add: sdsnewlen_def zmalloc_def sizeof_sdshdr_def)
  next
    case False
    then have ap: "apart a (17 + length xs) (blocks st)" and sp: "unat a + 16 < 2 ^ 64" using m(2) by auto
    let ?g = "store64 (store64 h a (of_nat (length xs))) (a + of_nat 8) 0"
    let ?h = "sds_put h a 0 (of_nat (length xs)) (of_nat 0) xs"
    have "same_blocks (blocks st) h ?g"
      using store_same_blocks [OF ap, of 0 "bytes64 (of_nat (length xs))" h]
        store_same_blocks [OF ap, of 8 "bytes64 0" "store64 h a (of_nat (length xs))"] same_blocks_trans
      by (simp add: store64_def)
    then have ld: "load_bytes ?g init (length xs) = xs"
      using same_blocks_within [OF same_blocks_trans [OF m(3)] src(2)] src(3) by simp
    have z: "of_nat (length xs) \<noteq> (0 :: 64 word) \<longleftrightarrow> xs \<noteq> []" using n(2) arg_cong [of "of_nat (length xs)" 0 unat] by auto
    have "sdsnewlen A init (of_nat (length xs)) st = Inr (a + 16, st\<lparr>heap := ?h, blocks := (a, 17 + length xs) # blocks st\<rparr>)"
      using False m(1) ld src(1) n(2) by (auto simp: sdsnewlen_def zmalloc_def sizeof_sdshdr_def Let_def z sds_put_def add.assoc)
    moreover have "sds_mem ?h a xs 0" using put_mem [of 0 xs _ "of_nat 0" 0 h a] size by simp
    moreover have "a + 16 \<noteq> 0"
    proof
      assume "a + 16 = 0"
      then have "unat (a + 16) = 0" by simp
      then show False using sp by (simp add: unat_word_ariths)
    qed
    moreover have "same_blocks (blocks st) (heap st) ?h" using put_same [OF ap, of 0 xs h] m(3) same_blocks_trans by simp
    ultimately show ?thesis using A(2) ap size
      by (intro disjI2 exI [of _ "a + 16"] exI [of _ ?h]) (simp add: sds_at_def)
  qed
qed

lemma sdsMakeRoomFor_ok:
  assumes A: "realloc_ok A" "separate (blocks st)" and s: "sds_at st s bs fr" and size: "17 + 2 * (length bs + n) < 2 ^ 64"
  shows "sdsMakeRoomFor A s (of_nat n) st = Inl Aborted
    \<or> (\<exists>s' fr' h bl. sdsMakeRoomFor A s (of_nat n) st = Inr (s', st\<lparr>heap := h, blocks := bl\<rparr>) \<and> n \<le> fr'
         \<and> sds_at (st\<lparr>heap := h, blocks := bl\<rparr>) s' bs fr' \<and> separate bl
         \<and> others (st\<lparr>heap := h, blocks := bl\<rparr>) s' (length bs + fr') = others st s (length bs + fr)
         \<and> same_blocks (others st s (length bs + fr)) (heap st) h)"
proof -
  let ?k = "length bs"
  have fr: "fr < 2 ^ 64" "?k + n < 2 ^ 63" using s size by (simp_all add: sds_at_def)
  have hd: "sdslen s st = of_nat ?k" "sdsavail s st = of_nat fr" using sds_header [OF s] by simp_all
  have le: "(of_nat n :: 64 word) \<le> of_nat fr \<longleftrightarrow> n \<le> fr" using fr by (simp add: word_le_nat_alt unat_of_nat)
  show ?thesis
  proof (cases "n \<le> fr")
    case True
    have "st\<lparr>heap := heap st, blocks := blocks st\<rparr> = st" by simp
    then show ?thesis using True le hd s A(2)
      by (intro disjI2 exI [of _ s] exI [of _ fr] exI [of _ "heap st"] exI [of _ "blocks st"]) (simp add: sdsMakeRoomFor_def)
  next
    case False
    let ?N = "17 + 2 * (?k + n)" and ?b = "s - 16" and ?m = "17 + ?k + fr" and ?rest = "others st s (length bs + fr)"
    have N: "unat (16 + (of_nat ?k + of_nat n) * 2 + 1 :: 64 word) = ?N"
      using size by (simp add: unat_word_ariths unat_of_nat)
    have blk: "(?b, ?m) \<in> set (blocks st)" "sds_mem (heap st) ?b bs fr" using s by (simp_all add: sds_at_def)
    have rest: "remove1 (?b, ?m) (blocks st) = ?rest" by (simp add: others_def add.assoc)
    obtain q h where q: "realloc_c A ?b (16 + (of_nat ?k + of_nat n) * 2 + 1) st
        = (q, st\<lparr>heap := h, blocks := if q = 0 then blocks st else (q, ?N) # ?rest\<rparr>)"
      "q \<noteq> 0 \<longrightarrow> unat q + ?N \<le> 2 ^ 64 \<and> apart q ?N ?rest \<and> load_bytes h q (min ?m ?N) = load_bytes (heap st) ?b (min ?m ?N)"
      "same_blocks ?rest (heap st) h"
      using A(1) [unfolded realloc_ok_def, rule_format, OF blk(1), of "16 + (of_nat ?k + of_nat n) * 2 + 1"]
      unfolding N rest by blast
    show ?thesis
    proof (cases "q = 0")
      case True
      then show ?thesis using False le hd q(1) by (simp add: sdsMakeRoomFor_def zrealloc_def sizeof_sdshdr_def)
    next
      case nz: False
      let ?fr = "?k + 2 * n"
      let ?h = "store64 h (q + of_nat 8) (of_nat ?fr)"
      have ap: "apart q ?N ?rest" "unat q + ?N \<le> 2 ^ 64" using q(2) nz by blast+
      have "min ?m ?N = ?m" using False by simp
      then have "load_bytes h q ?m = load_bytes (heap st) ?b ?m" using q(2) nz by metis
      then have "load_bytes h q (17 + ?k) = load_bytes (heap st) ?b (17 + ?k)"
        using load_bytes_sub [of 0 "17 + ?k" ?m h q] load_bytes_sub [of 0 "17 + ?k" ?m "heap st" ?b] by simp
      then have old: "sds_mem h q bs fr" using blk(2) by (simp add: sds_mem_bytes)
      have d: "disjoint_blocks q 8 (q + of_nat 8) (length (bytes64 (of_nat ?fr)))" by (rule block_base) simp_all
      have d2: "disjoint_blocks (q + of_nat 16) (?k + 1) (q + of_nat 8) (length (bytes64 (of_nat ?fr)))"
        by (rule offset_blocks) (use size in simp_all)
      have "load_bytes ?h (q + of_nat 16) (?k + 1) = load_bytes h (q + of_nat 16) (?k + 1)"
        unfolding store64_def by (rule load_store_bytes_disjoint [OF d2])
      then have "load_bytes ?h (q + of_nat 16) ?k = load_bytes h (q + of_nat 16) ?k" "?h (q + of_nat (16 + ?k)) = h (q + of_nat (16 + ?k))"
        by (simp_all add: load_bytes_def add.assoc)
      moreover have "load64 ?h q = load64 h q" unfolding store64_def by (rule load64_store_bytes_disjoint [OF d])
      ultimately have mem: "sds_mem ?h q bs ?fr" using old by (simp add: sds_mem_def)
      have "same_blocks ?rest h ?h" using store_same_blocks [OF ap(1), of 8 "bytes64 (of_nat ?fr)" h] by (simp add: store64_def)
      then have same: "same_blocks ?rest (heap st) ?h" using q(3) same_blocks_trans by blast
      have "q + 16 \<noteq> 0"
      proof
        assume "q + 16 = 0"
        then have "unat (q + 16) = 0" by simp
        then show False using ap(2) by (simp add: unat_word_ariths)
      qed
      moreover have "(of_nat ?k + of_nat n) * 2 - of_nat ?k = (of_nat ?fr :: 64 word)" by simp
      then have "sdsMakeRoomFor A s (of_nat n) st = Inr (q + 16, st\<lparr>heap := ?h, blocks := (q, ?N) # ?rest\<rparr>)"
        using False nz le hd q(1) by (simp add: sdsMakeRoomFor_def zrealloc_def sizeof_sdshdr_def mult.commute [of 2])
      moreover have "separate ((q, ?N) # ?rest)" using ap(1) separate_remove1 [OF A(2)] by (simp add: others_def)
      moreover have "?N = 17 + ?k + ?fr" by simp
      ultimately show ?thesis using mem same size
        by (intro disjI2 exI [of _ "q + 16"] exI [of _ ?fr] exI [of _ ?h] exI [of _ "(q, ?N) # ?rest"])
          (simp add: sds_at_def, simp add: others_def)
    qed
  qed
qed

text \<open>A string rewritten in place: everything but its block is as before.\<close>

lemma sds_rewrite:
  assumes "separate (blocks st)" "sds_at st s bs fr" "n + length xs + fr' = length bs + fr" and that: "n \<le> length bs"
  shows "sds_at (st\<lparr>heap := sds_put (heap st) (s - 16) n (of_nat (n + length xs)) (of_nat fr') xs\<rparr>) s (take n bs @ xs) fr'
    \<and> same_blocks (others st s (length bs + fr)) (heap st) (sds_put (heap st) (s - 16) n (of_nat (n + length xs)) (of_nat fr') xs)"
proof -
  let ?h = "sds_put (heap st) (s - 16) n (of_nat (n + length xs)) (of_nat fr') xs"
  have s: "s \<noteq> 0" "(s - 16, 17 + length bs + fr) \<in> set (blocks st)" "17 + length bs + fr < 2 ^ 64" "sds_mem (heap st) (s - 16) bs fr"
    using assms(2) by (simp_all add: sds_at_def)
  have "load_bytes (heap st) (s - 16 + of_nat 16) n = take n bs"
    using s(4) load_bytes_sub [of 0 n "length bs" "heap st" "s - 16 + of_nat 16"] that by (simp add: sds_mem_def)
  then have "sds_mem ?h (s - 16) (take n bs @ xs) fr'" using put_mem [of n xs _ "of_nat fr'" fr' "heap st" "s - 16"] s(3) assms(3) by simp
  moreover have eq: "17 + length (take n bs @ xs) + fr' = 17 + length bs + fr" using assms(3) that by simp
  moreover have "apart (s - 16) (17 + length bs + fr) (others st s (length bs + fr))"
    using separate_apart [OF assms(1) s(2)] by (simp add: others_def add.assoc)
  then have "same_blocks (others st s (length bs + fr)) (heap st) ?h" by (rule put_same) (use assms(3) in simp)
  ultimately show ?thesis using s(1-3) unfolding sds_at_def eq by simp
qed

lemma sdscatlen_ok:
  assumes A: "realloc_ok A" "separate (blocks st)" and s: "sds_at st s bs fr"
    and src: "within (others st s (length bs + fr)) t (length ts)" "load_bytes (heap st) t (length ts) = ts"
    and size: "17 + 2 * (length bs + length ts) < 2 ^ 64"
  shows "sdscatlen A s t (of_nat (length ts)) st = Inl Aborted
    \<or> (\<exists>s' fr' h bl. sdscatlen A s t (of_nat (length ts)) st = Inr (s', st\<lparr>heap := h, blocks := bl\<rparr>)
         \<and> sds_at (st\<lparr>heap := h, blocks := bl\<rparr>) s' (bs @ ts) fr' \<and> separate bl
         \<and> others (st\<lparr>heap := h, blocks := bl\<rparr>) s' (length (bs @ ts) + fr') = others st s (length bs + fr)
         \<and> same_blocks (others st s (length bs + fr)) (heap st) h)"
proof (cases "sdsMakeRoomFor A s (of_nat (length ts)) st = Inl Aborted")
  case True
  then show ?thesis by (simp add: sdscatlen_def)
next
  case False
  let ?rest = "others st s (length bs + fr)" and ?k = "length bs" and ?n = "length ts"
  obtain s' fr' h bl where r: "sdsMakeRoomFor A s (of_nat ?n) st = Inr (s', st\<lparr>heap := h, blocks := bl\<rparr>)" "?n \<le> fr'"
    "sds_at (st\<lparr>heap := h, blocks := bl\<rparr>) s' bs fr'" "separate bl"
    "others (st\<lparr>heap := h, blocks := bl\<rparr>) s' (?k + fr') = ?rest" "same_blocks ?rest (heap st) h"
    using sdsMakeRoomFor_ok [OF A s size] False by auto
  obtain b where b: "s' = b + 16" by (metis diff_add_cancel)
  let ?st = "st\<lparr>heap := h, blocks := bl\<rparr>"
  let ?h = "sds_put h b ?k (of_nat (?k + ?n)) (of_nat (fr' - ?n)) ts"
  have ts: "load_bytes h t ?n = ts" using same_blocks_within [OF r(6) src(1)] src(2) by simp
  have un: "unat (of_nat ?n :: 64 word) = ?n" using size by (simp add: unat_of_nat)
  have m: "b + 16 \<noteq> 0" "17 + ?k + fr' < 2 ^ 64" "load64 h (b + of_nat 8) = of_nat fr'"
    using r(3) b by (simp_all add: sds_at_def sds_mem_def)
  have lt: "17 + ?k + ?n < 2 ^ 64" using size by simp
  have f: "load64 (store64 (store_bytes h (b + of_nat (16 + ?k)) ts) b L) (b + of_nat 8) = of_nat fr'" for L
    unfolding store64_def
    by (subst load64_store_bytes_disjoint, rule block_base, simp, simp, subst load64_store_bytes_disjoint, rule offset_blocks)
      (use lt m(3) in simp_all)
  have sub: "of_nat fr' - of_nat ?n = (of_nat (fr' - ?n) :: 64 word)" using r(2) by (simp add: of_nat_diff)
  have hd: "sdslen s st = of_nat ?k" using sds_header [OF s] by simp
  have e: "sdscatlen A s t (of_nat ?n) st = Inr (s', st\<lparr>heap := store_bytes
      (store64 (store64 (store_bytes h (b + of_nat (16 + ?k)) ts) b (of_nat (?k + ?n))) (b + of_nat 8) (of_nat (fr' - ?n)))
      (b + of_nat (16 + ?k + ?n)) [0], blocks := bl\<rparr>)"
    unfolding sdscatlen_def hd Let_def r(1) rbind_def sizeof_sdshdr_def b using m(1) ts un f
    by (simp add: sub add.assoc)
  have "sdscatlen A s t (of_nat ?n) st = Inr (s', st\<lparr>heap := ?h, blocks := bl\<rparr>)" unfolding e put_orders(1) [OF lt] ..
  moreover have "sds_at (st\<lparr>heap := ?h, blocks := bl\<rparr>) s' (bs @ ts) (fr' - ?n) \<and> same_blocks (others ?st s' (?k + fr')) h ?h"
    using sds_rewrite [of ?st s' bs fr' ?k ts "fr' - ?n"] r(2-4) b by (simp add: sds_at_def)
  moreover have "others (st\<lparr>heap := ?h, blocks := bl\<rparr>) s' (length (bs @ ts) + (fr' - ?n)) = ?rest"
    using r(2,5) by (simp add: others_def)
  moreover have "same_blocks ?rest (heap st) ?h" using same_blocks_trans [OF r(6)] r(5) calculation(2) by simp
  ultimately show ?thesis using r(4) by (intro disjI2 exI [of _ s'] exI [of _ "fr' - ?n"] exI [of _ ?h] exI [of _ bl]) simp
qed

lemma sdscpylen_ok:
  assumes A: "realloc_ok A" "separate (blocks st)" and s: "sds_at st s bs fr"
    and src: "within (others st s (length bs + fr)) t (length ts)" "load_bytes (heap st) t (length ts) = ts"
    and size: "17 + 2 * length bs + 2 * length ts < 2 ^ 64"
  shows "sdscpylen A s t (of_nat (length ts)) st = Inl Aborted
    \<or> (\<exists>s' fr' h bl. sdscpylen A s t (of_nat (length ts)) st = Inr (s', st\<lparr>heap := h, blocks := bl\<rparr>)
         \<and> sds_at (st\<lparr>heap := h, blocks := bl\<rparr>) s' ts fr' \<and> separate bl
         \<and> others (st\<lparr>heap := h, blocks := bl\<rparr>) s' (length ts + fr') = others st s (length bs + fr)
         \<and> same_blocks (others st s (length bs + fr)) (heap st) h)"
proof -
  let ?rest = "others st s (length bs + fr)" and ?k = "length bs" and ?n = "length ts"
  let ?room = "if (of_nat fr + of_nat ?k :: 64 word) < of_nat ?n then sdsMakeRoomFor A s (of_nat ?n - of_nat ?k) st else Inr (s, st)"
  have lim: "17 + ?k + fr < 2 ^ 64" "17 + ?n < 2 ^ 64" using s size by (simp_all add: sds_at_def)
  have hd: "load64 (heap st) (s - 16 + 8) = of_nat fr" "load64 (heap st) (s - 16) = of_nat ?k"
    using s by (simp_all add: sds_at_def sds_mem_def)
  have lt: "(of_nat fr + of_nat ?k :: 64 word) < of_nat ?n \<longleftrightarrow> fr + ?k < ?n"
    unfolding of_nat_add [symmetric] using lim by (simp add: word_less_nat_alt unat_of_nat del: of_nat_add)
  have cases: "?room = Inl Aborted \<or> (\<exists>s' fr' h bl. ?room = Inr (s', st\<lparr>heap := h, blocks := bl\<rparr>) \<and> ?n \<le> ?k + fr'
      \<and> sds_at (st\<lparr>heap := h, blocks := bl\<rparr>) s' bs fr' \<and> separate bl
      \<and> others (st\<lparr>heap := h, blocks := bl\<rparr>) s' (?k + fr') = ?rest \<and> same_blocks ?rest (heap st) h)"
  proof (cases "fr + ?k < ?n")
    case True
    then have "of_nat ?n - of_nat ?k = (of_nat (?n - ?k) :: 64 word)" by (simp add: of_nat_diff)
    then show ?thesis using True lt sdsMakeRoomFor_ok [OF A s, of "?n - ?k"] size by fastforce
  next
    case False
    have "st\<lparr>heap := heap st, blocks := blocks st\<rparr> = st" by simp
    then show ?thesis using False lt s A(2)
      by (intro disjI2 exI [of _ s] exI [of _ fr] exI [of _ "heap st"] exI [of _ "blocks st"]) simp
  qed
  have run: "sdscpylen A s t (of_nat ?n) st = rbind ?room (\<lambda>(s, st).
           if s = 0 then Inr (0, st)
           else
             let sh = s - 16;
                 totlen = load64 (heap st) (sh + 8) + load64 (heap st) sh;
                 h = store_bytes (heap st) s (load_bytes (heap st) t (unat (of_nat ?n :: 64 word)));
                 h = h(s + of_nat ?n := 0);
                 h = store64 h sh (of_nat ?n);
                 h = store64 h (sh + 8) (totlen - of_nat ?n)
             in Inr (s, st\<lparr>heap := h\<rparr>))"
    unfolding sdscpylen_def Let_def sizeof_sdshdr_def hd ..
  show ?thesis
  proof (cases "?room = Inl Aborted")
    case True
    then show ?thesis using run by simp
  next
    case False
    then obtain s' fr' h bl where r: "?room = Inr (s', st\<lparr>heap := h, blocks := bl\<rparr>)" "?n \<le> ?k + fr'"
      "sds_at (st\<lparr>heap := h, blocks := bl\<rparr>) s' bs fr'" "separate bl"
      "others (st\<lparr>heap := h, blocks := bl\<rparr>) s' (?k + fr') = ?rest" "same_blocks ?rest (heap st) h"
      using cases by blast
    obtain b where b: "s' = b + 16" by (metis diff_add_cancel)
    let ?st = "st\<lparr>heap := h, blocks := bl\<rparr>" and ?f = "?k + fr' - ?n"
    let ?h = "sds_put h b 0 (of_nat (0 + ?n)) (of_nat ?f) ts"
    have ts: "load_bytes h t ?n = ts" using same_blocks_within [OF r(6) src(1)] src(2) by simp
    have un: "unat (of_nat ?n :: 64 word) = ?n" using lim(2) by (simp add: unat_of_nat)
    have m: "b + 16 \<noteq> 0" "load64 h (b + 8) + load64 h b - of_nat ?n = of_nat ?f"
      using r(2,3) b by (simp_all add: sds_at_def sds_mem_def of_nat_diff)
    have "sdscpylen A s t (of_nat ?n) st = Inr (s', st\<lparr>heap := store64 (store64 (store_bytes (store_bytes h (b + of_nat (16 + 0)) ts)
        (b + of_nat (16 + 0 + ?n)) [0]) b (of_nat (0 + ?n))) (b + of_nat 8) (of_nat ?f), blocks := bl\<rparr>)"
      unfolding run r(1) rbind_def b using m ts un by (simp add: add.assoc)
    then have "sdscpylen A s t (of_nat ?n) st = Inr (s', st\<lparr>heap := ?h, blocks := bl\<rparr>)"
      using put_orders(2) [of 0 ts h b] lim(2) by simp
    moreover have "sds_at (st\<lparr>heap := ?h, blocks := bl\<rparr>) s' ts ?f \<and> same_blocks (others ?st s' (?k + fr')) h ?h"
      using sds_rewrite [of ?st s' bs fr' 0 ts ?f] r(2-4) b by (simp add: sds_at_def)
    moreover have "others (st\<lparr>heap := ?h, blocks := bl\<rparr>) s' (?n + ?f) = ?rest" using r(2,5) by (simp add: others_def)
    moreover have "same_blocks ?rest (heap st) ?h" using same_blocks_trans [OF r(6)] r(5) calculation(2) by simp
    ultimately show ?thesis using r(4) by (intro disjI2 exI [of _ s'] exI [of _ ?f] exI [of _ ?h] exI [of _ bl]) simp
  qed
qed

text \<open>
  What \<open>sdsrange\<close> keeps: negative positions count from the end, and positions behind the end
  mean the last byte, also for the start.
\<close>

definition from_end :: "nat \<Rightarrow> int \<Rightarrow> int" where
  "from_end n i = (if i < 0 then max 0 (int n + i) else i)"

definition range_spec :: "int \<Rightarrow> int \<Rightarrow> byte list \<Rightarrow> byte list" where
  "range_spec i j bs =
     (let n = length bs; i = from_end n i; j = from_end n j; a = nat (min i (int n - 1)); b = nat (min j (int n - 1))
      in if n = 0 \<or> j < i then [] else take (b - a + 1) (drop a bs))"

lemma sint_of_small: "n < 2 ^ 31 \<Longrightarrow> sint (of_nat n :: 64 word) = int n"
  by (simp add: signed_of_nat signed_take_bit_int_eq_self)

lemma sint_range_index:
  assumes "n < 2 ^ 31"
  shows "sint (range_index (of_nat n) i) = from_end n (sint i)"
proof -
  have r: "- (2 ^ 63) \<le> sint i" "sint i < 2 ^ 63" using sint_greater_eq [of i] sint_less [of i] by simp_all
  have "sint (of_nat n + i) = int n + sint i" if "sint i < 0"
    using assms r that by (simp add: sint_word_ariths(1) signed_take_bit_int_eq_self sint_of_small)
  then show ?thesis by (auto simp: range_index_def from_end_def word_sless_alt Let_def max_def)
qed

lemma clip_word:
  assumes "n < 2 ^ 31" "0 < n" "0 \<le> sint i"
  shows "range_clip (of_nat n) i = of_nat (nat (min (sint i) (int n - 1)))"
proof -
  have "sint (of_nat n :: i32) = int n" using assms(1) by (simp add: signed_of_nat signed_take_bit_int_eq_self)
  then have l: "scast (ucast (of_nat n :: 64 word) :: i32) = (of_nat n :: 64 word)"
    using assms(1) by (simp add: unsigned_of_nat take_bit_nat_eq_self scast_eq)
  have i: "i = of_nat (nat (sint i))" using assms(3) by simp
  show ?thesis
  proof (cases "int n \<le> sint i")
    case True
    then show ?thesis using l assms sint_of_small [OF assms(1)]
      by (simp add: range_clip_def word_sle_eq min_def of_nat_diff)
  next
    case False
    then have "nat (min (sint i) (int n - 1)) = nat (sint i)" by simp
    then show ?thesis using False l i sint_of_small [OF assms(1)] by (simp add: range_clip_def word_sle_eq)
  qed
qed

lemma range_len_small:
  assumes "a < 2 ^ 31" "b < 2 ^ 31" "a \<le> b"
  shows "range_len (of_nat a) (of_nat b) = of_nat (b - a + 1)"
  using assms by (simp add: range_len_def word_sless_alt sint_of_small of_nat_diff)

lemma header_kept:
  assumes "17 + n + length xs < 2 ^ 64"
  defines "h' \<equiv> \<lambda>h b. store_bytes (store_bytes h (b + of_nat (16 + n)) xs) (b + of_nat (16 + n + length xs)) [0]"
  shows "load64 (h' h b) b = load64 h b" "load64 (h' h b) (b + of_nat 8) = load64 h (b + of_nat 8)"
proof -
  have "disjoint_blocks b 8 (b + of_nat (16 + n)) (length xs)" "disjoint_blocks b 8 (b + of_nat (16 + n + length xs)) (length [0 :: byte])"
    by (rule block_base; use assms(1) in simp)+
  then show "load64 (h' h b) b = load64 h b" by (simp only: h'_def load64_store_bytes_disjoint)
  have "disjoint_blocks (b + of_nat 8) 8 (b + of_nat (16 + n)) (length xs)"
    "disjoint_blocks (b + of_nat 8) 8 (b + of_nat (16 + n + length xs)) (length [0 :: byte])"
    by (rule offset_blocks; use assms(1) in simp)+
  then show "load64 (h' h b) (b + of_nat 8) = load64 h (b + of_nat 8)" by (simp only: h'_def load64_store_bytes_disjoint)
qed

text \<open>The start and the length that \<open>sdsrange\<close> arrives at.\<close>

definition range_words :: "64 word \<Rightarrow> 64 word \<Rightarrow> 64 word \<Rightarrow> 64 word \<times> 64 word" where
  "range_words len start stop =
     (let start = range_index len start; stop = range_index len stop
      in if range_len start stop \<noteq> 0
         then (range_clip len start, range_len (range_clip len start) (range_clip len stop)) else (0, 0))"

lemma range_words_ok:
  assumes "length bs < 2 ^ 31" "bs \<noteq> []"
  shows "\<exists>a c. range_words (of_nat (length bs)) i j = (of_nat a, of_nat c) \<and> a + c \<le> length bs
    \<and> take c (drop a bs) = range_spec (sint i) (sint j) bs"
proof -
  let ?n = "length bs" and ?i = "range_index (of_nat (length bs)) i" and ?j = "range_index (of_nat (length bs)) j"
  have n: "0 < ?n" using assms(2) by simp
  have s: "sint ?i = from_end ?n (sint i)" "sint ?j = from_end ?n (sint j)" using sint_range_index [OF assms(1)] by simp_all
  have p: "0 \<le> sint ?i" "0 \<le> sint ?j" unfolding s by (simp_all add: from_end_def)
  show ?thesis
  proof (cases "sint ?j < sint ?i")
    case True
    then have "range_len ?i ?j = 0" by (simp add: range_len_def word_sless_alt)
    then show ?thesis using True unfolding s by (intro exI [of _ 0]) (simp add: range_words_def range_spec_def Let_def)
  next
    case False
    let ?a = "nat (min (sint ?i) (int ?n - 1))" and ?b = "nat (min (sint ?j) (int ?n - 1))"
    have "?a \<le> ?b" using False by (intro nat_mono min.mono) simp_all
    moreover have "?b \<le> nat (int ?n - 1)" by (intro nat_mono) simp
    ultimately have ab: "?a \<le> ?b" "?b < ?n" "?a < 2 ^ 31" "?b < 2 ^ 31" using n assms(1) by linarith+
    have f0: "range_len ?i ?j \<noteq> 0"
    proof
      assume "range_len ?i ?j = 0"
      then have "?j - ?i + 1 = 0" using False by (simp add: range_len_def word_sless_alt)
      then have "?i = ?j + 1" by (simp add: eq_neg_iff_add_eq_0 algebra_simps)
      then have "sint ?i = signed_take_bit 63 (sint ?j + 1)" by (simp add: sint_word_ariths(1))
      moreover have "sint ?j < 2 ^ 63" using sint_less [of ?j] by simp
      ultimately consider "sint ?i = sint ?j + 1" | "sint ?j + 1 = 2 ^ 63" "sint ?i = signed_take_bit 63 (2 ^ 63)"
        using p(2) by (cases "sint ?j + 1 < 2 ^ 63") (auto simp: signed_take_bit_int_eq_self)
      then show False using False p(1) by cases simp_all
    qed
    have f1: "range_clip (of_nat ?n) ?i = of_nat ?a" "range_clip (of_nat ?n) ?j = of_nat ?b"
      using clip_word [OF assms(1) n] p by blast+
    have f2: "range_len (of_nat ?a) (of_nat ?b) = of_nat (?b - ?a + 1)" by (rule range_len_small [OF ab(3,4,1)])
    have "range_words (of_nat ?n) i j = (of_nat ?a, of_nat (?b - ?a + 1))"
      using f0 unfolding range_words_def Let_def f1 f2 by (rule if_P)
    moreover have "?a + (?b - ?a + 1) \<le> ?n" using ab by simp
    moreover have "range_spec (sint i) (sint j) bs = take (?b - ?a + 1) (drop ?a bs)"
      using False n unfolding s by (simp add: range_spec_def Let_def)
    ultimately show ?thesis by (intro exI [of _ ?a] exI [of _ "?b - ?a + 1"]) simp
  qed
qed

lemma sdsrange_ok:
  assumes "separate (blocks st)" "sds_at st s bs fr" "length bs < 2 ^ 31"
  shows "\<exists>h fr'. sdsrange s start stop st = (s, st\<lparr>heap := h\<rparr>) \<and> sds_at (st\<lparr>heap := h\<rparr>) s (range_spec (sint start) (sint stop) bs) fr'
    \<and> length (range_spec (sint start) (sint stop) bs) + fr' = length bs + fr
    \<and> same_blocks (others st s (length bs + fr)) (heap st) h"
proof (cases "bs = []")
  case True
  have "st\<lparr>heap := heap st\<rparr> = st" by simp
  then show ?thesis using True assms(2) sds_header [OF assms(2)]
    by (intro exI [of _ "heap st"] exI [of _ fr]) (simp add: sdsrange_def range_spec_def)
next
  case False
  let ?k = "length bs"
  obtain a c where r: "range_words (of_nat ?k) start stop = (of_nat a, of_nat c)" "a + c \<le> ?k"
    "take c (drop a bs) = range_spec (sint start) (sint stop) bs"
    using range_words_ok [OF assms(3) False] by blast
  obtain b where b: "s = b + 16" by (metis diff_add_cancel)
  then have sb: "s - 16 = b" by simp
  let ?xs = "take c (drop a bs)" and ?f = "fr + (?k - c)"
  have lx: "length ?xs = c" using r(2) by simp
  have hd: "sdslen s st = of_nat ?k" using sds_header [OF assms(2)] by simp
  have nz: "of_nat ?k \<noteq> (0 :: 64 word)" using False sint_of_small [OF assms(3)] by auto
  have m: "load64 (heap st) (b + of_nat 8) = of_nat fr" "load64 (heap st) b = of_nat ?k" "load_bytes (heap st) (b + of_nat 16) ?k = bs"
    "17 + ?k + fr < 2 ^ 64"
    using assms(2) b by (simp_all add: sds_at_def sds_mem_def)
  have uc: "unat (of_nat c :: 64 word) = c" using r(2) m(4) by (simp add: unat_of_nat)
  have ld: "load_bytes (heap st) (s + of_nat a) c = ?xs"
    using load_bytes_sub [OF r(2), of "heap st" "b + of_nat 16"] m(3) b by (simp add: add.assoc)
  let ?h1 = "store_bytes (heap st) (b + of_nat (16 + 0)) ?xs"
  let ?h2 = "store_bytes ?h1 (b + of_nat (16 + 0 + length ?xs)) [0]"
  have h1: "(if of_nat a \<noteq> (0 :: 64 word) then store_bytes (heap st) s ?xs else heap st) = ?h1"
    using ld store_load_bytes [of "heap st" s c] b by auto
  have lt: "17 + 0 + length ?xs < 2 ^ 64" using lx r(2) m(4) by simp
  have l8: "load64 ?h2 (b + of_nat 8) = of_nat fr" "load64 ?h2 b = of_nat ?k"
    using header_kept [OF lt, of "heap st" b] m(1,2) by simp_all
  have fc: "of_nat fr + (of_nat ?k - of_nat c) = (of_nat ?f :: 64 word)" using r(2) by (simp add: of_nat_diff)
  let ?h = "sds_put (heap st) b 0 (of_nat (0 + length ?xs)) (of_nat ?f) ?xs"
  have "sdsrange s start stop st = (s, st\<lparr>heap := store64 (store64 ?h2 (b + of_nat 8) (of_nat ?f)) b (of_nat (0 + length ?xs))\<rparr>)"
  proof -
    have "sdsrange s start stop st = (let (start, newlen) = range_words (of_nat ?k) start stop;
        h = (if start \<noteq> 0 then store_bytes (heap st) s (load_bytes (heap st) (s + start) (unat newlen)) else heap st);
        h = h(s + newlen := 0); h = store64 h (b + 8) (load64 h (b + 8) + (load64 h b - newlen)) in (s, st\<lparr>heap := store64 h b newlen\<rparr>))"
      using nz unfolding sdsrange_def hd sizeof_sdshdr_def sb by (auto simp: range_words_def Let_def)
    also have "\<dots> = (s, st\<lparr>heap := store64 (store64 ?h2 (b + of_nat 8) (load64 ?h2 (b + of_nat 8) + (load64 ?h2 b - of_nat c))) b (of_nat c)\<rparr>)"
      unfolding r(1) Let_def prod.case uc ld h1 lx using b by (simp add: add.assoc)
    finally show ?thesis unfolding l8 fc by (simp only: lx add_0)
  qed
  then have "sdsrange s start stop st = (s, st\<lparr>heap := ?h\<rparr>)" unfolding put_orders(3) [OF lt] .
  moreover have "0 + length ?xs + ?f = ?k + fr" using lx r(2) by simp
  then have "sds_at (st\<lparr>heap := ?h\<rparr>) s ?xs ?f \<and> same_blocks (others st s (?k + fr)) (heap st) ?h"
    using sds_rewrite [OF assms(1,2), of 0 ?xs ?f] b by simp
  ultimately show ?thesis using r(2,3) lx by (intro exI [of _ ?h] exI [of _ ?f]) simp
qed

subsection \<open>Sequences of operations\<close>

text \<open>
  A program that works on one string: it appends and copies bytes from elsewhere and cuts the
  string. The string may move; each operation continues with the pointer the last returned.
\<close>

datatype sds_op = Catlen addr "64 word" | Cpylen addr "64 word" | Range "64 word" "64 word"

fun sds_step :: "'u allocator \<Rightarrow> sds_op \<Rightarrow> addr \<Rightarrow> 'u cstate \<Rightarrow> (addr \<times> 'u cstate) result" where
  "sds_step A (Catlen t n) s st = sdscatlen A s t n st"
| "sds_step A (Cpylen t n) s st = sdscpylen A s t n st"
| "sds_step A (Range i j) s st = Inr (sdsrange s i j st)"

fun sds_run :: "'u allocator \<Rightarrow> sds_op list \<Rightarrow> addr \<Rightarrow> 'u cstate \<Rightarrow> (addr \<times> 'u cstate) result" where
  "sds_run A [] s st = Inr (s, st)"
| "sds_run A (p # ps) s st = rbind (sds_step A p s st) (\<lambda>(s, st). sds_run A ps s st)"

text \<open>The same on lists of bytes, and what the operations need: sources outside the string and sizes below $2^{31}$.\<close>

fun list_step :: "heap \<Rightarrow> byte list \<Rightarrow> sds_op \<Rightarrow> byte list" where
  "list_step h bs (Catlen t n) = bs @ load_bytes h t (unat n)"
| "list_step h bs (Cpylen t n) = load_bytes h t (unat n)"
| "list_step h bs (Range i j) = range_spec (sint i) (sint j) bs"

fun op_ok :: "(addr \<times> nat) list \<Rightarrow> byte list \<Rightarrow> sds_op \<Rightarrow> bool" where
  "op_ok bl bs (Catlen t n) = (within bl t (unat n) \<and> length bs + unat n < 2 ^ 31)"
| "op_ok bl bs (Cpylen t n) = (within bl t (unat n) \<and> unat n < 2 ^ 31)"
| "op_ok bl bs (Range i j) = True"

fun ops_ok :: "heap \<Rightarrow> (addr \<times> nat) list \<Rightarrow> byte list \<Rightarrow> sds_op list \<Rightarrow> bool" where
  "ops_ok h bl bs [] = True"
| "ops_ok h bl bs (p # ps) = (op_ok bl bs p \<and> ops_ok h bl (list_step h bs p) ps)"

lemma length_range_spec: "length (range_spec i j bs) \<le> length bs"
  by (simp add: range_spec_def Let_def min.coboundedI1)

lemma list_step_small: "op_ok bl bs p \<Longrightarrow> length bs < 2 ^ 31 \<Longrightarrow> length (list_step h bs p) < 2 ^ 31"
  by (cases p) (auto intro: le_less_trans [OF length_range_spec])

text \<open>A string \<open>bs\<close> at \<open>s\<close>, beside the blocks \<open>rest\<close> with the contents they have in \<open>h\<close>.\<close>

definition holds :: "'u cstate \<Rightarrow> addr \<Rightarrow> byte list \<Rightarrow> (addr \<times> nat) list \<Rightarrow> heap \<Rightarrow> bool" where
  "holds st s bs rest h \<longleftrightarrow> separate (blocks st) \<and> same_blocks rest h (heap st)
     \<and> (\<exists>fr. sds_at st s bs fr \<and> others st s (length bs + fr) = rest)"

lemma sds_step_ok:
  assumes st: "holds st s bs rest h" and ok: "op_ok rest bs p" "length bs < 2 ^ 31"
  and A: "realloc_ok A"
  shows "sds_step A p s st = Inl Aborted
    \<or> (\<exists>s' st'. sds_step A p s st = Inr (s', st') \<and> holds st' s' (list_step h bs p) rest h)"
proof -
  obtain fr where s: "separate (blocks st)" "same_blocks rest h (heap st)" "sds_at st s bs fr" "others st s (length bs + fr) = rest"
    using st unfolding holds_def by blast
  have ld: "load_bytes (heap st) t n = load_bytes h t n" if "within rest t n" for t n
    using same_blocks_within [OF s(2) that] .
  show ?thesis
  proof (cases p)
    case (Catlen t n)
    let ?ts = "load_bytes h t (unat n)"
    have "within (others st s (length bs + fr)) t (length ?ts)" "load_bytes (heap st) t (length ?ts) = ?ts"
      "17 + 2 * (length bs + length ?ts) < 2 ^ 64" using ok ld s(4) Catlen by simp_all
    from sdscatlen_ok [OF A s(1,3) this] consider "sdscatlen A s t n st = Inl Aborted"
      | s' fr' g bl where "sdscatlen A s t n st = Inr (s', st\<lparr>heap := g, blocks := bl\<rparr>)"
        "sds_at (st\<lparr>heap := g, blocks := bl\<rparr>) s' (bs @ ?ts) fr'" "separate bl"
        "others (st\<lparr>heap := g, blocks := bl\<rparr>) s' (length (bs @ ?ts) + fr') = rest" "same_blocks rest (heap st) g"
      unfolding s(4) by auto
    then show ?thesis
    proof cases
      case 2
      then show ?thesis using Catlen same_blocks_trans [OF s(2)] unfolding holds_def by auto
    qed (simp add: Catlen)
  next
    case (Cpylen t n)
    let ?ts = "load_bytes h t (unat n)"
    have "within (others st s (length bs + fr)) t (length ?ts)" "load_bytes (heap st) t (length ?ts) = ?ts"
      "17 + 2 * length bs + 2 * length ?ts < 2 ^ 64" using ok ld s(4) Cpylen by simp_all
    from sdscpylen_ok [OF A s(1,3) this] consider "sdscpylen A s t n st = Inl Aborted"
      | s' fr' g bl where "sdscpylen A s t n st = Inr (s', st\<lparr>heap := g, blocks := bl\<rparr>)"
        "sds_at (st\<lparr>heap := g, blocks := bl\<rparr>) s' ?ts fr'" "separate bl"
        "others (st\<lparr>heap := g, blocks := bl\<rparr>) s' (length ?ts + fr') = rest" "same_blocks rest (heap st) g"
      unfolding s(4) by auto
    then show ?thesis
    proof cases
      case 2
      then show ?thesis using Cpylen same_blocks_trans [OF s(2)] unfolding holds_def by auto
    qed (simp add: Cpylen)
  next
    case (Range i j)
    obtain g fr' where "sdsrange s i j st = (s, st\<lparr>heap := g\<rparr>)" "sds_at (st\<lparr>heap := g\<rparr>) s (range_spec (sint i) (sint j) bs) fr'"
      "length (range_spec (sint i) (sint j) bs) + fr' = length bs + fr" "same_blocks rest (heap st) g"
      using sdsrange_ok [OF s(1,3) ok(2)] unfolding s(4) by blast
    then show ?thesis using Range s(1,4) same_blocks_trans [OF s(2)] unfolding holds_def by (auto simp: others_def)
  qed
qed

text \<open>The one reason to abort: \<open>realloc\<close> has refused less than eight gigabytes for a string in such a state.\<close>

definition refused :: "'u allocator \<Rightarrow> (addr \<times> nat) list \<Rightarrow> heap \<Rightarrow> bool" where
  "refused A rest h \<longleftrightarrow> (\<exists>st s bs m. holds st s bs rest h \<and> unat m < 2 ^ 33 \<and> fst (realloc_c A (s - 16) m st) = 0)"

lemma room_refused:
  assumes "sdsMakeRoomFor A s n st = Inl e"
  shows "fst (realloc_c A (s - 16) (16 + (sdslen s st + n) * 2 + 1) st) = 0"
  using assms by (auto simp: sdsMakeRoomFor_def zrealloc_def sizeof_sdshdr_def Let_def split: if_splits prod.splits)

lemma sdscatlen_Inl: "sdscatlen A s t n st = Inl e \<Longrightarrow> sdsMakeRoomFor A s n st = Inl e"
  by (cases "sdsMakeRoomFor A s n st") (auto simp: sdscatlen_def Let_def split: if_splits)

lemma sdscpylen_Inl: "sdscpylen A s t n st = Inl e \<Longrightarrow> sdsMakeRoomFor A s (n - sdslen s st) st = Inl e"
  by (cases "sdsMakeRoomFor A s (n - sdslen s st) st")
    (auto simp: sdscpylen_def sdslen_def Let_def split: if_splits)

lemma sds_step_refused:
  assumes st: "holds st s bs rest h" and ok: "op_ok rest bs p" "length bs < 2 ^ 31" and "sds_step A p s st = Inl e"
  shows "refused A rest h"
proof -
  have size: "unat (16 + of_nat k * 2 + 1 :: 64 word) < 2 ^ 33" if "k < 2 ^ 31" for k
  proof -
    have "(16 + of_nat k * 2 + 1 :: 64 word) = of_nat (17 + 2 * k)" by simp
    then show ?thesis using that by (simp only: unat_of_nat) simp
  qed
  have len: "sdslen s st = of_nat (length bs)" using st sds_header unfolding holds_def by blast
  have "\<exists>n. sdsMakeRoomFor A s n st = Inl e \<and> (\<exists>k < 2 ^ 31. sdslen s st + n = of_nat k)"
  proof (cases p)
    case (Catlen t n)
    then have "sdsMakeRoomFor A s n st = Inl e" using assms(4) sdscatlen_Inl by simp
    moreover have "sdslen s st + n = of_nat (length bs + unat n)" using len by simp
    ultimately show ?thesis using ok(1) Catlen by (metis op_ok.simps(1))
  next
    case (Cpylen t n)
    then have "sdsMakeRoomFor A s (n - sdslen s st) st = Inl e" using assms(4) sdscpylen_Inl by simp
    moreover have "sdslen s st + (n - sdslen s st) = of_nat (unat n)" by simp
    ultimately show ?thesis using ok(1) Cpylen by (metis op_ok.simps(2))
  qed (use assms(4) in simp)
  then obtain n where n: "sdsMakeRoomFor A s n st = Inl e" "\<exists>k < 2 ^ 31. sdslen s st + n = of_nat k" by blast
  show ?thesis using n(2) room_refused [OF n(1)] size st unfolding refused_def by metis
qed

lemma sds_run_ok:
  assumes "realloc_ok A"
  shows "holds st s bs rest h \<Longrightarrow> ops_ok h rest bs ps \<Longrightarrow> length bs < 2 ^ 31 \<Longrightarrow>
    sds_run A ps s st = Inl Aborted \<and> refused A rest h \<or> (\<exists>s' st'. sds_run A ps s st = Inr (s', st') \<and> holds st' s' (foldl (list_step h) bs ps) rest h)"
proof (induction ps arbitrary: s st bs)
  case (Cons p ps)
  then have p: "op_ok rest bs p" "ops_ok h rest (list_step h bs p) ps" by simp_all
  consider "sds_step A p s st = Inl Aborted"
    | s' st' where "sds_step A p s st = Inr (s', st')" "holds st' s' (list_step h bs p) rest h"
    using sds_step_ok [OF Cons.prems(1) p(1) Cons.prems(3) assms] by blast
  then show ?case
  proof cases
    case 1
    then show ?thesis using sds_step_refused [OF Cons.prems(1) p(1) Cons.prems(3)] by simp
  next
    case 2
    then show ?thesis using Cons.IH [OF 2(2) p(2) list_step_small [OF p(1) Cons.prems(3)]] by simp
  qed
qed auto

subsection \<open>Properties\<close>

text \<open>
  C31: The strings of Redis refine lists of bytes. A sequence of \<open>sdscatlen\<close>, \<open>sdscpylen\<close> and
  \<open>sdsrange\<close> on a string, with sources outside it, either aborts, and only because \<open>realloc\<close> has refused
  less than eight gigabytes, or returns a pointer to a well-formed string that holds what the same operations on lists of bytes
  give, wherever \<open>realloc\<close> has moved it, and leaves every other block of memory as it was.
\<close>

theorem sds_refines:
  assumes "realloc_ok A" "separate (blocks st)" "sds_at st s bs fr" "length bs < 2 ^ 31"
    and "ops_ok (heap st) (others st s (length bs + fr)) bs ps"
  shows "sds_run A ps s st = Inl Aborted \<and> refused A (others st s (length bs + fr)) (heap st)
    \<or> (\<exists>s' st' fr'. sds_run A ps s st = Inr (s', st') \<and> sds_at st' s' (foldl (list_step (heap st)) bs ps) fr'
         \<and> separate (blocks st') \<and> same_blocks (others st s (length bs + fr)) (heap st) (heap st'))"
proof -
  have "holds st s bs (others st s (length bs + fr)) (heap st)" using assms(2,3) unfolding holds_def by auto
  from sds_run_ok [OF assms(1) this assms(5,4)] show ?thesis unfolding holds_def by blast
qed

text \<open>An example: the string \<open>hi\<close> with eight unused bytes, the bytes \<open>abc\<close> elsewhere, and no more memory.\<close>

definition full_memory :: "'u allocator" where
  "full_memory = \<lparr>malloc_c = (\<lambda>n st. (0, st)), realloc_c = (\<lambda>p n st. (0, st))\<rparr>"

definition sds_example :: "unit cstate" where
  "sds_example = (start_state ())\<lparr>
     heap := store_bytes (store_bytes (\<lambda>_. 0) 4096 (bytes64 2 @ bytes64 8 @ [104, 105, 0])) 8192 [97, 98, 99],
     blocks := [(4096, 27), (8192, 3)]\<rparr>"

definition example_ops :: "sds_op list" where
  "example_ops = [Catlen 8192 3, Range 1 (- 2)]"

lemma full_memory_ok: "realloc_ok (full_memory :: 'u allocator)" "malloc_ok (full_memory :: 'u allocator)"
proof -
  have e: "st\<lparr>heap := heap st, blocks := blocks st\<rparr> = st" for st :: "'u cstate" by simp
  have "\<exists>q h. (0 :: addr, st) = (q, st\<lparr>heap := h, blocks := if q = 0 then blocks st else (q, n) # bl\<rparr>) \<and> q = 0 \<and> h = heap st"
    for st :: "'u cstate" and n bl using e [of st] by (intro exI [of _ 0] exI [of _ "heap st"]) simp
  note r = this
  show "realloc_ok (full_memory :: 'u allocator)"
    unfolding realloc_ok_def full_memory_def using r by simp
  have "\<exists>h. st = st\<lparr>heap := h\<rparr> \<and> same_blocks (blocks st) (heap st) h" for st :: "'u cstate"
    by (intro exI [of _ "heap st"]) simp
  then show "malloc_ok (full_memory :: 'u allocator)"
    unfolding malloc_ok_def full_memory_def by simp
qed

lemma sds_example_ok: "separate (blocks sds_example)" "sds_at sds_example 4112 [104, 105] 8"
  "ops_ok (heap sds_example) (others sds_example 4112 10) [104, 105] example_ops"
  "foldl (list_step (heap sds_example)) [104, 105] example_ops = [105, 97, 98]"
proof -
  have "disjoint_blocks 4096 27 8192 3" by (subst disjoint_blocks_sym) (rule disjoint_blocksI, simp_all)
  then show "separate (blocks sds_example)" by (simp add: sds_example_def apart_def)
  have "sds_mem (heap sds_example) 4096 [104, 105] 8" by code_simp
  then show "sds_at sds_example 4112 [104, 105] 8" by (simp add: sds_at_def sds_example_def)
  show "ops_ok (heap sds_example) (others sds_example 4112 10) [104, 105] example_ops"
    by (simp add: example_ops_def within_def others_def sds_example_def)
  show "foldl (list_step (heap sds_example)) [104, 105] example_ops = [105, 97, 98]" by code_simp
qed

theorem sds_refines_witness:
  "\<exists>s' st' fr'. sds_run full_memory example_ops 4112 sds_example = Inr (s', st') \<and> sds_at st' s' [105, 97, 98] fr'"
proof -
  have "others sds_example 4112 (length [104 :: byte, 105] + 8) = others sds_example 4112 10" by simp
  then have "sds_run full_memory example_ops 4112 sds_example = Inl Aborted
    \<or> (\<exists>s' st' fr'. sds_run full_memory example_ops 4112 sds_example = Inr (s', st')
         \<and> sds_at st' s' (foldl (list_step (heap sds_example)) [104, 105] example_ops) fr')"
    using sds_refines [OF full_memory_ok(1) sds_example_ok(1,2), of example_ops] sds_example_ok(3) by auto
  moreover have "sdsavail 4112 sds_example = 8" using sds_header [OF sds_example_ok(2)] by simp
  then have "sds_run full_memory example_ops 4112 sds_example \<noteq> Inl Aborted"
    by (simp add: example_ops_def sdscatlen_def sdsMakeRoomFor_def Let_def split: prod.split)
  ultimately show ?thesis using sds_example_ok(4) by auto
qed

end
