(* ===== verification/Redis.thy ===== *)
theory Redis
  imports Serial Profile Update Sds
begin

text \<open>
  The services for Redis: src/examples/redis-2.0.2/serial.c, the service that counts types
  (perfaction.c) and the service that chooses between reading, writing, updating and checking
  assertions (perfaction.assert.c). The generated type numbers, the modes and look-ups of
  Kitsune, \<open>fcntl\<close>, \<open>time\<close> and the allocator are parameters.
\<close>

subsection \<open>State and parameters\<close>

text \<open>\<open>ser_disk\<close> is the file \<open>ser.txt\<close>, if it exists.\<close>

record redis_user = serial_file +
  prof_counts :: type_counts
  asstcnt :: i32
  ser_disk :: "byte list option"

record redis_types =
  TYPE_INT :: ctyp
  TYPE_LONG :: ctyp
  TYPE_LONG_LONG :: ctyp
  TYPE_UNSIGNED_CHAR :: ctyp
  TYPE_CHAR_NT :: ctyp
  TYPE_CHAR_NT_PTR :: ctyp
  TYPE_OPAQUE_PTR :: ctyp
  TYPE_sds :: ctyp
  TYPE_list_PTR_OF_TYPE_robj_PTR :: ctyp
  TYPE_dict_PTR_OF_TYPE_robj_PTR__TYPE_robj_PTR :: ctyp
  TYPE_redisDb :: ctyp
  TYPE_time_t :: ctyp
  TYPE_robj :: ctyp
  TYPE_STRUCT_redisObject :: ctyp
  TYPE_STRUCT_redisObjectVM :: ctyp
  TYPE_aeFileProc :: ctyp
  TYPE_aeFileEvent :: ctyp
  TYPE_STRUCT_aeFileEvent :: ctyp
  TYPE_aeFiredEvent :: ctyp
  TYPE_aeTimeEvent :: ctyp
  TYPE_STRUCT_aeTimeEvent :: ctyp
  TYPE_STRUCT_dictType :: ctyp
  TYPE_STRUCT_dictEntry :: ctyp
  TYPE_STRUCT_dictEntry_PTR :: ctyp
  TYPE_listNode :: ctyp
  TYPE_STRUCT_listNode :: ctyp
  TYPE_redisClient :: ctyp
  TYPE_STRUCT_redisClient :: ctyp
  TYPE_redisClient_PTR :: ctyp

text \<open>
  \<open>fcntl_getfd\<close> gives the result of \<open>fcntl(fd, F_GETFD)\<close> and \<open>errno\<close> after it;
  \<open>gen_fuel\<close> and \<open>gen_pad\<close> are the nesting bound and the padding bytes of \<open>mktypfromgenargs\<close>,
  \<open>arr_pad\<close> the padding bytes of \<open>mktyparr\<close>.
\<close>

record redis_config =
  rtypes :: redis_types
  kitsune_is_reading :: bool
  kitsune_is_writing :: bool
  kitsune_is_dsu :: bool
  kitsune_is_profiling :: bool
  kitsune :: "redis_user update_config"
  ralloc :: "redis_user allocator"
  stack_junk :: "64 word"
  fcntl_getfd :: "i32 \<Rightarrow> i32 \<times> i32"
  time_now :: "64 word"
  cstrider_start_heaptraverse :: "redis_user cstate \<Rightarrow> redis_user cstate"
  cstrider_heaptraverse_teardown :: "redis_user cstate \<Rightarrow> redis_user cstate"
  gen_fuel :: nat
  gen_pad :: "ctyp \<Rightarrow> byte list"
  arr_pad :: "byte list"

type_synonym rstate = "redis_user cstate"

definition ser_config :: "redis_config \<Rightarrow> redis_user serial_config" where
  "ser_config c = \<lparr>TYPE_OPAQUE_PTR_i = TYPE_OPAQUE_PTR (rtypes c), TYPE_CHAR_NT_i = TYPE_CHAR_NT (rtypes c),
     TYPE_CHAR_NT_PTR_i = TYPE_CHAR_NT_PTR (rtypes c), malloc_fn = malloc_c (ralloc c), junk = stack_junk c\<rparr>"

subsection \<open>serial.c\<close>

definition serial_init :: "rstate \<Rightarrow> rstate" where
  "serial_init s = s\<lparr>user := (user s)\<lparr>ser_out := [], ser_disk := Some []\<rparr>\<rparr>"

definition serial_free :: "rstate \<Rightarrow> rstate" where
  "serial_free s = s\<lparr>user := (user s)\<lparr>ser_disk := Some (ser_out (user s))\<rparr>\<rparr>"

definition deserial_init :: "rstate \<Rightarrow> rstate result" where
  "deserial_init s =
     (case ser_disk (user s) of
        None \<Rightarrow> Inl Assert_failed
      | Some bs \<Rightarrow> Inr (s\<lparr>user := (user s)\<lparr>ser_in := bs\<rparr>\<rparr>))"

definition deserial_free :: "rstate \<Rightarrow> rstate" where
  "deserial_free s = s"

definition redis_serial_ptr :: "redis_config \<Rightarrow> addr \<Rightarrow> ctyp \<Rightarrow> addr \<Rightarrow> rstate \<Rightarrow> (bool \<times> rstate) result" where
  "redis_serial_ptr c inp type out s =
     (let v = load64 (heap s) inp
      in if v = 0 then Inr (False, serial_write_token 0 s)
         else case kitsune_lookup_addr_old (kitsune c) v of
           Some symbol \<Rightarrow> Inr (False, serial_symbol_str symbol (serial_write_token SER_SYMBOL s))
         | None \<Rightarrow>
             rbind (serial_prim inp type s) (\<lambda>s.
               if type = TYPE_CHAR_NT_PTR (rtypes c)
               then rbind (serial_char_str v s) (\<lambda>s. Inr (False, s))
               else Inr (True, s)))"

definition redis_serial_ptr_mapped :: "redis_config \<Rightarrow> addr \<Rightarrow> ctyp \<Rightarrow> addr \<Rightarrow> rstate \<Rightarrow> (addr \<times> rstate) result" where
  "redis_serial_ptr_mapped c inp type lookup s =
     (case kitsune_lookup_addr_old (kitsune c) (load64 (heap s) inp) of
        Some symbol \<Rightarrow> Inr (lookup, serial_symbol_str symbol (serial_write_token SER_SYMBOL s))
      | None \<Rightarrow> rbind (serial_prim inp type s) (\<lambda>s. Inr (lookup, s)))"

definition redis_deserial_symbol :: "redis_config \<Rightarrow> addr \<Rightarrow> rstate \<Rightarrow> rstate result" where
  "redis_deserial_symbol c out s =
     (let (symbol, s) = deserial_char_str (ser_config c) s
      in case c_string (heap s) symbol of
           None \<Rightarrow> Inl Wild_access
         | Some key \<Rightarrow>
             Inr (s\<lparr>heap := store64 (heap s) out (kitsune_lookup_key_new (kitsune c) key), freed := freed s @ [symbol]\<rparr>))"

text \<open>A pointer not met before is read like in src/examples/heap_serialize/serial.c.\<close>

definition redis_deserial_ptr ::
    "redis_config \<Rightarrow> redis_user visitor \<Rightarrow> addr \<Rightarrow> ctyp \<Rightarrow> addr \<Rightarrow> rstate \<Rightarrow> (bool \<times> rstate) result" where
  "redis_deserial_ptr c vis inp type out s =
     (let (bs, s) = read_bytes 8 s;
          present = into_local64 (stack_junk c) bs
      in rbind
           (if present = SER_SYMBOL then redis_deserial_symbol c out s
            else if present = 0 then Inr (s\<lparr>heap := store64 (heap s) out 0\<rparr>)
            else if find_mapping present s \<noteq> 0
                 then Inr (s\<lparr>heap := store64 (heap s) out (find_mapping present s)\<rparr>)
                 else deserial_new (ser_config c) vis present type out s)
           (\<lambda>s. Inr (False, s)))"

subsection \<open>Objects\<close>

text \<open>
  \<open>struct redisObject\<close>: \<open>ptr\<close> at offset 0, then the bytes \<open>type\<close>, \<open>encoding\<close>, \<open>storage\<close> and
  \<open>vtype\<close> at 8 to 11, \<open>refcount\<close> at 12 and \<open>vm\<close> (\<open>page\<close>, \<open>usedpages\<close>, \<open>atime\<close>) at 16, 24 and 32.
\<close>

definition robj_type :: "heap \<Rightarrow> addr \<Rightarrow> byte" where
  "robj_type h a = h (a + 8)"

definition robj_encoding :: "heap \<Rightarrow> addr \<Rightarrow> byte" where
  "robj_encoding h a = h (a + 9)"

definition REDIS_STRING :: byte where "REDIS_STRING = 0"
definition REDIS_LIST :: byte where "REDIS_LIST = 1"
definition REDIS_SET :: byte where "REDIS_SET = 2"
definition REDIS_ZSET :: byte where "REDIS_ZSET = 3"
definition REDIS_HASH :: byte where "REDIS_HASH = 4"
definition REDIS_ENCODING_INT :: byte where "REDIS_ENCODING_INT = 1"

text \<open>
  \<open>redis_item_union\<close> of perfaction.assert.c; \<open>trav\<close> is \<open>cstrider_traverse\<close>, which takes the
  output before the type.
\<close>

definition redis_item_union ::
    "redis_config \<Rightarrow> (addr \<Rightarrow> addr \<Rightarrow> ctyp \<Rightarrow> rstate \<Rightarrow> rstate result) \<Rightarrow> addr \<Rightarrow> addr \<Rightarrow> rstate \<Rightarrow> rstate result" where
  "redis_item_union c trav inp out s =
     (if inp = 0 then Inr s
      else
        let t = robj_type (heap s) inp
        in if t = REDIS_STRING
           then if robj_encoding (heap s) inp = REDIS_ENCODING_INT then trav inp out (TYPE_INT (rtypes c)) s
                else trav inp out (TYPE_sds (rtypes c)) s
           else if t = REDIS_LIST then trav inp out (TYPE_list_PTR_OF_TYPE_robj_PTR (rtypes c)) s
           else if t \<in> {REDIS_ZSET, REDIS_HASH, REDIS_SET}
                then trav inp out (TYPE_dict_PTR_OF_TYPE_robj_PTR__TYPE_robj_PTR (rtypes c)) s
           else Inr s)"

definition cstrider_traverse :: "redis_user visitor \<Rightarrow> addr \<Rightarrow> addr \<Rightarrow> ctyp \<Rightarrow> rstate \<Rightarrow> rstate result" where
  "cstrider_traverse vis inp out t s = vis inp t out s"

text \<open>
  In perfaction.c the calls are \<open>visit(&in->ptr, &out->ptr, TYPE)\<close>, but \<open>visit\<close> takes the type
  before the output.
\<close>

definition perf_item_union :: "redis_config \<Rightarrow> redis_user visitor \<Rightarrow> addr \<Rightarrow> addr \<Rightarrow> rstate \<Rightarrow> rstate result" where
  "perf_item_union c vis inp out s =
     (if inp = 0 then Inr s
      else
        let t = robj_type (heap s) inp
        in if t = REDIS_STRING
           then if robj_encoding (heap s) inp = REDIS_ENCODING_INT then vis inp out (TYPE_INT (rtypes c)) s
                else vis inp out (TYPE_sds (rtypes c)) s
           else if t = REDIS_LIST then vis inp out (TYPE_list_PTR_OF_TYPE_robj_PTR (rtypes c)) s
           else if t \<in> {REDIS_ZSET, REDIS_HASH, REDIS_SET}
                then vis inp out (TYPE_dict_PTR_OF_TYPE_robj_PTR__TYPE_robj_PTR (rtypes c)) s
           else Inr s)"

text \<open>\<open>struct aeFileEvent\<close>: \<open>mask\<close> at offset 0, the two procedures at 8 and 16, \<open>clientData\<close> at 24.\<close>

definition visit_aeFileEvent :: "redis_config \<Rightarrow> redis_user visitor \<Rightarrow> addr \<Rightarrow> addr \<Rightarrow> rstate \<Rightarrow> (bool \<times> rstate) result" where
  "visit_aeFileEvent c vis ae ae_o s =
     rbind (vis ae (TYPE_INT (rtypes c)) ae_o s) (\<lambda>s.
     rbind (vis (ae + 8) (TYPE_aeFileProc (rtypes c)) (ae_o + 8) s) (\<lambda>s.
     rbind (vis (ae + 16) (TYPE_aeFileProc (rtypes c)) (ae_o + 16) s) (\<lambda>s.
     rbind (if load32 (heap s) ae \<noteq> 0 \<and> load64 (heap s) (ae + 24) \<noteq> 0
            then vis (ae + 24) (TYPE_redisClient_PTR (rtypes c)) (ae_o + 24) s else Inr s) (\<lambda>s.
     Inr (False, s)))))"

subsection \<open>perfaction.c\<close>

definition perf_init :: "rstate \<Rightarrow> rstate" where
  "perf_init = on_user (prof_counts_update counts_init)"

definition perf_free :: "rstate \<Rightarrow> rstate result" where
  "perf_free s = rbind (counts_free (type_table_of s) (prof_counts (user s))) (\<lambda>p.
     Inr (on_user (prof_counts_update (\<lambda>_. p)) s))"

definition perf_struct :: "redis_config \<Rightarrow> redis_user visitor \<Rightarrow> addr \<Rightarrow> ctyp \<Rightarrow> addr \<Rightarrow> rstate \<Rightarrow> (bool \<times> rstate) result" where
  "perf_struct c vis inp type out s =
     (let T = rtypes c
      in if type = TYPE_STRUCT_aeFileEvent T \<or> type = TYPE_aeFileEvent T then visit_aeFileEvent c vis inp out s
         else if type = TYPE_STRUCT_redisObject T \<or> type = TYPE_robj T
         then if inp = 0 then Inr (False, s)
              else
                rbind (vis (inp + 8) (TYPE_UNSIGNED_CHAR T) (inp + 8) s) (\<lambda>s.
                rbind (vis (inp + 9) (TYPE_UNSIGNED_CHAR T) (inp + 9) s) (\<lambda>s.
                rbind (vis (inp + 10) (TYPE_UNSIGNED_CHAR T) (inp + 10) s) (\<lambda>s.
                rbind (vis (inp + 11) (TYPE_UNSIGNED_CHAR T) (inp + 11) s) (\<lambda>s.
                rbind (vis (inp + 12) (TYPE_INT T) (inp + 12) s) (\<lambda>s.
                rbind (vis (inp + 16) (TYPE_STRUCT_redisObjectVM T) (inp + 16) s) (\<lambda>s.
                rbind (perf_item_union c vis inp inp s) (\<lambda>s. Inr (False, s))))))))
         else counts_struct prof_counts_update inp type out s)"

definition type_count_funs :: "redis_config \<Rightarrow> redis_user traversal" where
  "type_count_funs c = \<lparr>perfaction_prim = (\<lambda>vis inp type out. counts_prim prof_counts_update inp type),
     perfaction_struct = perf_struct c, perfaction_ptr = (\<lambda>vis. counts_ptr prof_counts_update),
     perfaction_ptr_mapped = (\<lambda>vis. counts_ptr_mapped)\<rparr>"

subsection \<open>perfaction.assert.c\<close>

text \<open>\<open>serial_just_db\<close> traverses the databases; \<open>serverdb\<close> is the address of the pointer to them.\<close>

definition serial_just_db :: "redis_config \<Rightarrow> redis_user visitor \<Rightarrow> i32 \<Rightarrow> addr \<Rightarrow> rstate \<Rightarrow> rstate result" where
  "serial_just_db c vis dbnum serverdb s =
     (let s = cstrider_start_heaptraverse c s;
          db = load64 (heap s) serverdb
      in rbind (mktyparr dbnum (arr_pad c) (TYPE_redisDb (rtypes c)) (tstate s)) (\<lambda>(t, ts).
         rbind (cstrider_traverse vis db db t (s\<lparr>tstate := ts\<rparr>)) (\<lambda>s.
         Inr (cstrider_heaptraverse_teardown c s))))"

text \<open>
  \<open>deserial_sds_str\<close> reads a string into memory of its own, makes an sds string of it, stores
  the pointer at \<open>addr\<close> and frees the memory. \<open>fread\<close> into NULL crashes.
\<close>

definition deserial_sds_str :: "redis_config \<Rightarrow> addr \<Rightarrow> rstate \<Rightarrow> rstate result" where
  "deserial_sds_str c a s =
     (let (lb, s) = read_bytes 4 s;
          len = into_local32 (ucast (stack_junk c)) lb;
          (tmp, s) = malloc_c (ralloc c) (scast len) s
      in if tmp = 0 then Inl Null_deref
         else
           let s = serial_internal_read tmp len s
           in rbind (sdsnew (ralloc c) tmp s) (\<lambda>(p, s).
                Inr (zfree tmp (s\<lparr>heap := store64 (heap s) a p\<rparr>))))"

definition redis_init :: "redis_config \<Rightarrow> rstate \<Rightarrow> rstate result" where
  "redis_init c s =
     rbind (if kitsune_is_reading c then deserial_init s else Inr s) (\<lambda>s.
     let s = (if kitsune_is_writing c then serial_init s else s);
         s = (if kitsune_is_dsu c then update_init (kitsune c) s else s)
     in Inr (if kitsune_is_profiling c
             then on_user (prof_counts_update counts_init) (on_user (asstcnt_update (\<lambda>_. 0)) s) else s))"

definition redis_free :: "redis_config \<Rightarrow> rstate \<Rightarrow> rstate result" where
  "redis_free c s =
     (let s = (if kitsune_is_reading c then deserial_free s else s);
          s = (if kitsune_is_writing c then serial_free s else s);
          s = (if kitsune_is_dsu c then update_free (kitsune c) s else s)
      in if kitsune_is_profiling c then perf_free s else Inr s)"

definition redis_ptr :: "redis_config \<Rightarrow> redis_user visitor \<Rightarrow> addr \<Rightarrow> ctyp \<Rightarrow> addr \<Rightarrow> rstate \<Rightarrow> (bool \<times> rstate) result" where
  "redis_ptr c vis inp type out s =
     (if kitsune_is_reading c then redis_deserial_ptr c vis inp type out s
      else if kitsune_is_writing c then redis_serial_ptr c inp type out s
      else if kitsune_is_dsu c then update_ptr (kitsune c) inp type out s
      else if kitsune_is_profiling c then counts_ptr prof_counts_update inp type out s
      else Inr (False, s))"

definition redis_ptr_mapped :: "redis_config \<Rightarrow> addr \<Rightarrow> ctyp \<Rightarrow> addr \<Rightarrow> rstate \<Rightarrow> (addr \<times> rstate) result" where
  "redis_ptr_mapped c inp type lookup s =
     rbind (if kitsune_is_reading c then deserial_ptr_mapped inp type lookup s else Inr (lookup, s)) (\<lambda>(lookup, s).
     rbind (if kitsune_is_writing c then redis_serial_ptr_mapped c inp type lookup s else Inr (lookup, s)) (\<lambda>(lookup, s).
     rbind (if kitsune_is_dsu c then update_ptr_mapped inp type lookup s else Inr (lookup, s)) (\<lambda>(lookup, s).
     if kitsune_is_profiling c then counts_ptr_mapped inp type lookup s else Inr (lookup, s))))"

definition redis_prim :: "redis_config \<Rightarrow> addr \<Rightarrow> ctyp \<Rightarrow> addr \<Rightarrow> rstate \<Rightarrow> rstate result" where
  "redis_prim c inp type out s =
     rbind (if kitsune_is_reading c then deserial_prim type out s else Inr s) (\<lambda>s.
     rbind (if kitsune_is_writing c then serial_prim inp type s else Inr s) (\<lambda>s.
     rbind (if kitsune_is_dsu c then update_prim inp type out s else Inr s) (\<lambda>s.
     if kitsune_is_profiling c then counts_prim prof_counts_update inp type s else Inr s)))"

text \<open>
  An object is written field by field; a string follows, everything else is traversed.
  Reading puts the fields back, except that \<open>vm\<close> is a copy on the stack.
\<close>

definition write_robj :: "redis_config \<Rightarrow> redis_user visitor \<Rightarrow> addr \<Rightarrow> rstate \<Rightarrow> (bool \<times> rstate) result" where
  "write_robj c vis inp s =
     (if inp = 0 then Inr (False, s)
      else
        let s = serial_internal_write (inp + 8) 1 s;
            s = serial_internal_write (inp + 9) 1 s;
            s = serial_internal_write (inp + 10) 1 s;
            s = serial_internal_write (inp + 11) 1 s;
            s = serial_internal_write (inp + 12) 4 s;
            s = serial_internal_write (inp + 16) 8 s;
            s = serial_internal_write (inp + 24) 8 s;
            s = serial_internal_write (inp + 32) 8 s
        in rbind (if robj_type (heap s) inp = REDIS_STRING \<and> robj_encoding (heap s) inp \<noteq> REDIS_ENCODING_INT
                  then serial_char_str (load64 (heap s) inp) s
                  else redis_item_union c (cstrider_traverse vis) inp inp s) (\<lambda>s. Inr (False, s)))"

definition read_robj :: "redis_config \<Rightarrow> redis_user visitor \<Rightarrow> addr \<Rightarrow> rstate \<Rightarrow> (bool \<times> rstate) result" where
  "read_robj c vis inp s =
     (if inp = 0 then Inr (False, s)
      else
        let s = serial_internal_read (inp + 8) 1 s;
            s = serial_internal_read (inp + 9) 1 s;
            s = serial_internal_read (inp + 10) 1 s;
            s = serial_internal_read (inp + 11) 1 s;
            s = serial_internal_read (inp + 12) 4 s;
            s = snd (read_bytes 8 s);
            s = snd (read_bytes 8 s);
            s = snd (read_bytes 8 s)
        in rbind (if robj_type (heap s) inp = REDIS_STRING \<and> robj_encoding (heap s) inp \<noteq> REDIS_ENCODING_INT
                  then deserial_sds_str c inp s
                  else redis_item_union c (cstrider_traverse vis) inp inp s) (\<lambda>s. Inr (False, s)))"

text \<open>Types that are not traversed further, and entries of dictionaries (\<open>key\<close>, \<open>val\<close> and \<open>next\<close>).\<close>

definition opaque_type :: "redis_config \<Rightarrow> ctyp \<Rightarrow> bool" where
  "opaque_type c type \<longleftrightarrow> (let T = rtypes c in
     type \<in> {TYPE_STRUCT_redisObjectVM T, TYPE_LONG_LONG T, TYPE_INT T, TYPE_LONG T, TYPE_time_t T, TYPE_aeFiredEvent T})"

definition visit_dictEntry ::
    "redis_config \<Rightarrow> redis_user visitor \<Rightarrow> addr \<Rightarrow> ctyp \<Rightarrow> addr \<Rightarrow> rstate \<Rightarrow> (bool \<times> rstate) result" where
  "visit_dictEntry c vis inp type out s =
     rbind (redis_prim c inp (TYPE_OPAQUE_PTR (rtypes c)) out s) (\<lambda>s.
     rbind (redis_prim c (inp + 8) (TYPE_OPAQUE_PTR (rtypes c)) (out + 8) s) (\<lambda>s.
     rbind (cstrider_get_generic_args (type_table_of s) type) (\<lambda>genargs.
     rbind (mktypfromgenargs (gen_fuel c) (gen_pad c) (TYPE_STRUCT_dictEntry_PTR (rtypes c)) 2 genargs (tstate s)) (\<lambda>(t, ts).
     rbind (cstrider_traverse vis (inp + 16) (out + 16) t (s\<lparr>tstate := ts\<rparr>)) (\<lambda>s.
     Inr (False, s))))))"

text \<open>\<open>type == t || cstrider_get_maintype(type) == t\<close>\<close>

definition type_or_main :: "type_table \<Rightarrow> ctyp \<Rightarrow> ctyp \<Rightarrow> bool result" where
  "type_or_main tt type t =
     (if type = t then Inr True else rbind (cstrider_get_maintype tt type) (\<lambda>m. Inr (m = t)))"

definition dsu_struct :: "redis_config \<Rightarrow> redis_user visitor \<Rightarrow> addr \<Rightarrow> ctyp \<Rightarrow> addr \<Rightarrow> rstate \<Rightarrow> (bool \<times> rstate) result" where
  "dsu_struct c vis inp type out s =
     (let T = rtypes c
      in rbind (cstrider_get_maintype (type_table_of s) type) (\<lambda>m.
         if m = TYPE_STRUCT_dictType T then Inr (False, s)
         else if opaque_type c type then Inr (False, s)
         else rbind (type_or_main (type_table_of s) type (TYPE_STRUCT_dictEntry T)) (\<lambda>entry.
           if entry then visit_dictEntry c vis inp type out s
           else if type = TYPE_STRUCT_redisObject T \<or> type = TYPE_robj T
           then if inp = out then Inr (False, s)
                else rbind (redis_item_union c (cstrider_traverse vis) inp out s) (\<lambda>s. Inr (False, s))
           else update_struct inp type out s)))"

text \<open>
  The checks: \<open>fd\<close> and \<open>lastinteraction\<close> of \<open>struct redisClient\<close> are at 0 and 80, \<open>prev\<close> and
  \<open>next\<close> of \<open>struct listNode\<close> at 0 and 8, \<open>timeProc\<close> of \<open>struct aeTimeEvent\<close> at 24. \<open>EBADF\<close> is 9.
\<close>

definition fd_is_valid :: "redis_config \<Rightarrow> i32 \<Rightarrow> bool" where
  "fd_is_valid c fd \<longleftrightarrow> (let (r, errno) = fcntl_getfd c fd in r \<noteq> - 1 \<or> errno \<noteq> 9)"

definition time_is_non_future :: "redis_config \<Rightarrow> 64 word \<Rightarrow> bool" where
  "time_is_non_future c t \<longleftrightarrow> t <s time_now c"

definition asserted :: "rstate \<Rightarrow> rstate" where
  "asserted = on_user (asstcnt_update (\<lambda>n. n + 1))"

definition assert_struct :: "redis_config \<Rightarrow> redis_user visitor \<Rightarrow> addr \<Rightarrow> ctyp \<Rightarrow> addr \<Rightarrow> rstate \<Rightarrow> (bool \<times> rstate) result" where
  "assert_struct c vis inp type out s =
     (let T = rtypes c
      in if inp = 0 then Inr (False, s)
         else if opaque_type c type then Inr (False, s)
         else rbind (type_or_main (type_table_of s) type (TYPE_STRUCT_dictEntry T)) (\<lambda>entry.
           if entry then visit_dictEntry c vis inp type out s
           else if type = TYPE_STRUCT_redisObject T \<or> type = TYPE_robj T
           then if \<not> 0 \<le>s load32 (heap s) (inp + 12) then Inl Assert_failed
                else if robj_type (heap s) inp \<notin> {REDIS_STRING, REDIS_LIST, REDIS_SET, REDIS_ZSET, REDIS_HASH} then Inl Assert_failed
                else rbind (redis_item_union c (cstrider_traverse vis) inp inp (asserted s)) (\<lambda>s. Inr (False, s))
           else if type = TYPE_redisClient T \<or> type = TYPE_STRUCT_redisClient T
           then if \<not> fd_is_valid c (load32 (heap s) inp) then Inl Assert_failed
                else if \<not> time_is_non_future c (load64 (heap s) (inp + 80)) then Inl Assert_failed
                else Inr (False, asserted s)
           else if type = TYPE_STRUCT_listNode T \<or> type = TYPE_listNode T
           then let prev = load64 (heap s) inp
                in if prev \<noteq> 0
                   then if load64 (heap s) (prev + 8) \<noteq> inp then Inl Assert_failed else Inr (False, asserted s)
                   else Inr (False, s)
           else if type = TYPE_STRUCT_aeTimeEvent T \<or> type = TYPE_aeTimeEvent T
           then if load64 (heap s) (inp + 24) = 0 then Inl Assert_failed else Inr (False, asserted s)
           else counts_struct prof_counts_update inp type out s))"

definition redis_struct :: "redis_config \<Rightarrow> redis_user visitor \<Rightarrow> addr \<Rightarrow> ctyp \<Rightarrow> addr \<Rightarrow> rstate \<Rightarrow> (bool \<times> rstate) result" where
  "redis_struct c vis inp type out s =
     (let T = rtypes c; robj = (type = TYPE_STRUCT_redisObject T \<or> type = TYPE_robj T)
      in if type = TYPE_STRUCT_aeFileEvent T \<or> type = TYPE_aeFileEvent T then visit_aeFileEvent c vis inp out s
         else if kitsune_is_reading c then if robj then read_robj c vis inp s else deserial_struct inp type out s
         else if kitsune_is_writing c then if robj then write_robj c vis inp s else serial_struct inp type out s
         else if kitsune_is_dsu c then dsu_struct c vis inp type out s
         else if kitsune_is_profiling c then assert_struct c vis inp type out s
         else Inr (False, s))"

definition redis_funs :: "redis_config \<Rightarrow> redis_user traversal" where
  "redis_funs c = \<lparr>perfaction_prim = (\<lambda>vis. redis_prim c), perfaction_struct = redis_struct c,
     perfaction_ptr = redis_ptr c, perfaction_ptr_mapped = (\<lambda>vis. redis_ptr_mapped c)\<rparr>"

subsection \<open>Reading a string\<close>

lemma read_back:
  assumes "ser_in (user s) = bs @ rest" "length bs = n" "n < 2 ^ 31"
  shows "serial_internal_read a (of_nat n) s = s\<lparr>heap := store_bytes (heap s) a bs, user := (user s)\<lparr>ser_in := rest\<rparr>\<rparr>"
  unfolding serial_internal_read_def unat_scast_small [OF assms(3)] read_bytes_append [OF assms(1,2)] by simp

text \<open>
  The one reason why reading a string of \<open>k\<close> bytes fails: \<open>malloc\<close> has refused at most
  \<open>k + 17\<close> bytes beside the blocks \<open>bl\<close>, and the copy of the string at most.
\<close>

definition no_room :: "redis_user allocator \<Rightarrow> (addr \<times> nat) list \<Rightarrow> nat \<Rightarrow> bool" where
  "no_room A bl k \<longleftrightarrow> (\<exists>n st. fst (malloc_c A n st) = 0 \<and> unat n \<le> k + 17 \<and> separate (blocks st)
     \<and> (blocks st = bl \<or> (\<exists>q. blocks st = (q, k + 1) # bl)))"

lemma sdsnewlen_Inl: "sdsnewlen A t n st = Inl e \<Longrightarrow> fst (malloc_c A (16 + n + 1) st) = 0"
  by (auto simp: sdsnewlen_def zmalloc_def sizeof_sdshdr_def Let_def split: if_splits prod.splits)

lemma deserial_sds_str_ok:
  assumes A: "malloc_ok (ralloc c)" "separate (blocks s)" and b: "(b, m) \<in> set (blocks s)" "8 \<le> m" "m < 2 ^ 64"
    and i: "ser_in (user s) = bytes32 (of_nat (k + 1)) @ (str @ [0]) @ rest" and k: "length str = k" "0 \<notin> set str" "k + 1 < 2 ^ 31"
  shows "deserial_sds_str c b s \<in> {Inl Null_deref, Inl Aborted} \<and> no_room (ralloc c) (blocks s) k
    \<or> (\<exists>s'. deserial_sds_str c b s = Inr s' \<and> sds_at s' (load64 (heap s') b) str 0 \<and> ser_in (user s') = rest
         \<and> load_bytes (heap s') (b + of_nat 8) (m - 8) = load_bytes (heap s) (b + of_nat 8) (m - 8))"
proof -
  let ?s1 = "s\<lparr>user := (user s)\<lparr>ser_in := (str @ [0]) @ rest\<rparr>\<rparr>"
  have r1: "read_bytes 4 s = (bytes32 (of_nat (k + 1)), ?s1)" using i by (intro read_bytes_append) simp_all
  have u: "unat (scast (of_nat (k + 1) :: i32) :: 64 word) = k + 1" by (rule unat_scast_small [OF k(3)])
  obtain tmp h where m0: "malloc_c (ralloc c) (scast (of_nat (k + 1) :: i32)) ?s1 = (tmp, ?s1\<lparr>heap := h,
      blocks := if tmp = 0 then blocks ?s1 else (tmp, unat (scast (of_nat (k + 1) :: i32) :: 64 word)) # blocks ?s1\<rparr>)"
    "tmp \<noteq> 0 \<longrightarrow> unat tmp + unat (scast (of_nat (k + 1) :: i32) :: 64 word) \<le> 2 ^ 64
       \<and> apart tmp (unat (scast (of_nat (k + 1) :: i32) :: 64 word)) (blocks ?s1)" "same_blocks (blocks ?s1) (heap ?s1) h"
    by (rule malloc_okE [OF A(1)])
  have m: "malloc_c (ralloc c) (scast (of_nat (k + 1) :: i32)) ?s1
      = (tmp, ?s1\<lparr>heap := h, blocks := if tmp = 0 then blocks s else (tmp, k + 1) # blocks s\<rparr>)"
    "tmp \<noteq> 0 \<longrightarrow> apart tmp (k + 1) (blocks s)" "same_blocks (blocks s) (heap s) h"
    using m0 unfolding u by simp_all
  show ?thesis
  proof (cases "tmp = 0")
    case True
    then have "no_room (ralloc c) (blocks s) k" using m(1) u A(2) unfolding no_room_def
      by (intro exI [of _ "scast (of_nat (k + 1) :: i32)"] exI [of _ ?s1]) (simp del: of_nat_add)
    then show ?thesis using True r1 m(1) by (simp add: deserial_sds_str_def Let_def del: of_nat_add)
  next
    case False
    let ?s3 = "s\<lparr>heap := store_bytes h tmp (str @ [0]), blocks := (tmp, k + 1) # blocks s, user := (user s)\<lparr>ser_in := rest\<rparr>\<rparr>"
    have ap: "apart tmp (k + 1) (blocks s)" using m(2) False by simp
    have ld: "load_bytes (heap ?s3) tmp (k + 1) = str @ [0]" using load_store_bytes [of "str @ [0]" h tmp] k by simp
    have r3: "serial_internal_read tmp (of_nat (k + 1)) (?s1\<lparr>heap := h, blocks := (tmp, k + 1) # blocks s\<rparr>) = ?s3"
      using read_back [of "?s1\<lparr>heap := h, blocks := (tmp, k + 1) # blocks s\<rparr>" "str @ [0]" rest "k + 1" tmp] k by simp
    have ch: "heap ?s3 (tmp + of_nat i) = (str @ [0]) ! i" if "i < k + 1" for i
      using nth_load_bytes [OF that, of "heap ?s3" tmp] ld by simp
    have "c_strlen (heap ?s3) tmp 0 = Some k"
    proof (rule c_strlen_string)
      show "string_at (heap ?s3) tmp k" using ch k unfolding string_at_def list_all_iff by (auto simp: nth_append in_set_conv_nth)
    qed
    then have new: "sdsnew (ralloc c) tmp ?s3 = sdsnewlen (ralloc c) tmp (of_nat (length str)) ?s3" using False k(1) by (simp add: sdsnew_def)
    have sep: "separate (blocks ?s3)" using A(2) ap by simp
    have src: "within (blocks ?s3) tmp (length str)" using k(1) by (simp add: within_def)
    have ls: "load_bytes (heap ?s3) tmp (length str) = str"
      using load_bytes_append [of "heap ?s3" tmp k 1] ld k(1) by simp
    have run: "deserial_sds_str c b s = rbind (sdsnewlen (ralloc c) tmp (of_nat (length str)) ?s3) (\<lambda>(p, s).
        Inr (zfree tmp (s\<lparr>heap := store64 (heap s) b p\<rparr>)))"
      unfolding new [symmetric] using r1 m(1) False r3 by (simp add: deserial_sds_str_def Let_def del: of_nat_add of_nat_Suc)
    have "17 + length str < 2 ^ 64" using k by simp
    from sdsnewlen_ok [OF A(1) sep False src ls this] consider "sdsnewlen (ralloc c) tmp (of_nat (length str)) ?s3 = Inl Aborted"
      | p g where "sdsnewlen (ralloc c) tmp (of_nat (length str)) ?s3 = Inr (p, ?s3\<lparr>heap := g, blocks := (p - 16, 17 + k) # blocks ?s3\<rparr>)"
        "sds_at (?s3\<lparr>heap := g, blocks := (p - 16, 17 + k) # blocks ?s3\<rparr>) p str 0"
        "separate ((p - 16, 17 + k) # blocks ?s3)" "same_blocks (blocks ?s3) (heap ?s3) g"
      unfolding k(1) by blast
    then show ?thesis
    proof cases
      case 1
      have "unat (16 + of_nat (length str) + 1 :: 64 word) = 17 + k" using k by (simp add: unat_word_ariths unat_of_nat)
      then have "no_room (ralloc c) (blocks s) k" using sdsnewlen_Inl [OF 1] sep unfolding no_room_def
        by (intro exI [of _ "16 + of_nat (length str) + 1"] exI [of _ ?s3]) simp
      then show ?thesis using 1 run by simp
    next
      case 2
      let ?s4 = "?s3\<lparr>heap := g, blocks := (p - 16, 17 + k) # blocks ?s3\<rparr>"
      let ?s5 = "zfree tmp (?s4\<lparr>heap := store64 g b p\<rparr>)"
      have d: "disjoint_blocks (p - 16) (17 + k) b m" using 2(3) b(1) apartD [of "p - 16" "17 + k" "blocks ?s3" b m] by simp
      have "disjoint_blocks (p - 16) (17 + k) b 8" using sub_disjoint [OF d, of 0 8] b(2) by simp
      then have "same_blocks [(p - 16, 17 + k)] g (store64 g b p)"
        by (simp add: same_blocks_def store64_def load_store_bytes_disjoint)
      then have at: "sds_at ?s5 p str 0"
        using sds_at_frame [OF 2(2), of "[(p - 16, 17 + k)]" ?s5] k(1) by (simp add: zfree_def)
      have "same_blocks (blocks s) h (heap ?s3)" using store_same_blocks [OF ap, of 0 "str @ [0]" h] k(1) by simp
      moreover have "same_blocks (blocks s) (heap ?s3) g" using 2(4) by (simp add: same_blocks_def)
      ultimately have "same_blocks (blocks s) (heap s) g" by (rule same_blocks_trans [OF m(3) same_blocks_trans])
      then have "load_bytes g b m = load_bytes (heap s) b m" using same_blocksD b(1) by blast
      then have "load_bytes g (b + of_nat 8) (m - 8) = load_bytes (heap s) (b + of_nat 8) (m - 8)"
        using load_bytes_sub [of 8 "m - 8" m g b] load_bytes_sub [of 8 "m - 8" m "heap s" b] b(2) by simp
      moreover have "load_bytes (store64 g b p) (b + of_nat 8) (m - 8) = load_bytes g (b + of_nat 8) (m - 8)"
        unfolding store64_def using b(2,3) by (intro load_store_bytes_disjoint block_base) simp_all
      ultimately show ?thesis using at run 2(1) by (simp add: zfree_def)
    qed
  qed
qed

subsection \<open>Writing and reading an object\<close>

lemma fields_8: "load_bytes h (a + 8) 8 = load_bytes h (a + 8) 1 @ load_bytes h (a + 9) 1 @ load_bytes h (a + 10) 1
    @ load_bytes h (a + 11) 1 @ load_bytes h (a + 12) 4"
  using load_bytes_append [of h "a + 8" 1 7] load_bytes_append [of h "a + 9" 1 6] load_bytes_append [of h "a + 10" 1 5]
    load_bytes_append [of h "a + 11" 1 4] by (simp add: add.assoc)

lemma fields_24: "load_bytes h (a + 16) 24 = load_bytes h (a + 16) 8 @ load_bytes h (a + 24) 8 @ load_bytes h (a + 32) 8"
  using load_bytes_append [of h "a + 16" 8 16] load_bytes_append [of h "a + 24" 8 8] by (simp add: add.assoc)

definition string_object :: "heap \<Rightarrow> addr \<Rightarrow> bool" where
  "string_object h a \<longleftrightarrow> robj_type h a = REDIS_STRING \<and> robj_encoding h a \<noteq> REDIS_ENCODING_INT"

lemma write_robj_string:
  assumes "a \<noteq> 0" "string_object (heap s) a" "string_at (heap s) (load64 (heap s) a) k" "k + 1 < 2 ^ 31"
  shows "write_robj c vis a s = Inr (False, write_bytes (load_bytes (heap s) (a + 8) 8 @ load_bytes (heap s) (a + 16) 24
     @ bytes32 (of_nat (k + 1)) @ load_bytes (heap s) (load64 (heap s) a) (k + 1)) s)"
proof -
  let ?w = "write_bytes (load_bytes (heap s) (a + 8) 8 @ load_bytes (heap s) (a + 16) 24) s"
  have "serial_char_str (load64 (heap s) a) ?w
      = Inr (write_bytes (bytes32 (of_nat (k + 1)) @ load_bytes (heap s) (load64 (heap s) a) (k + 1)) ?w)"
    using serial_char_str_eq [of ?w "load64 (heap s) a" k] assms(3,4) by simp
  then show ?thesis using assms(1,2)
    by (simp add: write_robj_def serial_internal_write_def string_object_def fields_8 fields_24 del: of_nat_add of_nat_Suc)
qed

lemma read_robj_header:
  assumes "b \<noteq> 0" "ser_in (user r) = w @ v @ rest" "length w = 8" "length v = 24"
  defines "r1 \<equiv> r\<lparr>heap := store_bytes (heap r) (b + 8) w, user := (user r)\<lparr>ser_in := rest\<rparr>\<rparr>"
  shows "read_robj c vis b r = rbind (if string_object (heap r1) b then deserial_sds_str c b r1
           else redis_item_union c (cstrider_traverse vis) b b r1) (\<lambda>s. Inr (False, s))"
    and "robj_type (heap r1) b = w ! 0" "robj_encoding (heap r1) b = w ! 1"
proof -
  obtain x0 x1 x2 x3 y where w: "w = [x0, x1, x2, x3] @ y" "length y = 4"
    using assms(3) by (auto simp: numeral_eq_Suc length_Suc_conv)
  have r1: "serial_internal_read p 1 s = s\<lparr>heap := (heap s)(p := x), user := (user s)\<lparr>ser_in := q\<rparr>\<rparr>"
    if "ser_in (user s) = x # q" for p s x q using read_back [of s "[x]" q 1 p] that by simp
  have r4: "serial_internal_read p 4 s = s\<lparr>heap := store_bytes (heap s) p y, user := (user s)\<lparr>ser_in := q\<rparr>\<rparr>"
    if "ser_in (user s) = y @ q" for p s q using read_back [of s y q 4 p] that w(2) by simp
  have skip: "snd (read_bytes 8 (snd (read_bytes 8 (snd (read_bytes 8 s))))) = s\<lparr>user := (user s)\<lparr>ser_in := drop 24 (ser_in (user s))\<rparr>\<rparr>"
    for s :: rstate by (simp add: read_bytes_def)
  have "serial_internal_read (b + 12) 4 (serial_internal_read (b + 11) 1 (serial_internal_read (b + 10) 1 (serial_internal_read (b + 9) 1
      (serial_internal_read (b + 8) 1 r)))) = r\<lparr>heap := store_bytes (heap r) (b + 8) w, user := (user r)\<lparr>ser_in := v @ rest\<rparr>\<rparr>"
    using assms(2) w by (simp add: r1 r4 store_bytes_append add.assoc)
  then show "read_robj c vis b r = rbind (if string_object (heap r1) b then deserial_sds_str c b r1
      else redis_item_union c (cstrider_traverse vis) b b r1) (\<lambda>s. Inr (False, s))"
    using assms(1,4) by (simp add: read_robj_def skip r1_def string_object_def Let_def)
  show "robj_type (heap r1) b = w ! 0" "robj_encoding (heap r1) b = w ! 1"
    using store_bytes_nth [of 0 w "heap r" "b + 8"] store_bytes_nth [of 1 w "heap r" "b + 8"] assms(3)
    by (simp_all add: r1_def robj_type_def robj_encoding_def add.assoc)
qed

subsection \<open>Properties\<close>

text \<open>
  C30: A string object that the writing service has written is read back by the reading service
  into any object: the type, encoding, storage, value type and reference count are the same
  bytes, the pointer points to a new well-formed sds string with the same contents, and exactly
  what was written is consumed; reading fails only when \<open>malloc\<close> refuses the bytes of the string
  and its header. But the virtual-memory
  fields (page, pages used, access time) are not restored: the reader keeps what was there.
\<close>

theorem robj_round_trip:
  assumes w: "kitsune_is_writing cw" "\<not> kitsune_is_reading cw" and rd: "kitsune_is_reading cr" "rtypes cr = rtypes cw"
    and t: "t = TYPE_robj (rtypes cw) \<or> t = TYPE_STRUCT_redisObject (rtypes cw)"
      "t \<noteq> TYPE_aeFileEvent (rtypes cw)" "t \<noteq> TYPE_STRUCT_aeFileEvent (rtypes cw)"
    and a: "a \<noteq> 0" "string_object (heap s) a" "string_at (heap s) (load64 (heap s) a) k" "k + 1 < 2 ^ 31"
    and b: "b \<noteq> 0" "(b, 40) \<in> set (blocks r)" "separate (blocks r)" "malloc_ok (ralloc cr)"
  shows "\<exists>s'. redis_struct cw vis a t a s = Inr (False, s') \<and>
    (ser_in (user r) = added s s' @ rest \<longrightarrow>
      redis_struct cr vis b t b r \<in> {Inl Null_deref, Inl Aborted} \<and> no_room (ralloc cr) (blocks r) k
      \<or> (\<exists>r'. redis_struct cr vis b t b r = Inr (False, r') \<and> ser_in (user r') = rest
           \<and> load_bytes (heap r') (b + 8) 8 = load_bytes (heap s) (a + 8) 8
           \<and> sds_at r' (load64 (heap r') b) (load_bytes (heap s) (load64 (heap s) a) k) 0
           \<and> load_bytes (heap r') (b + 16) 24 = load_bytes (heap r) (b + 16) 24))"
proof -
  let ?p = "load64 (heap s) a"
  let ?w = "load_bytes (heap s) (a + 8) 8" and ?v = "load_bytes (heap s) (a + 16) 24" and ?str = "load_bytes (heap s) ?p k"
  let ?out = "?w @ ?v @ bytes32 (of_nat (k + 1)) @ load_bytes (heap s) ?p (k + 1)"
  have sw: "redis_struct cw vis a t a s = Inr (False, write_bytes ?out s)"
    using w t write_robj_string [OF a] by (auto simp: redis_struct_def)
  have sr: "redis_struct cr vis b t b r = read_robj cr vis b r" using rd t by (auto simp: redis_struct_def)
  have z: "0 \<notin> set ?str" using a(3) by (auto simp: string_at_def list_all_iff load_bytes_def)
  have str: "load_bytes (heap s) ?p (k + 1) = ?str @ [0]" using a(3) load_bytes_append [of "heap s" ?p k 1]
    by (simp add: string_at_def load_bytes_def)
  show ?thesis
  proof (rule exI [of _ "write_bytes ?out s"], intro conjI impI, rule sw)
    assume "ser_in (user r) = added s (write_bytes ?out s) @ rest"
    then have i: "ser_in (user r) = ?w @ ?v @ (bytes32 (of_nat (k + 1)) @ (?str @ [0]) @ rest)" unfolding str by simp
    let ?r1 = "r\<lparr>heap := store_bytes (heap r) (b + 8) ?w, user := (user r)\<lparr>ser_in := bytes32 (of_nat (k + 1)) @ (?str @ [0]) @ rest\<rparr>\<rparr>"
    note hd = read_robj_header [OF b(1) i]
    have so: "string_object (heap ?r1) b"
      using a(2) hd(2,3) by (simp add: string_object_def robj_type_def robj_encoding_def add.assoc)
    have run: "redis_struct cr vis b t b r = rbind (deserial_sds_str cr b ?r1) (\<lambda>s. Inr (False, s))"
      unfolding sr using hd(1) so by simp
    have d: "disjoint_blocks (b + of_nat 16) 24 (b + of_nat 8) (length ?w)" by (rule offset_blocks) simp_all
    have h1: "load_bytes (heap ?r1) (b + of_nat 8) 8 = ?w" using load_store_bytes [of ?w "heap r" "b + 8"] by simp
    have h2: "load_bytes (heap ?r1) (b + of_nat 16) 24 = load_bytes (heap r) (b + of_nat 16) 24"
      using load_store_bytes_disjoint [OF d, of "heap r"] by simp
    have "deserial_sds_str cr b ?r1 \<in> {Inl Null_deref, Inl Aborted} \<and> no_room (ralloc cr) (blocks ?r1) k
      \<or> (\<exists>s'. deserial_sds_str cr b ?r1 = Inr s' \<and> sds_at s' (load64 (heap s') b) ?str 0 \<and> ser_in (user s') = rest
         \<and> load_bytes (heap s') (b + of_nat 8) (40 - 8) = load_bytes (heap ?r1) (b + of_nat 8) (40 - 8))"
      by (rule deserial_sds_str_ok [OF b(4)]) (use b a(4) z in simp_all)
    then show "redis_struct cr vis b t b r \<in> {Inl Null_deref, Inl Aborted} \<and> no_room (ralloc cr) (blocks r) k
      \<or> (\<exists>r'. redis_struct cr vis b t b r = Inr (False, r') \<and> ser_in (user r') = rest
           \<and> load_bytes (heap r') (b + 8) 8 = ?w \<and> sds_at r' (load64 (heap r') b) ?str 0
           \<and> load_bytes (heap r') (b + 16) 24 = load_bytes (heap r) (b + 16) 24)"
    proof (elim disjE exE conjE)
      fix s' assume s': "deserial_sds_str cr b ?r1 = Inr s'" "sds_at s' (load64 (heap s') b) ?str 0" "ser_in (user s') = rest"
        and l: "load_bytes (heap s') (b + of_nat 8) (40 - 8) = load_bytes (heap ?r1) (b + of_nat 8) (40 - 8)"
      have "load_bytes (heap s') (b + of_nat 8) 8 = ?w" "load_bytes (heap s') (b + of_nat 16) 24 = load_bytes (heap r) (b + of_nat 16) 24"
        using l h1 h2 load_bytes_append [of "heap s'" "b + of_nat 8" 8 24] load_bytes_append [of "heap ?r1" "b + of_nat 8" 8 24]
        by (simp_all add: add.assoc)
      then show ?thesis using run s' by simp
    qed (use run in auto)
  qed
qed

text \<open>
  An example: the types are numbered in the order of the record, and \<open>malloc\<close> takes the block
  behind a 64 KB boundary that is above all blocks.
\<close>

definition redis_example_types :: redis_types where
  "redis_example_types = \<lparr>TYPE_INT = 0, TYPE_LONG = 1, TYPE_LONG_LONG = 2, TYPE_UNSIGNED_CHAR = 3, TYPE_CHAR_NT = 4, TYPE_CHAR_NT_PTR =
     5, TYPE_OPAQUE_PTR = 6, TYPE_sds = 7, TYPE_list_PTR_OF_TYPE_robj_PTR = 8,
     TYPE_dict_PTR_OF_TYPE_robj_PTR__TYPE_robj_PTR = 9, TYPE_redisDb = 10, TYPE_time_t = 11, TYPE_robj = 12,
     TYPE_STRUCT_redisObject = 13, TYPE_STRUCT_redisObjectVM = 14, TYPE_aeFileProc = 15, TYPE_aeFileEvent =
     16, TYPE_STRUCT_aeFileEvent = 17, TYPE_aeFiredEvent = 18, TYPE_aeTimeEvent = 19, TYPE_STRUCT_aeTimeEvent
     = 20, TYPE_STRUCT_dictType = 21, TYPE_STRUCT_dictEntry = 22, TYPE_STRUCT_dictEntry_PTR = 23,
     TYPE_listNode = 24, TYPE_STRUCT_listNode = 25, TYPE_redisClient = 26, TYPE_STRUCT_redisClient = 27,
     TYPE_redisClient_PTR = 28\<rparr>"

definition redis_example_malloc :: "64 word \<Rightarrow> rstate \<Rightarrow> addr \<times> rstate" where
  "redis_example_malloc n st =
     (let a = 65536 * (of_nat (length (blocks st)) + 1)
      in if a \<noteq> 0 \<and> a < 4294967296 \<and> n < 4294967296 \<and> list_all (\<lambda>(b, m). m < 100 \<and> b < 4294967296 \<and> b + of_nat m \<le> a) (blocks st)
         then (a, st\<lparr>blocks := (a, unat n) # blocks st\<rparr>) else (0, st))"

definition redis_example :: "bool \<Rightarrow> bool \<Rightarrow> bool \<Rightarrow> redis_config" where
  "redis_example reading writing profiling =
     \<lparr>rtypes = redis_example_types, kitsune_is_reading = reading, kitsune_is_writing = writing, kitsune_is_dsu = False,
      kitsune_is_profiling = profiling,
      kitsune = \<lparr>kitsune_lookup_addr_old = (\<lambda>_. None), kitsune_lookup_key_new = (\<lambda>_. 0), update_malloc = (\<lambda>_ s. (0, s)),
        vmareas_init = id, vmareas_free = id\<rparr>,
      ralloc = \<lparr>malloc_c = redis_example_malloc, realloc_c = (\<lambda>_ _ s. (0, s))\<rparr>, stack_junk = 0,
      fcntl_getfd = (\<lambda>_. (0, 0)), time_now = 100, cstrider_start_heaptraverse = id, cstrider_heaptraverse_teardown = id,
      gen_fuel = 2, gen_pad = (\<lambda>_. []), arr_pad = []\<rparr>"

text \<open>The object at 4096 is a string object; its string \<open>hi\<close> is at 8192. The reader's object is empty.\<close>

definition robj_example :: rstate where
  "robj_example = (start_state \<lparr>ser_out = [], ser_in = [], prof_counts = \<lparr>type_counts_head = [], prof = []\<rparr>, asstcnt = 0, ser_disk = None\<rparr>)\<lparr>
     heap := store_bytes (store_bytes (\<lambda>_. 0) 4096 (bytes64 8192 @ [0, 0, 0, 0, 1, 0, 0, 0] @ replicate 24 7)) 8192 [104, 105, 0],
     blocks := [(4096, 40)]\<rparr>"

definition robj_target :: "byte list \<Rightarrow> rstate" where
  "robj_target bs = robj_example\<lparr>heap := (\<lambda>_. 0), user := (user robj_example)\<lparr>ser_in := bs\<rparr>\<rparr>"

lemma redis_example_malloc_ok: "malloc_ok (ralloc (redis_example reading writing profiling))"
proof -
  have f: "unat a + unat n \<le> 2 ^ 64" if "a < 4294967296" "n < 4294967296" for a n :: "64 word"
    using that unfolding word_less_nat_alt by simp
  have d: "disjoint_blocks a (unat n) b m" if "a < 4294967296" "n < 4294967296" "m < 100" "b < 4294967296" "b + of_nat m \<le> a"
    for a n b :: "64 word" and m
  proof (rule disjoint_blocksI)
    have w: "unat x < 4294967296" if "x < 4294967296" for x :: "64 word" using that by (simp add: word_less_nat_alt)
    have "unat (b + of_nat m) = unat b + m" using w [OF that(4)] that(3) by (simp add: unat_word_ariths unat_of_nat)
    then show "unat b + m \<le> unat a" using that(5) by (simp add: word_le_nat_alt)
    show "unat a + unat n \<le> 2 ^ 64" using f [OF that(1,2)] .
  qed
  have "\<exists>a h. redis_example_malloc n st = (a, st\<lparr>heap := h, blocks := if a = 0 then blocks st else (a, unat n) # blocks st\<rparr>)
    \<and> (a \<noteq> 0 \<longrightarrow> unat a + unat n \<le> 2 ^ 64 \<and> apart a (unat n) (blocks st)) \<and> same_blocks (blocks st) (heap st) h" for n st
  proof -
    define a :: addr where "a = 65536 * (of_nat (length (blocks st)) + 1)"
    let ?c = "a \<noteq> 0 \<and> a < 4294967296 \<and> n < 4294967296
      \<and> list_all (\<lambda>(b, m). m < 100 \<and> b < 4294967296 \<and> b + of_nat m \<le> a) (blocks st)"
    have run: "redis_example_malloc n st = (if ?c then (a, st\<lparr>blocks := (a, unat n) # blocks st\<rparr>) else (0, st))"
      by (simp only: redis_example_malloc_def Let_def a_def)
    show ?thesis
    proof (cases ?c)
      case True
      then have "apart a (unat n) (blocks st)" unfolding apart_def by (auto simp: list_all_iff intro: d)
      then show ?thesis using True run f by (intro exI [of _ a] exI [of _ "heap st"]) simp
    next
      case False
      then have "redis_example_malloc n st = (0, st)" unfolding run by (rule if_not_P)
      then show ?thesis by (intro exI [of _ 0] exI [of _ "heap st"]) simp
    qed
  qed
  then show ?thesis by (simp add: malloc_ok_def redis_example_def)
qed

theorem robj_round_trip_witness:
  "\<exists>s' r'. redis_struct (redis_example False True False) (\<lambda>_ _ _. Inr) 4096 12 4096 robj_example = Inr (False, s')
     \<and> redis_struct (redis_example True False False) (\<lambda>_ _ _. Inr) 4096 12 4096 (robj_target (added robj_example s')) = Inr (False, r')
     \<and> sds_at r' (load64 (heap r') 4096) [104, 105] 0 \<and> load_bytes (heap r') (4096 + 16) 24 = replicate 24 0"
proof -
  let ?w = "redis_example False True False" and ?r = "redis_example True False False"
  have c: "kitsune_is_writing ?w" "\<not> kitsune_is_reading ?w" "kitsune_is_reading ?r" "rtypes ?r = rtypes ?w"
    "12 = TYPE_robj (rtypes ?w) \<or> 12 = TYPE_STRUCT_redisObject (rtypes ?w)"
    "12 \<noteq> TYPE_aeFileEvent (rtypes ?w)" "12 \<noteq> TYPE_STRUCT_aeFileEvent (rtypes ?w)"
    by (simp_all add: redis_example_def redis_example_types_def)
  have a: "string_object (heap robj_example) 4096" "load64 (heap robj_example) 4096 = 8192" "string_at (heap robj_example) 8192 2"
    "load_bytes (heap robj_example) 8192 2 = [104, 105]" by code_simp+
  have l: "load_bytes (heap (robj_target bs)) (4096 + 16) 24 = replicate 24 0" for bs
    by (simp add: robj_target_def load_bytes_def map_replicate_const)
  have "separate (blocks (robj_target bs))" for bs by (simp add: robj_target_def robj_example_def apart_def)
  note sep = this
  have rt: "\<exists>s'. redis_struct ?w (\<lambda>_ _ _. Inr) 4096 12 4096 robj_example = Inr (False, s') \<and>
    (ser_in (user (robj_target bs)) = added robj_example s' @ [] \<longrightarrow>
      redis_struct ?r (\<lambda>_ _ _. Inr) 4096 12 4096 (robj_target bs) \<in> {Inl Null_deref, Inl Aborted} \<and> no_room (ralloc ?r) (blocks (robj_target bs)) 2
      \<or> (\<exists>r'. redis_struct ?r (\<lambda>_ _ _. Inr) 4096 12 4096 (robj_target bs) = Inr (False, r') \<and> ser_in (user r') = []
           \<and> load_bytes (heap r') (4096 + 8) 8 = load_bytes (heap robj_example) (4096 + 8) 8
           \<and> sds_at r' (load64 (heap r') 4096) (load_bytes (heap robj_example) (load64 (heap robj_example) 4096) 2) 0
           \<and> load_bytes (heap r') (4096 + 16) 24 = load_bytes (heap (robj_target bs)) (4096 + 16) 24))" for bs
    by (rule robj_round_trip [OF c _ a(1) _ _ _ _ sep redis_example_malloc_ok])
      (use a in \<open>simp_all add: robj_target_def robj_example_def\<close>)
  have ev: "case redis_struct ?w (\<lambda>_ _ _. Inr) 4096 12 4096 robj_example of Inl _ \<Rightarrow> False
     | Inr (_, s') \<Rightarrow> (case redis_struct ?r (\<lambda>_ _ _. Inr) 4096 12 4096 (robj_target (added robj_example s')) of Inl _ \<Rightarrow> False | Inr _ \<Rightarrow> True)"
    by code_simp
  obtain s0 where s0: "redis_struct ?w (\<lambda>_ _ _. Inr) 4096 12 4096 robj_example = Inr (False, s0)" using rt by blast
  have "ser_in (user (robj_target (added robj_example s0))) = added robj_example s0 @ []" by (simp add: robj_target_def)
  moreover have "redis_struct ?r (\<lambda>_ _ _. Inr) 4096 12 4096 (robj_target (added robj_example s0)) \<notin> {Inl Null_deref, Inl Aborted}"
    using ev unfolding s0 by auto
  ultimately show ?thesis using rt [of "added robj_example s0"] s0 l a by auto
qed

text \<open>
  Visiting a node of a list while the assertions are checked fails exactly when the node
  has a predecessor that does not point back to it, and changes nothing but the counters. In
  particular the visit ends there: from the head of a list, which has no predecessor, no
  assertion is checked, and none of the other nodes is visited or enqueued.
\<close>

theorem list_node_checked:
  assumes "perf_funs E = redis_funs c" "kitsune_is_profiling c" "\<not> kitsune_is_reading c" "\<not> kitsune_is_writing c" "\<not> kitsune_is_dsu c"
    and "a \<noteq> 0" "t \<noteq> - 1" "is_struct_type E (type_table_of s) t" "cstrider_get_maintype (type_table_of s) t = Inr m"
    and "t \<in> {TYPE_listNode (rtypes c), TYPE_STRUCT_listNode (rtypes c)}" "TYPE_STRUCT_dictEntry (rtypes c) \<notin> {t, m}"
    and "\<not> opaque_type c t" "t \<notin> {TYPE_STRUCT_redisObject (rtypes c), TYPE_robj (rtypes c), TYPE_redisClient (rtypes c),
       TYPE_STRUCT_redisClient (rtypes c), TYPE_aeFileEvent (rtypes c), TYPE_STRUCT_aeFileEvent (rtypes c)}"
  shows "visit (Suc fuel) E a t b s =
    (if load64 (heap s) a = 0 then Inr (note_visit a t s)
     else if load64 (heap s) (load64 (heap s) a + 8) = a then Inr (asserted (note_visit a t s))
     else Inl Assert_failed)"
proof -
  have "redis_struct c (visit fuel E) a t b (note_visit a t s) =
    (if load64 (heap s) a = 0 then Inr (False, note_visit a t s)
     else if load64 (heap s) (load64 (heap s) a + 8) = a then Inr (False, asserted (note_visit a t s))
     else Inl Assert_failed)"
  proof -
    have tt: "type_table_of (note_visit a t s) = type_table_of s" "heap (note_visit a t s) = heap s" by (simp_all add: note_visit_def)
    have "redis_struct c (visit fuel E) a t b (note_visit a t s) = assert_struct c (visit fuel E) a t b (note_visit a t s)"
      using assms(2-5,13) by (simp add: redis_struct_def)
    moreover have "type_or_main (type_table_of s) t (TYPE_STRUCT_dictEntry (rtypes c)) = Inr False"
      using assms(9,11) by (auto simp: type_or_main_def)
    moreover have "t = TYPE_STRUCT_listNode (rtypes c) \<or> t = TYPE_listNode (rtypes c)" using assms(10) by blast
    ultimately show ?thesis using assms(6,12,13) by (simp add: assert_struct_def tt Let_def)
  qed
  moreover obtain e where "\<not> cstrider_is_prim E t" "get_typeinfo_from_table (type_table_of s) t = Some e"
    "\<not> memoized_is_ptr e" "\<not> memoized_is_array e"
    using assms(8) unfolding is_struct_type_def by blast
  ultimately show ?thesis using assms(1,7) by (simp add: visit_step_def Let_def redis_funs_def note_visit_def)
qed

definition list_example_env :: "redis_user env" where
  "list_example_env = \<lparr>perf_funs = redis_funs (redis_example False False True), gen_arrays = example_arrays,
     cstrider_is_prim = (\<lambda>t. t = 0), gen_transformer = (\<lambda>k vis inp out t s. Inr s), visitalls = [],
     root_function = (\<lambda>f vis s. Inr s), cstrider_register_init = (\<lambda>s. Inr s), padding = []\<rparr>"

text \<open>A list of two nodes: the first at 4096, the second at 8192 with a wrong link back.\<close>

definition list_example :: rstate where
  "list_example = robj_example\<lparr>heap := store_bytes (store_bytes (\<lambda>_. 0) 4096 (bytes64 0 @ bytes64 8192)) 8192 (bytes64 12288),
     tstate := \<lparr>type_hashtbl = [(24, example_entry 24 (- 1))], held = (\<lambda>_. 0)\<rparr>\<rparr>"

theorem list_node_checked_witness:
  "visit 1 list_example_env 4096 24 4096 list_example = Inr (note_visit 4096 24 list_example)
   \<and> visit 1 list_example_env 8192 24 8192 list_example = Inl Assert_failed"
proof -
  have c: "perf_funs list_example_env = redis_funs (redis_example False False True)" by (simp add: list_example_env_def)
  have h: "load64 (heap list_example) 4096 = 0" "load64 (heap list_example) 8192 = 12288" "load64 (heap list_example) 12296 = 0"
    by code_simp+
  have v: "visit (Suc 0) list_example_env a 24 a list_example =
    (if load64 (heap list_example) a = 0 then Inr (note_visit a 24 list_example)
     else if load64 (heap list_example) (load64 (heap list_example) a + 8) = a then Inr (asserted (note_visit a 24 list_example))
     else Inl Assert_failed)" if "a \<noteq> 0" for a
    by (rule list_node_checked [OF c, where m = "maintype (example_entry 24 (- 1))"])
      (use that in \<open>simp_all add: redis_example_def redis_example_types_def list_example_def list_example_env_def is_struct_type_def
         get_typeinfo_from_table_def tbl_find_def example_entry_def memoized_is_ptr_def memoized_is_array_def TYPE_FUNPTR_def
         cstrider_get_maintype_def query_def opaque_type_def\<close>)
  show ?thesis using v [of 4096] v [of 8192] h by simp
qed

text \<open>
  The service that counts types cannot follow an object of Redis: it hands \<open>visit\<close> the address
  of the object where the type is expected, so that for an object of any kind whose address is
  not by chance the number of a type the visit crashes on the missing entry.
\<close>

theorem redis_union_swapped:
  assumes "a \<noteq> 0" "robj_type (heap s) a \<in> {REDIS_STRING, REDIS_LIST, REDIS_SET, REDIS_ZSET, REDIS_HASH}"
    and "b \<noteq> - 1" "\<not> cstrider_is_prim E b" "get_typeinfo_from_table (type_table_of s) b = None"
  shows "perf_item_union c (visit (Suc fuel) E) a b s = Inl Null_deref"
  using assms by (auto simp: perf_item_union_def visit_step_def Let_def)

theorem redis_union_swapped_witness:
  "perf_item_union (redis_example False False True) (visit (Suc 3) list_example_env) 4096 4096 robj_example = Inl Null_deref"
proof (rule redis_union_swapped)
  show "robj_type (heap robj_example) 4096 \<in> {REDIS_STRING, REDIS_LIST, REDIS_SET, REDIS_ZSET, REDIS_HASH}" by code_simp
  show "get_typeinfo_from_table (type_table_of robj_example) 4096 = None"
    by (simp add: robj_example_def start_state_def get_typeinfo_from_table_def tbl_find_def)
qed (simp_all add: list_example_env_def)

end
