(* ===== verification/Dict.thy ===== *)
theory Dict
  imports Uthash
begin

text \<open>
  The dictionary of src/examples/redis-2.0.2/dict.c, whose entries the services for Redis visit: a
  chained hash table that grows by a second table, into which every operation moves one bucket
  of the first. Entries are records at addresses and the chains are links between them.
  \<open>_dictAlloc\<close> succeeds; the address it returns for an entry is an argument. A table is the
  list of the heads of its chains, and \<open>[]\<close> is the NULL table. What the functions of a
  \<open>dictType\<close> do to keys and values is a parameter; \<open>privdata\<close>, which they are given, is part of it.
  Loops along links return \<open>None\<close> when they do not return.
\<close>

subsection \<open>State\<close>

type_synonym u64 = "64 word"

record ('k, 'v) dictEntry =
  de_key :: 'k
  de_val :: 'v
  de_next :: addr

record ('k, 'v) dictType =
  hashFunction :: "'k \<Rightarrow> u32"
  keyDup :: "('k \<Rightarrow> 'k) option"
  valDup :: "('v \<Rightarrow> 'v) option"
  keyCompare :: "('k \<Rightarrow> 'k \<Rightarrow> bool) option"
  keyDestructor :: bool
  valDestructor :: bool

record dictht =
  ht_size :: u64
  ht_table :: "addr list"
  ht_sizemask :: u64
  ht_used :: u64

text \<open>The calls that give something back, in their order.\<close>

datatype ('k, 'v) dict_event =
  Destroy_key 'k | Destroy_val 'v | Free_entry addr | Free_table "addr list" | Free_dict

text \<open>\<open>dict_heap\<close> holds the entries, and \<open>dict_can_resize\<close> is the global of this name.\<close>

record ('k, 'v) dict =
  ht0 :: dictht
  ht1 :: dictht
  rehashidx :: i32
  iterators :: i32
  dict_heap :: "addr \<Rightarrow> ('k, 'v) dictEntry"
  dict_events :: "('k, 'v) dict_event list"
  dict_can_resize :: i32

definition DICT_OK :: i32 where "DICT_OK = 0"

definition DICT_ERR :: i32 where "DICT_ERR = 1"

definition DICT_HT_INITIAL_SIZE :: u64 where "DICT_HT_INITIAL_SIZE = 4"

definition dict_force_resize_ratio :: u64 where "dict_force_resize_ratio = 5"

definition the_ht :: "nat \<Rightarrow> ('k, 'v) dict \<Rightarrow> dictht" where
  "the_ht t d = (if t = 0 then ht0 d else ht1 d)"

definition upd_ht :: "nat \<Rightarrow> (dictht \<Rightarrow> dictht) \<Rightarrow> ('k, 'v) dict \<Rightarrow> ('k, 'v) dict" where
  "upd_ht t f d = (if t = 0 then d\<lparr>ht0 := f (ht0 d)\<rparr> else d\<lparr>ht1 := f (ht1 d)\<rparr>)"

definition upd_entry :: "addr \<Rightarrow> (('k, 'v) dictEntry \<Rightarrow> ('k, 'v) dictEntry) \<Rightarrow> ('k, 'v) dict \<Rightarrow> ('k, 'v) dict" where
  "upd_entry e f d = d\<lparr>dict_heap := (dict_heap d)(e := f (dict_heap d e))\<rparr>"

definition note_event :: "('k, 'v) dict_event \<Rightarrow> ('k, 'v) dict \<Rightarrow> ('k, 'v) dict" where
  "note_event x d = d\<lparr>dict_events := dict_events d @ [x]\<rparr>"

definition dictHashKey :: "('k, 'v) dictType \<Rightarrow> 'k \<Rightarrow> u32" where
  "dictHashKey T k = hashFunction T k"

definition dictCompareHashKeys :: "('k, 'v) dictType \<Rightarrow> 'k \<Rightarrow> 'k \<Rightarrow> bool" where
  "dictCompareHashKeys T k1 k2 = (case keyCompare T of None \<Rightarrow> k1 = k2 | Some f \<Rightarrow> f k1 k2)"

definition dictSetHashKey :: "('k, 'v) dictType \<Rightarrow> addr \<Rightarrow> 'k \<Rightarrow> ('k, 'v) dict \<Rightarrow> ('k, 'v) dict" where
  "dictSetHashKey T e k = upd_entry e (\<lambda>x. x\<lparr>de_key := (case keyDup T of None \<Rightarrow> k | Some f \<Rightarrow> f k)\<rparr>)"

definition dictSetHashVal :: "('k, 'v) dictType \<Rightarrow> addr \<Rightarrow> 'v \<Rightarrow> ('k, 'v) dict \<Rightarrow> ('k, 'v) dict" where
  "dictSetHashVal T e v = upd_entry e (\<lambda>x. x\<lparr>de_val := (case valDup T of None \<Rightarrow> v | Some f \<Rightarrow> f v)\<rparr>)"

definition dictFreeEntryKey :: "('k, 'v) dictType \<Rightarrow> ('k, 'v) dictEntry \<Rightarrow> ('k, 'v) dict \<Rightarrow> ('k, 'v) dict" where
  "dictFreeEntryKey T x d = (if keyDestructor T then note_event (Destroy_key (de_key x)) d else d)"

definition dictFreeEntryVal :: "('k, 'v) dictType \<Rightarrow> ('k, 'v) dictEntry \<Rightarrow> ('k, 'v) dict \<Rightarrow> ('k, 'v) dict" where
  "dictFreeEntryVal T x d = (if valDestructor T then note_event (Destroy_val (de_val x)) d else d)"

definition dictIsRehashing :: "('k, 'v) dict \<Rightarrow> bool" where
  "dictIsRehashing d \<longleftrightarrow> rehashidx d \<noteq> - 1"

definition dictSize :: "('k, 'v) dict \<Rightarrow> u64" where
  "dictSize d = ht_used (ht0 d) + ht_used (ht1 d)"

definition dictSlots :: "('k, 'v) dict \<Rightarrow> u64" where
  "dictSlots d = ht_size (ht0 d) + ht_size (ht1 d)"

text \<open>\<open>h & sizemask\<close>, stored in an \<open>unsigned int\<close> and used as an index.\<close>

definition dict_idx :: "u32 \<Rightarrow> dictht \<Rightarrow> nat" where
  "dict_idx h ht = unat (ucast (ucast h AND ht_sizemask ht) :: u32)"

subsection \<open>Making and growing\<close>

definition dictReset :: dictht where
  "dictReset = \<lparr>ht_size = 0, ht_table = [], ht_sizemask = 0, ht_used = 0\<rparr>"

definition dictInit :: "('k, 'v) dict \<Rightarrow> ('k, 'v) dict" where
  "dictInit d = d\<lparr>ht0 := dictReset, ht1 := dictReset, rehashidx := - 1, iterators := 0\<rparr>"

partial_function (option) next_power :: "u64 \<Rightarrow> u64 \<Rightarrow> u64 option" where
  [code]: "next_power sz i = (if i \<ge> sz then Some i else next_power sz (i * 2))"

definition LONG_MAX :: u64 where "LONG_MAX = 2 ^ 63 - 1"

definition dictNextPower :: "u64 \<Rightarrow> u64 option" where
  "dictNextPower sz = (if sz \<ge> LONG_MAX then Some LONG_MAX else next_power sz DICT_HT_INITIAL_SIZE)"

definition dictExpand :: "u64 \<Rightarrow> ('k, 'v) dict \<Rightarrow> (i32 \<times> ('k, 'v) dict) option" where
  "dictExpand sz d =
     Option.bind (dictNextPower sz) (\<lambda>realsize.
       if dictIsRehashing d \<or> ht_used (ht0 d) > sz then Some (DICT_ERR, d)
       else
         let n = \<lparr>ht_size = realsize, ht_table = replicate (unat realsize) 0, ht_sizemask = realsize - 1, ht_used = 0\<rparr>
         in if ht_table (ht0 d) = [] then Some (DICT_OK, d\<lparr>ht0 := n\<rparr>)
            else Some (DICT_OK, d\<lparr>ht1 := n, rehashidx := 0\<rparr>))"

text \<open>\<open>minimal\<close> is an \<open>int\<close>.\<close>

definition dictResize :: "('k, 'v) dict \<Rightarrow> (i32 \<times> ('k, 'v) dict) option" where
  "dictResize d =
     (if dict_can_resize d = 0 \<or> dictIsRehashing d then Some (DICT_ERR, d)
      else
        let minimal = (ucast (ht_used (ht0 d)) :: i32);
            minimal = (if minimal <s 4 then 4 else minimal)
        in dictExpand (scast minimal) d)"

definition dictExpandIfNeeded :: "('k, 'v) dict \<Rightarrow> (i32 \<times> ('k, 'v) dict) option" where
  "dictExpandIfNeeded d =
     (let sz = ht_size (ht0 d); used = ht_used (ht0 d)
      in if dictIsRehashing d then Some (DICT_OK, d)
         else if sz = 0 then dictExpand DICT_HT_INITIAL_SIZE d
         else if used \<ge> sz \<and> (dict_can_resize d \<noteq> 0 \<or> used div sz > dict_force_resize_ratio)
         then dictExpand ((if sz > used then sz else used) * 2) d
         else Some (DICT_OK, d))"

definition dictEnableResize :: "('k, 'v) dict \<Rightarrow> ('k, 'v) dict" where
  "dictEnableResize d = d\<lparr>dict_can_resize := 1\<rparr>"

definition dictDisableResize :: "('k, 'v) dict \<Rightarrow> ('k, 'v) dict" where
  "dictDisableResize d = d\<lparr>dict_can_resize := 0\<rparr>"

subsection \<open>Rehashing\<close>

partial_function (option) skip_empty :: "addr list \<Rightarrow> i32 \<Rightarrow> i32 option" where
  [code]: "skip_empty tab i = (if tab ! unat i = 0 then skip_empty tab (i + 1) else Some i)"

definition move_entry :: "('k, 'v) dictType \<Rightarrow> addr \<Rightarrow> ('k, 'v) dict \<Rightarrow> ('k, 'v) dict" where
  "move_entry T de d =
     (let h = dict_idx (dictHashKey T (de_key (dict_heap d de))) (ht1 d);
          d = upd_entry de (\<lambda>x. x\<lparr>de_next := ht_table (ht1 d) ! h\<rparr>) d;
          d = upd_ht 1 (\<lambda>t. t\<lparr>ht_table := (ht_table t)[h := de]\<rparr>) d;
          d = upd_ht 0 (\<lambda>t. t\<lparr>ht_used := ht_used t - 1\<rparr>) d
      in upd_ht 1 (\<lambda>t. t\<lparr>ht_used := ht_used t + 1\<rparr>) d)"

partial_function (option) move_chain :: "('k, 'v) dictType \<Rightarrow> addr \<Rightarrow> ('k, 'v) dict \<Rightarrow> ('k, 'v) dict option" where
  [code]: "move_chain T de d =
     (if de = 0 then Some d
      else let nextde = de_next (dict_heap d de) in move_chain T nextde (move_entry T de d))"

definition move_bucket :: "('k, 'v) dictType \<Rightarrow> ('k, 'v) dict \<Rightarrow> ('k, 'v) dict option" where
  "move_bucket T d =
     Option.bind (skip_empty (ht_table (ht0 d)) (rehashidx d)) (\<lambda>i.
     Option.bind (move_chain T (ht_table (ht0 d) ! unat i) (d\<lparr>rehashidx := i\<rparr>)) (\<lambda>d.
       Some ((upd_ht 0 (\<lambda>t. t\<lparr>ht_table := (ht_table t)[unat i := 0]\<rparr>) d)\<lparr>rehashidx := i + 1\<rparr>)))"

definition finish_rehash :: "('k, 'v) dict \<Rightarrow> ('k, 'v) dict" where
  "finish_rehash d = (note_event (Free_table (ht_table (ht0 d))) d)\<lparr>ht0 := ht1 d, ht1 := dictReset, rehashidx := - 1\<rparr>"

fun rehash_loop :: "('k, 'v) dictType \<Rightarrow> nat \<Rightarrow> ('k, 'v) dict \<Rightarrow> (i32 \<times> ('k, 'v) dict) option" where
  "rehash_loop T 0 d = Some (1, d)"
| "rehash_loop T (Suc n) d =
     (if ht_used (ht0 d) = 0 then Some (0, finish_rehash d)
      else Option.bind (move_bucket T d) (rehash_loop T n))"

definition dictRehash :: "('k, 'v) dictType \<Rightarrow> nat \<Rightarrow> ('k, 'v) dict \<Rightarrow> (i32 \<times> ('k, 'v) dict) option" where
  "dictRehash T n d = (if \<not> dictIsRehashing d then Some (0, d) else rehash_loop T n d)"

definition dictRehashStep :: "('k, 'v) dictType \<Rightarrow> ('k, 'v) dict \<Rightarrow> ('k, 'v) dict option" where
  "dictRehashStep T d = (if iterators d = 0 then map_option snd (dictRehash T 1 d) else Some d)"

text \<open>\<open>now i\<close> is what the \<open>i\<close>th call of \<open>timeInMilliseconds\<close> returns; the calls after \<open>start\<close> are from \<open>i\<close> on.\<close>

partial_function (option) rehash_ms ::
    "('k, 'v) dictType \<Rightarrow> (nat \<Rightarrow> 64 word) \<Rightarrow> nat \<Rightarrow> 64 word \<Rightarrow> 64 word \<Rightarrow> i32 \<Rightarrow> ('k, 'v) dict \<Rightarrow> (i32 \<times> ('k, 'v) dict) option" where
  [code]: "rehash_ms T now i start ms rehashes d =
     Option.bind (dictRehash T 100 d) (\<lambda>(r, d).
       if r = 0 then Some (rehashes, d)
       else if ms <s now i - start then Some (rehashes + 100, d)
       else rehash_ms T now (Suc i) start ms (rehashes + 100) d)"

definition dictRehashMilliseconds ::
    "('k, 'v) dictType \<Rightarrow> (nat \<Rightarrow> 64 word) \<Rightarrow> i32 \<Rightarrow> ('k, 'v) dict \<Rightarrow> (i32 \<times> ('k, 'v) dict) option" where
  "dictRehashMilliseconds T now ms d = rehash_ms T now 1 (now 0) (scast ms) 0 d"

subsection \<open>Find\<close>

partial_function (option) find_in_chain :: "('k, 'v) dictType \<Rightarrow> (addr \<Rightarrow> ('k, 'v) dictEntry) \<Rightarrow> 'k \<Rightarrow> addr \<Rightarrow> addr option" where
  [code]: "find_in_chain T E key he =
     (if he = 0 then Some 0
      else if dictCompareHashKeys T key (de_key (E he)) then Some he
      else find_in_chain T E key (de_next (E he)))"

text \<open>The search both tables go through for a key; 0 is NULL.\<close>

definition find_in_tables :: "('k, 'v) dictType \<Rightarrow> 'k \<Rightarrow> ('k, 'v) dict \<Rightarrow> addr option" where
  "find_in_tables T key d =
     (let h = dictHashKey T key
      in Option.bind (find_in_chain T (dict_heap d) key (ht_table (ht0 d) ! dict_idx h (ht0 d))) (\<lambda>he.
           if he \<noteq> 0 then Some he
           else if \<not> dictIsRehashing d then Some 0
           else find_in_chain T (dict_heap d) key (ht_table (ht1 d) ! dict_idx h (ht1 d))))"

definition dictFind :: "('k, 'v) dictType \<Rightarrow> 'k \<Rightarrow> ('k, 'v) dict \<Rightarrow> (addr \<times> ('k, 'v) dict) option" where
  "dictFind T key d =
     (if ht_size (ht0 d) = 0 then Some (0, d)
      else Option.bind (if dictIsRehashing d then dictRehashStep T d else Some d) (\<lambda>d.
           Option.bind (find_in_tables T key d) (\<lambda>he. Some (he, d))))"

definition dictFetchValue :: "('k, 'v) dictType \<Rightarrow> 'k \<Rightarrow> ('k, 'v) dict \<Rightarrow> ('v option \<times> ('k, 'v) dict) option" where
  "dictFetchValue T key d =
     Option.bind (dictFind T key d) (\<lambda>(he, d). Some (if he \<noteq> 0 then Some (de_val (dict_heap d he)) else None, d))"

subsection \<open>Add and replace\<close>

text \<open>The index for a new entry, or -1 when the key is there already.\<close>

definition dictKeyIndex :: "('k, 'v) dictType \<Rightarrow> 'k \<Rightarrow> ('k, 'v) dict \<Rightarrow> (i32 \<times> ('k, 'v) dict) option" where
  "dictKeyIndex T key d =
     Option.bind (dictExpandIfNeeded d) (\<lambda>(r, d).
       if r = DICT_ERR then Some (- 1, d)
       else
         Option.bind (find_in_tables T key d) (\<lambda>he.
           if he \<noteq> 0 then Some (- 1, d)
           else Some (of_nat (dict_idx (dictHashKey T key) (if dictIsRehashing d then ht1 d else ht0 d)), d)))"

definition dictAdd :: "('k, 'v) dictType \<Rightarrow> addr \<Rightarrow> 'k \<Rightarrow> 'v \<Rightarrow> ('k, 'v) dict \<Rightarrow> (i32 \<times> ('k, 'v) dict) option" where
  "dictAdd T entry key v d =
     Option.bind (if dictIsRehashing d then dictRehashStep T d else Some d) (\<lambda>d.
     Option.bind (dictKeyIndex T key d) (\<lambda>(i, d).
       if i = - 1 then Some (DICT_ERR, d)
       else
         let t = (if dictIsRehashing d then 1 else 0);
             d = upd_entry entry (\<lambda>x. x\<lparr>de_next := ht_table (the_ht t d) ! unat i\<rparr>) d;
             d = upd_ht t (\<lambda>ht. ht\<lparr>ht_table := (ht_table ht)[unat i := entry], ht_used := ht_used ht + 1\<rparr>) d;
             d = dictSetHashKey T entry key d
         in Some (DICT_OK, dictSetHashVal T entry v d)))"

text \<open>\<open>auxentry\<close> is the entry before the value is set; \<open>None\<close> also when there is no entry to set.\<close>

definition dictReplace :: "('k, 'v) dictType \<Rightarrow> addr \<Rightarrow> 'k \<Rightarrow> 'v \<Rightarrow> ('k, 'v) dict \<Rightarrow> (i32 \<times> ('k, 'v) dict) option" where
  "dictReplace T entry key v d =
     Option.bind (dictAdd T entry key v d) (\<lambda>(r, d).
       if r = DICT_OK then Some (1, d)
       else
         Option.bind (dictFind T key d) (\<lambda>(e, d).
           if e = 0 then None
           else let auxentry = dict_heap d e
                in Some (0, dictFreeEntryVal T auxentry (dictSetHashVal T e v d))))"

subsection \<open>Delete\<close>

text \<open>The entry with the key in a chain and the one before it (0 when it is the first).\<close>

partial_function (option) search_chain ::
    "('k, 'v) dictType \<Rightarrow> (addr \<Rightarrow> ('k, 'v) dictEntry) \<Rightarrow> 'k \<Rightarrow> addr \<Rightarrow> addr \<Rightarrow> (addr \<times> addr) option" where
  [code]: "search_chain T E key prevHe he =
     (if he = 0 then Some (prevHe, 0)
      else if dictCompareHashKeys T key (de_key (E he)) then Some (prevHe, he)
      else search_chain T E key he (de_next (E he)))"

definition unlink_entry ::
    "('k, 'v) dictType \<Rightarrow> bool \<Rightarrow> nat \<Rightarrow> nat \<Rightarrow> addr \<Rightarrow> addr \<Rightarrow> ('k, 'v) dict \<Rightarrow> ('k, 'v) dict" where
  "unlink_entry T nofree t i prevHe he d =
     (let x = dict_heap d he;
          d = (if prevHe \<noteq> 0 then upd_entry prevHe (\<lambda>p. p\<lparr>de_next := de_next x\<rparr>) d
               else upd_ht t (\<lambda>ht. ht\<lparr>ht_table := (ht_table ht)[i := de_next x]\<rparr>) d);
          d = (if \<not> nofree then dictFreeEntryVal T x (dictFreeEntryKey T x d) else d);
          d = note_event (Free_entry he) d
      in upd_ht t (\<lambda>ht. ht\<lparr>ht_used := ht_used ht - 1\<rparr>) d)"

definition delete_from ::
    "('k, 'v) dictType \<Rightarrow> bool \<Rightarrow> 'k \<Rightarrow> nat \<Rightarrow> ('k, 'v) dict \<Rightarrow> (bool \<times> ('k, 'v) dict) option" where
  "delete_from T nofree key t d =
     (let i = dict_idx (dictHashKey T key) (the_ht t d)
      in Option.bind (search_chain T (dict_heap d) key 0 (ht_table (the_ht t d) ! i)) (\<lambda>(prevHe, he).
           if he = 0 then Some (False, d) else Some (True, unlink_entry T nofree t i prevHe he d)))"

text \<open>The loop of \<open>dictGenericDelete\<close> over the tables, the second one while the dictionary is rehashing.\<close>

definition delete_both :: "('k, 'v) dictType \<Rightarrow> 'k \<Rightarrow> bool \<Rightarrow> ('k, 'v) dict \<Rightarrow> (i32 \<times> ('k, 'v) dict) option" where
  "delete_both T key nofree d =
     Option.bind (delete_from T nofree key 0 d) (\<lambda>(found, d).
       if found then Some (DICT_OK, d)
       else if \<not> dictIsRehashing d then Some (DICT_ERR, d)
       else Option.bind (delete_from T nofree key 1 d) (\<lambda>(found, d).
              Some (if found then DICT_OK else DICT_ERR, d)))"

definition dictGenericDelete :: "('k, 'v) dictType \<Rightarrow> 'k \<Rightarrow> bool \<Rightarrow> ('k, 'v) dict \<Rightarrow> (i32 \<times> ('k, 'v) dict) option" where
  "dictGenericDelete T key nofree d =
     (if ht_size (ht0 d) = 0 then Some (DICT_ERR, d)
      else Option.bind (if dictIsRehashing d then dictRehashStep T d else Some d) (delete_both T key nofree))"

definition dictDelete :: "('k, 'v) dictType \<Rightarrow> 'k \<Rightarrow> ('k, 'v) dict \<Rightarrow> (i32 \<times> ('k, 'v) dict) option" where
  "dictDelete T key d = dictGenericDelete T key False d"

definition dictDeleteNoFree :: "('k, 'v) dictType \<Rightarrow> 'k \<Rightarrow> ('k, 'v) dict \<Rightarrow> (i32 \<times> ('k, 'v) dict) option" where
  "dictDeleteNoFree T key d = dictGenericDelete T key True d"

subsection \<open>Release\<close>

definition free_entry :: "('k, 'v) dictType \<Rightarrow> nat \<Rightarrow> addr \<Rightarrow> ('k, 'v) dict \<Rightarrow> ('k, 'v) dict" where
  "free_entry T t he d =
     (let x = dict_heap d he;
          d = dictFreeEntryVal T x (dictFreeEntryKey T x d);
          d = note_event (Free_entry he) d
      in upd_ht t (\<lambda>ht. ht\<lparr>ht_used := ht_used ht - 1\<rparr>) d)"

partial_function (option) clear_chain :: "('k, 'v) dictType \<Rightarrow> nat \<Rightarrow> addr \<Rightarrow> ('k, 'v) dict \<Rightarrow> ('k, 'v) dict option" where
  [code]: "clear_chain T t he d =
     (if he = 0 then Some d
      else let nextHe = de_next (dict_heap d he) in clear_chain T t nextHe (free_entry T t he d))"

fun clear_buckets :: "('k, 'v) dictType \<Rightarrow> nat \<Rightarrow> addr list \<Rightarrow> ('k, 'v) dict \<Rightarrow> ('k, 'v) dict option" where
  "clear_buckets T t [] d = Some d"
| "clear_buckets T t (he # hs) d =
     (if ht_used (the_ht t d) = 0 then Some d
      else Option.bind (clear_chain T t he d) (clear_buckets T t hs))"

definition dictClear :: "('k, 'v) dictType \<Rightarrow> nat \<Rightarrow> ('k, 'v) dict \<Rightarrow> ('k, 'v) dict option" where
  "dictClear T t d =
     Option.bind (clear_buckets T t (take (unat (ht_size (the_ht t d))) (ht_table (the_ht t d))) d) (\<lambda>d.
       Some (upd_ht t (\<lambda>_. dictReset) (note_event (Free_table (ht_table (the_ht t d))) d)))"

definition dictRelease :: "('k, 'v) dictType \<Rightarrow> ('k, 'v) dict \<Rightarrow> ('k, 'v) dict option" where
  "dictRelease T d =
     Option.bind (dictClear T 0 d) (\<lambda>d. Option.bind (dictClear T 1 d) (\<lambda>d. Some (note_event Free_dict d)))"

definition dictEmpty :: "('k, 'v) dictType \<Rightarrow> ('k, 'v) dict \<Rightarrow> ('k, 'v) dict option" where
  "dictEmpty T d =
     Option.bind (dictClear T 0 d) (\<lambda>d. Option.bind (dictClear T 1 d) (\<lambda>d. Some (d\<lparr>rehashidx := - 1, iterators := 0\<rparr>)))"

subsection \<open>Iterators\<close>

record dictIterator =
  it_table :: nat
  it_index :: i32
  it_entry :: addr
  it_nextEntry :: addr

definition dictGetIterator :: dictIterator where
  "dictGetIterator = \<lparr>it_table = 0, it_index = - 1, it_entry = 0, it_nextEntry = 0\<rparr>"

text \<open>
  A round of the loop of \<open>dictNext\<close>; the flag tells whether the loop goes on. An entry that is
  found is returned with its successor saved.
\<close>

definition take_entry :: "dictIterator \<Rightarrow> ('k, 'v) dict \<Rightarrow> bool \<times> addr \<times> dictIterator" where
  "take_entry it d =
     (if it_entry it \<noteq> 0
      then (False, it_entry it, it\<lparr>it_nextEntry := de_next (dict_heap d (it_entry it))\<rparr>)
      else (True, 0, it))"

definition next_round :: "dictIterator \<Rightarrow> ('k, 'v) dict \<Rightarrow> (bool \<times> addr \<times> dictIterator) \<times> ('k, 'v) dict" where
  "next_round it d =
     (if it_entry it = 0
      then
        let d = (if it_index it = - 1 \<and> it_table it = 0 then d\<lparr>iterators := iterators d + 1\<rparr> else d);
            it = it\<lparr>it_index := it_index it + 1\<rparr>
        in if (ucast (ht_size (the_ht (it_table it) d)) :: i32) \<le>s it_index it
           then if dictIsRehashing d \<and> it_table it = 0
                then let it = it\<lparr>it_table := 1, it_index := 0\<rparr>
                     in (take_entry (it\<lparr>it_entry := ht_table (ht1 d) ! 0\<rparr>) d, d)
                else ((False, 0, it), d)
           else (take_entry (it\<lparr>it_entry := ht_table (the_ht (it_table it) d) ! unat (it_index it)\<rparr>) d, d)
      else (take_entry (it\<lparr>it_entry := it_nextEntry it\<rparr>) d, d))"

partial_function (option) dictNext :: "dictIterator \<Rightarrow> ('k, 'v) dict \<Rightarrow> (addr \<times> dictIterator \<times> ('k, 'v) dict) option" where
  [code]: "dictNext it d =
     (case next_round it d of ((again, he, it), d) \<Rightarrow> if again then dictNext it d else Some (he, it, d))"

definition dictReleaseIterator :: "dictIterator \<Rightarrow> ('k, 'v) dict \<Rightarrow> ('k, 'v) dict" where
  "dictReleaseIterator it d =
     (if \<not> (it_index it = - 1 \<and> it_table it = 0) then d\<lparr>iterators := iterators d - 1\<rparr> else d)"

text \<open>\<open>rnd i\<close> is what the \<open>i\<close>th call of \<open>random\<close> returns.\<close>

partial_function (option) random_bucket :: "(nat \<Rightarrow> u64) \<Rightarrow> nat \<Rightarrow> ('k, 'v) dict \<Rightarrow> (addr \<times> nat) option" where
  [code]: "random_bucket rnd i d =
     (let he =
        (if dictIsRehashing d
         then
           let h = (ucast (rnd i mod dictSlots d) :: u32)
           in if ucast h \<ge> ht_size (ht0 d) then ht_table (ht1 d) ! unat (ucast h - ht_size (ht0 d))
              else ht_table (ht0 d) ! unat h
         else ht_table (ht0 d) ! unat (ucast (rnd i AND ht_sizemask (ht0 d)) :: u32))
      in if he = 0 then random_bucket rnd (Suc i) d else Some (he, Suc i))"

partial_function (option) chain_length :: "(addr \<Rightarrow> ('k, 'v) dictEntry) \<Rightarrow> addr \<Rightarrow> i32 \<Rightarrow> i32 option" where
  [code]: "chain_length E he listlen = (if he = 0 then Some listlen else chain_length E (de_next (E he)) (listlen + 1))"

fun nth_in_chain :: "(addr \<Rightarrow> ('k, 'v) dictEntry) \<Rightarrow> nat \<Rightarrow> addr \<Rightarrow> addr" where
  "nth_in_chain E 0 he = he"
| "nth_in_chain E (Suc n) he = nth_in_chain E n (de_next (E he))"

definition dictGetRandomKey :: "('k, 'v) dictType \<Rightarrow> (nat \<Rightarrow> u64) \<Rightarrow> ('k, 'v) dict \<Rightarrow> (addr \<times> ('k, 'v) dict) option" where
  "dictGetRandomKey T rnd d =
     (if dictSize d = 0 then Some (0, d)
      else
        Option.bind (if dictIsRehashing d then dictRehashStep T d else Some d) (\<lambda>d.
        Option.bind (random_bucket rnd 0 d) (\<lambda>(orighe, i).
        Option.bind (chain_length (dict_heap d) orighe 0) (\<lambda>listlen.
          let listele = (ucast (rnd i mod scast listlen) :: i32)
          in Some (nth_in_chain (dict_heap d) (unat listele) orighe, d)))))"

subsection \<open>Hash functions and types of strings\<close>

text \<open>Thomas Wang's mix function, the identity, and Bernstein's function on the bytes of a buffer.\<close>

definition dictIntHashFunction :: "u32 \<Rightarrow> u32" where
  "dictIntHashFunction key =
     (let key = key + NOT (push_bit 15 key);
          key = key XOR drop_bit 10 key;
          key = key + push_bit 3 key;
          key = key XOR drop_bit 6 key;
          key = key + NOT (push_bit 11 key)
      in key XOR drop_bit 16 key)"

definition dictIdentityHashFunction :: "u32 \<Rightarrow> u32" where
  "dictIdentityHashFunction key = key"

definition dictGenHashFunction :: "byte list \<Rightarrow> u32" where
  "dictGenHashFunction buf = foldl (\<lambda>hash c. (push_bit 5 hash + hash) + ucast c) 5381 buf"

text \<open>
  In the types for C strings a key or value is its bytes before the final zero, and a copy of them
  is equal to them.
\<close>

definition dictStringCopyHTHashFunction :: "byte list \<Rightarrow> u32" where
  "dictStringCopyHTHashFunction key = dictGenHashFunction key"

definition dictStringCopyHTKeyDup :: "byte list \<Rightarrow> byte list" where
  "dictStringCopyHTKeyDup key = key"

definition dictStringKeyValCopyHTValDup :: "byte list \<Rightarrow> byte list" where
  "dictStringKeyValCopyHTValDup v = v"

definition dictStringCopyHTKeyCompare :: "byte list \<Rightarrow> byte list \<Rightarrow> bool" where
  "dictStringCopyHTKeyCompare key1 key2 \<longleftrightarrow> key1 = key2"

definition dictTypeHeapStringCopyKey :: "(byte list, 'v) dictType" where
  "dictTypeHeapStringCopyKey = \<lparr>hashFunction = dictStringCopyHTHashFunction, keyDup = Some dictStringCopyHTKeyDup,
     valDup = None, keyCompare = Some dictStringCopyHTKeyCompare, keyDestructor = True, valDestructor = False\<rparr>"

definition dictTypeHeapStrings :: "(byte list, 'v) dictType" where
  "dictTypeHeapStrings = \<lparr>hashFunction = dictStringCopyHTHashFunction, keyDup = None,
     valDup = None, keyCompare = Some dictStringCopyHTKeyCompare, keyDestructor = True, valDestructor = False\<rparr>"

definition dictTypeHeapStringCopyKeyValue :: "(byte list, byte list) dictType" where
  "dictTypeHeapStringCopyKeyValue = \<lparr>hashFunction = dictStringCopyHTHashFunction, keyDup = Some dictStringCopyHTKeyDup,
     valDup = Some dictStringKeyValCopyHTValDup, keyCompare = Some dictStringCopyHTKeyCompare, keyDestructor = True, valDestructor = True\<rparr>"

end
