(* ===== verification/Dictmap.thy ===== *)
theory Dictmap
  imports Dict
begin

text \<open>
  The dictionary refines a map. The pointers of a table stand for a list of buckets, each the list
  of its entries (\<open>ht_rep\<close>); the two tables with the state of rehashing for two such lists
  (\<open>dict_rep\<close>); and their entries for a map from keys to values (\<open>dict_map\<close>).
\<close>

subsection \<open>Tables as lists of buckets\<close>

definition links :: "(addr \<Rightarrow> ('k, 'v) dictEntry) \<Rightarrow> addr \<Rightarrow> addr list \<Rightarrow> bool" where
  "links E he xs \<longleftrightarrow> he = hd0 xs 0 \<and> sl (\<lambda>e. de_next (E e)) xs"

definition ht_rep :: "(addr \<Rightarrow> ('k, 'v) dictEntry) \<Rightarrow> dictht \<Rightarrow> addr list list \<Rightarrow> bool" where
  "ht_rep E ht bs \<longleftrightarrow> length (ht_table ht) = length bs \<and> (\<forall>i < length bs. links E (ht_table ht ! i) (bs ! i)) \<and> ht_size ht = of_nat (length bs)
     \<and> ht_sizemask ht = (if bs = [] then 0 else of_nat (length bs) - 1) \<and> ht_used ht = of_nat (length (concat bs))
     \<and> (bs = [] \<or> (\<exists>k \<le> 30. length bs = 2 ^ k))"

definition slot :: "('k, 'v) dictType \<Rightarrow> (addr \<Rightarrow> ('k, 'v) dictEntry) \<Rightarrow> nat \<Rightarrow> addr \<Rightarrow> nat" where
  "slot T E n e = unat (dictHashKey T (de_key (E e))) mod n"

definition placed :: "('k, 'v) dictType \<Rightarrow> (addr \<Rightarrow> ('k, 'v) dictEntry) \<Rightarrow> addr list list \<Rightarrow> bool" where
  "placed T E bs \<longleftrightarrow> (\<forall>i < length bs. \<forall>e \<in> set (bs ! i). slot T E (length bs) e = i)"

definition one_per_key :: "('k, 'v) dictType \<Rightarrow> (addr \<Rightarrow> ('k, 'v) dictEntry) \<Rightarrow> addr set \<Rightarrow> bool" where
  "one_per_key T E A \<longleftrightarrow> (\<forall>e \<in> A. \<forall>f \<in> A. dictCompareHashKeys T (de_key (E e)) (de_key (E f)) \<longrightarrow> e = f)"

text \<open>
  \<open>rehashing d bs0 bs1\<close>: without a second table \<open>rehashidx\<close> is -1; with one the buckets before
  \<open>rehashidx\<close> have been moved.
\<close>

definition rehashing :: "i32 \<Rightarrow> addr list list \<Rightarrow> addr list list \<Rightarrow> bool" where
  "rehashing r bs0 bs1 \<longleftrightarrow> r = - 1 \<and> bs1 = []
     \<or> bs0 \<noteq> [] \<and> bs1 \<noteq> [] \<and> (\<exists>n \<le> length bs0. r = of_nat n \<and> (\<forall>i < n. bs0 ! i = []))"

definition entries :: "addr list list \<Rightarrow> addr list list \<Rightarrow> addr list" where
  "entries bs0 bs1 = concat bs0 @ concat bs1"

definition dict_rep :: "('k, 'v) dictType \<Rightarrow> ('k, 'v) dict \<Rightarrow> addr list list \<Rightarrow> addr list list \<Rightarrow> bool" where
  "dict_rep T d bs0 bs1 \<longleftrightarrow> ht_rep (dict_heap d) (ht0 d) bs0 \<and> ht_rep (dict_heap d) (ht1 d) bs1
     \<and> placed T (dict_heap d) bs0 \<and> placed T (dict_heap d) bs1 \<and> distinct (entries bs0 bs1)
     \<and> one_per_key T (dict_heap d) (set (entries bs0 bs1)) \<and> length (entries bs0 bs1) < 2 ^ 28
     \<and> rehashing (rehashidx d) bs0 bs1"

text \<open>The map a dictionary stands for: the value of the entry whose key compares equal.\<close>

definition key_match :: "('k, 'v) dictType \<Rightarrow> (addr \<Rightarrow> ('k, 'v) dictEntry) \<Rightarrow> 'k \<Rightarrow> addr \<Rightarrow> bool" where
  "key_match T E k e \<longleftrightarrow> dictCompareHashKeys T k (de_key (E e))"

definition dict_map :: "('k, 'v) dictType \<Rightarrow> (addr \<Rightarrow> ('k, 'v) dictEntry) \<Rightarrow> addr list \<Rightarrow> 'k \<Rightarrow> 'v option" where
  "dict_map T E es k = map_option (\<lambda>e. de_val (E e)) (find (key_match T E k) es)"

text \<open>
  What \<open>dict.c\<close> relies on from a \<open>dictType\<close>: keys are compared by an equivalence, equivalent keys
  have the same hash value, and a copy of a key is equivalent to it.
\<close>

locale dict_type =
  fixes T :: "('k, 'v) dictType"
  assumes cmp_refl: "dictCompareHashKeys T k k"
    and cmp_sym: "dictCompareHashKeys T a b \<Longrightarrow> dictCompareHashKeys T b a"
    and cmp_trans: "dictCompareHashKeys T a b \<Longrightarrow> dictCompareHashKeys T b c \<Longrightarrow> dictCompareHashKeys T a c"
    and hash_cmp: "dictCompareHashKeys T a b \<Longrightarrow> hashFunction T a = hashFunction T b"
    and dup_cmp: "keyDup T = Some f \<Longrightarrow> dictCompareHashKeys T k (f k)"

interpretation copy_key: dict_type "dictTypeHeapStringCopyKey :: (byte list, 'v) dictType"
  by unfold_locales (auto simp: dictTypeHeapStringCopyKey_def dictCompareHashKeys_def dictStringCopyHTKeyCompare_def dictStringCopyHTKeyDup_def)

interpretation strings: dict_type "dictTypeHeapStrings :: (byte list, 'v) dictType"
  by unfold_locales (auto simp: dictTypeHeapStrings_def dictCompareHashKeys_def dictStringCopyHTKeyCompare_def)

interpretation copy_key_val: dict_type dictTypeHeapStringCopyKeyValue
  by unfold_locales (auto simp: dictTypeHeapStringCopyKeyValue_def dictCompareHashKeys_def dictStringCopyHTKeyCompare_def dictStringCopyHTKeyDup_def)

subsection \<open>Chains and indices\<close>

lemma the_ht_simps [simp]: "the_ht 0 d = ht0 d" "the_ht (Suc 0) d = ht1 d" "the_ht 1 d = ht1 d"
  by (simp_all add: the_ht_def)

lemma upd_ht_simps [simp]: "upd_ht 0 f d = d\<lparr>ht0 := f (ht0 d)\<rparr>" "upd_ht (Suc 0) f d = d\<lparr>ht1 := f (ht1 d)\<rparr>"
  "upd_ht 1 f d = d\<lparr>ht1 := f (ht1 d)\<rparr>"
  by (simp_all add: upd_ht_def)

lemma sl_zero: "sl nx xs \<Longrightarrow> 0 \<notin> set xs"
  using sl_nonzero by blast

lemma hd0_zero: "sl nx xs \<Longrightarrow> hd0 xs 0 = 0 \<longleftrightarrow> xs = []"
  by (cases xs) auto

lemma links_zero: "links E he xs \<Longrightarrow> he = 0 \<longleftrightarrow> xs = []" "links E he xs \<Longrightarrow> 0 \<notin> set xs"
  by (auto simp: links_def hd0_zero dest: sl_zero)

lemma links_cong: "(\<And>e. e \<in> set xs \<Longrightarrow> de_next (E' e) = de_next (E e)) \<Longrightarrow> links E' he xs = links E he xs"
  unfolding links_def by (subst sl_cong [of xs "\<lambda>e. de_next (E' e)" "\<lambda>e. de_next (E e)"]) auto

lemma ht_rep_length: "ht_rep E ht bs \<Longrightarrow> length (ht_table ht) = length bs"
  by (simp add: ht_rep_def)

lemma ht_rep_links: "ht_rep E ht bs \<Longrightarrow> i < length bs \<Longrightarrow> links E (ht_table ht ! i) (bs ! i)"
  by (simp add: ht_rep_def)

lemma ht_rep_nonzero: "ht_rep E ht bs \<Longrightarrow> e \<in> set (concat bs) \<Longrightarrow> e \<noteq> 0"
  using ht_rep_links links_zero(2) by (fastforce simp: in_set_conv_nth)

lemma ht_rep_cong: "(\<And>e. e \<in> set (concat bs) \<Longrightarrow> de_next (E' e) = de_next (E e)) \<Longrightarrow> ht_rep E' ht bs = ht_rep E ht bs"
proof -
  assume a: "\<And>e. e \<in> set (concat bs) \<Longrightarrow> de_next (E' e) = de_next (E e)"
  have "links E' he (bs ! i) = links E he (bs ! i)" if "i < length bs" for he i
    by (rule links_cong) (use a nth_mem [OF that] in auto)
  then show ?thesis by (simp add: ht_rep_def)
qed

lemma ht_rep_bound: "ht_rep E ht bs \<Longrightarrow> length bs \<le> 2 ^ 30"
  using power_increasing [of _ 30 "2 :: nat"] by (auto simp: ht_rep_def)

lemma of_nat_i32_not_minus_1:
  assumes "n \<le> 2 ^ 30"
  shows "(of_nat n :: i32) \<noteq> - 1" "unat (of_nat n :: i32) = n"
proof -
  show n: "unat (of_nat n :: i32) = n" using assms by (simp add: unat_of_nat take_bit_nat_eq_self)
  show "(of_nat n :: i32) \<noteq> - 1"
  proof
    assume "(of_nat n :: i32) = - 1"
    then have "n = unat (- 1 :: i32)" using n by simp
    moreover have "unat (- 1 :: i32) = 2 ^ 32 - 1" by (simp add: unsigned_minus_1_eq_mask mask_eq_exp_minus_1)
    ultimately show False using assms by simp
  qed
qed

lemma dict_rep_rehashing:
  assumes "dict_rep T d bs0 bs1"
  shows "dictIsRehashing d \<longleftrightarrow> bs1 \<noteq> []"
proof (cases "bs1 = []")
  case False
  then obtain n where "n \<le> length bs0" "rehashidx d = of_nat n" using assms unfolding dict_rep_def rehashing_def by blast
  moreover have "length bs0 \<le> 2 ^ 30" using assms ht_rep_bound unfolding dict_rep_def by blast
  ultimately show ?thesis using False of_nat_i32_not_minus_1(1) [of n] by (simp add: dictIsRehashing_def)
qed (use assms in \<open>simp add: dict_rep_def rehashing_def dictIsRehashing_def\<close>)

lemma in_concat_nth: "e \<in> set (concat bs) \<longleftrightarrow> (\<exists>i < length bs. e \<in> set (bs ! i))"
  by (metis in_set_conv_nth nth_mem set_concat UN_iff)

text \<open>The index of a key in a table of a power of two buckets.\<close>

lemma dict_idx_slot:
  assumes "ht_rep E ht bs" "bs \<noteq> []"
  shows "dict_idx h ht = unat h mod length bs" "dict_idx h ht < length bs"
proof -
  obtain k where k: "k \<le> 30" "length bs = 2 ^ k" and m: "ht_sizemask ht = of_nat (length bs) - 1"
    using assms unfolding ht_rep_def by auto
  have "ucast h AND ht_sizemask ht = take_bit k (ucast h :: u64)"
    unfolding m k(2) by (simp add: take_bit_eq_mask mask_eq_exp_minus_1)
  also have "\<dots> = ucast (take_bit k h)" using k(1) by (simp add: unsigned_take_bit_eq)
  finally have "dict_idx h ht = unat (ucast (ucast (take_bit k h) :: u64) :: u32)" by (simp add: dict_idx_def)
  also have "\<dots> = unat (take_bit k h)" using k(1) by (simp add: unsigned_ucast_eq min_def)
  finally have "dict_idx h ht = unat (take_bit k h)" .
  moreover have "unat (take_bit k h) = unat h mod 2 ^ k" unfolding unsigned_take_bit_eq by (rule take_bit_eq_mod)
  ultimately show i: "dict_idx h ht = unat h mod length bs" using k(2) by simp
  show "dict_idx h ht < length bs" unfolding i using k(2) by simp
qed

lemma find_in_chain_spec:
  "sl (\<lambda>e. de_next (E e)) xs \<Longrightarrow>
     find_in_chain T E key (hd0 xs 0) = Some (case find (key_match T E key) xs of None \<Rightarrow> 0 | Some e \<Rightarrow> e)"
  by (induction xs) (subst find_in_chain.simps, auto simp: key_match_def)+

lemma find_SomeD: "find P xs = Some x \<Longrightarrow> x \<in> set xs \<and> P x"
  by (induction xs) (auto split: if_splits)

lemma find_unique:
  assumes "\<And>e f. e \<in> set es \<Longrightarrow> f \<in> set es \<Longrightarrow> P e \<Longrightarrow> P f \<Longrightarrow> e = f" "e \<in> set es" "P e"
  shows "find P es = Some e"
proof (cases "find P es")
  case None
  then show ?thesis using assms(2,3) by (auto simp: find_None_iff)
next
  case (Some f)
  then have "f \<in> set es" "P f" by (auto simp: find_Some_iff)
  then show ?thesis using assms Some by simp
qed

lemma find_same_set:
  assumes u: "\<And>e f. e \<in> set es \<Longrightarrow> f \<in> set es \<Longrightarrow> P e \<Longrightarrow> P f \<Longrightarrow> e = f"
    and s: "set xs \<subseteq> set es" "\<And>e. e \<in> set es \<Longrightarrow> P e \<Longrightarrow> e \<in> set xs"
  shows "find P xs = find P es"
proof (cases "find P es")
  case None
  then have "find P xs = None" using s(1) by (auto simp: find_None_iff)
  then show ?thesis using None by simp
next
  case (Some e)
  then have e: "e \<in> set es" "P e" by (auto simp: find_Some_iff)
  have "find P xs = Some e" by (rule find_unique) (use u s e in blast)+
  then show ?thesis using Some by simp
qed

lemma find_append: "find P (xs @ ys) = (case find P xs of None \<Rightarrow> find P ys | Some x \<Rightarrow> Some x)"
  by (induction xs) auto

context dict_type begin

lemma key_match_slot: "key_match T E k e \<Longrightarrow> slot T E n e = unat (dictHashKey T k) mod n"
  using hash_cmp by (simp add: key_match_def slot_def dictHashKey_def)

lemma match_unique:
  assumes "one_per_key T E A" "e \<in> A" "f \<in> A" "key_match T E k e" "key_match T E k f"
  shows "e = f"
  using assms cmp_sym cmp_trans unfolding one_per_key_def key_match_def by blast

lemma find_in_bucket:
  assumes p: "placed T E bs" "bs \<noteq> []" and u: "one_per_key T E (set (concat bs))"
  shows "find (key_match T E k) (bs ! (unat (dictHashKey T k) mod length bs)) = find (key_match T E k) (concat bs)"
proof (rule find_same_set)
  let ?i = "unat (dictHashKey T k) mod length bs"
  have i: "?i < length bs" using p(2) by simp
  then show "set (bs ! ?i) \<subseteq> set (concat bs)" using nth_mem by fastforce
  fix e assume e: "e \<in> set (concat bs)" "key_match T E k e"
  then obtain j where j: "j < length bs" "e \<in> set (bs ! j)" unfolding in_concat_nth by blast
  then have "j = ?i" using p(1) key_match_slot [OF e(2), of "length bs"] unfolding placed_def by metis
  then show "e \<in> set (bs ! ?i)" using j by simp
qed (use match_unique [OF u] in blast)

lemma find_in_tables_spec:
  assumes rep: "dict_rep T d bs0 bs1" and ne: "bs0 \<noteq> []"
  shows "find_in_tables T key d
    = Some (case find (key_match T (dict_heap d) key) (entries bs0 bs1) of None \<Rightarrow> 0 | Some e \<Rightarrow> e)"
proof -
  let ?E = "dict_heap d" and ?h = "dictHashKey T key"
  have r: "ht_rep ?E (ht0 d) bs0" "ht_rep ?E (ht1 d) bs1" "placed T ?E bs0" "placed T ?E bs1" "rehashing (rehashidx d) bs0 bs1"
    and u: "one_per_key T ?E (set (entries bs0 bs1))" using rep unfolding dict_rep_def by blast+
  have u': "one_per_key T ?E (set (concat bs0))" "one_per_key T ?E (set (concat bs1))"
    using u by (auto simp: one_per_key_def entries_def)
  have in_table: "find_in_chain T ?E key (ht_table ht ! dict_idx ?h ht)
      = Some (case find (key_match T ?E key) (concat bs) of None \<Rightarrow> 0 | Some e \<Rightarrow> e)"
    if "ht_rep ?E ht bs" "bs \<noteq> []" "placed T ?E bs" "one_per_key T ?E (set (concat bs))" for ht bs
    using ht_rep_links [OF that(1) dict_idx_slot(2) [OF that(1,2), of ?h]] dict_idx_slot(1) [OF that(1,2), of ?h]
      find_in_bucket [OF that(3,2,4), of key] find_in_chain_spec [of ?E "bs ! dict_idx ?h ht" T key] by (simp add: links_def)
  note t0 = in_table [OF r(1) ne r(3) u'(1)]
  have e0: "find (key_match T ?E key) (entries bs0 bs1)
      = (case find (key_match T ?E key) (concat bs0) of None \<Rightarrow> find (key_match T ?E key) (concat bs1) | Some e \<Rightarrow> Some e)"
    by (simp add: entries_def find_append)
  show ?thesis
  proof (cases "find (key_match T ?E key) (concat bs0)")
    case (Some e)
    then have "e \<noteq> 0" using ht_rep_nonzero [OF r(1)] find_SomeD by fast
    then show ?thesis using t0 e0 Some by (simp add: find_in_tables_def Let_def)
  next
    case None
    show ?thesis
    proof (cases "bs1 = []")
      case True
      then have "\<not> dictIsRehashing d" using dict_rep_rehashing [OF rep] by simp
      then show ?thesis using t0 e0 None True by (simp add: find_in_tables_def Let_def)
    next
      case False
      then have "dictIsRehashing d" using dict_rep_rehashing [OF rep] by simp
      then show ?thesis using t0 e0 None in_table [OF r(2) False r(4) u'(2)] by (simp add: find_in_tables_def Let_def)
    qed
  qed
qed

end

subsection \<open>Rehashing\<close>

definition kv_same :: "(addr \<Rightarrow> ('k, 'v) dictEntry) \<Rightarrow> (addr \<Rightarrow> ('k, 'v) dictEntry) \<Rightarrow> bool" where
  "kv_same E E' \<longleftrightarrow> (\<forall>e. de_key (E' e) = de_key (E e) \<and> de_val (E' e) = de_val (E e))"

lemma kv_same_refl [simp]: "kv_same E E"
  by (simp add: kv_same_def)

lemma kv_same_trans: "kv_same E E' \<Longrightarrow> kv_same E' E'' \<Longrightarrow> kv_same E E''"
  by (simp add: kv_same_def)

lemma kv_sameD:
  assumes "kv_same E E'"
  shows "slot T E' n e = slot T E n e" "placed T E' bs = placed T E bs" "one_per_key T E' A = one_per_key T E A"
    "key_match T E' k = key_match T E k" "dict_map T E' es k = dict_map T E es k"
  using assms by (simp_all add: kv_same_def slot_def placed_def one_per_key_def key_match_def [abs_def] dict_map_def)

text \<open>The entry \<open>e\<close> in front of its bucket.\<close>

definition push_slot :: "('k, 'v) dictType \<Rightarrow> (addr \<Rightarrow> ('k, 'v) dictEntry) \<Rightarrow> addr \<Rightarrow> addr list list \<Rightarrow> addr list list" where
  "push_slot T E e bs = bs[slot T E (length bs) e := e # bs ! slot T E (length bs) e]"

lemma mset_concat_update:
  "i < length bs \<Longrightarrow> mset (concat (bs[i := xs])) + mset (bs ! i) = mset (concat bs) + mset xs"
  using sum_list_concat_update [of i bs id xs] by simp

lemma slot_less: "bs \<noteq> [] \<Longrightarrow> slot T E (length bs) e < length bs"
  by (simp add: slot_def)

lemma push_slot_simps [simp]:
  "length (push_slot T E e bs) = length bs" "push_slot T E e bs = [] \<longleftrightarrow> bs = []"
  by (simp_all add: push_slot_def)

lemma mset_push_slot: "bs \<noteq> [] \<Longrightarrow> mset (concat (push_slot T E e bs)) = add_mset e (mset (concat bs))"
  using mset_concat_update [OF slot_less, of bs T E e "e # bs ! slot T E (length bs) e"] by (simp add: push_slot_def)

lemma placed_push_slot: "placed T E bs \<Longrightarrow> placed T E (push_slot T E e bs)"
  by (cases "bs = []") (auto simp: placed_def push_slot_def nth_list_update slot_less)

lemma fold_push_slot:
  assumes "bs \<noteq> []"
  shows "length (fold (push_slot T E) xs bs) = length bs" "mset (concat (fold (push_slot T E) xs bs)) = mset xs + mset (concat bs)"
    "placed T E bs \<Longrightarrow> placed T E (fold (push_slot T E) xs bs)"
  using assms by (induction xs arbitrary: bs) (auto simp: mset_push_slot placed_push_slot)

lemma push_slot_cong: "kv_same E E' \<Longrightarrow> push_slot T E' = push_slot T E"
  by (intro ext) (simp add: push_slot_def kv_sameD)

text \<open>What rehashing does not touch.\<close>

definition dict_rest :: "('k, 'v) dict \<Rightarrow> i32 \<times> ('k, 'v) dict_event list \<times> i32" where
  "dict_rest d = (iterators d, dict_events d, dict_can_resize d)"

lemma ht_rep_push:
  assumes rep: "ht_rep E ht bs" "bs \<noteq> []" and e: "e \<notin> set (concat bs)" "e \<noteq> 0"
    and i: "i = slot T E (length bs) e" and E': "E' = E(e := x)" "de_next x = ht_table ht ! i"
    and ht': "ht' = ht\<lparr>ht_table := (ht_table ht)[i := e], ht_used := ht_used ht + 1\<rparr>"
  shows "ht_rep E' ht' (push_slot T E e bs)"
proof -
  have il: "i < length bs" using rep(2) i by (simp add: slot_def)
  have other: "links E' he (bs ! j) = links E he (bs ! j)" if "j < length bs" for he j
    by (rule links_cong) (use e(1) that E' in \<open>auto simp: in_concat_nth\<close>)
  have new: "links E' e (e # bs ! i)"
    using other [OF il, of "ht_table ht ! i"] ht_rep_links [OF rep(1) il] e(2) E' by (simp add: links_def)
  have "length (concat (push_slot T E e bs)) = Suc (length (concat bs))"
    using arg_cong [OF mset_push_slot [OF rep(2), of T E e], of size] by simp
  then show ?thesis
    using rep il new other by (auto simp: ht_rep_def ht' push_slot_def i [symmetric] nth_list_update)
qed

lemma move_chain_spec:
  assumes "sl (\<lambda>e. de_next (dict_heap d e)) xs" "distinct xs" "set xs \<inter> set (concat bs1) = {}"
    "ht_rep (dict_heap d) (ht1 d) bs1" "bs1 \<noteq> []"
  shows "\<exists>d'. move_chain T (hd0 xs 0) d = Some d' \<and> ht_rep (dict_heap d') (ht1 d') (fold (push_slot T (dict_heap d)) xs bs1)
    \<and> ht0 d' = (ht0 d)\<lparr>ht_used := ht_used (ht0 d) - of_nat (length xs)\<rparr> \<and> kv_same (dict_heap d) (dict_heap d')
    \<and> (\<forall>e. e \<notin> set xs \<longrightarrow> dict_heap d' e = dict_heap d e) \<and> rehashidx d' = rehashidx d \<and> dict_rest d' = dict_rest d"
  using assms
proof (induction xs arbitrary: d bs1)
  case Nil
  then show ?case by (subst move_chain.simps) simp
next
  case (Cons x xs)
  let ?E = "dict_heap d"
  let ?d = "move_entry T x d"
  have x: "x \<noteq> 0" "de_next (?E x) = hd0 xs 0" "sl (\<lambda>e. de_next (?E e)) xs" "x \<notin> set (concat bs1)" "x \<notin> set xs" "distinct xs"
    using Cons.prems by auto
  have i: "dict_idx (dictHashKey T (de_key (?E x))) (ht1 d) = slot T ?E (length bs1) x"
    using dict_idx_slot(1) [OF Cons.prems(4,5)] by (simp add: slot_def)
  have d: "dict_heap ?d = ?E(x := (?E x)\<lparr>de_next := ht_table (ht1 d) ! slot T ?E (length bs1) x\<rparr>)"
    "ht1 ?d = (ht1 d)\<lparr>ht_table := (ht_table (ht1 d))[slot T ?E (length bs1) x := x], ht_used := ht_used (ht1 d) + 1\<rparr>"
    "ht0 ?d = (ht0 d)\<lparr>ht_used := ht_used (ht0 d) - 1\<rparr>" "rehashidx ?d = rehashidx d" "dict_rest ?d = dict_rest d"
    by (simp_all add: move_entry_def i upd_entry_def dict_rest_def Let_def)
  have kv: "kv_same ?E (dict_heap ?d)" by (simp add: kv_same_def d(1))
  have rep: "ht_rep (dict_heap ?d) (ht1 ?d) (push_slot T ?E x bs1)"
    by (rule ht_rep_push [OF Cons.prems(4,5) x(4,1) refl d(1) _ d(2)]) simp
  have sl: "sl (\<lambda>e. de_next (dict_heap ?d e)) xs" using x(3,5) by (subst sl_cong [of xs _ "\<lambda>e. de_next (?E e)"]) (auto simp: d(1))
  have "set (concat (push_slot T ?E x bs1)) = insert x (set (concat bs1))"
    using arg_cong [OF mset_push_slot [OF Cons.prems(5), of T ?E x], of set_mset] by simp
  then have dis: "set xs \<inter> set (concat (push_slot T ?E x bs1)) = {}" using Cons.prems(3) x(5) by auto
  obtain d' where d': "move_chain T (hd0 xs 0) ?d = Some d'"
    "ht_rep (dict_heap d') (ht1 d') (fold (push_slot T (dict_heap ?d)) xs (push_slot T ?E x bs1))"
    "ht0 d' = (ht0 ?d)\<lparr>ht_used := ht_used (ht0 ?d) - of_nat (length xs)\<rparr>" "kv_same (dict_heap ?d) (dict_heap d')"
    "\<forall>e. e \<notin> set xs \<longrightarrow> dict_heap d' e = dict_heap ?d e" "rehashidx d' = rehashidx ?d" "dict_rest d' = dict_rest ?d"
    using Cons.IH [OF sl x(6) dis rep] Cons.prems(5) by auto
  have "move_chain T (hd0 (x # xs) 0) d = Some d'" using d'(1) x(1,2) by (subst move_chain.simps) simp
  then show ?case using d'(2-) d push_slot_cong [OF kv] kv_same_trans [OF kv d'(4)] x(5) by (intro exI [of _ d']) (auto simp: algebra_simps)
qed

lemma skip_empty_spec:
  assumes "n \<le> m" "m < length tab" "tab ! m \<noteq> 0" "length tab \<le> 2 ^ 30"
  shows "\<exists>i \<le> m. skip_empty tab (of_nat n) = Some (of_nat i) \<and> n \<le> i \<and> tab ! i \<noteq> 0 \<and> (\<forall>j. n \<le> j \<longrightarrow> j < i \<longrightarrow> tab ! j = 0)"
  using assms(1)
proof (induction "m - n" arbitrary: n)
  case 0
  then have "n = m" by simp
  then show ?case using assms of_nat_i32_not_minus_1(2) [of m] by (intro exI [of _ m]) (subst skip_empty.simps, simp)
next
  case (Suc k)
  have n: "unat (of_nat n :: i32) = n" using of_nat_i32_not_minus_1(2) [of n] assms Suc.prems by simp
  show ?case
  proof (cases "tab ! n = 0")
    case True
    then have lt: "Suc n \<le> m" using Suc.prems assms(3) by (cases "n = m") auto
    have k: "k = m - Suc n" using Suc.hyps(2) by simp
    obtain i where i: "i \<le> m" "skip_empty tab (of_nat (Suc n)) = Some (of_nat i)" "Suc n \<le> i" "tab ! i \<noteq> 0"
      "\<forall>j. Suc n \<le> j \<longrightarrow> j < i \<longrightarrow> tab ! j = 0" using Suc.hyps(1) [OF k lt] by blast
    have "skip_empty tab (of_nat n) = Some (of_nat i)" using True n i(2) by (subst skip_empty.simps) (simp add: add.commute)
    moreover have "tab ! j = 0" if "n \<le> j" "j < i" for j using i(5) True that by (cases "j = n") auto
    ultimately show ?thesis using i by (intro exI [of _ i]) simp
  next
    case False
    then show ?thesis using n Suc.prems by (intro exI [of _ n]) (subst skip_empty.simps, simp)
  qed
qed

lemma mset_clear_bucket: "i < length bs \<Longrightarrow> mset (concat (bs[i := []])) + mset (bs ! i) = mset (concat bs)"
  using mset_concat_update [of i bs "[]"] by simp

lemma length_clear_bucket: "i < length bs \<Longrightarrow> length (concat (bs[i := []])) + length (bs ! i) = length (concat bs)"
  using arg_cong [OF mset_clear_bucket, of i bs size] by simp

lemma ht_rep_clear:
  assumes rep: "ht_rep E ht bs" and i: "i < length bs" and E': "\<And>e. e \<notin> set (bs ! i) \<Longrightarrow> E' e = E e"
    and dist: "distinct (concat bs)"
    and ht': "ht' = ht\<lparr>ht_table := (ht_table ht)[i := 0], ht_used := ht_used ht - of_nat (length (bs ! i))\<rparr>"
  shows "ht_rep E' ht' (bs[i := []])"
proof -
  have "E' e = E e" if "e \<in> set (concat (bs[i := []]))" for e
  proof (rule E')
    have "mset (concat (bs[i := []]) @ bs ! i) = mset (concat bs)" using mset_clear_bucket [OF i] by simp
    then have "distinct (concat (bs[i := []]) @ bs ! i)" using dist mset_eq_imp_distinct_iff by blast
    then show "e \<notin> set (bs ! i)" using that by auto
  qed
  then have same: "ht_rep E' ht' (bs[i := []]) = ht_rep E ht' (bs[i := []])" by (intro ht_rep_cong) simp
  have "of_nat (length (concat (bs[i := []]))) = of_nat (length (concat bs)) - (of_nat (length (bs ! i)) :: u64)"
    using arg_cong [OF length_clear_bucket [OF i], of "of_nat :: nat \<Rightarrow> u64"] by (simp add: eq_diff_eq)
  then show ?thesis unfolding same using rep i by (auto simp: ht_rep_def ht' nth_list_update links_def)
qed

lemma move_bucket_spec:
  assumes rep: "dict_rep T d bs0 bs1" and bs1: "bs1 \<noteq> []" and ne: "concat bs0 \<noteq> []" and n: "rehashidx d = of_nat n" "n \<le> length bs0"
  shows "\<exists>d' i. move_bucket T d = Some d' \<and> n \<le> i \<and> i < length bs0
    \<and> dict_rep T d' (bs0[i := []]) (fold (push_slot T (dict_heap d)) (bs0 ! i) bs1)
    \<and> rehashidx d' = of_nat (Suc i) \<and> kv_same (dict_heap d) (dict_heap d') \<and> dict_rest d' = dict_rest d"
proof -
  let ?E = "dict_heap d" and ?tab = "ht_table (ht0 d)"
  have r: "ht_rep ?E (ht0 d) bs0" "ht_rep ?E (ht1 d) bs1" "placed T ?E bs0" "placed T ?E bs1" "rehashing (rehashidx d) bs0 bs1"
    "distinct (entries bs0 bs1)" "one_per_key T ?E (set (entries bs0 bs1))" "length (entries bs0 bs1) < 2 ^ 28"
    using rep unfolding dict_rep_def by blast+
  have len: "length ?tab = length bs0" "length bs0 \<le> 2 ^ 30" using ht_rep_length [OF r(1)] ht_rep_bound [OF r(1)] by simp_all
  have tab: "?tab ! i = hd0 (bs0 ! i) 0" "?tab ! i = 0 \<longleftrightarrow> bs0 ! i = []" "sl (\<lambda>e. de_next (?E e)) (bs0 ! i)" if "i < length bs0" for i
    using ht_rep_links [OF r(1) that] links_zero(1) [OF ht_rep_links [OF r(1) that]] by (simp_all add: links_def)
  have moved: "bs0 ! j = []" if "j < n" for j
  proof -
    obtain n' where n': "n' \<le> length bs0" "rehashidx d = of_nat n'" "\<forall>j < n'. bs0 ! j = []"
      using r(5) bs1 unfolding rehashing_def by blast
    have "n' \<le> 2 ^ 30" "n \<le> 2 ^ 30" using n'(1) n(2) len(2) by linarith+
    from of_nat_i32_not_minus_1(2) [OF this(1)] of_nat_i32_not_minus_1(2) [OF this(2)] have "n' = n" using n'(2) n(1) by metis
    then show ?thesis using n'(3) that by blast
  qed
  obtain m where m: "m < length bs0" "bs0 ! m \<noteq> []" using ne by (auto simp: in_set_conv_nth)
  then have "n \<le> m" using moved by (meson not_le)
  then obtain i where i: "i \<le> m" "skip_empty ?tab (rehashidx d) = Some (of_nat i)" "n \<le> i" "?tab ! i \<noteq> 0"
    "\<forall>j. n \<le> j \<longrightarrow> j < i \<longrightarrow> ?tab ! j = 0"
    using skip_empty_spec [of n m ?tab] m len tab(2) n(1) by auto
  have il: "i < length bs0" and ui: "unat (of_nat i :: i32) = i" using i(1) m(1) of_nat_i32_not_minus_1(2) [of i] len(2) by simp_all
  let ?d = "d\<lparr>rehashidx := of_nat i\<rparr>"
  have sub: "set (bs0 ! i) \<subseteq> set (concat bs0)" using il nth_mem by fastforce
  have d0: "distinct (concat bs0)" "set (concat bs0) \<inter> set (concat bs1) = {}" using r(6) by (simp_all add: entries_def)
  have "distinct (bs0 ! i)"
    using d0(1) mset_clear_bucket [OF il] mset_eq_imp_distinct_iff [of "concat (bs0[i := []]) @ bs0 ! i" "concat bs0"] by simp
  then obtain v where v: "move_chain T (hd0 (bs0 ! i) 0) ?d = Some v"
    "ht_rep (dict_heap v) (ht1 v) (fold (push_slot T ?E) (bs0 ! i) bs1)"
    "ht0 v = (ht0 d)\<lparr>ht_used := ht_used (ht0 d) - of_nat (length (bs0 ! i))\<rparr>" "kv_same ?E (dict_heap v)"
    "\<forall>e. e \<notin> set (bs0 ! i) \<longrightarrow> dict_heap v e = ?E e" "dict_rest v = dict_rest d"
    using move_chain_spec [of ?d "bs0 ! i" bs1 T] tab(3) [OF il] sub d0(2) r(2) bs1 by (auto simp: dict_rest_def)
  define d' where "d' = (upd_ht 0 (\<lambda>t. t\<lparr>ht_table := (ht_table t)[i := 0]\<rparr>) v)\<lparr>rehashidx := of_nat (Suc i)\<rparr>"
  have d': "dict_heap d' = dict_heap v" "ht1 d' = ht1 v" "rehashidx d' = of_nat (Suc i)" "dict_rest d' = dict_rest d"
    "ht0 d' = (ht0 d)\<lparr>ht_table := ?tab[i := 0], ht_used := ht_used (ht0 d) - of_nat (length (bs0 ! i))\<rparr>"
    using v(3,6) by (simp_all add: d'_def dict_rest_def)
  have run: "move_bucket T d = Some d'"
    using i(2) v(1) tab(1) [OF il] ui by (simp add: move_bucket_def d'_def add.commute)
  have rep0: "ht_rep (dict_heap d') (ht0 d') (bs0[i := []])"
    by (rule ht_rep_clear [OF r(1) il _ d0(1) d'(5)]) (use v(5) d'(1) in simp)
  note kv = kv_sameD [OF v(4)]
  note f = fold_push_slot [OF bs1, of T ?E "bs0 ! i"]
  have ms: "mset (entries (bs0[i := []]) (fold (push_slot T ?E) (bs0 ! i) bs1)) = mset (entries bs0 bs1)"
    using mset_clear_bucket [OF il] f(2) by (simp add: entries_def)
  note same = mset_eq_setD [OF ms] mset_eq_imp_distinct_iff [OF ms] mset_eq_length [OF ms]
  have "rehashing (of_nat (Suc i)) (bs0[i := []]) (fold (push_slot T ?E) (bs0 ! i) bs1)"
  proof -
    have "(bs0[i := []]) ! j = []" if "j < Suc i" for j
      using that i(5) il moved tab(2) [of j] by (cases "j < n") (auto simp: nth_list_update less_Suc_eq)
    then show ?thesis using il f(1) bs1 unfolding rehashing_def by (intro disjI2) (auto intro!: exI [of _ "Suc i"])
  qed
  moreover have "placed T ?E (bs0[i := []])" using r(3) il by (auto simp: placed_def nth_list_update split: if_splits)
  ultimately have "dict_rep T d' (bs0[i := []]) (fold (push_slot T ?E) (bs0 ! i) bs1)"
    using rep0 v(2) r f(3) same unfolding dict_rep_def d'(1-3) kv by simp
  then show ?thesis using run i(3) il d' v(4) by auto
qed

text \<open>
  What rehashing keeps: the entries, their keys and values, the number of iterators. It may free a
  table.
\<close>

definition rehashed :: "('k, 'v) dict \<Rightarrow> addr list \<Rightarrow> ('k, 'v) dict \<Rightarrow> addr list \<Rightarrow> bool" where
  "rehashed d es d' es' \<longleftrightarrow> kv_same (dict_heap d) (dict_heap d') \<and> mset es' = mset es
     \<and> iterators d' = iterators d \<and> dict_can_resize d' = dict_can_resize d
     \<and> (\<exists>ts. dict_events d' = dict_events d @ map Free_table ts)"

lemma rehashed_refl [simp]: "rehashed d es d es"
  by (simp add: rehashed_def)

lemma rehashed_trans: "rehashed d es d' es' \<Longrightarrow> rehashed d' es' d'' es'' \<Longrightarrow> rehashed d es d'' es''"
  by (auto simp: rehashed_def kv_same_def simp flip: map_append)

lemma dict_rep_reset: "ht_rep E dictReset []" "placed T E []"
  by (simp_all add: ht_rep_def dictReset_def placed_def)

lemma finish_rehash_spec:
  assumes rep: "dict_rep T d bs0 bs1" and bs1: "bs1 \<noteq> []" and e: "concat bs0 = []"
  shows "dict_rep T (finish_rehash d) bs1 [] \<and> rehashed d (entries bs0 bs1) (finish_rehash d) (entries bs1 [])"
proof -
  let ?d = "finish_rehash d"
  have f: "dict_heap ?d = dict_heap d" "ht0 ?d = ht1 d" "ht1 ?d = dictReset" "rehashidx ?d = - 1" "iterators ?d = iterators d"
    "dict_can_resize ?d = dict_can_resize d" "dict_events ?d = dict_events d @ map Free_table [ht_table (ht0 d)]"
    by (simp_all add: finish_rehash_def note_event_def)
  have "entries bs1 [] = entries bs0 bs1" using e by (simp add: entries_def)
  then have "rehashed d (entries bs0 bs1) ?d (entries bs1 [])"
    unfolding rehashed_def using f by (intro conjI exI [of _ "[ht_table (ht0 d)]"]) simp_all
  moreover have "dict_rep T ?d bs1 []"
    using \<open>entries bs1 [] = entries bs0 bs1\<close> rep unfolding dict_rep_def f(1-4) by (simp add: rehashing_def dict_rep_reset)
  ultimately show ?thesis by simp
qed

lemma used_zero: "ht_rep E ht bs \<Longrightarrow> length (concat bs) < 2 ^ 28 \<Longrightarrow> ht_used ht = 0 \<longleftrightarrow> concat bs = []"
proof -
  assume a: "ht_rep E ht bs" "length (concat bs) < 2 ^ 28"
  then have "unat (ht_used ht) = length (concat bs)" by (simp add: ht_rep_def unat_of_nat take_bit_nat_eq_self)
  then show ?thesis by (metis length_0_conv unat_eq_zero)
qed

lemma rehash_loop_spec:
  assumes "dict_rep T d bs0 bs1" "bs1 \<noteq> []" "rehashidx d = of_nat m" "m \<le> length bs0"
  shows "\<exists>r d' bs0' bs1'. rehash_loop T n d = Some (r, d') \<and> dict_rep T d' bs0' bs1' \<and> bs0' \<noteq> []
    \<and> rehashed d (entries bs0 bs1) d' (entries bs0' bs1') \<and> (r = 0 \<longleftrightarrow> bs1' = []) \<and> (length bs0 - m < n \<longrightarrow> r = 0)"
  using assms
proof (induction n arbitrary: d bs0 bs1 m)
  case 0
  then show ?case by (intro exI [of _ 1] exI [of _ d] exI [of _ bs0] exI [of _ bs1]) (auto simp: dict_rep_def rehashing_def)
next
  case (Suc n)
  have r: "ht_rep (dict_heap d) (ht0 d) bs0" "length (entries bs0 bs1) < 2 ^ 28" using Suc.prems(1) unfolding dict_rep_def by blast+
  then have used: "ht_used (ht0 d) = 0 \<longleftrightarrow> concat bs0 = []" by (intro used_zero) (simp_all add: entries_def)
  show ?case
  proof (cases "concat bs0 = []")
    case True
    then show ?thesis using finish_rehash_spec [OF Suc.prems(1,2) True] used Suc.prems(2)
      by (intro exI [of _ 0] exI [of _ "finish_rehash d"] exI [of _ bs1] exI [of _ "[]"]) simp
  next
    case False
    let ?f = "push_slot T (dict_heap d)"
    obtain d1 i where d1: "move_bucket T d = Some d1" "m \<le> i" "i < length bs0" "dict_rep T d1 (bs0[i := []]) (fold ?f (bs0 ! i) bs1)"
      "rehashidx d1 = of_nat (Suc i)" "kv_same (dict_heap d) (dict_heap d1)" "dict_rest d1 = dict_rest d"
      using move_bucket_spec [OF Suc.prems(1,2) False Suc.prems(3,4)] by blast
    note f = fold_push_slot [OF Suc.prems(2), of T "dict_heap d" "bs0 ! i"]
    have ne: "fold ?f (bs0 ! i) bs1 \<noteq> []" using f(1) Suc.prems(2) by (metis length_0_conv)
    have "mset (entries (bs0[i := []]) (fold ?f (bs0 ! i) bs1)) = mset (entries bs0 bs1)"
      using mset_clear_bucket [OF d1(3)] f(2) by (simp add: entries_def)
    then have here: "rehashed d (entries bs0 bs1) d1 (entries (bs0[i := []]) (fold ?f (bs0 ! i) bs1))"
      using d1(6,7) by (simp add: rehashed_def dict_rest_def)
    obtain r d' bs0' bs1' where rest: "rehash_loop T n d1 = Some (r, d')" "dict_rep T d' bs0' bs1'" "bs0' \<noteq> []"
      "rehashed d1 (entries (bs0[i := []]) (fold ?f (bs0 ! i) bs1)) d' (entries bs0' bs1')" "r = 0 \<longleftrightarrow> bs1' = []"
      "length (bs0[i := []]) - Suc i < n \<longrightarrow> r = 0"
      using Suc.IH [OF d1(4) ne d1(5)] d1(3) by auto
    have "length bs0 - m < Suc n \<longrightarrow> r = 0" using rest(6) d1(2,3) by auto
    moreover have "ht_used (ht0 d) \<noteq> 0" using used False by blast
    then have "rehash_loop T (Suc n) d = Some (r, d')" using d1(1) rest(1) by simp
    ultimately show ?thesis using rest(2,3,5) rehashed_trans [OF here rest(4)] by blast
  qed
qed

lemma dictRehash_spec:
  assumes rep: "dict_rep T d bs0 bs1"
  shows "\<exists>r d' bs0' bs1'. dictRehash T n d = Some (r, d') \<and> dict_rep T d' bs0' bs1' \<and> (bs0 \<noteq> [] \<longrightarrow> bs0' \<noteq> [])
    \<and> rehashed d (entries bs0 bs1) d' (entries bs0' bs1') \<and> (r = 0 \<longleftrightarrow> bs1' = []) \<and> (length bs0 < n \<longrightarrow> r = 0)"
proof (cases "bs1 = []")
  case True
  then show ?thesis using rep dict_rep_rehashing [OF rep]
    by (intro exI [of _ 0] exI [of _ d] exI [of _ bs0] exI [of _ bs1]) (simp add: dictRehash_def)
next
  case False
  then obtain m where m: "rehashidx d = of_nat m" "m \<le> length bs0" using rep unfolding dict_rep_def rehashing_def by blast
  obtain r d' bs0' bs1' where r: "rehash_loop T n d = Some (r, d')" "dict_rep T d' bs0' bs1'" "bs0' \<noteq> []"
    "rehashed d (entries bs0 bs1) d' (entries bs0' bs1')" "r = 0 \<longleftrightarrow> bs1' = []" "length bs0 - m < n \<longrightarrow> r = 0"
    using rehash_loop_spec [OF rep False m, of n] by blast
  have "dictRehash T n d = Some (r, d')" "length bs0 < n \<longrightarrow> r = 0"
    using r(1,6) dict_rep_rehashing [OF rep] False by (auto simp: dictRehash_def)
  then show ?thesis using r(2-5) by blast
qed

lemma rehash_step_spec:
  assumes rep: "dict_rep T d bs0 bs1" "bs0 \<noteq> []"
  shows "\<exists>d' bs0' bs1'. (if dictIsRehashing d then dictRehashStep T d else Some d) = Some d' \<and> dict_rep T d' bs0' bs1' \<and> bs0' \<noteq> []
    \<and> rehashed d (entries bs0 bs1) d' (entries bs0' bs1')"
proof -
  obtain r d' bs0' bs1' where d': "dictRehash T 1 d = Some (r, d')" "dict_rep T d' bs0' bs1'" "bs0' \<noteq> []"
    "rehashed d (entries bs0 bs1) d' (entries bs0' bs1')" using dictRehash_spec [OF rep(1), of 1] rep(2) by blast
  show ?thesis
  proof (cases "dictIsRehashing d \<and> iterators d = 0")
    case True
    then have "(if dictIsRehashing d then dictRehashStep T d else Some d) = Some d'" using d'(1) by (simp add: dictRehashStep_def)
    then show ?thesis using d'(2-4) by blast
  next
    case False
    then have "(if dictIsRehashing d then dictRehashStep T d else Some d) = Some d" by (simp add: dictRehashStep_def)
    then show ?thesis using rep rehashed_refl by blast
  qed
qed

context dict_type begin

lemma dict_map_rehashed:
  assumes "dict_rep T d bs0 bs1" "rehashed d (entries bs0 bs1) d' es'"
  shows "dict_map T (dict_heap d') es' k = dict_map T (dict_heap d) (entries bs0 bs1) k"
proof -
  have kv: "kv_same (dict_heap d) (dict_heap d')" and s: "set es' = set (entries bs0 bs1)"
    using assms(2) mset_eq_setD unfolding rehashed_def by blast+
  have "find (key_match T (dict_heap d) k) es' = find (key_match T (dict_heap d) k) (entries bs0 bs1)"
    by (rule find_same_set) (use s assms(1) match_unique in \<open>auto simp: dict_rep_def\<close>)
  then show ?thesis by (simp add: dict_map_def kv_sameD(4) [OF kv] kv [unfolded kv_same_def])
qed

end

subsection \<open>Growing\<close>

lemma unat_of_nat_small: "n < 2 ^ 32 \<Longrightarrow> unat (of_nat n :: u64) = n"
  by (simp add: unat_of_nat take_bit_nat_eq_self)

lemma unat_of_nat_power: "n \<le> 2 ^ 63 \<Longrightarrow> unat (of_nat n :: u64) = n"
  by (simp add: unat_of_nat take_bit_nat_eq_self)

lemma next_power_spec:
  assumes "s \<le> 2 ^ b" "j \<le> b" "b \<le> 63"
  shows "\<exists>k \<ge> j. k \<le> b \<and> next_power (of_nat s) (of_nat (2 ^ j)) = Some (of_nat (2 ^ k)) \<and> s \<le> 2 ^ k \<and> (\<forall>m. j \<le> m \<longrightarrow> m < k \<longrightarrow> 2 ^ m < s)"
  using assms(2)
proof (induction "b - j" arbitrary: j rule: less_induct)
  case less
  have "(2 :: nat) ^ j \<le> 2 ^ 63" "(2 :: nat) ^ b \<le> 2 ^ 63" using less.prems assms(3) by (intro power_increasing; simp)+
  then have cmp: "of_nat s \<le> (of_nat (2 ^ j) :: u64) \<longleftrightarrow> s \<le> 2 ^ j"
    using unat_of_nat_power [of s] unat_of_nat_power [of "2 ^ j"] assms(1) by (simp add: word_le_nat_alt)
  show ?case
  proof (cases "s \<le> 2 ^ j")
    case True
    then show ?thesis using cmp less.prems by (intro exI [of _ j]) (subst next_power.simps, simp)
  next
    case False
    then have "j \<noteq> b" using assms(1) by auto
    then have j: "Suc j \<le> b" "b - Suc j < b - j" using less.prems by simp_all
    obtain k where k: "Suc j \<le> k" "k \<le> b" "next_power (of_nat s) (of_nat (2 ^ Suc j)) = Some (of_nat (2 ^ k))" "s \<le> 2 ^ k"
      "\<forall>m. Suc j \<le> m \<longrightarrow> m < k \<longrightarrow> 2 ^ m < s" using less.hyps [OF j(2,1)] by blast
    have "next_power (of_nat s) (of_nat (2 ^ j)) = Some (of_nat (2 ^ k))"
      using k(3) cmp False by (subst next_power.simps) (simp add: mult.commute)
    moreover have "2 ^ m < s" if "j \<le> m" "m < k" for m using k(5) that False by (cases "m = j") auto
    ultimately show ?thesis using k by (intro exI [of _ k]) simp
  qed
qed

lemma dictNextPower_bound:
  assumes "s < 2 ^ 63 - 1" "s \<le> 2 ^ b" "2 \<le> b" "b \<le> 63"
  shows "\<exists>k \<ge> 2. k \<le> b \<and> dictNextPower (of_nat s) = Some (of_nat (2 ^ k)) \<and> s \<le> 2 ^ k \<and> (\<forall>m \<ge> 2. m < k \<longrightarrow> 2 ^ m < s)"
proof -
  have "unat (of_nat s :: u64) = s" "unat LONG_MAX = 2 ^ 63 - 1" using assms(1) by (simp_all add: unat_of_nat_power LONG_MAX_def)
  then have "\<not> (of_nat s :: u64) \<ge> LONG_MAX" using assms(1) by (simp add: word_le_nat_alt)
  then show ?thesis using next_power_spec [OF assms(2-4)] by (simp add: dictNextPower_def DICT_HT_INITIAL_SIZE_def)
qed

lemma dictNextPower_spec:
  "s \<le> 2 ^ 30 \<Longrightarrow> \<exists>k \<ge> 2. k \<le> 30 \<and> dictNextPower (of_nat s) = Some (of_nat (2 ^ k)) \<and> s \<le> 2 ^ k \<and> (\<forall>m \<ge> 2. m < k \<longrightarrow> 2 ^ m < s)"
  by (rule dictNextPower_bound) simp_all

lemma ht_rep_new:
  assumes "k \<le> 30"
  shows "ht_rep E \<lparr>ht_size = of_nat (2 ^ k), ht_table = replicate (unat (of_nat (2 ^ k) :: u64)) 0, ht_sizemask = of_nat (2 ^ k) - 1, ht_used = 0\<rparr>
    (replicate (2 ^ k) [])"
proof -
  have "(2 :: nat) ^ k < 2 ^ 32" using assms power_strict_increasing [of k 32 "2 :: nat"] by simp
  then have "unat (of_nat (2 ^ k) :: u64) = 2 ^ k" by (rule unat_of_nat_small)
  moreover have c: "concat (replicate (2 ^ k) []) = []" by simp
  ultimately show "ht_rep E \<lparr>ht_size = of_nat (2 ^ k), ht_table = replicate (unat (of_nat (2 ^ k) :: u64)) 0, ht_sizemask = of_nat (2 ^ k) - 1, ht_used = 0\<rparr>
    (replicate (2 ^ k) [])" using assms unfolding ht_rep_def c by (simp add: links_def)
qed

lemma placed_new: "placed T E (replicate n [])"
  by (simp add: placed_def)

lemma dictExpand_spec:
  assumes rep: "dict_rep T d bs0 []" and n: "length (concat bs0) \<le> n" "n \<le> 2 ^ 30"
  shows "\<exists>d' k. dictExpand (of_nat n) d = Some (DICT_OK, d') \<and> k \<le> 30 \<and> dict_heap d' = dict_heap d \<and> dict_rest d' = dict_rest d
    \<and> (if bs0 = [] then dict_rep T d' (replicate (2 ^ k) []) [] else dict_rep T d' bs0 (replicate (2 ^ k) []))"
proof -
  let ?E = "dict_heap d"
  have r: "ht_rep ?E (ht0 d) bs0" "length (concat bs0) < 2 ^ 28" "rehashidx d = - 1" "ht_rep ?E (ht1 d) []"
    using rep by (auto simp: dict_rep_def entries_def rehashing_def)
  obtain k where k: "k \<le> 30" "dictNextPower (of_nat n) = Some (of_nat (2 ^ k))" using dictNextPower_spec [OF n(2)] by blast
  let ?n = "\<lparr>ht_size = of_nat (2 ^ k), ht_table = replicate (unat (of_nat (2 ^ k) :: u64)) 0, ht_sizemask = of_nat (2 ^ k) - 1, ht_used = 0\<rparr>"
  let ?d = "if bs0 = [] then d\<lparr>ht0 := ?n\<rparr> else d\<lparr>ht1 := ?n, rehashidx := 0\<rparr>"
  have "unat (ht_used (ht0 d)) = length (concat bs0)" using r(1,2) by (simp add: ht_rep_def unat_of_nat take_bit_nat_eq_self)
  then have "\<not> ht_used (ht0 d) > of_nat n" using n unat_of_nat_small [of n] by (simp add: word_less_nat_alt)
  moreover have "ht_table (ht0 d) = [] \<longleftrightarrow> bs0 = []" using ht_rep_length [OF r(1)] by (metis length_0_conv)
  ultimately have run: "dictExpand (of_nat n) d = Some (DICT_OK, ?d)" using k(2) r(3) by (simp add: dictExpand_def dictIsRehashing_def)
  have "if bs0 = [] then dict_rep T ?d (replicate (2 ^ k) []) [] else dict_rep T ?d bs0 (replicate (2 ^ k) [])"
  proof (cases "bs0 = []")
    case True
    then show ?thesis using rep ht_rep_new [OF k(1), of ?E] unfolding dict_rep_def entries_def by (simp add: placed_new rehashing_def)
  next
    case False
    then have "rehashing 0 bs0 (replicate (2 ^ k) [])" by (auto simp: rehashing_def intro!: exI [of _ 0])
    then show ?thesis using False rep ht_rep_new [OF k(1), of ?E] unfolding dict_rep_def entries_def by (simp add: placed_new)
  qed
  then show ?thesis using run k(1) by (intro exI [of _ ?d] exI [of _ k]) (auto simp: dict_rest_def)
qed

lemma rehashed_rest:
  "dict_heap d' = dict_heap d \<Longrightarrow> dict_rest d' = dict_rest d \<Longrightarrow> mset es' = mset es \<Longrightarrow> rehashed d es d' es'"
  by (simp add: rehashed_def dict_rest_def)

lemma expand_if_needed_spec:
  assumes rep: "dict_rep T d bs0 bs1"
  shows "\<exists>d' bs0' bs1'. dictExpandIfNeeded d = Some (DICT_OK, d') \<and> dict_rep T d' bs0' bs1' \<and> bs0' \<noteq> []
    \<and> rehashed d (entries bs0 bs1) d' (entries bs0' bs1')"
proof (cases "bs1 = []")
  case False
  then have "dictIsRehashing d" "bs0 \<noteq> []" using dict_rep_rehashing [OF rep] rep by (auto simp: dict_rep_def rehashing_def)
  then have "dictExpandIfNeeded d = Some (DICT_OK, d)" by (simp add: dictExpandIfNeeded_def)
  then show ?thesis using rep \<open>bs0 \<noteq> []\<close> rehashed_refl by blast
next
  case True
  have r: "ht_rep (dict_heap d) (ht0 d) bs0" "length (concat bs0) < 2 ^ 28" and nr: "\<not> dictIsRehashing d"
    using rep dict_rep_rehashing [OF rep] True by (auto simp: dict_rep_def entries_def)
  have size0: "ht_size (ht0 d) = 0 \<longleftrightarrow> bs0 = []" "unat (ht_size (ht0 d)) = length bs0" "unat (ht_used (ht0 d)) = length (concat bs0)"
    "ht_used (ht0 d) = of_nat (length (concat bs0))"
  proof -
    show u: "unat (ht_size (ht0 d)) = length bs0" using r(1) ht_rep_bound [OF r(1)] by (simp add: ht_rep_def unat_of_nat_small)
    show "ht_size (ht0 d) = 0 \<longleftrightarrow> bs0 = []" using u by (metis length_0_conv unat_eq_zero)
    show "unat (ht_used (ht0 d)) = length (concat bs0)" using r(1,2) by (simp add: ht_rep_def unat_of_nat_small)
    show "ht_used (ht0 d) = of_nat (length (concat bs0))" using r(1) by (simp add: ht_rep_def)
  qed
  have e: "\<exists>d' bs0' bs1'. dictExpand (of_nat n) d = Some (DICT_OK, d') \<and> dict_rep T d' bs0' bs1' \<and> bs0' \<noteq> []
      \<and> rehashed d (entries bs0 bs1) d' (entries bs0' bs1')" if n: "length (concat bs0) \<le> n" "n \<le> 2 ^ 30" for n
  proof -
    obtain d' k where d': "dictExpand (of_nat n) d = Some (DICT_OK, d')" "k \<le> 30" "dict_heap d' = dict_heap d" "dict_rest d' = dict_rest d"
      "if bs0 = [] then dict_rep T d' (replicate (2 ^ k) []) [] else dict_rep T d' bs0 (replicate (2 ^ k) [])"
      using dictExpand_spec [OF rep [unfolded True] n] by blast
    define a b where ab: "a = (if bs0 = [] then replicate (2 ^ k) [] else bs0)" "b = (if bs0 = [] then [] else replicate (2 ^ k) ([] :: addr list))"
    have "dict_rep T d' a b" "a \<noteq> []" using d'(5) by (simp_all add: ab split: if_splits)
    moreover have "rehashed d (entries bs0 bs1) d' (entries a b)"
      using True by (intro rehashed_rest [OF d'(3,4)]) (simp add: ab entries_def)
    ultimately show ?thesis using d'(1) by blast
  qed
  show ?thesis
  proof (cases "bs0 = []")
    case True
    then have "dictExpandIfNeeded d = dictExpand (of_nat 4) d" using nr size0(1) by (simp add: dictExpandIfNeeded_def DICT_HT_INITIAL_SIZE_def)
    then show ?thesis using e [of 4] True by simp
  next
    case False
    have "dictExpandIfNeeded d = dictExpand (of_nat (length (concat bs0) * 2)) d \<or> dictExpandIfNeeded d = Some (DICT_OK, d)"
      using nr size0(1,4) False by (auto simp: dictExpandIfNeeded_def Let_def not_less [symmetric])
    then show ?thesis using e [of "length (concat bs0) * 2"] r(2) rep False True rehashed_refl by fastforce
  qed
qed

subsection \<open>Find, add and replace\<close>

lemma ht_size_zero: "ht_rep E ht bs \<Longrightarrow> ht_size ht = 0 \<longleftrightarrow> bs = []"
proof -
  assume a: "ht_rep E ht bs"
  then have "unat (ht_size ht) = length bs" using ht_rep_bound [OF a] by (simp add: ht_rep_def unat_of_nat_small)
  then show ?thesis by (metis length_0_conv unat_eq_zero)
qed

lemma dict_rep_ht0: "dict_rep T d bs0 bs1 \<Longrightarrow> ht_size (ht0 d) = 0 \<longleftrightarrow> bs0 = []"
  using ht_size_zero unfolding dict_rep_def by blast

lemma dict_rep_empty: "dict_rep T d [] bs1 \<Longrightarrow> bs1 = []"
  by (auto simp: dict_rep_def rehashing_def)

lemma entries_nonzero: "dict_rep T d bs0 bs1 \<Longrightarrow> e \<in> set (entries bs0 bs1) \<Longrightarrow> e \<noteq> 0"
  using ht_rep_nonzero unfolding dict_rep_def entries_def by (metis Un_iff set_append)

definition stored_key :: "('k, 'v) dictType \<Rightarrow> 'k \<Rightarrow> 'k" where
  "stored_key T k = (case keyDup T of None \<Rightarrow> k | Some f \<Rightarrow> f k)"

definition stored_val :: "('k, 'v) dictType \<Rightarrow> 'v \<Rightarrow> 'v" where
  "stored_val T v = (case valDup T of None \<Rightarrow> v | Some f \<Rightarrow> f v)"

lemma dictEntry_fields:
  "x\<lparr>de_next := n, de_key := k, de_val := v\<rparr> = \<lparr>de_key = k, de_val = v, de_next = n\<rparr>" for x :: "('k, 'v) dictEntry"
  by (cases x) simp

text \<open>The new entry in front of its bucket, in either table.\<close>

lemma entries_push:
  assumes "bs0 \<noteq> []" "bs1 = [] \<Longrightarrow> t = 0" "bs1 \<noteq> [] \<Longrightarrow> t = 1"
  shows "mset (if t = (0 :: nat) then entries (push_slot T E e bs0) bs1 else entries bs0 (push_slot T E e bs1)) = add_mset e (mset (entries bs0 bs1))"
  using assms by (cases "bs1 = []") (simp_all add: entries_def mset_push_slot)

lemma add_entry_rep:
  assumes rep: "dict_rep T d bs0 bs1" "bs0 \<noteq> []" and e: "e \<notin> set (entries bs0 bs1)" "e \<noteq> 0" "Suc (length (entries bs0 bs1)) < 2 ^ 28"
    and new: "\<forall>x \<in> set (entries bs0 bs1). \<not> dictCompareHashKeys T k (de_key (dict_heap d x)) \<and> \<not> dictCompareHashKeys T (de_key (dict_heap d x)) k"
    and t: "t = (if bs1 = [] then 0 else 1)"
    and i: "i = unat (dictHashKey T k) mod length (if bs1 = [] then bs0 else bs1)"
    and d': "dict_heap d' = (dict_heap d)(e := \<lparr>de_key = k, de_val = v, de_next = ht_table (the_ht t d) ! i\<rparr>)"
      "the_ht t d' = (the_ht t d)\<lparr>ht_table := (ht_table (the_ht t d))[i := e], ht_used := ht_used (the_ht t d) + 1\<rparr>"
      "the_ht (1 - t) d' = the_ht (1 - t) d" "rehashidx d' = rehashidx d"
  shows "\<exists>bs0' bs1'. dict_rep T d' bs0' bs1' \<and> bs0' \<noteq> [] \<and> mset (entries bs0' bs1') = add_mset e (mset (entries bs0 bs1))"
proof -
  let ?E = "dict_heap d" and ?E' = "dict_heap d'"
  define E1 where "E1 = ?E(e := \<lparr>de_key = k, de_val = v, de_next = 0\<rparr>)"
  have r: "ht_rep ?E (ht0 d) bs0" "ht_rep ?E (ht1 d) bs1" "placed T ?E bs0" "placed T ?E bs1" "rehashing (rehashidx d) bs0 bs1"
    "distinct (entries bs0 bs1)" "one_per_key T ?E (set (entries bs0 bs1))" using rep(1) unfolding dict_rep_def by blast+
  have not_in: "e \<notin> set (concat bs0)" "e \<notin> set (concat bs1)" using e(1) by (simp_all add: entries_def)
  have in_E: "?E x = E1 x" "?E' x = ?E x" if "x \<noteq> e" for x using that by (simp_all add: E1_def d'(1))
  have rep1: "ht_rep E1 ht bs = ht_rep ?E ht bs" "ht_rep ?E' ht bs = ht_rep ?E ht bs" if "e \<notin> set (concat bs)" for ht bs
    using that in_E by (intro ht_rep_cong; metis)+
  have key: "slot T ?E' n x = slot T E1 n x" for n x by (simp add: slot_def E1_def d'(1))
  have pl: "placed T ?E' bs" if "placed T ?E bs" "e \<notin> set (concat bs)" for bs
  proof -
    have "slot T ?E' n x = slot T ?E n x" if "x \<noteq> e" for n x using in_E(2) [OF that] by (simp add: slot_def)
    then show ?thesis using that unfolding placed_def in_concat_nth by metis
  qed
  have push: "ht_rep ?E' ht' (push_slot T ?E' e bs)" "placed T ?E' (push_slot T ?E' e bs)"
    if "ht_rep ?E ht bs" "bs \<noteq> []" "placed T ?E bs" "e \<notin> set (concat bs)" "i = unat (dictHashKey T k) mod length bs"
      "ht' = ht\<lparr>ht_table := (ht_table ht)[i := e], ht_used := ht_used ht + 1\<rparr>" "?E' = ?E(e := \<lparr>de_key = k, de_val = v, de_next = ht_table ht ! i\<rparr>)" for ht ht' bs
  proof -
    have i': "i = slot T E1 (length bs) e" using that(5) by (simp add: slot_def E1_def)
    have "ht_rep ?E' ht' (push_slot T E1 e bs)"
      by (rule ht_rep_push [where x = "\<lparr>de_key = k, de_val = v, de_next = ht_table ht ! i\<rparr>", OF _ that(2,4) e(2) i' _ _ that(6)]) (use rep1(1) [OF that(4)] that(1,7) in \<open>simp_all add: E1_def\<close>)
    moreover have "push_slot T E1 = push_slot T ?E'" by (intro ext) (simp add: push_slot_def key)
    ultimately show "ht_rep ?E' ht' (push_slot T ?E' e bs)" by simp
    show "placed T ?E' (push_slot T ?E' e bs)" using pl [OF that(3,4)] placed_push_slot by blast
  qed
  have one: "one_per_key T ?E' (insert e (set (entries bs0 bs1)))"
    using r(7) new e(1) unfolding one_per_key_def d'(1) by auto
  show ?thesis
  proof (cases "bs1 = []")
    case True
    let ?b = "push_slot T ?E' e bs0"
    have m: "mset (entries ?b bs1) = add_mset e (mset (entries bs0 bs1))" using rep(2) True by (simp add: entries_def mset_push_slot)
    have b: "ht_rep ?E' (ht0 d') ?b" "placed T ?E' ?b"
      using push [OF r(1) rep(2) r(3) not_in(1), of "ht0 d'"] True i t d'(1,2) by simp_all
    have "distinct (entries ?b bs1)" using m r(6) e(1) by (metis distinct.simps(2) mset.simps(2) mset_eq_imp_distinct_iff)
    moreover have "set (entries ?b bs1) = insert e (set (entries bs0 bs1))" using arg_cong [OF m, of set_mset] by simp
    moreover have "length (entries ?b bs1) = Suc (length (entries bs0 bs1))" using arg_cong [OF m, of size] by simp
    moreover have "ht1 d' = ht1 d" using d'(3) t True by simp
    ultimately have "dict_rep T d' ?b bs1"
      using b r(2,4,5) one e(3) pl [OF r(4) not_in(2)] rep1(2) [OF not_in(2)] True d'(4) unfolding dict_rep_def by (simp add: rehashing_def)
    then show ?thesis using m rep(2) by (intro exI [of _ ?b] exI [of _ bs1]) simp
  next
    case False
    let ?b = "push_slot T ?E' e bs1"
    have m: "mset (entries bs0 ?b) = add_mset e (mset (entries bs0 bs1))" using False by (simp add: entries_def mset_push_slot)
    have b: "ht_rep ?E' (ht1 d') ?b" "placed T ?E' ?b"
      using push [OF r(2) False r(4) not_in(2), of "ht1 d'"] False i t d'(1,2) by simp_all
    have "distinct (entries bs0 ?b)" using m r(6) e(1) by (metis distinct.simps(2) mset.simps(2) mset_eq_imp_distinct_iff)
    moreover have "set (entries bs0 ?b) = insert e (set (entries bs0 bs1))" using arg_cong [OF m, of set_mset] by simp
    moreover have "length (entries bs0 ?b) = Suc (length (entries bs0 bs1))" using arg_cong [OF m, of size] by simp
    moreover have "ht0 d' = ht0 d" using d'(3) t False by simp
    moreover have "rehashing (rehashidx d') bs0 ?b" using r(5) False d'(4) by (simp add: rehashing_def)
    ultimately have "dict_rep T d' bs0 ?b"
      using b r(1,3) one e(3) pl [OF r(3) not_in(1)] rep1(2) [OF not_in(1)] unfolding dict_rep_def by simp
    then show ?thesis using m rep(2) by (intro exI [of _ bs0] exI [of _ ?b]) simp
  qed
qed

context dict_type begin

lemma stored_key_cmp: "dictCompareHashKeys T k (stored_key T k)"
  using cmp_refl dup_cmp by (simp add: stored_key_def split: option.split)

lemma cmp_stored: "dictCompareHashKeys T a (stored_key T k) \<longleftrightarrow> dictCompareHashKeys T a k"
  using stored_key_cmp cmp_sym cmp_trans by blast

lemma stored_key_hash: "dictHashKey T (stored_key T k) = dictHashKey T k"
  using hash_cmp [OF stored_key_cmp [of k]] by (simp add: dictHashKey_def)

lemma dict_map_None: "dict_map T E es k = None \<longleftrightarrow> (\<forall>e \<in> set es. \<not> key_match T E k e)"
  by (auto simp: dict_map_def find_None_iff)

lemma dict_map_entry:
  assumes "one_per_key T E (set es)" "e \<in> set es" "key_match T E k e"
  shows "dict_map T E es k = Some (de_val (E e))"
  using find_unique [of es "key_match T E k" e] match_unique [OF assms(1)] assms(2,3) by (auto simp: dict_map_def)

lemma dictFind_spec:
  assumes rep: "dict_rep T d bs0 bs1"
  shows "\<exists>he d' bs0' bs1'. dictFind T key d = Some (he, d') \<and> dict_rep T d' bs0' bs1' \<and> (bs0 \<noteq> [] \<longrightarrow> bs0' \<noteq> [])
    \<and> rehashed d (entries bs0 bs1) d' (entries bs0' bs1')
    \<and> he = (case find (key_match T (dict_heap d') key) (entries bs0' bs1') of None \<Rightarrow> 0 | Some e \<Rightarrow> e)"
proof (cases "bs0 = []")
  case True
  then have "dictFind T key d = Some (0, d)" "bs1 = []"
    using dict_rep_ht0 [OF rep] dict_rep_empty rep by (auto simp: dictFind_def)
  then show ?thesis using rep True rehashed_refl [of d "entries bs0 bs1"]
    by (intro exI [of _ 0] exI [of _ d] exI [of _ "[]"]) (simp add: entries_def)
next
  case False
  obtain d' bs0' bs1' where d': "(if dictIsRehashing d then dictRehashStep T d else Some d) = Some d'" "dict_rep T d' bs0' bs1'" "bs0' \<noteq> []"
    "rehashed d (entries bs0 bs1) d' (entries bs0' bs1')" using rehash_step_spec [OF rep False] by blast
  let ?he = "case find (key_match T (dict_heap d') key) (entries bs0' bs1') of None \<Rightarrow> 0 | Some e \<Rightarrow> e"
  have "dictFind T key d = Some (?he, d')"
    using dict_rep_ht0 [OF rep] False find_in_tables_spec [OF d'(2,3), of key] by (simp add: dictFind_def d'(1))
  then show ?thesis using d'(2-4) by blast
qed

lemma find_dict_map:
  assumes "dict_rep T d bs0 bs1" "he = (case find (key_match T (dict_heap d) key) (entries bs0 bs1) of None \<Rightarrow> 0 | Some e \<Rightarrow> e)"
  shows "(if he \<noteq> 0 then Some (de_val (dict_heap d he)) else None) = dict_map T (dict_heap d) (entries bs0 bs1) key"
    "he \<noteq> 0 \<Longrightarrow> he \<in> set (entries bs0 bs1) \<and> key_match T (dict_heap d) key he"
    "dict_map T (dict_heap d) (entries bs0 bs1) key = None \<longleftrightarrow> he = 0"
  using assms(2) entries_nonzero [OF assms(1)] find_SomeD [of "key_match T (dict_heap d) key" "entries bs0 bs1"]
  by (cases "find (key_match T (dict_heap d) key) (entries bs0 bs1)"; auto simp: dict_map_def)+

lemma dictKeyIndex_spec:
  assumes rep: "dict_rep T d bs0 bs1"
  shows "\<exists>i d' bs0' bs1'. dictKeyIndex T key d = Some (i, d') \<and> dict_rep T d' bs0' bs1' \<and> bs0' \<noteq> []
    \<and> rehashed d (entries bs0 bs1) d' (entries bs0' bs1')
    \<and> (if dict_map T (dict_heap d') (entries bs0' bs1') key = None
       then i \<noteq> - 1 \<and> unat i = unat (dictHashKey T key) mod length (if bs1' = [] then bs0' else bs1')
         \<and> unat i < length (if bs1' = [] then bs0' else bs1')
       else i = - 1)"
proof -
  obtain d' bs0' bs1' where d': "dictExpandIfNeeded d = Some (DICT_OK, d')" "dict_rep T d' bs0' bs1'" "bs0' \<noteq> []"
    "rehashed d (entries bs0 bs1) d' (entries bs0' bs1')" using expand_if_needed_spec [OF rep] by blast
  let ?he = "case find (key_match T (dict_heap d') key) (entries bs0' bs1') of None \<Rightarrow> 0 | Some e \<Rightarrow> e"
  let ?ht = "if dictIsRehashing d' then ht1 d' else ht0 d'" and ?bs = "if bs1' = [] then bs0' else bs1'"
  note he = find_dict_map [OF d'(2) refl, of key]
  have reh: "dictIsRehashing d' \<longleftrightarrow> bs1' \<noteq> []" by (rule dict_rep_rehashing [OF d'(2)])
  have "ht_rep (dict_heap d') ?ht ?bs" "?bs \<noteq> []" using d'(2,3) reh by (auto simp: dict_rep_def)
  note idx = dict_idx_slot [OF this, of "dictHashKey T key"]
  have lt: "dict_idx (dictHashKey T key) ?ht \<le> 2 ^ 30"
    using idx(2) ht_rep_bound [OF \<open>ht_rep (dict_heap d') ?ht ?bs\<close>] by simp
  have run: "dictKeyIndex T key d
      = Some (if ?he \<noteq> 0 then - 1 else of_nat (dict_idx (dictHashKey T key) ?ht), d')"
    using find_in_tables_spec [OF d'(2,3), of key] by (simp add: dictKeyIndex_def d'(1) DICT_OK_def DICT_ERR_def)
  show ?thesis using he(3) run d'(2-4) of_nat_i32_not_minus_1 [OF lt] idx by (intro exI conjI) (auto split: if_splits)
qed

lemma dictAdd_spec:
  assumes rep: "dict_rep T d bs0 bs1" and e: "e \<notin> set (entries bs0 bs1)" "e \<noteq> 0" "Suc (length (entries bs0 bs1)) < 2 ^ 28"
  shows "\<exists>r d' bs0' bs1'. dictAdd T e key v d = Some (r, d') \<and> dict_rep T d' bs0' bs1' \<and> bs0' \<noteq> []
    \<and> (if dict_map T (dict_heap d) (entries bs0 bs1) key = None
       then r = DICT_OK \<and> mset (entries bs0' bs1') = add_mset e (mset (entries bs0 bs1))
         \<and> (\<forall>k. dict_map T (dict_heap d') (entries bs0' bs1') k
              = (if dictCompareHashKeys T k key then Some (stored_val T v) else dict_map T (dict_heap d) (entries bs0 bs1) k))
       else r = DICT_ERR \<and> rehashed d (entries bs0 bs1) d' (entries bs0' bs1'))"
proof -
  obtain d1 a0 a1 where d1: "(if dictIsRehashing d then dictRehashStep T d else Some d) = Some d1" "dict_rep T d1 a0 a1"
    "rehashed d (entries bs0 bs1) d1 (entries a0 a1)"
  proof (cases "bs0 = []")
    case True
    then have "\<not> dictIsRehashing d" using dict_rep_rehashing [OF rep] dict_rep_empty rep by blast
    then show ?thesis using that [OF _ rep rehashed_refl] by simp
  qed (use rehash_step_spec [OF rep] that in blast)
  obtain i d2 b0 b1 where d2: "dictKeyIndex T key d1 = Some (i, d2)" "dict_rep T d2 b0 b1" "b0 \<noteq> []" "rehashed d1 (entries a0 a1) d2 (entries b0 b1)"
    "if dict_map T (dict_heap d2) (entries b0 b1) key = None
     then i \<noteq> - 1 \<and> unat i = unat (dictHashKey T key) mod length (if b1 = [] then b0 else b1) \<and> unat i < length (if b1 = [] then b0 else b1)
     else i = - 1"
    using dictKeyIndex_spec [OF d1(2)] by blast
  have r: "rehashed d (entries bs0 bs1) d2 (entries b0 b1)" using rehashed_trans [OF d1(3) d2(4)] .
  then have ms: "mset (entries b0 b1) = mset (entries bs0 bs1)" by (simp add: rehashed_def)
  note maps = dict_map_rehashed [OF rep r]
  show ?thesis
  proof (cases "dict_map T (dict_heap d) (entries bs0 bs1) key = None")
    case False
    then have "dictAdd T e key v d = Some (DICT_ERR, d2)" using d2(5) by (simp add: dictAdd_def d1(1) d2(1) maps)
    then show ?thesis using d2(2,3) r unfolding if_not_P [OF False] by blast
  next
    case True
    then have i: "i \<noteq> - 1" "unat i = unat (dictHashKey T key) mod length (if b1 = [] then b0 else b1)" using d2(5) by (simp_all add: maps)
    define t :: nat where "t = (if b1 = [] then 0 else 1)"
    let ?x = "\<lparr>de_key = stored_key T key, de_val = stored_val T v, de_next = ht_table (the_ht t d2) ! unat i\<rparr>"
    define d' where "d' = dictSetHashVal T e v (dictSetHashKey T e key
      (upd_ht t (\<lambda>ht. ht\<lparr>ht_table := (ht_table ht)[unat i := e], ht_used := ht_used ht + 1\<rparr>)
        (upd_entry e (\<lambda>x. x\<lparr>de_next := ht_table (the_ht t d2) ! unat i\<rparr>) d2)))"
    have run: "dictAdd T e key v d = Some (DICT_OK, d')"
      using i(1) dict_rep_rehashing [OF d2(2)] by (simp add: dictAdd_def d1(1) d2(1) d'_def t_def Let_def)
    have e2: "e \<notin> set (entries b0 b1)" "Suc (length (entries b0 b1)) < 2 ^ 28" using e mset_eq_setD [OF ms] mset_eq_length [OF ms] by simp_all
    have none: "\<not> dictCompareHashKeys T key (de_key (dict_heap d2 x))" if "x \<in> set (entries b0 b1)" for x
      using True that by (simp add: maps [symmetric] dict_map_None key_match_def)
    have new: "\<not> dictCompareHashKeys T (stored_key T key) (de_key (dict_heap d2 x))
        \<and> \<not> dictCompareHashKeys T (de_key (dict_heap d2 x)) (stored_key T key)" if "x \<in> set (entries b0 b1)" for x
      using none [OF that] cmp_stored cmp_sym by blast
    have h: "dict_heap d' = (dict_heap d2)(e := ?x)" "the_ht t d' = (the_ht t d2)\<lparr>ht_table := (ht_table (the_ht t d2))[unat i := e], ht_used := ht_used (the_ht t d2) + 1\<rparr>"
      "the_ht (1 - t) d' = the_ht (1 - t) d2" "rehashidx d' = rehashidx d2"
      by (simp_all add: d'_def t_def dictSetHashVal_def dictSetHashKey_def upd_entry_def stored_key_def stored_val_def dictEntry_fields)
    obtain c0 c1 where c: "dict_rep T d' c0 c1" "c0 \<noteq> []" "mset (entries c0 c1) = add_mset e (mset (entries b0 b1))"
      using add_entry_rep [OF d2(2,3) e2(1) e(2) e2(2) _ t_def _ h] new i(2) unfolding stored_key_hash by blast
    have sc: "set (entries c0 c1) = insert e (set (entries b0 b1))" using arg_cong [OF c(3), of set_mset] by simp
    have one: "one_per_key T (dict_heap d') (set (entries c0 c1))" using c(1) by (simp add: dict_rep_def)
    have "dict_map T (dict_heap d') (entries c0 c1) k
        = (if dictCompareHashKeys T k key then Some (stored_val T v) else dict_map T (dict_heap d) (entries bs0 bs1) k)" for k
    proof (cases "dictCompareHashKeys T k key")
      case True
      then have "key_match T (dict_heap d') k e" by (simp add: key_match_def h(1) cmp_stored)
      from dict_map_entry [OF one _ this] show ?thesis using sc True by (simp add: h(1))
    next
      case False
      have same: "key_match T (dict_heap d') k x = key_match T (dict_heap d2) k x" if "x \<in> set (entries b0 b1)" for x
        using e2(1) that by (auto simp: key_match_def h(1))
      have no_e: "\<not> key_match T (dict_heap d') k e" using False by (simp add: key_match_def h(1) cmp_stored)
      have "dict_map T (dict_heap d') (entries c0 c1) k = dict_map T (dict_heap d2) (entries b0 b1) k"
      proof (cases "find (key_match T (dict_heap d2) k) (entries b0 b1)")
        case None
        then have "dict_map T (dict_heap d2) (entries b0 b1) k = None" by (simp add: dict_map_def)
        moreover have "dict_map T (dict_heap d') (entries c0 c1) k = None"
          using None no_e same sc by (auto simp: dict_map_None find_None_iff)
        ultimately show ?thesis by simp
      next
        case (Some x)
        then have x: "x \<in> set (entries b0 b1)" "key_match T (dict_heap d2) k x" using find_SomeD by fast+
        then have "dict_map T (dict_heap d') (entries c0 c1) k = Some (de_val (dict_heap d' x))"
          using same sc by (intro dict_map_entry [OF one]) auto
        moreover have "de_val (dict_heap d' x) = de_val (dict_heap d2 x)" using x(1) e2(1) by (auto simp: h(1))
        ultimately show ?thesis using Some by (simp add: dict_map_def)
      qed
      then show ?thesis using False by (simp add: maps)
    qed
    moreover have "mset (entries c0 c1) = add_mset e (mset (entries bs0 bs1))" using c(3) ms by simp
    ultimately show ?thesis using run c(1,2) unfolding if_P [OF True] by blast
  qed
qed

text \<open>Setting a value changes no key and no link.\<close>

lemma dict_rep_frame:
  assumes "dict_rep T d bs0 bs1" "\<And>e. de_key (dict_heap d' e) = de_key (dict_heap d e) \<and> de_next (dict_heap d' e) = de_next (dict_heap d e)"
    "ht0 d' = ht0 d" "ht1 d' = ht1 d" "rehashidx d' = rehashidx d"
  shows "dict_rep T d' bs0 bs1"
  using assms ht_rep_cong [of _ "dict_heap d'" "dict_heap d"]
  by (simp add: dict_rep_def placed_def slot_def one_per_key_def)

lemma dictReplace_spec:
  assumes rep: "dict_rep T d bs0 bs1" and e: "e \<notin> set (entries bs0 bs1)" "e \<noteq> 0" "Suc (length (entries bs0 bs1)) < 2 ^ 28"
  shows "\<exists>r d' bs0' bs1'. dictReplace T e key v d = Some (r, d') \<and> dict_rep T d' bs0' bs1'
    \<and> (if dict_map T (dict_heap d) (entries bs0 bs1) key = None
       then r = 1 \<and> mset (entries bs0' bs1') = add_mset e (mset (entries bs0 bs1))
       else r = 0 \<and> mset (entries bs0' bs1') = mset (entries bs0 bs1))
    \<and> (\<forall>k. dict_map T (dict_heap d') (entries bs0' bs1') k
         = (if dictCompareHashKeys T k key then Some (stored_val T v) else dict_map T (dict_heap d) (entries bs0 bs1) k))"
proof -
  obtain r d1 a0 a1 where d1: "dictAdd T e key v d = Some (r, d1)" "dict_rep T d1 a0 a1" "a0 \<noteq> []"
    "if dict_map T (dict_heap d) (entries bs0 bs1) key = None
     then r = DICT_OK \<and> mset (entries a0 a1) = add_mset e (mset (entries bs0 bs1))
       \<and> (\<forall>k. dict_map T (dict_heap d1) (entries a0 a1) k
            = (if dictCompareHashKeys T k key then Some (stored_val T v) else dict_map T (dict_heap d) (entries bs0 bs1) k))
     else r = DICT_ERR \<and> rehashed d (entries bs0 bs1) d1 (entries a0 a1)"
    using dictAdd_spec [OF rep e, of key v] by blast
  show ?thesis
  proof (cases "dict_map T (dict_heap d) (entries bs0 bs1) key = None")
    case True
    then have "dictReplace T e key v d = Some (1, d1)" using d1(1,4) by (simp add: dictReplace_def)
    then show ?thesis using d1(2,4) unfolding if_P [OF True] by blast
  next
    case False
    then have r: "r = DICT_ERR" "rehashed d (entries bs0 bs1) d1 (entries a0 a1)" using d1(4) by simp_all
    obtain he d2 b0 b1 where d2: "dictFind T key d1 = Some (he, d2)" "dict_rep T d2 b0 b1" "rehashed d1 (entries a0 a1) d2 (entries b0 b1)"
      "he = (case find (key_match T (dict_heap d2) key) (entries b0 b1) of None \<Rightarrow> 0 | Some e \<Rightarrow> e)"
      using dictFind_spec [OF d1(2), of key] by blast
    have r2: "rehashed d (entries bs0 bs1) d2 (entries b0 b1)" using rehashed_trans [OF r(2) d2(3)] .
    note maps = dict_map_rehashed [OF rep r2]
    note he = find_dict_map [OF d2(2,4)]
    have he0: "he \<noteq> 0" using he(3) False by (simp add: maps)
    then have in_he: "he \<in> set (entries b0 b1)" "key_match T (dict_heap d2) key he" using he(2) by blast+
    define d' where "d' = dictFreeEntryVal T (dict_heap d2 he) (dictSetHashVal T he v d2)"
    have h: "dict_heap d' = (dict_heap d2)(he := (dict_heap d2 he)\<lparr>de_val := stored_val T v\<rparr>)" "ht0 d' = ht0 d2" "ht1 d' = ht1 d2"
      "rehashidx d' = rehashidx d2"
      by (simp_all add: d'_def dictFreeEntryVal_def note_event_def dictSetHashVal_def upd_entry_def stored_val_def)
    have "dictReplace T e key v d = Some (0, d')"
      using d1(1) d2(1) r(1) he0 by (simp add: dictReplace_def d'_def DICT_OK_def DICT_ERR_def)
    moreover have rep': "dict_rep T d' b0 b1" using h by (intro dict_rep_frame [OF d2(2)]) simp_all
    moreover have "mset (entries b0 b1) = mset (entries bs0 bs1)" using r2 by (simp add: rehashed_def)
    moreover have "dict_map T (dict_heap d') (entries b0 b1) k
        = (if dictCompareHashKeys T k key then Some (stored_val T v) else dict_map T (dict_heap d) (entries bs0 bs1) k)" for k
    proof -
      have km: "key_match T (dict_heap d') k = key_match T (dict_heap d2) k" by (rule ext) (simp add: key_match_def h(1))
      have one: "one_per_key T (dict_heap d') (set (entries b0 b1))" using rep' by (simp add: dict_rep_def)
      show ?thesis
      proof (cases "dictCompareHashKeys T k key")
        case True
        then have "key_match T (dict_heap d') k he" using in_he(2) cmp_trans unfolding km key_match_def by blast
        from dict_map_entry [OF one in_he(1) this] show ?thesis using True by (simp add: h(1))
      next
        case False
        have "\<not> key_match T (dict_heap d2) k he" using in_he(2) False cmp_trans cmp_sym unfolding key_match_def by blast
        then have "find (key_match T (dict_heap d2) k) (entries b0 b1) \<noteq> Some he" using find_SomeD by fast
        then have "dict_map T (dict_heap d') (entries b0 b1) k = dict_map T (dict_heap d2) (entries b0 b1) k"
          unfolding dict_map_def km by (cases "find (key_match T (dict_heap d2) k) (entries b0 b1)") (auto simp: h(1))
        then show ?thesis using False by (simp add: maps)
      qed
    qed
    ultimately show ?thesis unfolding if_not_P [OF False] by blast
  qed
qed

end

subsection \<open>Properties\<close>

text \<open>The size of a new table is the least power of two that is at least 4 and not smaller than the
  size asked for, for every size below \<open>LONG_MAX\<close>, the doubling included that ends at $2^{63}$; for a
  larger one it is \<open>LONG_MAX\<close>, which is no power of two.\<close>
theorem dict_next_power:
  "if sz < LONG_MAX
   then \<exists>k \<ge> 2. k \<le> 63 \<and> dictNextPower sz = Some (2 ^ k) \<and> unat sz \<le> 2 ^ k \<and> (\<forall>m \<ge> 2. m < k \<longrightarrow> 2 ^ m < unat sz)
   else dictNextPower sz = Some LONG_MAX"
proof (cases "sz < LONG_MAX")
  case True
  then have "unat sz < 2 ^ 63 - 1" by (simp add: word_less_nat_alt LONG_MAX_def)
  then show ?thesis using True dictNextPower_bound [of "unat sz" 63] by simp
next
  case False
  then show ?thesis unfolding if_not_P [OF False] using False by (simp add: dictNextPower_def not_less)
qed

theorem dict_next_power_witness: "\<exists>k \<ge> 2. k \<le> 63 \<and> dictNextPower 1000 = Some (2 ^ k) \<and> 1000 \<le> (2 :: nat) ^ k"
  using dict_next_power [of 1000] by (auto simp: LONG_MAX_def)

text \<open>C18: Incremental rehashing loses no key. Any number of steps returns, keeps the entries, the map they
  stand for and the invariant of the dictionary, and returns 0 just when there is no second table
  any more; with more steps than the first table has buckets it gets there.\<close>
theorem dict_rehash_completes:
  assumes T: "dict_type T" and rep: "dict_rep T d bs0 bs1"
  shows "\<exists>r d' bs0' bs1'. dictRehash T n d = Some (r, d') \<and> dict_rep T d' bs0' bs1' \<and> mset (entries bs0' bs1') = mset (entries bs0 bs1)
    \<and> dict_map T (dict_heap d') (entries bs0' bs1') = dict_map T (dict_heap d) (entries bs0 bs1)
    \<and> (r = 0 \<longleftrightarrow> \<not> dictIsRehashing d') \<and> (length bs0 < n \<longrightarrow> r = 0)"
proof -
  obtain r d' bs0' bs1' where d': "dictRehash T n d = Some (r, d')" "dict_rep T d' bs0' bs1'"
    "rehashed d (entries bs0 bs1) d' (entries bs0' bs1')" "r = 0 \<longleftrightarrow> bs1' = []" "length bs0 < n \<longrightarrow> r = 0"
    using dictRehash_spec [OF rep, of n] by blast
  have "dict_map T (dict_heap d') (entries bs0' bs1') = dict_map T (dict_heap d) (entries bs0 bs1)"
    by (rule ext, rule dict_type.dict_map_rehashed [OF T rep d'(3)])
  moreover have "mset (entries bs0' bs1') = mset (entries bs0 bs1)" using d'(3) by (simp add: rehashed_def)
  moreover have "r = 0 \<longleftrightarrow> \<not> dictIsRehashing d'" using d'(4) dict_rep_rehashing [OF d'(2)] by simp
  ultimately show ?thesis using d'(1,2,5) by blast
qed

text \<open>A dictionary in the middle of growing, with one entry left in its first table.\<close>

definition growing :: "(byte list, nat) dict" where
  "growing = \<lparr>ht0 = \<lparr>ht_size = 1, ht_table = [7], ht_sizemask = 0, ht_used = 1\<rparr>,
     ht1 = \<lparr>ht_size = 2, ht_table = [8, 0], ht_sizemask = 1, ht_used = 1\<rparr>, rehashidx = 0, iterators = 0,
     dict_heap = (\<lambda>e. \<lparr>de_key = (if e = 7 then [2] else [1]), de_val = unat e, de_next = 0\<rparr>), dict_events = [], dict_can_resize = 1\<rparr>"

lemma growing_rep: "dict_rep dictTypeHeapStrings growing [[7]] [[8], []]"
proof -
  have "slot dictTypeHeapStrings (dict_heap growing) 2 8 = 0" "slot dictTypeHeapStrings (dict_heap growing) (Suc 0) 7 = 0"
    by (simp_all add: slot_def growing_def dictHashKey_def dictTypeHeapStrings_def dictStringCopyHTHashFunction_def dictGenHashFunction_def push_bit_eq_mult)
  moreover have "one_per_key dictTypeHeapStrings (dict_heap growing) {7, 8}"
    by (simp add: one_per_key_def growing_def dictCompareHashKeys_def dictTypeHeapStrings_def dictStringCopyHTKeyCompare_def)
  moreover have "ht_rep (dict_heap growing) (ht0 growing) [[7]]" "ht_rep (dict_heap growing) (ht1 growing) [[8], []]"
    by (auto simp: ht_rep_def growing_def links_def less_Suc_eq intro: exI [of _ 0] exI [of _ 1])
  moreover have "rehashing (rehashidx growing) [[7]] [[8], []]" by (auto simp: rehashing_def growing_def intro: exI [of _ 0])
  moreover have "placed dictTypeHeapStrings (dict_heap growing) [[8], []]" "placed dictTypeHeapStrings (dict_heap growing) [[7]]"
    using calculation(1,2) by (simp_all add: placed_def less_Suc_eq numeral_2_eq_2)
  ultimately show ?thesis by (simp add: dict_rep_def entries_def)
qed

theorem dict_rehash_completes_witness:
  "\<exists>d' bs0'. dictRehash dictTypeHeapStrings 2 growing = Some (0, d') \<and> dict_rep dictTypeHeapStrings d' bs0' [] \<and> mset (concat bs0') = {#7, 8#}"
proof -
  obtain r d' bs0' bs1' where d': "dictRehash dictTypeHeapStrings 2 growing = Some (r, d')" "dict_rep dictTypeHeapStrings d' bs0' bs1'"
    "mset (entries bs0' bs1') = mset (entries [[7]] [[8], []])" "r = 0 \<longleftrightarrow> \<not> dictIsRehashing d'" "length [[7 :: addr]] < 2 \<longrightarrow> r = 0"
    using dict_rehash_completes [OF strings.dict_type_axioms growing_rep, of 2] by blast
  then have "r = 0" "bs1' = []" using dict_rep_rehashing [OF d'(2)] by auto
  then show ?thesis using d'(1-3) by (auto simp: entries_def add.commute)
qed

end
