(* ===== verification/Dictdel.thy ===== *)
theory Dictdel
  imports Dictmap
begin

text \<open>
  Deleting from a dictionary, emptying it and releasing it: what is unlinked and what is given back.
\<close>

subsection \<open>Unlinking\<close>

lemma sl_append_hd: "sl nx (ys @ p # zs) \<Longrightarrow> hd0 (ys @ p # zs) 0 = hd0 ys p"
  by (cases ys) auto

lemma sl_remove:
  "sl nx (ys @ p # e # zs) \<Longrightarrow> distinct (ys @ p # e # zs) \<Longrightarrow> sl (nx(p := nx e)) (ys @ p # zs)"
proof (induction ys)
  case Nil
  have "sl (nx(p := v)) zs" for v using Nil by (subst sl_cong [of zs _ nx]) auto
  then show ?case using Nil by (auto simp: fun_upd_def)
next
  case (Cons y ys)
  then show ?case by (cases ys) auto
qed

context dict_type begin

lemma search_chain_none:
  "sl (\<lambda>e. de_next (E e)) xs \<Longrightarrow> \<forall>x \<in> set xs. \<not> key_match T E key x \<Longrightarrow> \<exists>q. search_chain T E key p (hd0 xs 0) = Some (q, 0)"
  by (induction xs arbitrary: p) (subst search_chain.simps, auto simp: key_match_def)+

lemma search_chain_found:
  "sl (\<lambda>e. de_next (E e)) (ys @ e # zs) \<Longrightarrow> \<forall>x \<in> set ys. \<not> key_match T E key x \<Longrightarrow> key_match T E key e
     \<Longrightarrow> search_chain T E key p (hd0 ys e) = Some (last0 p ys, e)"
proof (induction ys arbitrary: p)
  case (Cons y ys)
  then have "de_next (E y) = hd0 ys e" by (cases ys) auto
  then show ?case using Cons by (subst search_chain.simps) (simp add: key_match_def)
qed (subst search_chain.simps, simp add: key_match_def)

end

text \<open>What the deletion of an entry gives back.\<close>

definition destroyed :: "('k, 'v) dictType \<Rightarrow> ('k, 'v) dictEntry \<Rightarrow> ('k, 'v) dict_event list" where
  "destroyed T x = (if keyDestructor T then [Destroy_key (de_key x)] else []) @ (if valDestructor T then [Destroy_val (de_val x)] else [])"

lemma note_destroyed: "dictFreeEntryVal T x (dictFreeEntryKey T x d) = d\<lparr>dict_events := dict_events d @ destroyed T x\<rparr>"
  by (simp add: dictFreeEntryVal_def dictFreeEntryKey_def note_event_def destroyed_def)

lemma unlink_entry_sel:
  assumes "t = 0 \<or> t = 1"
  shows "dict_heap (unlink_entry T nofree t i p he d)
      = (if p \<noteq> 0 then (dict_heap d)(p := (dict_heap d p)\<lparr>de_next := de_next (dict_heap d he)\<rparr>) else dict_heap d)"
    "the_ht t (unlink_entry T nofree t i p he d)
      = (the_ht t d)\<lparr>ht_table := (if p \<noteq> 0 then ht_table (the_ht t d) else (ht_table (the_ht t d))[i := de_next (dict_heap d he)]), ht_used := ht_used (the_ht t d) - 1\<rparr>"
    "the_ht (1 - t) (unlink_entry T nofree t i p he d) = the_ht (1 - t) d"
    "rehashidx (unlink_entry T nofree t i p he d) = rehashidx d" "iterators (unlink_entry T nofree t i p he d) = iterators d"
    "dict_can_resize (unlink_entry T nofree t i p he d) = dict_can_resize d"
    "dict_events (unlink_entry T nofree t i p he d) = dict_events d @ (if nofree then [] else destroyed T (dict_heap d he)) @ [Free_entry he]"
  using assms by (auto simp: unlink_entry_def Let_def note_destroyed note_event_def upd_entry_def)

lemma ht_rep_unlink:
  assumes rep: "ht_rep E ht bs" and i: "i < length bs" "bs ! i = ys @ e # zs" and dist: "distinct (concat bs)"
    and E': "E' = (if ys \<noteq> [] then E(last ys := (E (last ys))\<lparr>de_next := de_next (E e)\<rparr>) else E)"
    and ht': "ht' = ht\<lparr>ht_table := (if ys \<noteq> [] then ht_table ht else (ht_table ht)[i := de_next (E e)]), ht_used := ht_used ht - 1\<rparr>"
  shows "ht_rep E' ht' (bs[i := ys @ zs])"
proof -
  have all: "mset (concat (bs[i := []]) @ bs ! i) = mset (concat bs)" using mset_clear_bucket [OF i(1)] by simp
  then have d: "distinct (concat (bs[i := []]) @ ys @ e # zs)" using dist mset_eq_imp_distinct_iff i(2) by metis
  have other: "links E' he (bs ! j) = links E he (bs ! j)" if "j < length bs" "j \<noteq> i" for he j
  proof (rule links_cong)
    fix x assume "x \<in> set (bs ! j)"
    then have "x \<in> set (concat (bs[i := []]))" unfolding in_concat_nth using that by (intro exI [of _ j]) simp
    then have "ys \<noteq> [] \<Longrightarrow> x \<noteq> last ys" using d by (auto dest: last_in_set)
    then show "de_next (E' x) = de_next (E x)" using E' by simp
  qed
  have l: "links E (ht_table ht ! i) (ys @ e # zs)" using ht_rep_links [OF rep i(1)] i(2) by simp
  then have s: "sl (\<lambda>x. de_next (E x)) (ys @ e # zs)" by (simp add: links_def)
  have here: "links E' (ht_table ht' ! i) (ys @ zs)"
  proof (cases ys rule: rev_cases)
    case Nil
    then show ?thesis using s l E' ht' i(1) ht_rep_length [OF rep] by (simp add: links_def)
  next
    case (snoc ys' p)
    have nx: "(\<lambda>x. de_next (E' x)) = (\<lambda>x. de_next (E x))(p := de_next (E e))" using E' snoc by (auto simp: fun_eq_iff)
    have "sl (\<lambda>x. de_next (E' x)) (ys' @ p # zs)" unfolding nx by (rule sl_remove) (use s snoc d in simp_all)
    then show ?thesis using l ht' snoc by (simp add: links_def)
  qed
  have "mset (concat (bs[i := ys @ zs])) + {#e#} = mset (concat bs)" using mset_concat_update [OF i(1), of "ys @ zs"] i(2) by simp
  from arg_cong [OF this, of size] have "Suc (length (concat (bs[i := ys @ zs]))) = length (concat bs)" by simp
  from arg_cong [OF this, of "of_nat :: nat \<Rightarrow> u64"] have "of_nat (length (concat (bs[i := ys @ zs]))) = ht_used ht - 1"
    using rep by (simp add: ht_rep_def eq_diff_eq add.commute)
  moreover have "length (ht_table ht') = length bs" using ht_rep_length [OF rep] ht' by simp
  moreover have "links E' (ht_table ht' ! j) ((bs[i := ys @ zs]) ! j)" if "j < length bs" for j
    using here other [OF that] ht_rep_links [OF rep that] that i(1) ht' by (cases "j = i") (auto simp: nth_list_update)
  moreover have "bs \<noteq> []" using i(1) by auto
  ultimately show ?thesis using rep by (simp add: ht_rep_def ht' del: length_concat)
qed

subsection \<open>Deleting one entry\<close>

lemma find_split: "find P xs = Some e \<Longrightarrow> \<exists>ys zs. xs = ys @ e # zs \<and> (\<forall>y \<in> set ys. \<not> P y) \<and> P e"
proof (induction xs)
  case (Cons x xs)
  show ?case
  proof (cases "P x")
    case True
    then show ?thesis using Cons.prems by (intro exI [of _ "[]"] exI [of _ xs]) simp
  next
    case False
    then obtain ys zs where "xs = ys @ e # zs" "\<forall>y \<in> set ys. \<not> P y" "P e" using Cons by auto
    then show ?thesis using False by (intro exI [of _ "x # ys"] exI [of _ zs]) simp
  qed
qed simp

text \<open>\<open>bs'\<close> is \<open>bs\<close> without one occurrence of \<open>e\<close>.\<close>

definition without :: "addr \<Rightarrow> addr list list \<Rightarrow> addr list list \<Rightarrow> bool" where
  "without e bs bs' \<longleftrightarrow> (\<exists>i ys zs. i < length bs \<and> bs ! i = ys @ e # zs \<and> bs' = bs[i := ys @ zs])"

lemma without_facts:
  assumes "without e bs bs'"
  shows "length bs' = length bs" "add_mset e (mset (concat bs')) = mset (concat bs)" "placed T E bs \<Longrightarrow> placed T E bs'"
    "j < length bs \<Longrightarrow> bs ! j = [] \<Longrightarrow> bs' ! j = []"
proof -
  obtain i ys zs where i: "i < length bs" "bs ! i = ys @ e # zs" "bs' = bs[i := ys @ zs]" using assms unfolding without_def by blast
  show "length bs' = length bs" using i by simp
  show "add_mset e (mset (concat bs')) = mset (concat bs)" using mset_concat_update [OF i(1), of "ys @ zs"] i(2,3) by simp
  show "placed T E bs'" if "placed T E bs"
    unfolding placed_def
  proof (intro allI impI ballI)
    fix j x assume j: "j < length bs'" "x \<in> set (bs' ! j)"
    then have "x \<in> set (bs ! j)" using i by (cases "j = i") auto
    then show "slot T E (length bs') x = j" using that j(1) i unfolding placed_def by simp
  qed
  show "bs' ! j = []" if "j < length bs" "bs ! j = []" using that i by (cases "j = i") auto
qed

lemma rehashing_cong:
  assumes r: "rehashing r bs0 bs1" and l: "length bs0' = length bs0" "length bs1' = length bs1"
    and e: "\<And>j. j < length bs0 \<Longrightarrow> bs0 ! j = [] \<Longrightarrow> bs0' ! j = []"
  shows "rehashing r bs0' bs1'"
proof -
  have n: "bs0' = [] \<longleftrightarrow> bs0 = []" "bs1' = [] \<longleftrightarrow> bs1 = []" using l by auto
  consider "r = - 1" "bs1 = []" | k where "bs0 \<noteq> []" "bs1 \<noteq> []" "k \<le> length bs0" "r = of_nat k" "\<forall>i < k. bs0 ! i = []"
    using r unfolding rehashing_def by blast
  then show ?thesis
  proof cases
    case 1
    then show ?thesis using n by (simp add: rehashing_def)
  next
    case 2
    then have "\<forall>i < k. bs0' ! i = []" using e by simp
    then show ?thesis using 2 n l unfolding rehashing_def by auto
  qed
qed

text \<open>The same of the two tables.\<close>

definition removed :: "addr \<Rightarrow> addr list list \<Rightarrow> addr list list \<Rightarrow> addr list list \<Rightarrow> addr list list \<Rightarrow> bool" where
  "removed e bs0 bs1 bs0' bs1' \<longleftrightarrow> without e bs0 bs0' \<and> bs1' = bs1 \<or> bs0' = bs0 \<and> without e bs1 bs1'"

lemma removed_mset: "removed e bs0 bs1 bs0' bs1' \<Longrightarrow> add_mset e (mset (entries bs0' bs1')) = mset (entries bs0 bs1)"
  using without_facts(2) by (auto simp: removed_def entries_def add.commute simp flip: mset_concat)

definition deleted :: "('k, 'v) dictType \<Rightarrow> bool \<Rightarrow> addr \<Rightarrow> ('k, 'v) dict \<Rightarrow> ('k, 'v) dict \<Rightarrow> bool" where
  "deleted T nofree e d d' \<longleftrightarrow> kv_same (dict_heap d) (dict_heap d') \<and> rehashidx d' = rehashidx d \<and> iterators d' = iterators d
     \<and> dict_can_resize d' = dict_can_resize d
     \<and> dict_events d' = dict_events d @ (if nofree then [] else destroyed T (dict_heap d e)) @ [Free_entry e]"

context dict_type begin

lemma delete_from_spec:
  assumes t: "t = 0 \<or> t = 1" and rep: "ht_rep (dict_heap d) (the_ht t d) bs" "bs \<noteq> []" and p: "placed T (dict_heap d) bs"
    and dist: "distinct (concat bs)" and u: "one_per_key T (dict_heap d) (set (concat bs))"
  shows "case find (key_match T (dict_heap d) key) (concat bs) of
      None \<Rightarrow> delete_from T nofree key t d = Some (False, d)
    | Some e \<Rightarrow> \<exists>d' bs'. delete_from T nofree key t d = Some (True, d') \<and> without e bs bs'
        \<and> ht_rep (dict_heap d') (the_ht t d') bs' \<and> the_ht (1 - t) d' = the_ht (1 - t) d
        \<and> (\<forall>x. x \<notin> set (concat bs) \<longrightarrow> dict_heap d' x = dict_heap d x) \<and> deleted T nofree e d d'"
proof -
  let ?E = "dict_heap d" and ?ht = "the_ht t d"
  let ?i = "dict_idx (dictHashKey T key) ?ht"
  note idx = dict_idx_slot [OF rep, of "dictHashKey T key"]
  have l: "links ?E (ht_table ?ht ! ?i) (bs ! ?i)" by (rule ht_rep_links [OF rep(1) idx(2)])
  then have s: "sl (\<lambda>x. de_next (?E x)) (bs ! ?i)" "ht_table ?ht ! ?i = hd0 (bs ! ?i) 0" by (simp_all add: links_def)
  have f: "find (key_match T ?E key) (bs ! ?i) = find (key_match T ?E key) (concat bs)"
    using find_in_bucket [OF p rep(2) u, of key] idx(1) by simp
  show ?thesis
  proof (cases "find (key_match T ?E key) (concat bs)")
    case None
    then have "find (key_match T ?E key) (bs ! ?i) = None" using f by (rule trans [rotated])
    then have "\<forall>x \<in> set (bs ! ?i). \<not> key_match T ?E key x" by (auto simp: find_None_iff)
    then obtain q where "search_chain T ?E key 0 (hd0 (bs ! ?i) 0) = Some (q, 0)" using search_chain_none [OF s(1)] by blast
    then show ?thesis using None s(2) by (simp add: delete_from_def Let_def)
  next
    case (Some e)
    then have fe: "find (key_match T ?E key) (bs ! ?i) = Some e" using f by simp
    then obtain ys zs where b: "bs ! ?i = ys @ e # zs" "\<forall>y \<in> set ys. \<not> key_match T ?E key y" "key_match T ?E key e"
      using find_split by metis
    have e0: "e \<noteq> 0" using sl_nonzero [OF s(1), of e] b(1) by simp
    have ls: "last0 0 ys \<noteq> 0 \<longleftrightarrow> ys \<noteq> []" using sl_nonzero [OF s(1)] b(1) by (cases ys rule: rev_cases) (auto simp: last0_def)
    let ?d = "unlink_entry T nofree t ?i (last0 0 ys) e d"
    note sel = unlink_entry_sel [OF t, of T nofree ?i "last0 0 ys" e d]
    have "hd0 (bs ! ?i) 0 = hd0 ys e" using b(1) by (cases ys) simp_all
    then have run: "delete_from T nofree key t d = Some (True, ?d)"
      using search_chain_found [OF s(1) [unfolded b(1)] b(2,3), of 0] s(2) e0 by (simp add: delete_from_def Let_def)
    have "ht_rep (dict_heap ?d) (the_ht t ?d) (bs[?i := ys @ zs])"
      by (rule ht_rep_unlink [OF rep(1) idx(2) b(1) dist]) (use sel(1,2) ls in \<open>simp_all add: last0_def\<close>)
    moreover have "without e bs (bs[?i := ys @ zs])" using idx(2) b(1) unfolding without_def by blast
    moreover have "dict_heap ?d x = ?E x" if "x \<notin> set (concat bs)" for x
    proof -
      have "y \<in> set (concat bs)" if "y \<in> set ys" for y
        unfolding in_concat_nth using idx(2) b(1) that by (intro exI [of _ ?i]) simp
      then have "ys \<noteq> [] \<Longrightarrow> x \<noteq> last ys" using that last_in_set by blast
      then show ?thesis using sel(1) ls by (auto simp: last0_def)
    qed
    moreover have "deleted T nofree e d ?d" using sel by (simp add: deleted_def kv_same_def)
    ultimately show ?thesis using Some run sel(3) by auto
  qed
qed

lemma delete_first_rep:
  assumes rep: "dict_rep T d bs0 bs1" and w: "without e bs0 bs0'" and h: "ht_rep (dict_heap d') (ht0 d') bs0'" "ht1 d' = ht1 d"
    and o: "\<forall>x. x \<notin> set (concat bs0) \<longrightarrow> dict_heap d' x = dict_heap d x" and dl: "kv_same (dict_heap d) (dict_heap d')" "rehashidx d' = rehashidx d"
  shows "dict_rep T d' bs0' bs1 \<and> add_mset e (mset (entries bs0' bs1)) = mset (entries bs0 bs1)"
proof -
  have r: "ht_rep (dict_heap d) (ht1 d) bs1" "placed T (dict_heap d) bs0" "placed T (dict_heap d) bs1" "distinct (entries bs0 bs1)"
    "one_per_key T (dict_heap d) (set (entries bs0 bs1))" "length (entries bs0 bs1) < 2 ^ 28" "rehashing (rehashidx d) bs0 bs1"
    using rep unfolding dict_rep_def by blast+
  note wf = without_facts [OF w]
  have m: "add_mset e (mset (entries bs0' bs1)) = mset (entries bs0 bs1)" using wf(2) by (simp add: entries_def)
  have d1: "distinct (e # entries bs0' bs1)" using m r(4) mset_eq_imp_distinct_iff [of "e # entries bs0' bs1" "entries bs0 bs1"] by simp
  have len: "Suc (length (entries bs0' bs1)) = length (entries bs0 bs1)" using arg_cong [OF m, of size] by simp
  have sub: "set (entries bs0' bs1) \<subseteq> set (entries bs0 bs1)" using arg_cong [OF m, of set_mset] by auto
  have "set (concat bs0) \<inter> set (concat bs1) = {}" using r(4) by (simp only: entries_def distinct_append)
  then have eq: "dict_heap d' x = dict_heap d x" if "x \<in> set (concat bs1)" for x using o that by blast
  have "ht_rep (dict_heap d') (ht1 d) bs1 = ht_rep (dict_heap d) (ht1 d) bs1"
    by (rule ht_rep_cong) (simp only: eq)
  moreover have "rehashing (rehashidx d) bs0' bs1"
    by (rule rehashing_cong [OF r(7)]) (use wf(1,4) in simp_all)
  moreover have "one_per_key T (dict_heap d) (set (entries bs0' bs1))" using r(5) sub unfolding one_per_key_def by blast
  ultimately show ?thesis using r wf(3) h m d1 len dl unfolding dict_rep_def kv_sameD [OF dl(1)] by simp
qed

lemma delete_second_rep:
  assumes rep: "dict_rep T d bs0 bs1" and w: "without e bs1 bs1'" and h: "ht_rep (dict_heap d') (ht1 d') bs1'" "ht0 d' = ht0 d"
    and o: "\<forall>x. x \<notin> set (concat bs1) \<longrightarrow> dict_heap d' x = dict_heap d x" and dl: "kv_same (dict_heap d) (dict_heap d')" "rehashidx d' = rehashidx d"
  shows "dict_rep T d' bs0 bs1' \<and> add_mset e (mset (entries bs0 bs1')) = mset (entries bs0 bs1)"
proof -
  have r: "ht_rep (dict_heap d) (ht0 d) bs0" "placed T (dict_heap d) bs0" "placed T (dict_heap d) bs1" "distinct (entries bs0 bs1)"
    "one_per_key T (dict_heap d) (set (entries bs0 bs1))" "length (entries bs0 bs1) < 2 ^ 28" "rehashing (rehashidx d) bs0 bs1"
    using rep unfolding dict_rep_def by blast+
  note wf = without_facts [OF w]
  have m: "add_mset e (mset (entries bs0 bs1')) = mset (entries bs0 bs1)" using wf(2) by (simp add: entries_def)
  have d1: "distinct (e # entries bs0 bs1')" using m r(4) mset_eq_imp_distinct_iff [of "e # entries bs0 bs1'" "entries bs0 bs1"] by simp
  have len: "Suc (length (entries bs0 bs1')) = length (entries bs0 bs1)" using arg_cong [OF m, of size] by simp
  have sub: "set (entries bs0 bs1') \<subseteq> set (entries bs0 bs1)" using arg_cong [OF m, of set_mset] by auto
  have "set (concat bs0) \<inter> set (concat bs1) = {}" using r(4) by (simp only: entries_def distinct_append)
  then have eq: "dict_heap d' x = dict_heap d x" if "x \<in> set (concat bs0)" for x using o that by blast
  have "ht_rep (dict_heap d') (ht0 d) bs0 = ht_rep (dict_heap d) (ht0 d) bs0"
    by (rule ht_rep_cong) (simp only: eq)
  moreover have "rehashing (rehashidx d) bs0 bs1'" by (rule rehashing_cong [OF r(7)]) (use wf(1) in simp_all)
  moreover have "one_per_key T (dict_heap d) (set (entries bs0 bs1'))" using r(5) sub unfolding one_per_key_def by blast
  ultimately show ?thesis using r wf(3) h m d1 len dl unfolding dict_rep_def kv_sameD [OF dl(1)] by simp
qed

lemma dict_map_deleted:
  assumes u: "one_per_key T E (set es)" and d: "distinct es" and m: "add_mset e (mset es') = mset es" and kv: "kv_same E E'" and e: "key_match T E key e"
  shows "dict_map T E' es' k = (if dictCompareHashKeys T k key then None else dict_map T E es k)"
proof -
  have s: "set es = insert e (set es')" using arg_cong [OF m, of set_mset] by simp
  have ne: "e \<notin> set es'" using d m mset_eq_imp_distinct_iff [of "e # es'" es] by simp
  have find: "find (key_match T E k) es' = (if dictCompareHashKeys T k key then None else find (key_match T E k) es)"
  proof (cases "dictCompareHashKeys T k key")
    case True
    then have "key_match T E k e" using e cmp_trans unfolding key_match_def by blast
    then have "\<not> key_match T E k x" if "x \<in> set es'" for x using match_unique [OF u, of e x k] s that ne by auto
    then show ?thesis using True by (simp add: find_None_iff)
  next
    case False
    then have "\<not> key_match T E k e" using e cmp_trans cmp_sym unfolding key_match_def by blast
    have "find (key_match T E k) es' = find (key_match T E k) es"
    proof (rule find_same_set)
      show "x = y" if "x \<in> set es" "y \<in> set es" "key_match T E k x" "key_match T E k y" for x y by (rule match_unique [OF u that])
      show "x \<in> set es'" if "x \<in> set es" "key_match T E k x" for x using that s \<open>\<not> key_match T E k e\<close> by auto
    qed (use s in blast)
    then show ?thesis using False by simp
  qed
  show ?thesis unfolding kv_sameD(5) [OF kv] by (simp add: dict_map_def find)
qed

text \<open>After the step of rehashing: the entry of the key leaves the table it is in.\<close>

lemma delete_both_spec:
  assumes rep: "dict_rep T d a0 a1" "a0 \<noteq> []"
  shows "case find (key_match T (dict_heap d) key) (entries a0 a1) of
      None \<Rightarrow> delete_both T key nofree d = Some (DICT_ERR, d)
    | Some e \<Rightarrow> \<exists>d' b0 b1. delete_both T key nofree d = Some (DICT_OK, d') \<and> dict_rep T d' b0 b1 \<and> removed e a0 a1 b0 b1
        \<and> deleted T nofree e d d'"
proof -
  let ?E = "dict_heap d"
  have r: "ht_rep ?E (the_ht 0 d) a0" "ht_rep ?E (the_ht 1 d) a1" "placed T ?E a0" "placed T ?E a1" "distinct (entries a0 a1)"
    "one_per_key T ?E (set (entries a0 a1))" using rep(1) by (simp_all add: dict_rep_def)
  have dist: "distinct (concat a0)" "distinct (concat a1)" using r(5) by (simp_all add: entries_def)
  have u: "one_per_key T ?E (set (concat a0))" "one_per_key T ?E (set (concat a1))" using r(6) by (auto simp: one_per_key_def entries_def)
  have reh: "dictIsRehashing d \<longleftrightarrow> a1 \<noteq> []" by (rule dict_rep_rehashing [OF rep(1)])
  note first = delete_from_spec [where t = 0 and d = d and key = key and nofree = nofree, OF _ r(1) rep(2) r(3) dist(1) u(1)]
  note second = delete_from_spec [where t = 1 and d = d and key = key and nofree = nofree, OF _ r(2) _ r(4) dist(2) u(2)]
  show ?thesis
  proof (cases "find (key_match T ?E key) (concat a0)")
    case (Some e)
    then obtain d' b0 where d': "delete_from T nofree key 0 d = Some (True, d')" "without e a0 b0" "ht_rep (dict_heap d') (ht0 d') b0"
      "ht1 d' = ht1 d" "\<forall>x. x \<notin> set (concat a0) \<longrightarrow> dict_heap d' x = ?E x" "deleted T nofree e d d'" using first by auto
    have "dict_rep T d' b0 a1 \<and> add_mset e (mset (entries b0 a1)) = mset (entries a0 a1)"
      by (rule delete_first_rep [OF rep(1) d'(2-5)]) (use d'(6) in \<open>simp_all add: deleted_def\<close>)
    moreover have "delete_both T key nofree d = Some (DICT_OK, d')" by (simp add: delete_both_def d'(1))
    moreover have "find (key_match T ?E key) (entries a0 a1) = Some e" using Some by (simp add: entries_def find_append)
    ultimately show ?thesis using d'(2,6) by (auto simp: removed_def)
  next
    case None
    then have d0: "delete_from T nofree key 0 d = Some (False, d)" using first by simp
    have fe: "find (key_match T ?E key) (entries a0 a1) = find (key_match T ?E key) (concat a1)" using None by (simp add: entries_def find_append)
    show ?thesis
    proof (cases "find (key_match T ?E key) (concat a1)")
      case None
      then have "a1 \<noteq> [] \<Longrightarrow> delete_from T nofree key 1 d = Some (False, d)" using second by simp
      then show ?thesis using None fe d0 reh by (cases "a1 = []") (simp_all add: delete_both_def)
    next
      case (Some e)
      then have a1: "a1 \<noteq> []" by auto
      obtain d' b1 where d': "delete_from T nofree key 1 d = Some (True, d')" "without e a1 b1" "ht_rep (dict_heap d') (ht1 d') b1"
        "ht0 d' = ht0 d" "\<forall>x. x \<notin> set (concat a1) \<longrightarrow> dict_heap d' x = ?E x" "deleted T nofree e d d'" using Some a1 second by auto
      have "dict_rep T d' a0 b1 \<and> add_mset e (mset (entries a0 b1)) = mset (entries a0 a1)"
        by (rule delete_second_rep [OF rep(1) d'(2-5)]) (use d'(6) in \<open>simp_all add: deleted_def\<close>)
      moreover have "delete_both T key nofree d = Some (DICT_OK, d')" using a1 d'(1) by (simp add: delete_both_def d0 reh)
      ultimately show ?thesis using Some fe d'(2,6) by (auto simp: removed_def)
    qed
  qed
qed

text \<open>\<open>d1\<close> is the dictionary after the step of rehashing.\<close>

lemma dictGenericDelete_spec:
  assumes rep: "dict_rep T d bs0 bs1"
  shows "case dict_map T (dict_heap d) (entries bs0 bs1) key of
      None \<Rightarrow> \<exists>d' bs0' bs1'. dictGenericDelete T key nofree d = Some (DICT_ERR, d') \<and> dict_rep T d' bs0' bs1'
        \<and> rehashed d (entries bs0 bs1) d' (entries bs0' bs1')
    | Some v \<Rightarrow> \<exists>d1 d' bs0' bs1' e. dictGenericDelete T key nofree d = Some (DICT_OK, d') \<and> dict_rep T d' bs0' bs1'
        \<and> rehashed d (entries bs0 bs1) d1 (entries bs0 bs1) \<and> deleted T nofree e d1 d'
        \<and> e \<in> set (entries bs0 bs1) \<and> key_match T (dict_heap d) key e \<and> de_val (dict_heap d e) = v
        \<and> add_mset e (mset (entries bs0' bs1')) = mset (entries bs0 bs1)
        \<and> (\<forall>k. dict_map T (dict_heap d') (entries bs0' bs1') k
             = (if dictCompareHashKeys T k key then None else dict_map T (dict_heap d) (entries bs0 bs1) k))"
proof (cases "bs0 = []")
  case True
  then have "bs1 = []" using dict_rep_empty rep by blast
  then have "dict_map T (dict_heap d) (entries bs0 bs1) key = None" using True by (simp add: entries_def dict_map_def)
  moreover have "dictGenericDelete T key nofree d = Some (DICT_ERR, d)"
    using dict_rep_ht0 [OF rep] True by (simp add: dictGenericDelete_def)
  ultimately show ?thesis using rep rehashed_refl by (simp, blast)
next
  case False
  let ?m = "dict_map T (dict_heap d) (entries bs0 bs1)"
  obtain d1 a0 a1 where d1: "(if dictIsRehashing d then dictRehashStep T d else Some d) = Some d1" "dict_rep T d1 a0 a1" "a0 \<noteq> []"
    "rehashed d (entries bs0 bs1) d1 (entries a0 a1)" using rehash_step_spec [OF rep False] by blast
  have r: "distinct (entries a0 a1)" "one_per_key T (dict_heap d1) (set (entries a0 a1))" using d1(2) by (simp_all add: dict_rep_def)
  have kv: "kv_same (dict_heap d) (dict_heap d1)" and ms: "mset (entries a0 a1) = mset (entries bs0 bs1)" using d1(4) by (simp_all add: rehashed_def)
  have r1: "rehashed d (entries bs0 bs1) d1 (entries bs0 bs1)" using d1(4) by (simp add: rehashed_def)
  note maps = dict_map_rehashed [OF rep d1(4)]
  have run: "dictGenericDelete T key nofree d = delete_both T key nofree d1"
    using dict_rep_ht0 [OF rep] False by (simp add: dictGenericDelete_def d1(1))
  note both = delete_both_spec [OF d1(2,3), of key nofree]
  show ?thesis
  proof (cases "find (key_match T (dict_heap d1) key) (entries a0 a1)")
    case None
    then have "?m key = None" using maps [of key] by (simp add: dict_map_def)
    moreover have "delete_both T key nofree d1 = Some (DICT_ERR, d1)" using None both by simp
    ultimately show ?thesis using run d1(2,4) by (simp, blast)
  next
    case (Some e)
    then obtain d' b0 b1 where d': "delete_both T key nofree d1 = Some (DICT_OK, d')" "dict_rep T d' b0 b1" "removed e a0 a1 b0 b1"
      "deleted T nofree e d1 d'" using both by auto
    have em: "e \<in> set (entries a0 a1)" "key_match T (dict_heap d1) key e" using find_SomeD [OF Some] by blast+
    have m: "add_mset e (mset (entries b0 b1)) = mset (entries a0 a1)" by (rule removed_mset [OF d'(3)])
    have v: "?m key = Some (de_val (dict_heap d e))" using Some maps [of key] kv by (simp add: dict_map_def kv_same_def)
    have in_es: "e \<in> set (entries bs0 bs1)" using em(1) mset_eq_setD [OF ms] by simp
    have kv2: "kv_same (dict_heap d1) (dict_heap d')" using d'(4) by (simp add: deleted_def)
    have "dict_map T (dict_heap d') (entries b0 b1) k = (if dictCompareHashKeys T k key then None else ?m k)" for k
      using dict_map_deleted [OF r(2,1) m kv2 em(2), of k] maps [of k] by simp
    moreover have "key_match T (dict_heap d) key e" using em(2) kv_sameD(4) [OF kv, of T key] by simp
    ultimately show ?thesis using run d'(1,2,4) m r1 in_es ms unfolding v option.case by metis
  qed
qed

text \<open>While an iterator is open there is no step of rehashing: the entry itself is taken out.\<close>

lemma delete_entry_spec:
  assumes rep: "dict_rep T d bs0 bs1" and e: "e \<in> set (entries bs0 bs1)" and it: "iterators d \<noteq> 0"
  shows "\<exists>d' b0 b1. dictDelete T (de_key (dict_heap d e)) d = Some (DICT_OK, d') \<and> dict_rep T d' b0 b1 \<and> removed e bs0 bs1 b0 b1
    \<and> deleted T False e d d'"
proof -
  let ?k = "de_key (dict_heap d e)"
  have ne: "bs0 \<noteq> []" using e dict_rep_empty [of T d bs1] rep by (auto simp: entries_def)
  have u: "one_per_key T (dict_heap d) (set (entries bs0 bs1))" using rep by (simp add: dict_rep_def)
  have m: "key_match T (dict_heap d) ?k e" using cmp_refl by (simp add: key_match_def)
  have "find (key_match T (dict_heap d) ?k) (entries bs0 bs1) = Some e"
    by (rule find_unique [where P = "key_match T (dict_heap d) ?k" and es = "entries bs0 bs1", OF match_unique [OF u] e m])
  moreover have "dictDelete T ?k d = delete_both T ?k False d"
    using dict_rep_ht0 [OF rep] ne it by (simp add: dictDelete_def dictGenericDelete_def dictRehashStep_def)
  ultimately show ?thesis using delete_both_spec [OF rep ne, of ?k False] by simp
qed

end

subsection \<open>Emptying and releasing\<close>

text \<open>What is given back when all entries \<open>es\<close> are freed.\<close>

definition freed_all :: "('k, 'v) dictType \<Rightarrow> (addr \<Rightarrow> ('k, 'v) dictEntry) \<Rightarrow> addr list \<Rightarrow> ('k, 'v) dict_event list" where
  "freed_all T E es = concat (map (\<lambda>e. destroyed T (E e) @ [Free_entry e]) es)"

lemma freed_all_simps [simp]: "freed_all T E [] = []" "freed_all T E (e # es) = destroyed T (E e) @ Free_entry e # freed_all T E es"
  "freed_all T E (xs @ ys) = freed_all T E xs @ freed_all T E ys"
  by (simp_all add: freed_all_def)

definition drop_entries :: "nat \<Rightarrow> nat \<Rightarrow> ('k, 'v) dict_event list \<Rightarrow> ('k, 'v) dict \<Rightarrow> ('k, 'v) dict" where
  "drop_entries t n evs d = (upd_ht t (\<lambda>ht. ht\<lparr>ht_used := ht_used ht - of_nat n\<rparr>) d)\<lparr>dict_events := dict_events d @ evs\<rparr>"

lemma upd_ht_same: "upd_ht t (\<lambda>ht. ht) d = d"
  by (simp add: upd_ht_def)

lemma upd_ht_sel [simp]: "dict_heap (upd_ht t f d) = dict_heap d" "dict_events (upd_ht t f d) = dict_events d"
  "rehashidx (upd_ht t f d) = rehashidx d" "iterators (upd_ht t f d) = iterators d" "dict_can_resize (upd_ht t f d) = dict_can_resize d"
  by (simp_all add: upd_ht_def)

lemma drop_entries_simps [simp]:
  "drop_entries t 0 [] d = d" "dict_heap (drop_entries t n evs d) = dict_heap d"
  "drop_entries t m evs' (drop_entries t n evs d) = drop_entries t (n + m) (evs @ evs') d"
  "the_ht t (drop_entries t n evs d) = (the_ht t d)\<lparr>ht_used := ht_used (the_ht t d) - of_nat n\<rparr>"
  by (simp_all add: drop_entries_def upd_ht_def the_ht_def algebra_simps)

lemma free_entry_drop: "free_entry T t e d = drop_entries t 1 (freed_all T (dict_heap d) [e]) d"
  by (simp add: free_entry_def Let_def note_destroyed note_event_def drop_entries_def upd_ht_def)

lemma clear_chain_spec:
  "sl (\<lambda>e. de_next (dict_heap d e)) xs \<Longrightarrow> clear_chain T t (hd0 xs 0) d = Some (drop_entries t (length xs) (freed_all T (dict_heap d) xs) d)"
proof (induction xs arbitrary: d)
  case Nil
  then show ?case by (subst clear_chain.simps) simp
next
  case (Cons x xs)
  then show ?case by (subst clear_chain.simps) (simp add: free_entry_drop)
qed

lemma clear_buckets_spec:
  "length hs = length bs \<Longrightarrow> (\<And>i. i < length bs \<Longrightarrow> links (dict_heap d) (hs ! i) (bs ! i))
     \<Longrightarrow> ht_used (the_ht t d) = of_nat (length (concat bs)) \<Longrightarrow> length (concat bs) < 2 ^ 28
     \<Longrightarrow> clear_buckets T t hs d = Some (drop_entries t (length (concat bs)) (freed_all T (dict_heap d) (concat bs)) d)"
proof (induction hs arbitrary: bs d)
  case (Cons h hs)
  then obtain b bs' where bs: "bs = b # bs'" by (cases bs) auto
  have u: "unat (ht_used (the_ht t d)) = length (concat bs)" using Cons.prems(3,4) by (simp add: unat_of_nat_small del: length_concat)
  show ?case
  proof (cases "ht_used (the_ht t d) = 0")
    case True
    then have "concat bs = []" using u by (simp del: length_concat)
    then show ?thesis using True by (simp del: concat_eq_Nil_conv)
  next
    case False
    let ?d = "drop_entries t (length b) (freed_all T (dict_heap d) b) d"
    have "links (dict_heap d) h b" using Cons.prems(2) [of 0] bs by simp
    then have c: "clear_chain T t h d = Some ?d" using clear_chain_spec [of d b T t] by (simp add: links_def)
    have "clear_buckets T t hs ?d = Some (drop_entries t (length (concat bs')) (freed_all T (dict_heap ?d) (concat bs')) ?d)"
    proof (rule Cons.IH)
      show "length hs = length bs'" using Cons.prems(1) bs by simp
      show "links (dict_heap ?d) (hs ! i) (bs' ! i)" if "i < length bs'" for i using Cons.prems(2) [of "Suc i"] bs that by simp
      show "ht_used (the_ht t ?d) = of_nat (length (concat bs'))" "length (concat bs') < 2 ^ 28"
        using Cons.prems(3,4) bs by (simp_all del: length_concat)
    qed
    then show ?thesis using False c bs by (simp del: length_concat)
  qed
qed simp

lemma dictClear_spec:
  assumes rep: "ht_rep (dict_heap d) (the_ht t d) bs" "length (concat bs) < 2 ^ 28"
  shows "dictClear T t d = Some ((upd_ht t (\<lambda>_. dictReset) d)\<lparr>dict_events := dict_events d
    @ freed_all T (dict_heap d) (concat bs) @ [Free_table (ht_table (the_ht t d))]\<rparr>)"
proof -
  have len: "length (ht_table (the_ht t d)) = length bs" "unat (ht_size (the_ht t d)) = length bs"
    using rep(1) ht_rep_bound [OF rep(1)] by (simp_all add: ht_rep_def unat_of_nat_small)
  have "clear_buckets T t (ht_table (the_ht t d)) d = Some (drop_entries t (length (concat bs)) (freed_all T (dict_heap d) (concat bs)) d)"
    using rep by (intro clear_buckets_spec) (simp_all add: ht_rep_def del: length_concat)
  then show ?thesis using len by (simp add: dictClear_def drop_entries_def note_event_def upd_ht_def the_ht_def)
qed

lemma both_cleared:
  assumes rep: "dict_rep T d bs0 bs1"
  shows "\<exists>d'. Option.bind (dictClear T 0 d) (dictClear T 1) = Some d' \<and> ht0 d' = dictReset \<and> ht1 d' = dictReset
    \<and> dict_heap d' = dict_heap d \<and> dict_can_resize d' = dict_can_resize d
    \<and> dict_events d' = dict_events d @ freed_all T (dict_heap d) (concat bs0) @ Free_table (ht_table (ht0 d))
        # freed_all T (dict_heap d) (concat bs1) @ [Free_table (ht_table (ht1 d))]"
proof -
  have r: "ht_rep (dict_heap d) (the_ht 0 d) bs0" "ht_rep (dict_heap d) (ht1 d) bs1" "length (concat bs0) < 2 ^ 28" "length (concat bs1) < 2 ^ 28"
    using rep by (simp_all add: dict_rep_def entries_def del: length_concat)
  let ?d = "(upd_ht 0 (\<lambda>_. dictReset) d)\<lparr>dict_events := dict_events d @ freed_all T (dict_heap d) (concat bs0) @ [Free_table (ht_table (ht0 d))]\<rparr>"
  have 1: "dictClear T 0 d = Some ?d" using dictClear_spec [OF r(1,3)] by simp
  have "ht_rep (dict_heap ?d) (the_ht 1 ?d) bs1" using r(2) by simp
  from dictClear_spec [OF this r(4), of T] show ?thesis by (simp add: 1)
qed

subsection \<open>Properties\<close>

text \<open>
  The abstract dictionary: a map from keys to values, whose keys are told apart by the comparison of
  the \<open>dictType\<close>. \<open>A\<close> is the set of the addresses in use.
\<close>

definition stands_for :: "('k, 'v) dictType \<Rightarrow> ('k, 'v) dict \<Rightarrow> addr set \<Rightarrow> ('k \<Rightarrow> 'v option) \<Rightarrow> bool" where
  "stands_for T d A m \<longleftrightarrow> (\<exists>bs0 bs1. dict_rep T d bs0 bs1 \<and> set (entries bs0 bs1) = A \<and> dict_map T (dict_heap d) (entries bs0 bs1) = m)"

definition map_put :: "('k, 'v) dictType \<Rightarrow> 'k \<Rightarrow> 'v \<Rightarrow> ('k \<Rightarrow> 'v option) \<Rightarrow> 'k \<Rightarrow> 'v option" where
  "map_put T key v m = (\<lambda>k. if dictCompareHashKeys T k key then Some (stored_val T v) else m k)"

definition map_drop :: "('k, 'v) dictType \<Rightarrow> 'k \<Rightarrow> ('k \<Rightarrow> 'v option) \<Rightarrow> 'k \<Rightarrow> 'v option" where
  "map_drop T key m = (\<lambda>k. if dictCompareHashKeys T k key then None else m k)"

lemma stands_forI:
  "dict_rep T d bs0 bs1 \<Longrightarrow> mset (entries bs0 bs1) = M \<Longrightarrow> (\<And>k. dict_map T (dict_heap d) (entries bs0 bs1) k = m k) \<Longrightarrow> stands_for T d (set_mset M) m"
  unfolding stands_for_def by (intro exI [of _ bs0] exI [of _ bs1]) auto

lemma stands_for_init: "stands_for T (dictInit d) {} (\<lambda>_. None)"
proof -
  have "dict_rep T (dictInit d) [] []"
    by (simp add: dict_rep_def dictInit_def dict_rep_reset entries_def one_per_key_def rehashing_def)
  then show ?thesis unfolding stands_for_def by (intro exI [of _ "[]"]) (simp add: entries_def dict_map_def fun_eq_iff)
qed

context dict_type begin

lemma stands_for_rehashed:
  assumes "dict_rep T d bs0 bs1" "rehashed d (entries bs0 bs1) d' (entries b0 b1)" "dict_rep T d' b0 b1"
  shows "stands_for T d' (set (entries bs0 bs1)) (dict_map T (dict_heap d) (entries bs0 bs1))"
  using stands_forI [OF assms(3), of "mset (entries bs0 bs1)"] dict_map_rehashed [OF assms(1,2)] assms(2) by (simp add: rehashed_def)

lemma fetch_refines:
  assumes "stands_for T d A m"
  shows "\<exists>d'. dictFetchValue T key d = Some (m key, d') \<and> stands_for T d' A m"
proof -
  obtain bs0 bs1 where rep: "dict_rep T d bs0 bs1" and A: "A = set (entries bs0 bs1)" and m: "m = dict_map T (dict_heap d) (entries bs0 bs1)"
    using assms unfolding stands_for_def by blast
  obtain he d' b0 b1 where d': "dictFind T key d = Some (he, d')" "dict_rep T d' b0 b1" "rehashed d (entries bs0 bs1) d' (entries b0 b1)"
    "he = (case find (key_match T (dict_heap d') key) (entries b0 b1) of None \<Rightarrow> 0 | Some e \<Rightarrow> e)" using dictFind_spec [OF rep, of key] by blast
  have "dictFetchValue T key d = Some (m key, d')"
    using find_dict_map(1) [OF d'(2,4)] dict_map_rehashed [OF rep d'(3), of key] by (simp add: dictFetchValue_def d'(1) m)
  then show ?thesis using stands_for_rehashed [OF rep d'(3,2)] unfolding A m by blast
qed

lemma add_refines:
  assumes "stands_for T d A m" "e \<notin> A" "e \<noteq> 0" "Suc (card A) < 2 ^ 28"
  shows "\<exists>d'. dictAdd T e key v d = Some (if m key = None then DICT_OK else DICT_ERR, d')
    \<and> (if m key = None then stands_for T d' (insert e A) (map_put T key v m) else stands_for T d' A m)"
proof -
  obtain bs0 bs1 where rep: "dict_rep T d bs0 bs1" and A: "A = set (entries bs0 bs1)" and m: "m = dict_map T (dict_heap d) (entries bs0 bs1)"
    using assms unfolding stands_for_def by blast
  have l: "Suc (length (entries bs0 bs1)) < 2 ^ 28" using rep assms(4) by (simp add: A dict_rep_def distinct_card)
  obtain r d' b0 b1 where d': "dictAdd T e key v d = Some (r, d')" "dict_rep T d' b0 b1"
    "if m key = None then r = DICT_OK \<and> mset (entries b0 b1) = add_mset e (mset (entries bs0 bs1))
       \<and> (\<forall>k. dict_map T (dict_heap d') (entries b0 b1) k = map_put T key v m k)
     else r = DICT_ERR \<and> rehashed d (entries bs0 bs1) d' (entries b0 b1)"
    using dictAdd_spec [OF rep assms(2) [unfolded A] assms(3) l, of key v] unfolding m map_put_def by blast
  show ?thesis
  proof (cases "m key = None")
    case True
    then show ?thesis using d' stands_forI [OF d'(2), of "add_mset e (mset (entries bs0 bs1))" "map_put T key v m"] by (simp add: A)
  next
    case False
    then have "r = DICT_ERR" "stands_for T d' A m" using d'(3) stands_for_rehashed [OF rep _ d'(2)] unfolding A m by simp_all
    then show ?thesis using d'(1) unfolding if_not_P [OF False] by blast
  qed
qed

lemma replace_refines:
  assumes "stands_for T d A m" "e \<notin> A" "e \<noteq> 0" "Suc (card A) < 2 ^ 28"
  shows "\<exists>d'. dictReplace T e key v d = Some (if m key = None then 1 else 0, d')
    \<and> stands_for T d' (if m key = None then insert e A else A) (map_put T key v m)"
proof -
  obtain bs0 bs1 where rep: "dict_rep T d bs0 bs1" and A: "A = set (entries bs0 bs1)" and m: "m = dict_map T (dict_heap d) (entries bs0 bs1)"
    using assms unfolding stands_for_def by blast
  have l: "Suc (length (entries bs0 bs1)) < 2 ^ 28" using rep assms(4) by (simp add: A dict_rep_def distinct_card)
  let ?es = "mset (entries bs0 bs1)"
  obtain r d' b0 b1 where d': "dictReplace T e key v d = Some (r, d')" "dict_rep T d' b0 b1"
    "if m key = None then r = 1 \<and> mset (entries b0 b1) = add_mset e ?es else r = 0 \<and> mset (entries b0 b1) = ?es"
    "\<forall>k. dict_map T (dict_heap d') (entries b0 b1) k = map_put T key v m k"
    using dictReplace_spec [OF rep assms(2) [unfolded A] assms(3) l, of key v] unfolding m map_put_def by blast
  have "stands_for T d' (set_mset (if m key = None then add_mset e ?es else ?es)) (map_put T key v m)"
    by (rule stands_forI [OF d'(2)]) (use d'(3,4) in simp_all)
  then show ?thesis using d'(1,3) by (cases "m key = None") (simp_all add: A)
qed

lemma delete_refines:
  assumes "stands_for T d A m"
  shows "\<exists>d' A'. dictGenericDelete T key nofree d = Some (if m key = None then DICT_ERR else DICT_OK, d') \<and> A' \<subseteq> A
    \<and> stands_for T d' A' (map_drop T key m) \<and> card A = (if m key = None then card A' else Suc (card A'))"
proof -
  obtain bs0 bs1 where rep: "dict_rep T d bs0 bs1" and A: "A = set (entries bs0 bs1)" and m: "m = dict_map T (dict_heap d) (entries bs0 bs1)"
    using assms unfolding stands_for_def by blast
  note spec = dictGenericDelete_spec [OF rep, of key nofree]
  show ?thesis
  proof (cases "m key")
    case None
    then obtain d' b0 b1 where d': "dictGenericDelete T key nofree d = Some (DICT_ERR, d')" "dict_rep T d' b0 b1"
      "rehashed d (entries bs0 bs1) d' (entries b0 b1)" using spec by (auto simp: m)
    have "map_drop T key m = m"
    proof (rule ext)
      fix k
      have "m k = None" if "dictCompareHashKeys T k key"
        using None cmp_sym [OF that] cmp_trans unfolding m dict_map_None key_match_def by blast
      then show "map_drop T key m k = m k" by (simp add: map_drop_def)
    qed
    then show ?thesis using None d'(1) stands_for_rehashed [OF rep d'(3,2)] by (auto simp: A m)
  next
    case (Some v)
    then obtain d' b0 b1 e where d': "dictGenericDelete T key nofree d = Some (DICT_OK, d')" "dict_rep T d' b0 b1"
      "add_mset e (mset (entries b0 b1)) = mset (entries bs0 bs1)"
      "\<forall>k. dict_map T (dict_heap d') (entries b0 b1) k = map_drop T key m k" using spec unfolding map_drop_def m by auto
    have "stands_for T d' (set (entries b0 b1)) (map_drop T key m)" using stands_forI [OF d'(2) refl, of "map_drop T key m"] d'(4) by simp
    moreover have "set (entries b0 b1) \<subseteq> A" using arg_cong [OF d'(3), of set_mset] by (auto simp: A)
    moreover have "length (entries bs0 bs1) = Suc (length (entries b0 b1))" using arg_cong [OF d'(3), of size] by simp
    then have "card A = Suc (card (set (entries b0 b1)))" using rep d'(2) by (simp add: A dict_rep_def distinct_card)
    ultimately show ?thesis using Some d'(1) by (intro exI conjI) simp_all
  qed
qed

end

text \<open>C17: A dictionary implements a map, in every state of rehashing. From a dictionary that stands for \<open>m\<close>,
  fetching a key returns what \<open>m\<close> holds for it; adding fails on a key that is there and otherwise
  binds it; replacing always binds it; deleting unbinds it, fails when it is not there, and gives up
  one entry. Each call returns, and in a dictionary that stands for the new map.\<close>
theorem dict_refines_map:
  assumes "dict_type T" "stands_for T d A m" "e \<notin> A" "e \<noteq> 0" "Suc (card A) < 2 ^ 28"
  shows "(\<exists>d'. dictFetchValue T key d = Some (m key, d') \<and> stands_for T d' A m)
    \<and> (\<exists>d'. dictAdd T e key v d = Some (if m key = None then DICT_OK else DICT_ERR, d')
         \<and> (if m key = None then stands_for T d' (insert e A) (map_put T key v m) else stands_for T d' A m))
    \<and> (\<exists>d'. dictReplace T e key v d = Some (if m key = None then 1 else 0, d')
         \<and> stands_for T d' (if m key = None then insert e A else A) (map_put T key v m))
    \<and> (\<exists>d' A'. dictDelete T key d = Some (if m key = None then DICT_ERR else DICT_OK, d') \<and> A' \<subseteq> A
         \<and> stands_for T d' A' (map_drop T key m) \<and> card A = (if m key = None then card A' else Suc (card A')))"
  using dict_type.fetch_refines [OF assms(1,2)] dict_type.add_refines [OF assms] dict_type.replace_refines [OF assms]
    dict_type.delete_refines [OF assms(1,2)] unfolding dictDelete_def by blast

theorem dict_refines_map_witness:
  "\<exists>d'. dictAdd dictTypeHeapStrings 9 [3] 42 growing = Some (DICT_OK, d')
    \<and> stands_for dictTypeHeapStrings d' {7, 8, 9} (\<lambda>k. if k = [3] then Some 42 else if k = [2] then Some 7 else if k = [1] then Some 8 else None)"
proof -
  let ?m = "\<lambda>k. if k = [2] then Some 7 else if k = [1] then Some 8 else None" and ?T = "dictTypeHeapStrings :: (byte list, nat) dictType"
  have cmp: "dictCompareHashKeys ?T a b \<longleftrightarrow> a = b" for a b
    by (simp add: dictCompareHashKeys_def dictTypeHeapStrings_def dictStringCopyHTKeyCompare_def)
  have "dict_map ?T (dict_heap growing) (entries [[7]] [[8], []]) = ?m"
    by (rule ext) (simp add: entries_def dict_map_def key_match_def cmp growing_def)
  then have "stands_for ?T growing {7, 8} ?m"
    unfolding stands_for_def using growing_rep by (intro exI [of _ "[[7]]"] exI [of _ "[[8], []]"]) (simp add: entries_def)
  from dict_refines_map [OF strings.dict_type_axioms this, of 9 "[3]" 42]
  have "\<exists>d'. dictAdd ?T 9 [3] 42 growing = Some (DICT_OK, d') \<and> stands_for ?T d' (insert 9 {7, 8}) (map_put ?T [3] 42 ?m)" by simp
  moreover have "map_put ?T [3] 42 ?m = (\<lambda>k. if k = [3] then Some 42 else ?m k)"
    using cmp by (intro ext) (simp add: map_put_def stored_val_def, simp add: dictTypeHeapStrings_def)
  moreover have "insert 9 {7, 8} = {7, 8, 9 :: addr}" by auto
  ultimately show ?thesis by (simp cong: if_cong)
qed

text \<open>C34: Emptying and releasing a dictionary give back every key, value and entry exactly once, each before
  the next one of its chain, then the table, of the first table and then of the second; an emptied
  dictionary is the empty one, and a released one is given back itself.\<close>
theorem dict_empty_frees:
  assumes "dict_rep T d bs0 bs1"
  shows "\<exists>d1 d2. dictEmpty T d = Some d1 \<and> stands_for T d1 {} (\<lambda>_. None) \<and> iterators d1 = 0 \<and> dictRelease T d = Some d2
    \<and> dict_events d1 = dict_events d @ freed_all T (dict_heap d) (concat bs0) @ Free_table (ht_table (ht0 d))
        # freed_all T (dict_heap d) (concat bs1) @ [Free_table (ht_table (ht1 d))]
    \<and> dict_events d2 = dict_events d1 @ [Free_dict]"
proof -
  obtain d' where d': "Option.bind (dictClear T 0 d) (dictClear T 1) = Some d'" "ht0 d' = dictReset" "ht1 d' = dictReset"
    "dict_events d' = dict_events d @ freed_all T (dict_heap d) (concat bs0) @ Free_table (ht_table (ht0 d))
        # freed_all T (dict_heap d) (concat bs1) @ [Free_table (ht_table (ht1 d))]" using both_cleared [OF assms] by blast
  then obtain d0 where d0: "dictClear T 0 d = Some d0" "dictClear T 1 d0 = Some d'" by (auto simp: bind_eq_Some_conv)
  have "d'\<lparr>rehashidx := - 1, iterators := 0\<rparr> = dictInit d'" using d'(2,3) by (simp add: dictInit_def)
  then have "dictEmpty T d = Some (dictInit d')" using d0 by (simp add: dictEmpty_def)
  moreover have "dictRelease T d = Some (note_event Free_dict d')" using d0 by (simp add: dictRelease_def)
  moreover have "dict_events (dictInit d') = dict_events d'" "iterators (dictInit d') = 0" by (simp_all add: dictInit_def)
  ultimately show ?thesis using stands_for_init [of T d'] d'(4) by (simp add: note_event_def)
qed

theorem dict_empty_frees_witness:
  "\<exists>d. dictRelease dictTypeHeapStrings growing = Some d
    \<and> dict_events d = [Destroy_key [2], Free_entry 7, Free_table [7], Destroy_key [1], Free_entry 8, Free_table [8, 0], Free_dict]"
  using dict_empty_frees [OF growing_rep] by (auto simp: growing_def freed_all_def destroyed_def dictTypeHeapStrings_def)

end
