(* ===== verification/Dictiter.thy ===== *)
theory Dictiter
  imports Dictdel
begin

text \<open>
  Iterating over a dictionary: \<open>dictNext\<close> goes through both tables bucket by bucket, and the entry
  it has returned may be deleted.
\<close>

subsection \<open>Where an iterator stands\<close>

definition side :: "nat \<Rightarrow> addr list list \<Rightarrow> addr list list \<Rightarrow> addr list list" where
  "side t bs0 bs1 = (if t = 0 then bs0 else bs1)"

lemma side_simps [simp]: "side 0 bs0 bs1 = bs0" "side (Suc 0) bs0 bs1 = bs1"
  by (simp_all add: side_def)

definition rest_of :: "nat \<Rightarrow> nat \<Rightarrow> addr list list \<Rightarrow> addr list list \<Rightarrow> addr list" where
  "rest_of t i bs0 bs1 = concat (drop i (side t bs0 bs1)) @ (if t = 0 then concat bs1 else [])"

definition fresh_iter :: "dictIterator \<Rightarrow> bool" where
  "fresh_iter it \<longleftrightarrow> it_index it = - 1 \<and> it_table it = 0"

text \<open>
  The iterator is about to look at bucket \<open>i\<close> of table \<open>t\<close>, or has returned an entry of bucket
  \<open>i\<close>, which may be gone, and saved the one behind it; \<open>rest\<close> is still to come.
\<close>

definition before_bucket :: "addr list list \<Rightarrow> addr list list \<Rightarrow> dictIterator \<Rightarrow> nat \<Rightarrow> bool" where
  "before_bucket bs0 bs1 it i \<longleftrightarrow> it_table it \<le> 1 \<and> (it_table it = 1 \<longrightarrow> bs1 \<noteq> []) \<and> it_entry it = 0
     \<and> it_index it = of_nat i - 1 \<and> i \<le> length (side (it_table it) bs0 bs1)"

definition in_bucket :: "addr list list \<Rightarrow> addr list list \<Rightarrow> dictIterator \<Rightarrow> addr list \<Rightarrow> bool" where
  "in_bucket bs0 bs1 it rest \<longleftrightarrow> it_table it \<le> 1 \<and> (it_table it = 1 \<longrightarrow> bs1 \<noteq> []) \<and> it_entry it \<noteq> 0
     \<and> (\<exists>i pre ys. it_index it = of_nat i \<and> i < length (side (it_table it) bs0 bs1)
          \<and> side (it_table it) bs0 bs1 ! i = pre @ ys \<and> it_nextEntry it = hd0 ys 0
          \<and> rest = ys @ rest_of (it_table it) (Suc i) bs0 bs1)"

lemma in_bucketI:
  assumes "it_table it \<le> 1" "it_table it = 1 \<longrightarrow> bs1 \<noteq> []" "it_entry it \<noteq> 0" "it_index it = of_nat i"
    "i < length (side (it_table it) bs0 bs1)" "side (it_table it) bs0 bs1 ! i = pre @ ys" "it_nextEntry it = hd0 ys 0"
  shows "in_bucket bs0 bs1 it (ys @ rest_of (it_table it) (Suc i) bs0 bs1)"
  unfolding in_bucket_def using assms by blast

definition opened :: "dictIterator \<Rightarrow> ('k, 'v) dict \<Rightarrow> ('k, 'v) dict" where
  "opened it d = (if fresh_iter it then d\<lparr>iterators := iterators d + 1\<rparr> else d)"

lemma opened_sel [simp]: "dict_heap (opened it d) = dict_heap d" "ht0 (opened it d) = ht0 d" "ht1 (opened it d) = ht1 d"
  "rehashidx (opened it d) = rehashidx d" "the_ht t (opened it d) = the_ht t d" "dictIsRehashing (opened it d) = dictIsRehashing d"
  by (simp_all add: opened_def the_ht_def dictIsRehashing_def)

lemma opened_rep: "dict_rep T (opened it d) bs0 bs1 = dict_rep T d bs0 bs1"
  by (simp add: dict_rep_def)

lemma rep_side: "dict_rep T d bs0 bs1 \<Longrightarrow> ht_rep (dict_heap d) (the_ht t d) (side t bs0 bs1)"
  by (simp add: dict_rep_def the_ht_def side_def)

lemma side_end:
  assumes "ht_rep E ht bs" "i \<le> 2 ^ 30"
  shows "(ucast (ht_size ht) :: i32) \<le>s of_nat i \<longleftrightarrow> length bs \<le> i"
proof -
  have l: "length bs \<le> 2 ^ 30" "ht_size ht = of_nat (length bs)" using ht_rep_bound [OF assms(1)] assms(1) by (simp_all add: ht_rep_def)
  then have "(ucast (ht_size ht) :: i32) = of_nat (length bs)" by (simp add: ucast_of_nat_64)
  then show ?thesis using nonneg_i32_of_nat(1) [of "length bs"] nonneg_i32_of_nat(1) [of i] l(1) assms(2) by (simp add: word_sle_eq)
qed

lemma rest_of_step: "i < length (side t bs0 bs1) \<Longrightarrow> rest_of t i bs0 bs1 = side t bs0 bs1 ! i @ rest_of t (Suc i) bs0 bs1"
  by (simp add: rest_of_def Cons_nth_drop_Suc [symmetric])

lemma hd0_nil: "hd0 ys 0 \<noteq> 0 \<Longrightarrow> ys \<noteq> []"
  by auto

text \<open>Looking at a bucket: an empty one is passed, of another the first entry is returned.\<close>

lemma take_bucket:
  assumes rep: "dict_rep T d bs0 bs1" and t: "it_table it \<le> 1" "it_table it = 1 \<longrightarrow> bs1 \<noteq> []"
    and i: "i < length (side (it_table it) bs0 bs1)" "it_index it = of_nat i"
    and e: "it_entry it = ht_table (the_ht (it_table it) d) ! i"
  shows "case side (it_table it) bs0 bs1 ! i of
      [] \<Rightarrow> take_entry it d = (True, 0, it) \<and> before_bucket bs0 bs1 it (Suc i)
    | e # ys \<Rightarrow> \<exists>it'. take_entry it d = (False, e, it') \<and> e \<noteq> 0 \<and> it_entry it' = e \<and> in_bucket bs0 bs1 it' (ys @ rest_of (it_table it) (Suc i) bs0 bs1)"
proof -
  have l: "links (dict_heap d) (it_entry it) (side (it_table it) bs0 bs1 ! i)" unfolding e by (rule ht_rep_links [OF rep_side [OF rep] i(1)])
  show ?thesis
  proof (cases "side (it_table it) bs0 bs1 ! i")
    case Nil
    then have "it_entry it = 0" using l by (simp add: links_def)
    then show ?thesis using Nil t i by (simp add: take_entry_def before_bucket_def)
  next
    case (Cons e ys)
    then have "it_entry it = e" "e \<noteq> 0" "de_next (dict_heap d e) = hd0 ys 0" using l by (simp_all add: links_def)
    moreover have "in_bucket bs0 bs1 (it\<lparr>it_nextEntry := hd0 ys 0\<rparr>) (ys @ rest_of (it_table it) (Suc i) bs0 bs1)"
      using in_bucketI [of "it\<lparr>it_nextEntry := hd0 ys 0\<rparr>" bs1 i bs0 "[e]" ys] t i Cons calculation by simp
    ultimately show ?thesis using Cons by (simp add: take_entry_def)
  qed
qed

definition next_ok :: "('k, 'v) dict \<Rightarrow> addr list list \<Rightarrow> addr list list \<Rightarrow> dictIterator \<Rightarrow> addr list \<Rightarrow> bool" where
  "next_ok d bs0 bs1 it rest \<longleftrightarrow> (\<exists>he it'. dictNext it d = Some (he, it', opened it d) \<and> \<not> fresh_iter it'
     \<and> (case rest of [] \<Rightarrow> he = 0 | e # rest' \<Rightarrow> he = e \<and> e \<noteq> 0 \<and> it_entry it' = e \<and> in_bucket bs0 bs1 it' rest'))"

lemma sl_suffix: "sl nx (xs @ ys) \<Longrightarrow> sl nx ys"
  by (induction xs) auto

lemma in_bucket_not_fresh:
  assumes "dict_rep T d bs0 bs1" "in_bucket bs0 bs1 it rest"
  shows "\<not> fresh_iter it"
proof -
  obtain i where "it_index it = of_nat i" "i < length (side (it_table it) bs0 bs1)" using assms(2) unfolding in_bucket_def by blast
  moreover have "length (side (it_table it) bs0 bs1) \<le> 2 ^ 30" using ht_rep_bound [OF rep_side [OF assms(1)]] .
  ultimately show ?thesis using of_nat_i32_not_minus_1(1) [of i] by (simp add: fresh_iter_def)
qed

lemma next_ok_round:
  assumes "next_round it d = ((True, he, it'), d')" "next_ok d' bs0 bs1 it' rest" "d' = opened it d" "\<not> fresh_iter it'"
  shows "next_ok d bs0 bs1 it rest"
proof -
  have "dictNext it d = dictNext it' d'" by (subst dictNext.simps) (simp add: assms(1))
  moreover have "opened it' d' = opened it d" using assms(3,4) by (simp add: opened_def)
  ultimately show ?thesis using assms(2) by (simp add: next_ok_def)
qed

lemma next_ok_done:
  assumes "next_round it d = ((False, he, it'), opened it d)" "\<not> fresh_iter it'"
    "case rest of [] \<Rightarrow> he = 0 | e # rest' \<Rightarrow> he = e \<and> e \<noteq> 0 \<and> it_entry it' = e \<and> in_bucket bs0 bs1 it' rest'"
  shows "next_ok d bs0 bs1 it rest"
proof -
  have "dictNext it d = Some (he, it', opened it d)" by (subst dictNext.simps) (simp add: assms(1))
  then show ?thesis using assms(2,3) unfolding next_ok_def by blast
qed

text \<open>Entering bucket \<open>i\<close> in a round: the iterator \<open>it1\<close> has its index and its first entry.\<close>

lemma next_ok_bucket:
  assumes rep: "dict_rep T d bs0 bs1" and round: "next_round it d = (take_entry it1 (opened it d), opened it d)"
    and t: "it_table it1 \<le> 1" "it_table it1 = 1 \<longrightarrow> bs1 \<noteq> []" and i: "i < length (side (it_table it1) bs0 bs1)" "it_index it1 = of_nat i"
    and e: "it_entry it1 = ht_table (the_ht (it_table it1) d) ! i"
    and later: "\<And>d. dict_rep T d bs0 bs1 \<Longrightarrow> before_bucket bs0 bs1 it1 (Suc i) \<Longrightarrow> next_ok d bs0 bs1 it1 (rest_of (it_table it1) (Suc i) bs0 bs1)"
  shows "next_ok d bs0 bs1 it (rest_of (it_table it1) i bs0 bs1)"
proof -
  let ?d = "opened it d" and ?b = "side (it_table it1) bs0 bs1 ! i"
  have rep': "dict_rep T ?d bs0 bs1" using rep by (simp add: opened_rep)
  have nf: "\<not> fresh_iter it1"
    using i of_nat_i32_not_minus_1(1) [of i] ht_rep_bound [OF rep_side [OF rep, of "it_table it1"]] by (simp add: fresh_iter_def)
  have tb: "case ?b of [] \<Rightarrow> take_entry it1 ?d = (True, 0, it1) \<and> before_bucket bs0 bs1 it1 (Suc i)
    | e # ys \<Rightarrow> \<exists>it'. take_entry it1 ?d = (False, e, it') \<and> e \<noteq> 0 \<and> it_entry it' = e \<and> in_bucket bs0 bs1 it' (ys @ rest_of (it_table it1) (Suc i) bs0 bs1)"
    using take_bucket [OF rep' t i] e by simp
  note step = rest_of_step [OF i(1)]
  show ?thesis
  proof (cases ?b)
    case Nil
    then have "next_round it d = ((True, 0, it1), ?d)" "before_bucket bs0 bs1 it1 (Suc i)" using tb round by simp_all
    then show ?thesis using next_ok_round [OF _ later [OF rep'] refl nf] step Nil by simp
  next
    case (Cons e ys)
    then obtain it' where it': "take_entry it1 ?d = (False, e, it')" "e \<noteq> 0" "it_entry it' = e"
      "in_bucket bs0 bs1 it' (ys @ rest_of (it_table it1) (Suc i) bs0 bs1)" using tb by auto
    then show ?thesis using next_ok_done [where it = it and d = d and he = e and it' = it' and ?bs0.0 = bs0 and ?bs1.0 = bs1] round in_bucket_not_fresh [OF rep it'(4)] step Cons by simp
  qed
qed

lemma next_round_scan:
  assumes "it_entry it = 0"
  shows "next_round it d =
    (let it' = it\<lparr>it_index := it_index it + 1\<rparr>
     in if (ucast (ht_size (the_ht (it_table it) d)) :: i32) \<le>s it_index it + 1
        then if dictIsRehashing d \<and> it_table it = 0
             then (take_entry (it\<lparr>it_table := 1, it_index := 0, it_entry := ht_table (ht1 d) ! 0\<rparr>) (opened it d), opened it d)
             else ((False, 0, it'), opened it d)
        else (take_entry (it'\<lparr>it_entry := ht_table (the_ht (it_table it) d) ! unat (it_index it + 1)\<rparr>) (opened it d), opened it d))"
proof -
  have op: "(if it_index it = - 1 \<and> it_table it = 0 then d\<lparr>iterators := iterators d + 1\<rparr> else d) = opened it d"
    by (simp add: opened_def fresh_iter_def)
  show ?thesis unfolding next_round_def op Let_def using assms by simp
qed

lemma scan_spec:
  "dict_rep T d bs0 bs1 \<Longrightarrow> before_bucket bs0 bs1 it i \<Longrightarrow> next_ok d bs0 bs1 it (rest_of (it_table it) i bs0 bs1)"
proof (induction "(if it_table it = 0 then length bs0 + Suc (length bs1) else length bs1) - i" arbitrary: it i d rule: less_induct)
  case less
  let ?t = "it_table it"
  note rep = less.prems(1)
  have b: "?t \<le> 1" "?t = 1 \<longrightarrow> bs1 \<noteq> []" "it_entry it = 0" "it_index it = of_nat i - 1" "i \<le> length (side ?t bs0 bs1)"
    using less.prems(2) unfolding before_bucket_def by blast+
  have reh: "dictIsRehashing d \<longleftrightarrow> bs1 \<noteq> []" by (rule dict_rep_rehashing [OF rep])
  have bound: "length (side ?t bs0 bs1) \<le> 2 ^ 30" using ht_rep_bound [OF rep_side [OF rep]] .
  have le: "i \<le> 2 ^ 30" using b(5) bound by simp
  let ?it = "it\<lparr>it_index := of_nat i\<rparr>" and ?d = "opened it d"
  have past: "(ucast (ht_size (the_ht ?t d)) :: i32) \<le>s of_nat i \<longleftrightarrow> length (side ?t bs0 bs1) \<le> i"
    by (rule side_end [OF rep_side [OF rep] le])
  note round = next_round_scan [OF b(3), of d]
  have next_i: "it_index it + 1 = of_nat i" using b(4) by simp
  show ?case
  proof (cases "i < length (side ?t bs0 bs1)")
    case True
    let ?it1 = "?it\<lparr>it_entry := ht_table (the_ht ?t d) ! i\<rparr>"
    have ui: "unat (of_nat i :: i32) = i" by (rule of_nat_i32_not_minus_1(2) [OF le])
    have "next_round it d = (take_entry ?it1 ?d, ?d)"
      using True past unfolding round next_i by (simp add: Let_def ui)
    moreover have "next_ok d' bs0 bs1 ?it1 (rest_of ?t (Suc i) bs0 bs1)"
      if "dict_rep T d' bs0 bs1" "before_bucket bs0 bs1 ?it1 (Suc i)" for d' :: "('a, 'b) dict"
    proof -
      have "(if ?t = 0 then length bs0 + Suc (length bs1) else length bs1) - Suc i
          < (if ?t = 0 then length bs0 + Suc (length bs1) else length bs1) - i"
        using True b(1) by (auto simp: side_def)
      then show ?thesis using less.hyps [of ?it1 "Suc i" d'] that by simp
    qed
    ultimately show ?thesis using next_ok_bucket [OF rep, of it ?it1 i] b(1,2) True by simp
  next
    case False
    then have i: "i = length (side ?t bs0 bs1)" using b(5) by simp
    show ?thesis
    proof (cases "bs1 \<noteq> [] \<and> ?t = 0")
      case True
      let ?it1 = "it\<lparr>it_table := 1, it_index := 0, it_entry := ht_table (ht1 d) ! 0\<rparr>"
      have "next_round it d = (take_entry ?it1 ?d, ?d)"
        using False True past reh unfolding round next_i by (simp add: Let_def)
      moreover have "next_ok d' bs0 bs1 ?it1 (rest_of 1 (Suc 0) bs0 bs1)"
        if "dict_rep T d' bs0 bs1" "before_bucket bs0 bs1 ?it1 (Suc 0)" for d' :: "('a, 'b) dict"
        using less.hyps [of ?it1 "Suc 0" d'] that True i by simp
      ultimately have "next_ok d bs0 bs1 it (rest_of 1 0 bs0 bs1)"
        using next_ok_bucket [OF rep, of it ?it1 0] True by simp
      moreover have "rest_of ?t i bs0 bs1 = rest_of 1 0 bs0 bs1" using True i by (simp add: rest_of_def)
      ultimately show ?thesis by simp
    next
      case no: False
      have "next_round it d = ((False, 0, ?it), ?d)"
        using False no past reh unfolding round next_i by (auto simp: Let_def)
      moreover have "rest_of ?t i bs0 bs1 = []" using i no b(1,2) by (auto simp: rest_of_def side_def)
      moreover have "\<not> fresh_iter ?it" using of_nat_i32_not_minus_1(1) [OF le] by (simp add: fresh_iter_def)
      ultimately show ?thesis using next_ok_done [of it d 0 ?it] by simp
    qed
  qed
qed

text \<open>After an entry has been returned.\<close>

lemma next_spec:
  assumes rep: "dict_rep T d bs0 bs1" and b: "in_bucket bs0 bs1 it rest"
  shows "next_ok d bs0 bs1 it rest"
proof -
  let ?t = "it_table it"
  obtain i pre ys where i: "?t \<le> 1" "?t = 1 \<longrightarrow> bs1 \<noteq> []" "it_entry it \<noteq> 0" "it_index it = of_nat i" "i < length (side ?t bs0 bs1)"
    "side ?t bs0 bs1 ! i = pre @ ys" "it_nextEntry it = hd0 ys 0" "rest = ys @ rest_of ?t (Suc i) bs0 bs1"
    using b unfolding in_bucket_def by blast
  have nf: "\<not> fresh_iter it" by (rule in_bucket_not_fresh [OF rep b])
  let ?it = "it\<lparr>it_entry := hd0 ys 0\<rparr>"
  have op: "opened it d = d" using nf by (simp add: opened_def)
  have round: "next_round it d = (take_entry ?it d, d)" using i(3,7) by (simp add: next_round_def)
  have l: "links (dict_heap d) (ht_table (the_ht ?t d) ! i) (pre @ ys)"
    using ht_rep_links [OF rep_side [OF rep] i(5)] i(6) by simp
  have sl: "sl (\<lambda>x. de_next (dict_heap d x)) (pre @ ys)" using l by (simp add: links_def)
  show ?thesis
  proof (cases ys)
    case Nil
    have "next_round it d = ((True, 0, ?it), d)" using Nil by (simp add: round take_entry_def)
    moreover have "before_bucket bs0 bs1 ?it (Suc i)" using i Nil by (simp add: before_bucket_def)
    then have "next_ok d bs0 bs1 ?it (rest_of ?t (Suc i) bs0 bs1)" using scan_spec [OF rep] by fastforce
    moreover have "\<not> fresh_iter ?it" using nf by (simp add: fresh_iter_def)
    ultimately show ?thesis using next_ok_round [of it d 0 ?it d] i(8) Nil op by simp
  next
    case (Cons e zs)
    have e: "e \<noteq> 0" "de_next (dict_heap d e) = hd0 zs 0" using sl_suffix [OF sl] Cons by auto
    let ?it' = "?it\<lparr>it_nextEntry := hd0 zs 0\<rparr>"
    have "next_round it d = ((False, e, ?it'), opened it d)" using Cons e op by (simp add: round take_entry_def)
    moreover have ib: "in_bucket bs0 bs1 ?it' (zs @ rest_of ?t (Suc i) bs0 bs1)"
      using in_bucketI [of ?it' bs1 i bs0 "pre @ [e]" zs] i Cons e by simp
    ultimately show ?thesis using next_ok_done [of it d e ?it'] in_bucket_not_fresh [OF rep ib] i(8) Cons e by simp
  qed
qed

subsection \<open>Deleting what the iterator has returned\<close>

text \<open>
  The loop of a client: it takes entries until there is no more, deletes those whose key and value
  satisfy \<open>unwanted\<close>, and releases the iterator. The result lists the entries it was given.
\<close>

partial_function (option) dict_sweep ::
    "('k, 'v) dictType \<Rightarrow> ('k \<Rightarrow> 'v \<Rightarrow> bool) \<Rightarrow> dictIterator \<Rightarrow> ('k, 'v) dict \<Rightarrow> (addr list \<times> ('k, 'v) dict) option" where
  [code]: "dict_sweep T unwanted it d =
     Option.bind (dictNext it d) (\<lambda>(he, it, d).
       if he = 0 then Some ([], dictReleaseIterator it d)
       else
         let x = dict_heap d he
         in Option.bind (if unwanted (de_key x) (de_val x) then map_option snd (dictDelete T (de_key x) d) else Some d) (\<lambda>d.
            Option.bind (dict_sweep T unwanted it d) (\<lambda>(es, d). Some (he # es, d))))"

lemma without_split:
  assumes "without e bs bs'"
  shows "\<exists>us vs. concat bs = us @ e # vs \<and> concat bs' = us @ vs"
proof -
  obtain i ys zs where i: "i < length bs" "bs ! i = ys @ e # zs" "bs' = bs[i := ys @ zs]" using assms unfolding without_def by blast
  have "concat bs = (concat (take i bs) @ ys) @ e # zs @ concat (drop (Suc i) bs)"
    by (subst id_take_nth_drop [OF i(1)]) (simp add: i(2))
  moreover have "concat bs' = (concat (take i bs) @ ys) @ zs @ concat (drop (Suc i) bs)"
    unfolding i(3) using i(1) by (simp add: upd_conv_take_nth_drop)
  ultimately show ?thesis by blast
qed

lemma removed_split:
  assumes "removed e bs0 bs1 b0 b1"
  shows "\<exists>us vs. entries bs0 bs1 = us @ e # vs \<and> entries b0 b1 = us @ vs"
proof -
  consider "without e bs0 b0" "b1 = bs1" | "b0 = bs0" "without e bs1 b1" using assms by (auto simp: removed_def)
  then show ?thesis
  proof cases
    case 1
    then obtain us vs where "concat bs0 = us @ e # vs" "concat b0 = us @ vs" using without_split by blast
    then show ?thesis using 1(2) by (intro exI [of _ us] exI [of _ "vs @ concat bs1"]) (simp add: entries_def)
  next
    case 2
    then obtain us vs where "concat bs1 = us @ e # vs" "concat b1 = us @ vs" using without_split by blast
    then show ?thesis using 2(1) by (intro exI [of _ "concat bs0 @ us"] exI [of _ vs]) (simp add: entries_def)
  qed
qed

lemma removed_at:
  assumes "removed e bs0 bs1 b0 b1" "distinct (entries bs0 bs1)" "entries bs0 bs1 = us @ e # vs"
  shows "entries b0 b1 = us @ vs"
proof -
  obtain us' vs' where "entries bs0 bs1 = us' @ e # vs'" "entries b0 b1 = us' @ vs'" using removed_split [OF assms(1)] by blast
  then show ?thesis using append_Cons_eq_iff [of e us' vs' us vs] assms(2,3) by simp
qed

text \<open>What is still to come is a suffix of the entries; taking out something else leaves it alone.\<close>

lemma rest_of_suffix: "\<exists>us. entries bs0 bs1 = us @ rest_of t i bs0 bs1"
proof (cases "t = 0")
  case True
  have "concat bs0 = concat (take i bs0) @ concat (drop i bs0)" by (simp flip: concat_append)
  then show ?thesis using True by (intro exI [of _ "concat (take i bs0)"]) (simp add: entries_def rest_of_def)
next
  case False
  have "concat bs1 = concat (take i bs1) @ concat (drop i bs1)" by (simp flip: concat_append)
  then show ?thesis using False by (intro exI [of _ "concat bs0 @ concat (take i bs1)"]) (simp add: entries_def rest_of_def side_def)
qed

lemma without_later:
  assumes w: "without e bs bs'" and i: "i < length bs" "bs ! i = pre @ ys" and e: "e \<notin> set ys" "e \<notin> set (concat (drop (Suc i) bs))"
  shows "(\<exists>pre'. bs' ! i = pre' @ ys) \<and> drop (Suc i) bs' = drop (Suc i) bs"
proof -
  obtain j us vs where j: "j < length bs" "bs ! j = us @ e # vs" "bs' = bs[j := us @ vs]" using w unfolding without_def by blast
  have "j < Suc i"
  proof (rule ccontr)
    assume "\<not> j < Suc i"
    then have "e \<in> set (concat (drop (Suc i) bs))" unfolding in_concat_nth using j(1,2) by (intro exI [of _ "j - Suc i"]) simp
    then show False using e(2) by blast
  qed
  then have d: "drop (Suc i) bs' = drop (Suc i) bs" using j(3) by simp
  show ?thesis
  proof (cases "j = i")
    case True
    then have "us @ e # vs = pre @ ys" using i(2) j(2) by simp
    then obtain p where "vs = p @ ys" using e(1) by (auto simp: append_eq_append_conv2 Cons_eq_append_conv)
    then show ?thesis using True j(1,3) d by simp
  next
    case False
    then show ?thesis using i(2) j(3) d by simp
  qed
qed

lemma in_bucket_removed:
  assumes b: "in_bucket bs0 bs1 it rest" and r: "removed e bs0 bs1 b0 b1" and e: "e \<notin> set rest"
  shows "in_bucket b0 b1 it rest"
proof -
  let ?t = "it_table it"
  obtain i pre ys where i: "?t \<le> 1" "?t = 1 \<longrightarrow> bs1 \<noteq> []" "it_entry it \<noteq> 0" "it_index it = of_nat i" "i < length (side ?t bs0 bs1)"
    "side ?t bs0 bs1 ! i = pre @ ys" "it_nextEntry it = hd0 ys 0" "rest = ys @ rest_of ?t (Suc i) bs0 bs1"
    using b unfolding in_bucket_def by blast
  have l: "length b0 = length bs0" "length b1 = length bs1" using r without_facts(1) by (auto simp: removed_def)
  then have sl: "length (side ?t b0 b1) = length (side ?t bs0 bs1)" "b1 = [] \<longleftrightarrow> bs1 = []" by (auto simp: side_def)
  have "(\<exists>pre'. side ?t b0 b1 ! i = pre' @ ys) \<and> rest_of ?t (Suc i) b0 b1 = rest_of ?t (Suc i) bs0 bs1"
  proof (cases "?t = 0")
    case True
    have "e \<in> set (concat bs1)" if "without e bs1 b1" using arg_cong [OF without_facts(2) [OF that], of set_mset] by auto
    then have "without e bs0 b0" "b1 = bs1" using r e i(8) True by (auto simp: removed_def rest_of_def)
    then show ?thesis using without_later [of e bs0 b0 i pre ys] i(5,6,8) e True by (simp add: rest_of_def)
  next
    case False
    then have t: "?t = 1" using i(1) by simp
    show ?thesis
    proof (cases "b1 = bs1")
      case True
      then show ?thesis using t i(6) by (auto simp: rest_of_def)
    next
      case False
      then have "without e bs1 b1" using r by (auto simp: removed_def)
      then show ?thesis using without_later [of e bs1 b1 i pre ys] i(5,6,8) e t by (simp add: rest_of_def)
    qed
  qed
  then obtain pre' where "side ?t b0 b1 ! i = pre' @ ys" "rest = ys @ rest_of ?t (Suc i) b0 b1" using i(8) by auto
  then show ?thesis using in_bucketI [of it b1 i b0 pre' ys] i(1-5,7) sl by simp
qed

lemma in_bucket_suffix:
  assumes "in_bucket bs0 bs1 it rest"
  shows "\<exists>us. entries bs0 bs1 = us @ rest"
proof -
  let ?t = "it_table it"
  obtain i pre ys where i: "i < length (side ?t bs0 bs1)" "side ?t bs0 bs1 ! i = pre @ ys" "rest = ys @ rest_of ?t (Suc i) bs0 bs1"
    using assms unfolding in_bucket_def by blast
  obtain us where "entries bs0 bs1 = us @ rest_of ?t i bs0 bs1" using rest_of_suffix by blast
  then have "entries bs0 bs1 = (us @ pre) @ rest" using rest_of_step [OF i(1)] i(2,3) by simp
  then show ?thesis by blast
qed

lemma freed_all_cong: "kv_same E E' \<Longrightarrow> freed_all T E' es = freed_all T E es"
  by (induction es) (simp_all add: destroyed_def kv_same_def)

definition is_unwanted :: "('k \<Rightarrow> 'v \<Rightarrow> bool) \<Rightarrow> (addr \<Rightarrow> ('k, 'v) dictEntry) \<Rightarrow> addr \<Rightarrow> bool" where
  "is_unwanted unwanted E e \<longleftrightarrow> unwanted (de_key (E e)) (de_val (E e))"

lemma is_unwanted_cong: "kv_same E E' \<Longrightarrow> is_unwanted unwanted E' = is_unwanted unwanted E"
  by (simp add: is_unwanted_def [abs_def] kv_same_def)

text \<open>\<open>d'\<close> has lost the unwanted entries of \<open>rest\<close>, in this order, and nothing else.\<close>

definition swept :: "('k, 'v) dictType \<Rightarrow> ('k \<Rightarrow> 'v \<Rightarrow> bool) \<Rightarrow> addr list \<Rightarrow> ('k, 'v) dict \<Rightarrow> ('k, 'v) dict \<Rightarrow> bool" where
  "swept T unwanted rest d d' \<longleftrightarrow> kv_same (dict_heap d) (dict_heap d') \<and> rehashidx d' = rehashidx d \<and> dict_can_resize d' = dict_can_resize d
     \<and> dict_events d' = dict_events d @ freed_all T (dict_heap d) (filter (is_unwanted unwanted (dict_heap d)) rest)"

lemma swept_trans:
  assumes "swept T unwanted xs d1 d2" "swept T unwanted ys d2 d3"
  shows "swept T unwanted (xs @ ys) d1 d3"
proof -
  have kv: "kv_same (dict_heap d1) (dict_heap d2)" using assms(1) by (simp add: swept_def)
  show ?thesis using assms kv_same_trans [OF kv] unfolding swept_def freed_all_cong [OF kv] is_unwanted_cong [OF kv] by simp
qed

lemma swept_opened: "swept T unwanted es (opened it d) d' = swept T unwanted es d d'"
  by (cases "fresh_iter it") (simp_all add: swept_def opened_def)

context dict_type begin

text \<open>The entry \<open>e\<close> just returned is deleted if it is unwanted, and the iterator stands where it stood.\<close>

lemma sweep_entry:
  assumes rep: "dict_rep T d bs0 bs1" and b: "in_bucket bs0 bs1 it rest" and es: "entries bs0 bs1 = us @ e # rest" and i: "iterators d \<noteq> 0"
  shows "\<exists>d' b0 b1. (if is_unwanted unwanted (dict_heap d) e then map_option snd (dictDelete T (de_key (dict_heap d e)) d) else Some d) = Some d'
    \<and> dict_rep T d' b0 b1 \<and> in_bucket b0 b1 it rest \<and> entries b0 b1 = us @ filter (\<lambda>e. \<not> is_unwanted unwanted (dict_heap d) e) [e] @ rest
    \<and> iterators d' = iterators d \<and> swept T unwanted [e] d d'"
proof (cases "is_unwanted unwanted (dict_heap d) e")
  case False
  then have "swept T unwanted [e] d d" by (simp add: swept_def)
  then show ?thesis using False rep b es by (intro exI conjI) simp_all
next
  case True
  have dist: "distinct (entries bs0 bs1)" using rep by (simp add: dict_rep_def)
  have e: "e \<in> set (entries bs0 bs1)" "e \<notin> set rest" using es dist by auto
  obtain d' b0 b1 where d': "dictDelete T (de_key (dict_heap d e)) d = Some (DICT_OK, d')" "dict_rep T d' b0 b1" "removed e bs0 bs1 b0 b1"
    "deleted T False e d d'" using delete_entry_spec [OF rep e(1) i] by blast
  have "in_bucket b0 b1 it rest" by (rule in_bucket_removed [OF b d'(3) e(2)])
  moreover have "entries b0 b1 = us @ rest" by (rule removed_at [OF d'(3) dist es])
  moreover have "swept T unwanted [e] d d'" "iterators d' = iterators d" using d'(4) True by (simp_all add: deleted_def swept_def)
  ultimately show ?thesis using True d'(1,2) by (intro exI conjI) simp_all
qed

lemma sweep_spec:
  "dict_rep T d bs0 bs1 \<Longrightarrow> next_ok d bs0 bs1 it rest \<Longrightarrow> entries bs0 bs1 = us @ rest \<Longrightarrow> iterators (opened it d) \<noteq> 0
    \<Longrightarrow> \<exists>d' b0 b1. dict_sweep T unwanted it d = Some (rest, d') \<and> dict_rep T d' b0 b1
      \<and> entries b0 b1 = us @ filter (\<lambda>e. \<not> is_unwanted unwanted (dict_heap d) e) rest
      \<and> iterators d' = iterators (opened it d) - 1 \<and> swept T unwanted rest d d'"
proof (induction rest arbitrary: d bs0 bs1 it us)
  case Nil
  obtain it' where n: "dictNext it d = Some (0, it', opened it d)" "\<not> fresh_iter it'" using Nil.prems(2) unfolding next_ok_def by auto
  let ?d = "dictReleaseIterator it' (opened it d)"
  have d: "?d = (opened it d)\<lparr>iterators := iterators (opened it d) - 1\<rparr>" using n(2) unfolding dictReleaseIterator_def fresh_iter_def by simp
  have "dict_sweep T unwanted it d = Some ([], ?d)" by (subst dict_sweep.simps) (simp add: n(1))
  moreover have "dict_rep T ?d bs0 bs1" using Nil.prems(1) unfolding d by (simp add: dict_rep_def)
  moreover have "swept T unwanted [] d ?d" unfolding d by (simp add: swept_def opened_def)
  moreover have "iterators ?d = iterators (opened it d) - 1" unfolding d by simp
  ultimately show ?case using Nil.prems(3) by (intro exI conjI) simp_all
next
  case (Cons e rest)
  obtain it' where n: "dictNext it d = Some (e, it', opened it d)" "\<not> fresh_iter it'" "e \<noteq> 0" "in_bucket bs0 bs1 it' rest"
    using Cons.prems(2) unfolding next_ok_def by auto
  let ?d = "opened it d"
  have rep: "dict_rep T ?d bs0 bs1" using Cons.prems(1) by (simp add: opened_rep)
  obtain d1 b0 b1 where d1: "(if is_unwanted unwanted (dict_heap ?d) e then map_option snd (dictDelete T (de_key (dict_heap ?d e)) ?d) else Some ?d) = Some d1"
    "dict_rep T d1 b0 b1" "in_bucket b0 b1 it' rest" "entries b0 b1 = (us @ filter (\<lambda>e. \<not> is_unwanted unwanted (dict_heap ?d) e) [e]) @ rest"
    "iterators d1 = iterators ?d" "swept T unwanted [e] ?d d1"
    using sweep_entry [OF rep n(4) Cons.prems(3,4), of unwanted] by auto
  have o: "opened it' d1 = d1" using n(2) by (simp add: opened_def)
  have kv: "kv_same (dict_heap d) (dict_heap d1)" using d1(6) by (simp add: swept_def)
  have "iterators (opened it' d1) \<noteq> 0" using o d1(5) Cons.prems(4) by simp
  then obtain d' c0 c1 where d': "dict_sweep T unwanted it' d1 = Some (rest, d')" "dict_rep T d' c0 c1"
    "entries c0 c1 = (us @ filter (\<lambda>e. \<not> is_unwanted unwanted (dict_heap ?d) e) [e]) @ filter (\<lambda>e. \<not> is_unwanted unwanted (dict_heap d1) e) rest"
    "iterators d' = iterators (opened it' d1) - 1" "swept T unwanted rest d1 d'"
    using Cons.IH [OF d1(2) next_spec [OF d1(2,3)] d1(4)] by blast
  have "dict_sweep T unwanted it d = Some (e # rest, d')"
    using d1(1) d'(1) n(3) by (subst dict_sweep.simps) (simp add: n(1) is_unwanted_def Let_def)
  moreover have "entries c0 c1 = us @ filter (\<lambda>e. \<not> is_unwanted unwanted (dict_heap d) e) (e # rest)"
    using d'(3) by (simp add: is_unwanted_cong [OF kv])
  moreover have "swept T unwanted [e] d d1" using d1(6) by (simp only: swept_opened)
  then have "swept T unwanted (e # rest) d d'" using swept_trans [OF _ d'(5), of "[e]" d] by simp
  ultimately show ?case using d'(2,4) d1(5) o by (intro exI conjI) simp_all
qed

lemma dict_sweep_spec:
  assumes rep: "dict_rep T d bs0 bs1" and i: "iterators d \<noteq> - 1"
  shows "\<exists>d' b0 b1. dict_sweep T unwanted dictGetIterator d = Some (entries bs0 bs1, d') \<and> dict_rep T d' b0 b1
    \<and> entries b0 b1 = filter (\<lambda>e. \<not> is_unwanted unwanted (dict_heap d) e) (entries bs0 bs1)
    \<and> iterators d' = iterators d \<and> swept T unwanted (entries bs0 bs1) d d'"
proof -
  have f: "fresh_iter dictGetIterator" by (simp add: fresh_iter_def dictGetIterator_def)
  have "before_bucket bs0 bs1 dictGetIterator 0" by (simp add: before_bucket_def dictGetIterator_def)
  then have "next_ok d bs0 bs1 dictGetIterator (entries bs0 bs1)"
    using scan_spec [OF rep, of dictGetIterator 0] by (simp add: rest_of_def entries_def dictGetIterator_def)
  moreover have "iterators d + 1 \<noteq> 0" using i by (metis add_eq_0_iff2)
  ultimately show ?thesis using sweep_spec [OF rep, of dictGetIterator "entries bs0 bs1" "[]" unwanted] f by (simp add: opened_def)
qed

end

text \<open>C19: An iteration that deletes some of the entries it is given sees every entry of the dictionary exactly
  once, in both tables and also when the dictionary is being rehashed, and leaves exactly the entries
  it has not deleted; those are given back in the order they were seen. Rehashing stands still
  meanwhile, and the count of iterators is what it was.\<close>
theorem dict_sweep_visits_all:
  assumes T: "dict_type T" and rep: "dict_rep T d bs0 bs1" and i: "iterators d \<noteq> - 1"
  shows "\<exists>d' b0 b1. dict_sweep T unwanted dictGetIterator d = Some (entries bs0 bs1, d') \<and> distinct (entries bs0 bs1) \<and> dict_rep T d' b0 b1
    \<and> entries b0 b1 = filter (\<lambda>e. \<not> is_unwanted unwanted (dict_heap d) e) (entries bs0 bs1)
    \<and> dict_events d' = dict_events d @ freed_all T (dict_heap d) (filter (is_unwanted unwanted (dict_heap d)) (entries bs0 bs1))
    \<and> rehashidx d' = rehashidx d \<and> iterators d' = iterators d"
proof -
  have "distinct (entries bs0 bs1)" using rep by (simp add: dict_rep_def)
  then show ?thesis using dict_type.dict_sweep_spec [OF T rep i, of unwanted] unfolding swept_def by blast
qed

theorem dict_sweep_visits_all_witness:
  "\<exists>d. dict_sweep dictTypeHeapStrings (\<lambda>k v. v = 7) dictGetIterator growing = Some ([7, 8], d) \<and> dict_events d = [Destroy_key [2], Free_entry 7]"
  using dict_sweep_visits_all [OF strings.dict_type_axioms growing_rep, of "\<lambda>k v. v = 7"]
  by (auto simp: growing_def freed_all_def destroyed_def dictTypeHeapStrings_def is_unwanted_def entries_def)

end
