(* ===== verification/Lzf.thy ===== *)
theory Lzf
  imports Prelude
begin

text \<open>
  The compression of strings in dumps of Redis: lzf_compress (src/examples/redis-2.0.2/lzf_c.c) and
  lzf_decompress (lzf_d.c) with the configuration of lzfP.h (\<open>VERY_FAST\<close>, \<open>CHECK_INPUT\<close>,
  no \<open>INIT_HTAB\<close>, unaligned reads). Buffers are lists of bytes and pointers into them are
  indices; an access outside its buffer is \<open>Wild_access\<close>. The hash table of the compressor holds
  pointers and is not initialised, so it is an argument, and so is the address of the input.
\<close>

subsection \<open>Buffers\<close>

definition buf_get :: "byte list \<Rightarrow> nat \<Rightarrow> byte result" where
  "buf_get xs i = (if i < length xs then Inr (xs ! i) else Inl Wild_access)"

definition buf_set :: "byte list \<Rightarrow> nat \<Rightarrow> byte \<Rightarrow> byte list result" where
  "buf_set xs i b = (if i < length xs then Inr (xs[i := b]) else Inl Wild_access)"

subsection \<open>Compression\<close>

definition HLOG :: nat where "HLOG = 16"

definition MAX_LIT :: nat where "MAX_LIT = 2 ^ 5"

definition MAX_OFF :: addr where "MAX_OFF = 2 ^ 13"

definition MAX_REF :: nat where "MAX_REF = 2 ^ 8 + 2 ^ 3"

definition FRST :: "byte list \<Rightarrow> nat \<Rightarrow> u32 result" where
  "FRST inp p = rbind (buf_get inp p) (\<lambda>a. rbind (buf_get inp (p + 1)) (\<lambda>b. Inr (push_bit 8 (ucast a) OR ucast b)))"

definition NEXT :: "u32 \<Rightarrow> byte list \<Rightarrow> nat \<Rightarrow> u32 result" where
  "NEXT v inp p = rbind (buf_get inp (p + 2)) (\<lambda>c. Inr (push_bit 8 v OR ucast c))"

definition IDX :: "u32 \<Rightarrow> u32" where
  "IDX h = (drop_bit (3 * 8 - HLOG) h - h * 5) AND (2 ^ HLOG - 1)"

text \<open>The local variables of \<open>lzf_compress\<close>.\<close>

record lzf =
  lz_ip :: nat
  lz_op :: nat
  lz_lit :: nat
  lz_hval :: u32
  lz_htab :: "u32 \<Rightarrow> addr"
  lz_out :: "byte list"

text \<open>
  \<open>A\<close> is the address of the input. The test of a reference, in the order of the code; what it points
  to is read only when it lies inside the input.
\<close>

definition lz_match :: "addr \<Rightarrow> byte list \<Rightarrow> nat \<Rightarrow> addr \<Rightarrow> bool result" where
  "lz_match A inp ip ref =
     (if (A + of_nat ip) - ref - 1 < MAX_OFF \<and> ip + 4 < length inp \<and> ref > A
      then
        let r = unat (ref - A)
        in rbind (buf_get inp r) (\<lambda>r0. rbind (buf_get inp (r + 1)) (\<lambda>r1.
           rbind (buf_get inp ip) (\<lambda>i0. rbind (buf_get inp (ip + 1)) (\<lambda>i1.
             if r0 = i0 \<and> r1 = i1
             then rbind (buf_get inp (r + 2)) (\<lambda>r2. rbind (buf_get inp (ip + 2)) (\<lambda>i2. Inr (r2 = i2)))
             else Inr False))))
      else Inr False)"

text \<open>The 16 unrolled comparisons; the flag tells whether all of them succeeded.\<close>

fun lz_unrolled :: "byte list \<Rightarrow> nat \<Rightarrow> nat \<Rightarrow> nat \<Rightarrow> nat \<Rightarrow> (nat \<times> bool) result" where
  "lz_unrolled inp r ip 0 len = Inr (len, True)"
| "lz_unrolled inp r ip (Suc n) len =
     rbind (buf_get inp (r + (len + 1))) (\<lambda>a. rbind (buf_get inp (ip + (len + 1))) (\<lambda>b.
       if a \<noteq> b then Inr (len + 1, False) else lz_unrolled inp r ip n (len + 1)))"

function lz_rest :: "byte list \<Rightarrow> nat \<Rightarrow> nat \<Rightarrow> nat \<Rightarrow> nat \<Rightarrow> nat result" where
  "lz_rest inp r ip maxlen len =
     (let len = len + 1
      in if len < maxlen
         then rbind (buf_get inp (r + len)) (\<lambda>a. rbind (buf_get inp (ip + len)) (\<lambda>b.
                if a = b then lz_rest inp r ip maxlen len else Inr len))
         else Inr len)"
  by pat_completeness auto
termination by (relation "measure (\<lambda>(inp, r, ip, maxlen, len). maxlen - len)") auto

definition lz_length :: "byte list \<Rightarrow> nat \<Rightarrow> nat \<Rightarrow> nat result" where
  "lz_length inp r ip =
     (let maxlen = min (length inp - ip - 2) MAX_REF
      in if maxlen > 16
         then rbind (lz_unrolled inp r ip 16 2) (\<lambda>(len, all). if all then lz_rest inp r ip maxlen len else Inr len)
         else lz_rest inp r ip maxlen 2)"

text \<open>\<open>op [- lit - 1] = lit - 1\<close> ends a run: the byte in front of it tells its length.\<close>

definition stop_run :: "lzf \<Rightarrow> lzf result" where
  "stop_run s =
     (if lz_lit s + 1 \<le> lz_op s
      then rbind (buf_set (lz_out s) (lz_op s - lz_lit s - 1) (of_nat (lz_lit s) - 1)) (\<lambda>out. Inr (s\<lparr>lz_out := out\<rparr>))
      else Inl Wild_access)"

definition undo_run :: "lzf \<Rightarrow> lzf" where
  "undo_run s = (if lz_lit s = 0 then s\<lparr>lz_op := lz_op s - 1\<rparr> else s)"

definition put_byte :: "byte \<Rightarrow> lzf \<Rightarrow> lzf result" where
  "put_byte b s = rbind (buf_set (lz_out s) (lz_op s) b) (\<lambda>out. Inr (s\<lparr>lz_out := out, lz_op := lz_op s + 1\<rparr>))"

definition start_run :: "lzf \<Rightarrow> lzf" where
  "start_run s = s\<lparr>lz_lit := 0, lz_op := lz_op s + 1\<rparr>"

text \<open>One literal byte, as in the main loop and in the one for the last bytes.\<close>

definition put_literal :: "byte list \<Rightarrow> lzf \<Rightarrow> lzf result" where
  "put_literal inp s =
     rbind (buf_get inp (lz_ip s)) (\<lambda>b.
     rbind (put_byte b (s\<lparr>lz_lit := lz_lit s + 1\<rparr>)) (\<lambda>s.
       let s = s\<lparr>lz_ip := lz_ip s + 1\<rparr>
       in if lz_lit s = MAX_LIT then rbind (stop_run s) (\<lambda>s. Inr (start_run s)) else Inr s))"

text \<open>A reference of \<open>len + 2\<close> bytes, \<open>off + 1\<close> bytes back.\<close>

definition put_ref :: "addr \<Rightarrow> nat \<Rightarrow> lzf \<Rightarrow> lzf result" where
  "put_ref off len s =
     rbind (if len < 7 then put_byte (ucast (drop_bit 8 off + push_bit 5 (of_nat len))) s
            else rbind (put_byte (ucast (drop_bit 8 off + push_bit 5 7)) s) (put_byte (of_nat (len - 7)))) (put_byte (ucast off))"

definition note_pos :: "addr \<Rightarrow> byte list \<Rightarrow> lzf \<Rightarrow> lzf result" where
  "note_pos A inp s =
     rbind (NEXT (lz_hval s) inp (lz_ip s)) (\<lambda>hval.
       Inr (s\<lparr>lz_hval := hval, lz_htab := (lz_htab s)(IDX hval := A + of_nat (lz_ip s)), lz_ip := lz_ip s + 1\<rparr>))"

datatype lz_next = Return_0 "byte list" | Break lzf | Continue lzf

definition lz_reference :: "addr \<Rightarrow> byte list \<Rightarrow> nat \<Rightarrow> addr \<Rightarrow> lzf \<Rightarrow> lz_next result" where
  "lz_reference A inp out_len ref s =
     rbind (stop_run s) (\<lambda>s.
       let s = undo_run s
       in if lz_op s + 3 + 1 \<ge> out_len then Inr (Return_0 (lz_out s))
          else
            rbind (lz_length inp (unat (ref - A)) (lz_ip s)) (\<lambda>len.
              let len = len - 2; off = (A + of_nat (lz_ip s)) - ref - 1
              in rbind (put_ref off len (s\<lparr>lz_ip := lz_ip s + 1\<rparr>)) (\<lambda>s.
                   let s = start_run s; s = s\<lparr>lz_ip := lz_ip s + len + 1\<rparr>
                   in if length inp \<le> lz_ip s + 2 then Inr (Break s)
                      else
                        let s = s\<lparr>lz_ip := lz_ip s - 2\<rparr>
                        in rbind (FRST inp (lz_ip s)) (\<lambda>hval.
                           rbind (note_pos A inp (s\<lparr>lz_hval := hval\<rparr>)) (\<lambda>s.
                           rbind (note_pos A inp s) (\<lambda>s. Inr (Continue s)))))))"

definition lz_step :: "addr \<Rightarrow> byte list \<Rightarrow> nat \<Rightarrow> lzf \<Rightarrow> lz_next result" where
  "lz_step A inp out_len s =
     rbind (NEXT (lz_hval s) inp (lz_ip s)) (\<lambda>hval.
       let ref = lz_htab s (IDX hval);
           s = s\<lparr>lz_hval := hval, lz_htab := (lz_htab s)(IDX hval := A + of_nat (lz_ip s))\<rparr>
       in rbind (lz_match A inp (lz_ip s) ref) (\<lambda>found.
            if found then lz_reference A inp out_len ref s
            else if lz_op s \<ge> out_len then Inr (Return_0 (lz_out s))
            else rbind (put_literal inp s) (\<lambda>s. Inr (Continue s))))"

lemma put_byte_ip: "put_byte b s = Inr s' \<Longrightarrow> lz_ip s' = lz_ip s"
  by (auto simp: put_byte_def result_simps)

lemma stop_run_ip: "stop_run s = Inr s' \<Longrightarrow> lz_ip s' = lz_ip s"
  by (auto simp: stop_run_def result_simps split: if_splits)

lemma put_literal_ip: "put_literal inp s = Inr s' \<Longrightarrow> lz_ip s' = lz_ip s + 1"
  by (auto simp: put_literal_def start_run_def Let_def result_simps dest!: put_byte_ip stop_run_ip split: if_splits)

lemma put_ref_ip: "put_ref off len s = Inr s' \<Longrightarrow> lz_ip s' = lz_ip s"
  by (auto simp: put_ref_def result_simps dest!: put_byte_ip split: if_splits)

lemma note_pos_ip: "note_pos A inp s = Inr s' \<Longrightarrow> lz_ip s' = lz_ip s + 1"
  by (auto simp: note_pos_def result_simps)

lemma undo_run_ip [simp]: "lz_ip (undo_run s) = lz_ip s"
  by (simp add: undo_run_def)

lemma lz_reference_ip:
  assumes "lz_reference A inp out_len ref s = Inr (Continue s')"
  shows "lz_ip s < lz_ip s'"
proof -
  obtain s1 where s1: "stop_run s = Inr s1" using assms by (auto simp: lz_reference_def result_simps)
  let ?s = "undo_run s1" and ?off = "(A + of_nat (lz_ip (undo_run s1))) - ref - 1"
  have big: "\<not> lz_op ?s + 3 + 1 \<ge> out_len" using assms s1 by (auto simp: lz_reference_def Let_def)
  obtain len where len: "lz_length inp (unat (ref - A)) (lz_ip ?s) = Inr len"
    using assms s1 big by (auto simp: lz_reference_def Let_def result_simps)
  obtain s2 where s2: "put_ref ?off (len - 2) (?s\<lparr>lz_ip := lz_ip ?s + 1\<rparr>) = Inr s2"
    using assms s1 big len by (auto simp: lz_reference_def Let_def result_simps)
  obtain h s3 where s3: "note_pos A inp ((start_run s2)\<lparr>lz_ip := lz_ip s2 + (len - 2) + 1 - 2, lz_hval := h\<rparr>) = Inr s3" "note_pos A inp s3 = Inr s'"
    using assms s1 big len s2 by (auto simp: lz_reference_def Let_def result_simps start_run_def split: if_splits)
  show ?thesis using stop_run_ip [OF s1] put_ref_ip [OF s2] note_pos_ip [OF s3(1)] note_pos_ip [OF s3(2)] by simp
qed

lemma lz_step_ip:
  assumes "lz_step A inp out_len s = Inr (Continue s')"
  shows "lz_ip s < lz_ip s'"
proof -
  obtain hval where h: "NEXT (lz_hval s) inp (lz_ip s) = Inr hval" using assms by (auto simp: lz_step_def result_simps)
  let ?ref = "lz_htab s (IDX hval)"
  let ?s = "s\<lparr>lz_hval := hval, lz_htab := (lz_htab s)(IDX hval := A + of_nat (lz_ip s))\<rparr>"
  obtain found where f: "lz_match A inp (lz_ip s) ?ref = Inr found" using assms h by (auto simp: lz_step_def Let_def result_simps)
  show ?thesis
  proof (cases found)
    case True
    then show ?thesis using assms h f lz_reference_ip [of A inp out_len ?ref ?s s'] by (simp add: lz_step_def Let_def)
  next
    case False
    then show ?thesis using assms h f put_literal_ip [of inp ?s s'] by (auto simp: lz_step_def Let_def result_simps split: if_splits)
  qed
qed

function lz_loop :: "addr \<Rightarrow> byte list \<Rightarrow> nat \<Rightarrow> lzf \<Rightarrow> lz_next result" where
  "lz_loop A inp out_len s =
     (if lz_ip s + 2 < length inp
      then rbind (lz_step A inp out_len s) (\<lambda>n. case n of Continue s' \<Rightarrow> lz_loop A inp out_len s' | _ \<Rightarrow> Inr n)
      else Inr (Break s))"
  by pat_completeness auto
termination
  by (relation "measure (\<lambda>(A, inp, out_len, s). length inp - lz_ip s)") (auto dest: lz_step_ip)

function lz_tail :: "byte list \<Rightarrow> lzf \<Rightarrow> lzf result" where
  "lz_tail inp s = (if lz_ip s < length inp then rbind (put_literal inp s) (lz_tail inp) else Inr s)"
  by pat_completeness auto
termination
  by (relation "measure (\<lambda>(inp, s). length inp - lz_ip s)") (auto dest: put_literal_ip)

declare lz_loop.simps [simp del] lz_tail.simps [simp del] lz_rest.simps [simp del]

text \<open>The number of bytes written and the output buffer.\<close>

definition lzf_compress :: "addr \<Rightarrow> byte list \<Rightarrow> (u32 \<Rightarrow> addr) \<Rightarrow> byte list \<Rightarrow> nat \<Rightarrow> (nat \<times> byte list) result" where
  "lzf_compress A inp htab out out_len =
     (if inp = [] \<or> out_len = 0 then Inr (0, out)
      else
        rbind (FRST inp 0) (\<lambda>hval.
        rbind (lz_loop A inp out_len \<lparr>lz_ip = 0, lz_op = 1, lz_lit = 0, lz_hval = hval, lz_htab = htab, lz_out = out\<rparr>) (\<lambda>n.
          case n of
            Return_0 out \<Rightarrow> Inr (0, out)
          | Break s \<Rightarrow>
              (if lz_op s + 3 > out_len then Inr (0, lz_out s)
               else rbind (lz_tail inp s) (\<lambda>s. rbind (stop_run s) (\<lambda>s. Inr (lz_op (undo_run s), lz_out s))))
          | Continue s \<Rightarrow> Inr (0, lz_out s))))"

subsection \<open>Decompression\<close>

datatype lz_errno = E2BIG | EINVAL

fun copy_literals :: "byte list \<Rightarrow> nat \<Rightarrow> nat \<Rightarrow> nat \<Rightarrow> byte list \<Rightarrow> byte list result" where
  "copy_literals inp 0 ip op out = Inr out"
| "copy_literals inp (Suc n) ip op out =
     rbind (buf_get inp ip) (\<lambda>b. rbind (buf_set out op b) (copy_literals inp n (ip + 1) (op + 1)))"

fun copy_ref :: "nat \<Rightarrow> nat \<Rightarrow> nat \<Rightarrow> byte list \<Rightarrow> byte list result" where
  "copy_ref 0 ref op out = Inr out"
| "copy_ref (Suc n) ref op out =
     rbind (buf_get out ref) (\<lambda>b. rbind (buf_set out op b) (copy_ref n (ref + 1) (op + 1)))"

text \<open>One round of the loop; \<open>ip\<close> and \<open>op\<close> are the positions in input and output.\<close>

definition unlz_step :: "byte list \<Rightarrow> nat \<Rightarrow> nat \<times> nat \<times> byte list \<Rightarrow> (lz_errno + nat \<times> nat \<times> byte list) result" where
  "unlz_step inp out_len = (\<lambda>(ip, op, out).
     rbind (buf_get inp ip) (\<lambda>ctrl.
       let ip = ip + 1
       in if ctrl < 2 ^ 5
          then
            let n = unat ctrl + 1
            in if op + n > out_len then Inr (Inl E2BIG)
               else if ip + n > length inp then Inr (Inl EINVAL)
               else rbind (copy_literals inp n ip op out) (\<lambda>out. Inr (Inr (ip + n, op + n, out)))
          else
            let len = unat (drop_bit 5 ctrl);
                ref = int op - int (unat (ctrl AND 31) * 2 ^ 8) - 1
            in if ip \<ge> length inp then Inr (Inl EINVAL)
               else rbind (if len = 7 then rbind (buf_get inp ip) (\<lambda>b. Inr (len + unat b, ip + 1)) else Inr (len, ip)) (\<lambda>(len', ip).
                 if len = 7 \<and> ip \<ge> length inp then Inr (Inl EINVAL)
                 else rbind (buf_get inp ip) (\<lambda>b.
                   let ref = ref - int (unat b); ip = ip + 1
                   in if op + len' + 2 > out_len then Inr (Inl E2BIG)
                      else if ref < 0 then Inr (Inl EINVAL)
                      else rbind (copy_ref (len' + 2) (nat ref) op out) (\<lambda>out. Inr (Inr (ip, op + len' + 2, out)))))))"

lemma unlz_step_ip: "unlz_step inp out_len (ip, op, out) = Inr (Inr (ip', op', out')) \<Longrightarrow> ip < ip'"
  by (auto simp: unlz_step_def Let_def result_simps split: if_splits)

function unlz_loop :: "byte list \<Rightarrow> nat \<Rightarrow> nat \<times> nat \<times> byte list \<Rightarrow> (lz_errno + nat \<times> byte list) result" where
  "unlz_loop inp out_len st =
     rbind (unlz_step inp out_len st) (\<lambda>r. case r of
       Inl e \<Rightarrow> Inr (Inl e)
     | Inr (ip, op, out) \<Rightarrow> if ip < length inp then unlz_loop inp out_len (ip, op, out) else Inr (Inr (op, out)))"
  by pat_completeness auto
termination
  by (relation "measure (\<lambda>(inp, out_len, ip, op, out). length inp - ip)") (auto dest: unlz_step_ip)

declare unlz_loop.simps [simp del]

text \<open>An error number, with which 0 is returned, or the length of the decompressed data and the output buffer.\<close>

definition lzf_decompress :: "byte list \<Rightarrow> byte list \<Rightarrow> nat \<Rightarrow> (lz_errno + nat \<times> byte list) result" where
  "lzf_decompress inp out out_len = unlz_loop inp out_len (0, 0, out)"

end
