(* ===== verification/Lzfok.thy ===== *)
theory Lzfok
  imports Lzf
begin

text \<open>
  Compression and decompression as a format: the bytes in between are a list of tokens, runs of
  literal bytes and references back (\<open>encode\<close>), which stand for a list of bytes (\<open>expand\<close>).
\<close>

subsection \<open>The format\<close>

datatype token = Lit "byte list" | Back nat nat

text \<open>\<open>Back off n\<close>: the \<open>n\<close> bytes that start \<open>off + 1\<close> bytes before the end, which may overlap with themselves.\<close>

fun copy_back :: "nat \<Rightarrow> nat \<Rightarrow> byte list \<Rightarrow> byte list" where
  "copy_back off 0 xs = xs"
| "copy_back off (Suc n) xs = copy_back off n (xs @ [xs ! (length xs - off - 1)])"

fun expand1 :: "byte list \<Rightarrow> token \<Rightarrow> byte list" where
  "expand1 xs (Lit bs) = xs @ bs"
| "expand1 xs (Back off n) = copy_back off n xs"

definition expand :: "token list \<Rightarrow> byte list" where
  "expand ts = foldl expand1 [] ts"

fun encode1 :: "token \<Rightarrow> byte list" where
  "encode1 (Lit bs) = (of_nat (length bs) - 1) # bs"
| "encode1 (Back off n) = (if n < 9 then [of_nat (off div 256 + (n - 2) * 32)] else [of_nat (off div 256 + 224), of_nat (n - 9)]) @ [of_nat off]"

definition encode :: "token list \<Rightarrow> byte list" where
  "encode ts = concat (map encode1 ts)"

fun token_ok :: "byte list \<Rightarrow> token \<Rightarrow> bool" where
  "token_ok xs (Lit bs) \<longleftrightarrow> 0 < length bs \<and> length bs \<le> 32"
| "token_ok xs (Back off n) \<longleftrightarrow> off < 8192 \<and> off < length xs \<and> 3 \<le> n \<and> n \<le> 264"

fun tokens_from :: "byte list \<Rightarrow> token list \<Rightarrow> bool" where
  "tokens_from xs [] \<longleftrightarrow> True"
| "tokens_from xs (t # ts) \<longleftrightarrow> token_ok xs t \<and> tokens_from (expand1 xs t) ts"

definition tokens_ok :: "token list \<Rightarrow> bool" where
  "tokens_ok ts \<longleftrightarrow> tokens_from [] ts"

lemma expand_simps [simp]: "expand [] = []" "expand (ts @ [t]) = expand1 (expand ts) t"
  by (simp_all add: expand_def)

lemma encode_simps [simp]: "encode [] = []" "encode (ts @ us) = encode ts @ encode us" "encode (t # ts) = encode1 t @ encode ts"
  by (simp_all add: encode_def)

lemma tokens_ok_Nil [simp]: "tokens_ok []"
  by (simp add: tokens_ok_def)

lemma tokens_ok_snoc [simp]: "tokens_ok (ts @ [t]) \<longleftrightarrow> tokens_ok ts \<and> token_ok (expand ts) t"
proof -
  have "tokens_from xs (ts @ [t]) \<longleftrightarrow> tokens_from xs ts \<and> token_ok (foldl expand1 xs ts) t" for xs by (induction ts arbitrary: xs) simp_all
  then show ?thesis by (simp add: tokens_ok_def expand_def)
qed

lemma length_copy_back [simp]: "length (copy_back off n xs) = length xs + n"
  by (induction n arbitrary: xs) simp_all

text \<open>A match in the input is a reference.\<close>

lemma copy_back_match:
  "r + off + 1 = i \<Longrightarrow> i + n \<le> length xs \<Longrightarrow> (\<And>j. j < n \<Longrightarrow> xs ! (r + j) = xs ! (i + j))
    \<Longrightarrow> copy_back off n (take i xs) = take (i + n) xs"
proof (induction n arbitrary: r i)
  case (Suc n)
  have "take i xs @ [take i xs ! (length (take i xs) - off - 1)] = take i xs @ [xs ! i]"
    using Suc.prems(1,2) Suc.prems(3) [of 0] by auto
  also have "\<dots> = take (Suc i) xs" using Suc.prems(2) by (simp add: take_Suc_conv_app_nth)
  finally show ?case using Suc.IH [of "Suc r" "Suc i"] Suc.prems(1,2) Suc.prems(3) [of "Suc _"] by simp
qed simp

subsection \<open>Matches\<close>

lemma buf_get_ok [simp]: "i < length xs \<Longrightarrow> buf_get xs i = Inr (xs ! i)"
  by (simp add: buf_get_def)

lemma buf_set_ok [simp]: "i < length xs \<Longrightarrow> buf_set xs i b = Inr (xs[i := b])"
  by (simp add: buf_set_def)

text \<open>
  The address of the input: it does not lie in the first 8192 bytes, which no object does, and does
  not reach the end of the address space.
\<close>

definition input_at :: "addr \<Rightarrow> byte list \<Rightarrow> bool" where
  "input_at A inp \<longleftrightarrow> 2 ^ 13 \<le> unat A \<and> unat A + length inp < 2 ^ 64"

definition same_bytes :: "byte list \<Rightarrow> nat \<Rightarrow> nat \<Rightarrow> nat \<Rightarrow> bool" where
  "same_bytes inp r i n \<longleftrightarrow> (\<forall>j < n. inp ! (r + j) = inp ! (i + j))"

lemma same_bytes_simps [simp]: "same_bytes inp r i 0"
  "same_bytes inp r i (Suc n) \<longleftrightarrow> same_bytes inp r i n \<and> inp ! (r + n) = inp ! (i + n)"
  by (auto simp: same_bytes_def less_Suc_eq)

text \<open>Whatever the hash table holds, what is near enough and behind the start of the input lies in front of \<open>ip\<close>.\<close>

lemma near_ref:
  assumes A: "input_at A inp" and ip: "ip \<le> length inp" and near: "(A + of_nat ip) - ref - 1 < MAX_OFF" and ref: "ref > A"
  obtains off where "off < 8192" "unat (ref - A) + off + 1 = ip" "(A + of_nat ip) - ref - 1 = of_nat off" "0 < unat (ref - A)"
proof -
  define a r where "a = unat A" and "r = unat ref"
  have b: "2 ^ 13 \<le> a" "a + length inp < 2 ^ 64" "a < r" "r < 2 ^ 64"
    using A ref unsigned_less [of ref] by (simp_all add: input_at_def a_def r_def word_less_nat_alt)
  have uip: "unat (A + of_nat ip) = a + ip" using b(2) ip by (simp add: a_def unat_word_ariths(1) unat_of_nat take_bit_nat_eq_self)
  have d: "ref - A = of_nat (r - a)" using b(3) by (simp add: a_def r_def of_nat_diff)
  have u: "unat (ref - A) = r - a" unfolding d using b(4) by (simp add: unat_of_nat take_bit_nat_eq_self)
  have "r < a + ip"
  proof (rule ccontr)
    assume n: "\<not> r < a + ip"
    let ?x = "(A + of_nat ip) - ref - 1" and ?m = "unat ((A + of_nat ip) - ref - 1) + 1 + r"
    have "A + of_nat ip = of_nat ?m" by (simp add: r_def)
    then have "unat (A + of_nat ip) = unat (of_nat ?m :: addr)" by (rule arg_cong)
    also have "\<dots> = ?m mod 2 ^ 64" by (simp only: unat_of_nat take_bit_eq_mod) simp
    finally have "a + ip = ?m mod 2 ^ 64" using uip by simp
    moreover have x: "unat ?x < 2 ^ 13" using near by (simp add: word_less_nat_alt MAX_OFF_def)
    ultimately show False using n b by (cases "?m < 2 ^ 64") (simp_all add: le_mod_geq)
  qed
  then have e: "(A + of_nat ip) - ref - 1 = of_nat (a + ip - r - 1)" by (simp add: a_def r_def of_nat_diff)
  have "unat ((A + of_nat ip) - ref - 1) = a + ip - r - 1"
    unfolding e using b(2) ip by (simp only: unat_of_nat take_bit_nat_eq_self) simp
  then have "a + ip - r - 1 < 8192" using near by (simp add: word_less_nat_alt MAX_OFF_def)
  moreover have "unat (ref - A) + (a + ip - r - 1) + 1 = ip" using u b(3) \<open>r < a + ip\<close> by simp
  ultimately show ?thesis using that [OF _ _ e] u b(3) by simp
qed

lemma lz_match_spec:
  assumes A: "input_at A inp" and ip: "ip + 2 < length inp"
  shows "\<exists>found. lz_match A inp ip ref = Inr found \<and> (found \<longrightarrow> ip + 4 < length inp \<and>
    (\<exists>off r. off < 8192 \<and> r + off + 1 = ip \<and> unat (ref - A) = r \<and> (A + of_nat ip) - ref - 1 = of_nat off \<and> same_bytes inp r ip 3))"
proof (cases "(A + of_nat ip) - ref - 1 < MAX_OFF \<and> ip + 4 < length inp \<and> ref > A")
  case False
  then show ?thesis by (auto simp: lz_match_def)
next
  case True
  have "ip \<le> length inp" using ip by simp
  then obtain off where off: "off < 8192" "unat (ref - A) + off + 1 = ip" "(A + of_nat ip) - ref - 1 = of_nat off"
    using near_ref [OF A] True by metis
  then have "unat (ref - A) + 3 < length inp" using True by simp
  then show ?thesis using True off by (auto simp: lz_match_def Let_def numeral_3_eq_3)
qed

lemma lz_unrolled_spec:
  "r < ip \<Longrightarrow> same_bytes inp r ip (Suc len) \<Longrightarrow> ip + len + n < length inp
    \<Longrightarrow> \<exists>len' all. lz_unrolled inp r ip n len = Inr (len', all) \<and> len \<le> len' \<and> len' \<le> len + n
      \<and> (if all then len' = len + n \<and> same_bytes inp r ip (Suc len') else len < len' \<and> same_bytes inp r ip len')"
proof (induction n arbitrary: len)
  case (Suc n)
  show ?case
  proof (cases "inp ! (r + (len + 1)) = inp ! (ip + (len + 1))")
    case True
    then have "same_bytes inp r ip (Suc (len + 1))" using Suc.prems(2) by simp
    moreover have "ip + (len + 1) + n < length inp" using Suc.prems(3) by simp
    ultimately obtain len' all where "lz_unrolled inp r ip n (len + 1) = Inr (len', all)" "len + 1 \<le> len'" "len' \<le> len + 1 + n"
      "if all then len' = len + 1 + n \<and> same_bytes inp r ip (Suc len') else len + 1 < len' \<and> same_bytes inp r ip len'"
      using Suc.IH [OF Suc.prems(1)] by blast
    then show ?thesis using True Suc.prems(1,3) by (intro exI [of _ len'] exI [of _ all]) (auto split: if_splits)
  next
    case False
    then show ?thesis using Suc.prems by (intro exI [of _ "len + 1"] exI [of _ False]) simp
  qed
next
  case 0
  then show ?case by (intro exI [of _ len] exI [of _ True]) simp
qed

lemma lz_rest_spec:
  "r < ip \<Longrightarrow> same_bytes inp r ip (Suc len) \<Longrightarrow> ip + maxlen \<le> length inp
    \<Longrightarrow> \<exists>n. lz_rest inp r ip maxlen len = Inr n \<and> len < n \<and> n \<le> max (len + 1) maxlen \<and> same_bytes inp r ip n"
proof (induction "maxlen - len" arbitrary: len rule: less_induct)
  case less
  show ?case
  proof (cases "len + 1 < maxlen \<and> inp ! (r + (len + 1)) = inp ! (ip + (len + 1))")
    case True
    then have "same_bytes inp r ip (Suc (len + 1))" using less.prems(2) by simp
    moreover have "maxlen - (len + 1) < maxlen - len" using True by linarith
    ultimately obtain n where "lz_rest inp r ip maxlen (len + 1) = Inr n" "len + 1 < n" "n \<le> max (len + 1 + 1) maxlen" "same_bytes inp r ip n"
      using less.hyps [of "len + 1"] less.prems by blast
    then show ?thesis using True less.prems by (subst lz_rest.simps) (auto simp: Let_def max_def split: if_splits)
  next
    case False
    then show ?thesis using less.prems by (subst lz_rest.simps) (auto simp: Let_def)
  qed
qed

lemma lz_length_spec:
  assumes r: "r < ip" and ip: "ip + 4 < length inp" and same: "same_bytes inp r ip 3"
  shows "\<exists>n. lz_length inp r ip = Inr n \<and> 3 \<le> n \<and> n \<le> 264 \<and> ip + n \<le> length inp \<and> same_bytes inp r ip n"
proof -
  define m where "m = min (length inp - ip - 2) MAX_REF"
  have m: "3 \<le> m" "m \<le> 264" "ip + m + 2 \<le> length inp" using ip by (auto simp: MAX_REF_def m_def)
  have eq: "lz_length inp r ip = (if m > 16 then rbind (lz_unrolled inp r ip 16 2) (\<lambda>(len, all). if all then lz_rest inp r ip m len else Inr len)
      else lz_rest inp r ip m 2)" unfolding lz_length_def Let_def m_def ..
  have s3: "same_bytes inp r ip (Suc 2)" using same by (simp add: numeral_3_eq_3 numeral_2_eq_2)
  show ?thesis
  proof (cases "m > 16")
    case False
    have "ip + m \<le> length inp" using m(3) by simp
    then obtain n where "lz_rest inp r ip m 2 = Inr n" "2 < n" "n \<le> max (2 + 1) m" "same_bytes inp r ip n"
      using lz_rest_spec [OF r s3] by blast
    then show ?thesis using False m by (intro exI [of _ n]) (simp add: eq)
  next
    case True
    have "ip + 2 + 16 < length inp" using True m(3) by simp
    then obtain len' all where u: "lz_unrolled inp r ip 16 2 = Inr (len', all)" "2 \<le> len'" "len' \<le> 2 + 16"
      "if all then len' = 2 + 16 \<and> same_bytes inp r ip (Suc len') else 2 < len' \<and> same_bytes inp r ip len'"
      using lz_unrolled_spec [OF r s3] by blast
    show ?thesis
    proof (cases all)
      case False
      then show ?thesis using True u m by (intro exI [of _ len']) (simp add: eq)
    next
      case all: True
      have "ip + m \<le> length inp" "same_bytes inp r ip (Suc len')" using m(3) u(4) unfolding if_P [OF all] by (simp, blast)
      then obtain n where "lz_rest inp r ip m len' = Inr n" "len' < n" "n \<le> max (len' + 1) m" "same_bytes inp r ip n"
        using lz_rest_spec [OF r] by blast
      moreover have "n \<le> 264" "ip + n \<le> length inp" using calculation(3) u(3) m(2,3) True by (auto simp: max_def split: if_splits)
      ultimately show ?thesis using True all u by (intro exI [of _ n]) (simp add: eq)
    qed
  qed
qed

subsection \<open>Compression\<close>

text \<open>
  The state of the compressor: the tokens written so far and the bytes of the open run, in front of
  which one byte is left for its length, stand for the bytes taken from the input.
\<close>

definition lz_state :: "byte list \<Rightarrow> nat \<Rightarrow> lzf \<Rightarrow> token list \<Rightarrow> byte list \<Rightarrow> bool" where
  "lz_state inp L s ts bs \<longleftrightarrow> tokens_ok ts \<and> expand ts @ bs = take (lz_ip s) inp \<and> lz_ip s \<le> length inp
     \<and> lz_lit s = length bs \<and> length bs < 32 \<and> lz_op s = length (encode ts) + 1 + length bs \<and> length (lz_out s) = L
     \<and> (\<exists>x rest. lz_out s = encode ts @ x # bs @ rest)"

text \<open>Between two runs.\<close>

definition lz_closed :: "byte list \<Rightarrow> nat \<Rightarrow> lzf \<Rightarrow> token list \<Rightarrow> bool" where
  "lz_closed inp L s ts \<longleftrightarrow> tokens_ok ts \<and> expand ts = take (lz_ip s) inp \<and> lz_ip s \<le> length inp
     \<and> lz_op s = length (encode ts) \<and> length (lz_out s) = L \<and> (\<exists>rest. lz_out s = encode ts @ rest)"

definition closed_run :: "token list \<Rightarrow> byte list \<Rightarrow> token list" where
  "closed_run ts bs = ts @ (if bs = [] then [] else [Lit bs])"

lemma list_update_middle: "(xs @ y # ys)[length xs := z] = xs @ z # ys"
  by simp

lemma stop_run_state:
  assumes "lz_state inp L s ts bs"
  shows "\<exists>s'. stop_run s = Inr s' \<and> lz_closed inp L (undo_run s') (closed_run ts bs) \<and> lz_ip s' = lz_ip s
    \<and> lz_hval s' = lz_hval s \<and> lz_htab s' = lz_htab s"
proof -
  obtain x rest where s: "tokens_ok ts" "expand ts @ bs = take (lz_ip s) inp" "lz_ip s \<le> length inp" "lz_lit s = length bs"
    "length bs < 32" "lz_op s = length (encode ts) + 1 + length bs" "length (lz_out s) = L" "lz_out s = encode ts @ x # bs @ rest"
    using assms unfolding lz_state_def by blast
  let ?s = "s\<lparr>lz_out := encode ts @ (of_nat (length bs) - 1) # bs @ rest\<rparr>"
  have "length (encode ts) < length (lz_out s)" using s(8) by simp
  then have "stop_run s = Inr ?s" using s(4,6,8) by (simp add: stop_run_def)
  moreover have "lz_closed inp L (undo_run ?s) (closed_run ts bs)"
    using s by (cases "bs = []") (auto simp: lz_closed_def undo_run_def closed_run_def)
  ultimately show ?thesis by simp
qed

lemma put_byte_closed:
  assumes "lz_out s = xs @ y # rest" "lz_op s = length xs"
  shows "put_byte b s = Inr (s\<lparr>lz_out := (xs @ [b]) @ rest, lz_op := length (xs @ [b])\<rparr>)"
  using assms by (simp add: put_byte_def)

text \<open>A literal byte.\<close>

definition run_size :: "token list \<Rightarrow> byte list \<Rightarrow> nat" where
  "run_size ts bs = length (encode (closed_run ts bs))"

lemma run_size_simps: "run_size ts [] = length (encode ts)" "bs \<noteq> [] \<Longrightarrow> run_size ts bs = length (encode ts) + 1 + length bs"
  by (simp_all add: run_size_def closed_run_def)

lemma put_literal_state:
  assumes st: "lz_state inp L s ts bs" and ip: "lz_ip s < length inp" and op: "lz_op s + 2 \<le> L"
  shows "\<exists>s' ts' bs'. put_literal inp s = Inr s' \<and> lz_state inp L s' ts' bs' \<and> lz_ip s' = lz_ip s + 1
    \<and> lz_op s' \<le> lz_op s + 2 \<and> run_size ts' bs' = run_size ts bs + (if bs = [] then 2 else 1)"
proof -
  obtain x rest where s: "tokens_ok ts" "expand ts @ bs = take (lz_ip s) inp" "lz_lit s = length bs"
    "length bs < 32" "lz_op s = length (encode ts) + 1 + length bs" "length (lz_out s) = L" "lz_out s = encode ts @ x # bs @ rest"
    using st unfolding lz_state_def by blast
  have "2 \<le> length rest" using s(5-7) op by simp
  then obtain y z rest' where rest: "rest = y # z # rest'" by (cases rest; cases "tl rest") auto
  let ?b = "inp ! lz_ip s"
  let ?s = "s\<lparr>lz_lit := lz_lit s + 1, lz_out := ((encode ts @ x # bs) @ [?b]) @ z # rest', lz_op := length ((encode ts @ x # bs) @ [?b]), lz_ip := lz_ip s + 1\<rparr>"
  have "put_byte ?b (s\<lparr>lz_lit := lz_lit s + 1\<rparr>) = Inr (s\<lparr>lz_lit := lz_lit s + 1, lz_out := ((encode ts @ x # bs) @ [?b]) @ z # rest', lz_op := length ((encode ts @ x # bs) @ [?b])\<rparr>)"
    using put_byte_closed [of "s\<lparr>lz_lit := lz_lit s + 1\<rparr>" "encode ts @ x # bs" y "z # rest'" ?b] s(5,7) rest by simp
  then have run: "put_literal inp s = (if lz_lit ?s = MAX_LIT then rbind (stop_run ?s) (\<lambda>s. Inr (start_run s)) else Inr ?s)"
    using ip by (simp add: put_literal_def Let_def)
  have ex: "expand ts @ bs @ [?b] = take (lz_ip s + 1) inp" using s(2) ip by (simp add: take_Suc_conv_app_nth flip: append_assoc)
  show ?thesis
  proof (cases "length bs = 31")
    case False
    then have "put_literal inp s = Inr ?s" unfolding run by (simp add: s(3) MAX_LIT_def)
    moreover have "lz_state inp L ?s ts (bs @ [?b])" unfolding lz_state_def using s ip ex False rest by simp
    moreover have "run_size ts (bs @ [?b]) = run_size ts bs + (if bs = [] then 2 else 1)" by (cases "bs = []") (simp_all add: run_size_simps)
    ultimately show ?thesis using s(5) by (intro exI [of _ ?s] exI [of _ ts] exI [of _ "bs @ [?b]"]) simp
  next
    case True
    let ?c = "of_nat (length (bs @ [?b])) - 1" and ?ts = "ts @ [Lit (bs @ [?b])]"
    let ?s' = "?s\<lparr>lz_out := (encode ts @ ?c # bs @ [?b]) @ z # rest', lz_lit := 0, lz_op := lz_op ?s + 1\<rparr>"
    have "stop_run ?s = Inr (?s\<lparr>lz_out := (encode ts @ ?c # bs @ [?b]) @ z # rest'\<rparr>)"
      by (simp add: stop_run_def s(3))
    then have "put_literal inp s = Inr ?s'" unfolding run by (simp add: s(3) MAX_LIT_def True start_run_def)
    moreover have "lz_state inp L ?s' ?ts []" unfolding lz_state_def using s ip ex True rest by simp
    moreover have "run_size ?ts [] = run_size ts bs + (if bs = [] then 2 else 1)" using True by (cases "bs = []") (simp_all add: run_size_simps)
    ultimately show ?thesis using s(5) by (intro exI [of _ ?s'] exI [of _ ?ts] exI [of _ "[]"]) simp
  qed
qed

lemma ucast_byte_of_nat: "(ucast (of_nat n :: addr) :: byte) = of_nat n"
  by (rule bit_word_eqI) (auto simp: bit_simps)

lemma byte_of_ref:
  assumes "off < 8192"
  shows "len < 8 \<Longrightarrow> (ucast (drop_bit 8 (of_nat off :: addr) + push_bit 5 (of_nat len)) :: byte) = of_nat (off div 256 + len * 32)"
    "(ucast (of_nat off :: addr) :: byte) = of_nat off"
proof -
  have "drop_bit 8 (of_nat off :: addr) = of_nat (off div 256)"
    using assms word_of_nat_div [of off 256] by (simp add: drop_bit_eq_div)
  moreover have "push_bit 5 (of_nat len :: addr) = of_nat (len * 32)" by (simp add: push_bit_eq_mult)
  ultimately show "(ucast (drop_bit 8 (of_nat off :: addr) + push_bit 5 (of_nat len)) :: byte) = of_nat (off div 256 + len * 32)" if "len < 8"
    by (simp only: ucast_byte_of_nat flip: of_nat_add)
  show "(ucast (of_nat off :: addr) :: byte) = of_nat off" by (rule ucast_byte_of_nat)
qed

text \<open>A reference after a closed run, with room for it and the byte in front of the next run.\<close>

lemma put_ref_closed:
  assumes st: "lz_closed inp L s ts" and room: "lz_op s + 4 \<le> L" and off: "off < 8192" "off < lz_ip s" and n: "3 \<le> n" "n \<le> 264" "lz_ip s + n \<le> length inp"
    and same: "same_bytes inp (lz_ip s - off - 1) (lz_ip s) n"
  shows "\<exists>s'. put_ref (of_nat off) (n - 2) (s\<lparr>lz_ip := lz_ip s + 1\<rparr>) = Inr s' \<and> lz_ip s' = lz_ip s + 1
    \<and> lz_closed inp L (s'\<lparr>lz_ip := lz_ip s + n\<rparr>) (ts @ [Back off n]) \<and> lz_op s' \<le> lz_op s + 3 \<and> lz_htab s' = lz_htab s"
proof -
  obtain rest where s: "tokens_ok ts" "expand ts = take (lz_ip s) inp" "lz_op s = length (encode ts)" "length (lz_out s) = L" "lz_out s = encode ts @ rest"
    using st unfolding lz_closed_def by blast
  have "4 \<le> length rest" using s(3-5) room by simp
  then obtain a b c rest' where rest: "rest = a # b # c # rest'" by (cases rest; cases "tl rest"; cases "tl (tl rest)") auto
  let ?s = "s\<lparr>lz_ip := lz_ip s + 1\<rparr>" and ?t = "Back off n"
  have put: "put_byte x (t :: lzf) = Inr (t\<lparr>lz_out := (xs @ [x]) @ ys, lz_op := length (xs @ [x])\<rparr>)" if "lz_out t = xs @ y # ys" "lz_op t = length xs" for x t xs y ys
    using put_byte_closed [OF that] .
  have "expand (ts @ [?t]) = take (lz_ip s + n) inp"
    using copy_back_match [of "lz_ip s - off - 1" off "lz_ip s" n inp] off n(3) same s(2) by (simp add: same_bytes_def)
  moreover have "tokens_ok (ts @ [?t])" using s(1,2) off n by simp
  moreover have "\<exists>s' rest. put_ref (of_nat off) (n - 2) ?s = Inr s' \<and> lz_ip s' = lz_ip s + 1 \<and> lz_htab s' = lz_htab s
    \<and> lz_out s' = encode (ts @ [?t]) @ rest \<and> lz_op s' = length (encode (ts @ [?t])) \<and> length (lz_out s') = L"
  proof (cases "n < 9")
    case True
    then have "n - 2 < 7" "n - 2 < 8" by simp_all
    then show ?thesis using s(3-5) rest byte_of_ref(1) [OF off(1), of "n - 2"] byte_of_ref(2) [OF off(1)] True
      by (simp del: of_nat_diff add: put_ref_def put [of _ "encode ts" a "b # c # rest'"] put [of _ "encode ts @ [_]" b "c # rest'"])
  next
    case False
    then have "n - 2 - 7 = n - 9" "\<not> n - 2 < 7" by simp_all
    then show ?thesis using s(3-5) rest byte_of_ref(1) [OF off(1), of 7] byte_of_ref(2) [OF off(1)] False
      by (simp add: put_ref_def put [of _ "encode ts" a "b # c # rest'"] put [of _ "encode ts @ [_]" b "c # rest'"] put [of _ "encode ts @ [_, _]" c rest'])
  qed
  moreover have "length (encode1 ?t) \<le> 3" by simp
  ultimately show ?thesis using s(3) n(3) unfolding lz_closed_def by auto
qed

lemma lz_state_start:
  assumes "lz_closed inp L s ts" "lz_op s < L" "lz_lit s' = 0" "lz_op s' = lz_op s + 1" "lz_out s' = lz_out s" "lz_ip s' = lz_ip s"
  shows "lz_state inp L s' ts []"
proof -
  obtain rest where "lz_out s = encode ts @ rest" "rest \<noteq> []" using assms(1,2) unfolding lz_closed_def by fastforce
  then show ?thesis using assms unfolding lz_closed_def lz_state_def by (cases rest) auto
qed

lemma lz_state_cong:
  "lz_state inp L s ts bs \<Longrightarrow> lz_ip s' = lz_ip s \<Longrightarrow> lz_op s' = lz_op s \<Longrightarrow> lz_lit s' = lz_lit s \<Longrightarrow> lz_out s' = lz_out s \<Longrightarrow> lz_state inp L s' ts bs"
  by (simp add: lz_state_def)

lemma note_pos_ok:
  "lz_ip s + 2 < length inp \<Longrightarrow> \<exists>s'. note_pos A inp s = Inr s' \<and> lz_ip s' = lz_ip s + 1 \<and> lz_op s' = lz_op s \<and> lz_lit s' = lz_lit s \<and> lz_out s' = lz_out s"
  by (simp add: note_pos_def NEXT_def)

text \<open>What a round of the main loop leads to.\<close>

definition lz_next_ok :: "byte list \<Rightarrow> nat \<Rightarrow> nat \<Rightarrow> nat \<Rightarrow> lz_next \<Rightarrow> bool" where
  "lz_next_ok inp out_len L ip n = (case n of
     Return_0 out \<Rightarrow> length out = L
   | Break s \<Rightarrow> \<exists>ts bs. lz_state inp L s ts bs \<and> length inp \<le> lz_ip s + 2 \<and> lz_op s \<le> out_len + 1
   | Continue s \<Rightarrow> \<exists>ts bs. lz_state inp L s ts bs \<and> ip < lz_ip s \<and> lz_op s \<le> out_len + 1)"

lemma lz_reference_spec:
  assumes st: "lz_state inp L s ts bs" and L: "out_len < L" and ip: "lz_ip s + 4 < length inp"
    and off: "off < 8192" "r + off + 1 = lz_ip s" "unat (ref - A) = r" "(A + of_nat (lz_ip s)) - ref - 1 = of_nat off" and same: "same_bytes inp r (lz_ip s) 3"
  shows "\<exists>n. lz_reference A inp out_len ref s = Inr n \<and> lz_next_ok inp out_len L (lz_ip s) n"
proof -
  obtain s1 where s1: "stop_run s = Inr s1" "lz_closed inp L (undo_run s1) (closed_run ts bs)" "lz_ip s1 = lz_ip s"
    using stop_run_state [OF st] by blast
  let ?s = "undo_run s1" and ?ts = "closed_run ts bs"
  show ?thesis
  proof (cases "lz_op ?s + 3 + 1 \<ge> out_len")
    case True
    then have "lz_reference A inp out_len ref s = Inr (Return_0 (lz_out ?s))" by (simp add: lz_reference_def s1(1))
    then show ?thesis using s1(2) by (simp add: lz_next_ok_def lz_closed_def)
  next
    case False
    obtain n where n: "lz_length inp r (lz_ip s) = Inr n" "3 \<le> n" "n \<le> 264" "lz_ip s + n \<le> length inp" "same_bytes inp r (lz_ip s) n"
      using lz_length_spec [OF _ ip same] off(2) by auto
    have r: "r = lz_ip s - off - 1" using off(2) by simp
    obtain s2 where s2: "put_ref (of_nat off) (n - 2) (?s\<lparr>lz_ip := lz_ip s + 1\<rparr>) = Inr s2" "lz_ip s2 = lz_ip s + 1"
      "lz_closed inp L (s2\<lparr>lz_ip := lz_ip s + n\<rparr>) (?ts @ [Back off n])" "lz_op s2 \<le> lz_op ?s + 3"
      using put_ref_closed [OF s1(2), of off n] s1(3) False L off(1,2) n r by auto
    let ?s3 = "(start_run s2)\<lparr>lz_ip := lz_ip s + n\<rparr>"
    have st3: "lz_state inp L ?s3 (?ts @ [Back off n]) []"
      by (rule lz_state_start [OF s2(3)]) (use s2(4) False L in \<open>simp_all add: start_run_def\<close>)
    have op3: "lz_op ?s3 \<le> out_len + 1" using s2(4) False by (simp add: start_run_def)
    have "lz_ip s2 + (n - 2) + 1 = lz_ip s + n" using s2(2) n(2) by simp
    then have run: "lz_reference A inp out_len ref s = (if length inp \<le> lz_ip s + n + 2 then Inr (Break ?s3)
        else rbind (FRST inp (lz_ip s + n - 2)) (\<lambda>hval. rbind (note_pos A inp (?s3\<lparr>lz_ip := lz_ip s + n - 2, lz_hval := hval\<rparr>))
          (\<lambda>s. rbind (note_pos A inp s) (\<lambda>s. Inr (Continue s)))))"
      using False s1(1,3) n(1) off(3,4) s2(1) by (simp add: lz_reference_def Let_def start_run_def)
    show ?thesis
    proof (cases "length inp \<le> lz_ip s + n + 2")
      case True
      then have "lz_reference A inp out_len ref s = Inr (Break ?s3)" by (simp add: run)
      then show ?thesis using True st3 op3 by (auto simp: lz_next_ok_def)
    next
      case more: False
      obtain hval where h: "FRST inp (lz_ip s + n - 2) = Inr hval" using more n(2) by (simp add: FRST_def)
      let ?s4 = "?s3\<lparr>lz_ip := lz_ip s + n - 2, lz_hval := hval\<rparr>"
      have in5: "lz_ip s + n - 2 + 1 + 2 < length inp" using more n(2) by linarith
      then have in4: "lz_ip ?s4 + 2 < length inp" by simp
      obtain s5 where s5: "note_pos A inp ?s4 = Inr s5" "lz_ip s5 = lz_ip s + n - 2 + 1" "lz_op s5 = lz_op ?s3" "lz_lit s5 = lz_lit ?s3" "lz_out s5 = lz_out ?s3"
        using note_pos_ok [OF in4, of A] by auto
      obtain s6 where s6: "note_pos A inp s5 = Inr s6" "lz_ip s6 = lz_ip s5 + 1" "lz_op s6 = lz_op s5" "lz_lit s6 = lz_lit s5" "lz_out s6 = lz_out s5"
        using note_pos_ok [of s5 inp A] in5 s5(2) by auto
      have "lz_state inp L s6 (?ts @ [Back off n]) []"
        by (rule lz_state_cong [OF st3]) (use s5 s6 n(2) in simp_all)
      moreover have "lz_reference A inp out_len ref s = Inr (Continue s6)" using more h s5(1) s6(1) by (simp add: run)
      ultimately show ?thesis using s5 s6 n(2) op3 by (auto simp: lz_next_ok_def)
    qed
  qed
qed

lemma lz_step_spec:
  assumes st: "lz_state inp L s ts bs" and A: "input_at A inp" and L: "out_len < L" and ip: "lz_ip s + 2 < length inp" and op: "lz_op s \<le> out_len + 1"
  shows "\<exists>n. lz_step A inp out_len s = Inr n \<and> lz_next_ok inp out_len L (lz_ip s) n"
proof -
  obtain hval where h: "NEXT (lz_hval s) inp (lz_ip s) = Inr hval" using ip by (simp add: NEXT_def)
  let ?ref = "lz_htab s (IDX hval)"
  let ?s = "s\<lparr>lz_hval := hval, lz_htab := (lz_htab s)(IDX hval := A + of_nat (lz_ip s))\<rparr>"
  have st': "lz_state inp L ?s ts bs" by (rule lz_state_cong [OF st]) simp_all
  obtain found where f: "lz_match A inp (lz_ip s) ?ref = Inr found" "found \<longrightarrow> lz_ip s + 4 < length inp \<and>
    (\<exists>off r. off < 8192 \<and> r + off + 1 = lz_ip s \<and> unat (?ref - A) = r \<and> (A + of_nat (lz_ip s)) - ?ref - 1 = of_nat off \<and> same_bytes inp r (lz_ip s) 3)"
    using lz_match_spec [OF A ip] by blast
  have run: "lz_step A inp out_len s = (if found then lz_reference A inp out_len ?ref ?s
      else if lz_op s \<ge> out_len then Inr (Return_0 (lz_out s)) else rbind (put_literal inp ?s) (\<lambda>s. Inr (Continue s)))"
    by (simp add: lz_step_def h f(1) Let_def)
  show ?thesis
  proof (cases found)
    case True
    then obtain off r where "off < 8192" "r + off + 1 = lz_ip s" "unat (?ref - A) = r" "(A + of_nat (lz_ip s)) - ?ref - 1 = of_nat off"
      "same_bytes inp r (lz_ip s) 3" using f(2) by blast
    then show ?thesis using lz_reference_spec [OF st' L, of off r ?ref A] True f(2) run by simp
  next
    case nf: False
    show ?thesis
    proof (cases "lz_op s \<ge> out_len")
      case True
      then show ?thesis using nf run st by (simp add: lz_next_ok_def lz_state_def)
    next
      case False
      have "lz_ip ?s < length inp" "lz_op ?s + 2 \<le> L" using ip False L by simp_all
      then obtain s' ts' bs' where "put_literal inp ?s = Inr s'" "lz_state inp L s' ts' bs'" "lz_ip s' = lz_ip s + 1" "lz_op s' \<le> lz_op s + 2"
        using put_literal_state [OF st'] by fastforce
      then show ?thesis using nf False run by (auto simp: lz_next_ok_def)
    qed
  qed
qed

lemma lz_loop_spec:
  "lz_state inp L s ts bs \<Longrightarrow> input_at A inp \<Longrightarrow> out_len < L \<Longrightarrow> lz_op s \<le> out_len + 1
    \<Longrightarrow> \<exists>n. lz_loop A inp out_len s = Inr n
      \<and> (case n of Return_0 out \<Rightarrow> length out = L | Break s \<Rightarrow> \<exists>ts bs. lz_state inp L s ts bs \<and> length inp \<le> lz_ip s + 2 | Continue s \<Rightarrow> False)"
proof (induction "length inp - lz_ip s" arbitrary: s ts bs rule: less_induct)
  case less
  show ?case
  proof (cases "lz_ip s + 2 < length inp")
    case False
    then show ?thesis using less.prems(1) by (subst lz_loop.simps) auto
  next
    case True
    obtain n where n: "lz_step A inp out_len s = Inr n" "lz_next_ok inp out_len L (lz_ip s) n"
      using lz_step_spec [OF less.prems(1-3) True less.prems(4)] by blast
    show ?thesis
    proof (cases n)
      case (Continue s')
      then obtain ts' bs' where s': "lz_state inp L s' ts' bs'" "lz_ip s < lz_ip s'" "lz_op s' \<le> out_len + 1"
        using n(2) by (auto simp: lz_next_ok_def)
      have "length inp - lz_ip s' < length inp - lz_ip s" using s'(2) True by simp
      from less.hyps [OF this s'(1) less.prems(2,3) s'(3)] show ?thesis using True n(1) Continue by (subst lz_loop.simps) simp
    qed (use True n in \<open>subst lz_loop.simps, auto simp: lz_next_ok_def\<close>)+
  qed
qed

lemma lz_tail_spec:
  "lz_state inp L s ts bs \<Longrightarrow> lz_ip s + k = length inp \<Longrightarrow> lz_op s + 2 * k \<le> L
    \<Longrightarrow> \<exists>s' ts' bs'. lz_tail inp s = Inr s' \<and> lz_state inp L s' ts' bs' \<and> lz_ip s' = length inp
      \<and> run_size ts' bs' \<le> run_size ts bs + 2 * k - (if bs = [] \<or> k = 0 then 0 else 1)"
proof (induction k arbitrary: s ts bs)
  case 0
  then show ?case by (subst lz_tail.simps) auto
next
  case (Suc k)
  obtain s1 ts1 bs1 where s1: "put_literal inp s = Inr s1" "lz_state inp L s1 ts1 bs1" "lz_ip s1 = lz_ip s + 1" "lz_op s1 \<le> lz_op s + 2"
    "run_size ts1 bs1 = run_size ts bs + (if bs = [] then 2 else 1)"
    using put_literal_state [OF Suc.prems(1)] Suc.prems(2,3) by auto
  obtain s' ts' bs' where s': "lz_tail inp s1 = Inr s'" "lz_state inp L s' ts' bs'" "lz_ip s' = length inp"
    "run_size ts' bs' \<le> run_size ts1 bs1 + 2 * k - (if bs1 = [] \<or> k = 0 then 0 else 1)"
    using Suc.IH [OF s1(2)] s1(3,4) Suc.prems(2,3) by auto
  have "lz_tail inp s = Inr s'" using s1(1) s'(1) Suc.prems(2) by (subst lz_tail.simps) simp
  moreover have "run_size ts' bs' \<le> run_size ts bs + 2 * Suc k - (if bs = [] \<or> Suc k = 0 then 0 else 1)"
    using s1(5) s'(4) by (auto split: if_splits)
  ultimately show ?case using s'(2,3) by blast
qed

lemma run_size_op: "lz_state inp L s ts bs \<Longrightarrow> run_size ts bs + (if bs = [] then 1 else 0) = lz_op s"
  by (cases "bs = []") (auto simp: lz_state_def run_size_simps)

lemma lzf_compress_spec:
  assumes A: "input_at A inp" and two: "2 \<le> length inp" and L: "out_len < length out"
  shows "\<exists>n out'. lzf_compress A inp htab out out_len = Inr (n, out') \<and> length out' = length out
    \<and> (n = 0 \<or> n \<le> out_len \<and> (\<exists>ts. tokens_ok ts \<and> expand ts = inp \<and> take n out' = encode ts))"
proof (cases "out_len = 0")
  case True
  then show ?thesis by (simp add: lzf_compress_def)
next
  case False
  let ?L = "length out"
  have "0 < length inp" "1 < length inp" using two by linarith+
  then obtain hval where h: "FRST inp 0 = Inr hval" by (simp add: FRST_def)
  let ?s = "\<lparr>lz_ip = 0, lz_op = 1, lz_lit = 0, lz_hval = hval, lz_htab = htab, lz_out = out\<rparr>"
  have "lz_state inp ?L ?s [] []" using L by (cases out) (simp_all add: lz_state_def)
  then obtain n where n: "lz_loop A inp out_len ?s = Inr n"
    "case n of Return_0 out' \<Rightarrow> length out' = ?L | Break s \<Rightarrow> \<exists>ts bs. lz_state inp ?L s ts bs \<and> length inp \<le> lz_ip s + 2 | Continue s \<Rightarrow> False"
    using lz_loop_spec [OF _ A L, of ?s] by auto
  have ne: "inp \<noteq> []" using two by auto
  show ?thesis
  proof (cases n)
    case (Return_0 out')
    then show ?thesis using n h ne False by (simp add: lzf_compress_def)
  next
    case (Continue s)
    then show ?thesis using n(2) by simp
  next
    case (Break s)
    then obtain ts bs where st: "lz_state inp ?L s ts bs" "length inp \<le> lz_ip s + 2" using n(2) by auto
    have run: "lzf_compress A inp htab out out_len = (if lz_op s + 3 > out_len then Inr (0, lz_out s)
        else rbind (lz_tail inp s) (\<lambda>s. rbind (stop_run s) (\<lambda>s. Inr (lz_op (undo_run s), lz_out s))))"
      using n(1) Break h ne False by (simp add: lzf_compress_def)
    show ?thesis
    proof (cases "lz_op s + 3 > out_len")
      case True
      then show ?thesis using run st(1) by (simp add: lz_state_def)
    next
      case room: False
      obtain k where k: "lz_ip s + k = length inp" "k \<le> 2" using st unfolding lz_state_def by (metis add_le_cancel_left le_add_diff_inverse)
      have "lz_op s + 2 * k \<le> ?L" using room k(2) L by simp
      then obtain s' ts' bs' where s': "lz_tail inp s = Inr s'" "lz_state inp ?L s' ts' bs'" "lz_ip s' = length inp"
        "run_size ts' bs' \<le> run_size ts bs + 2 * k - (if bs = [] \<or> k = 0 then 0 else 1)" using lz_tail_spec [OF st(1) k(1)] by blast
      obtain s2 where s2: "stop_run s' = Inr s2" "lz_closed inp ?L (undo_run s2) (closed_run ts' bs')" "lz_ip s2 = lz_ip s'"
        using stop_run_state [OF s'(2)] by blast
      have size: "lz_op (undo_run s2) = run_size ts' bs'" using s2(2) by (simp add: lz_closed_def run_size_def)
      have "run_size ts' bs' \<le> out_len" using s'(4) run_size_op [OF st(1)] k(2) room by (auto split: if_splits)
      moreover have "lz_out (undo_run s2) = lz_out s2" by (simp add: undo_run_def)
      ultimately show ?thesis using s2(2) s'(1,3) s2(1,3) room size unfolding run lz_closed_def by auto
    qed
  qed
qed

subsection \<open>Decompression\<close>

lemma copy_literals_spec:
  "ip + n \<le> length inp \<Longrightarrow> op + n \<le> length out \<Longrightarrow> copy_literals inp n ip op out = Inr (take op out @ take n (drop ip inp) @ drop (op + n) out)"
proof (induction n arbitrary: ip op out)
  case (Suc n)
  have 1: "take (Suc op) (out[op := inp ! ip]) = take op out @ [inp ! ip]" using Suc.prems(2) by (simp add: take_Suc_conv_app_nth)
  have 2: "drop ip inp = inp ! ip # drop (Suc ip) inp" using Suc.prems(1) by (simp add: Cons_nth_drop_Suc)
  show ?case using Suc.IH [of "Suc ip" "Suc op" "out[op := inp ! ip]"] Suc.prems by (simp add: 1 2)
qed simp

lemma copy_ref_spec:
  "ref + off + 1 = op \<Longrightarrow> op + n \<le> length out \<Longrightarrow> copy_ref n ref op out = Inr (copy_back off n (take op out) @ drop (op + n) out)"
proof (induction n arbitrary: ref op out)
  case (Suc n)
  have "length (take op out) - off - 1 = ref" using Suc.prems by simp
  moreover have "take op out ! ref = out ! ref" using Suc.prems(1) by simp
  moreover have "take (Suc op) (out[op := out ! ref]) = take op out @ [out ! ref]" using Suc.prems(2) by (simp add: take_Suc_conv_app_nth)
  ultimately show ?case using Suc.IH [of "Suc ref" "Suc op" "out[op := out ! ref]"] Suc.prems by simp
qed simp

lemma ctrl_byte:
  assumes "hi < 32" "l < 8"
  shows "unat (of_nat (hi + l * 32) :: byte) = hi + l * 32" "unat (drop_bit 5 (of_nat (hi + l * 32) :: byte)) = l"
    "unat ((of_nat (hi + l * 32) :: byte) AND 31) = hi"
proof -
  let ?b = "of_nat (hi + l * 32) :: byte"
  have "hi + l * 32 < 2 ^ 8" using assms by simp
  then show u: "unat ?b = hi + l * 32" by (simp only: unat_of_nat take_bit_nat_eq_self len_of_numeral_defs) (simp add: take_bit_nat_eq_self)
  show "unat (drop_bit 5 ?b) = l" using assms(1) u unat_drop_bit_eq [of 5 ?b] by (simp del: of_nat_add of_nat_mult add: drop_bit_eq_div)
  have "?b AND 31 = take_bit 5 ?b" by (simp add: take_bit_eq_mask mask_eq_exp_minus_1)
  moreover have "unat (take_bit 5 ?b) = take_bit 5 (unat ?b)" by (rule unsigned_take_bit_eq)
  ultimately show "unat (?b AND 31) = hi" using assms(1) u by (simp del: of_nat_add of_nat_mult add: take_bit_eq_mod)
qed

text \<open>A round of the decompressor reads a token.\<close>

lemma unlz_step_token:
  assumes inp: "inp = pre @ encode1 t @ rest" and t: "token_ok xs t" and out: "take (length xs) out = xs"
    and room: "length (expand1 xs t) \<le> out_len" "out_len \<le> length out"
  shows "\<exists>out'. unlz_step inp out_len (length pre, length xs, out) = Inr (Inr (length (pre @ encode1 t), length (expand1 xs t), out'))
    \<and> take (length (expand1 xs t)) out' = expand1 xs t \<and> length out' = length out"
proof (cases t)
  case (Lit bs)
  then have l: "0 < length bs" "length bs \<le> 32" using t by simp_all
  let ?c = "of_nat (length bs) - 1 :: byte"
  have c: "?c = of_nat (length bs - 1)" using l(1) by (simp add: of_nat_diff Suc_le_eq)
  have u: "unat ?c + 1 = length bs" unfolding c using l by (simp add: unat_of_nat take_bit_nat_eq_self)
  then have "?c < 2 ^ 5" using l by (simp add: word_less_nat_alt)
  then show ?thesis using inp u room out Lit copy_literals_spec [of "length pre + 1" "length bs" inp "length xs" out]
    by (simp add: unlz_step_def Let_def nth_append)
next
  case (Back off n)
  then have l: "off < 8192" "off < length xs" "3 \<le> n" "n \<le> 264" using t by simp_all
  have ref: "int (length xs) - int (off div 256 * 2 ^ 8) - 1 - int (unat (of_nat off :: byte)) = int (length xs - off - 1)"
  proof -
    have "unat (of_nat off :: byte) = off mod 256" by (simp add: unat_of_nat take_bit_eq_mod)
    moreover have "int off = int (off div 256 * 256 + off mod 256)" by simp
    then have "int off = int (off div 256) * 256 + int (off mod 256)" by (simp only: of_nat_add of_nat_mult of_nat_numeral)
    ultimately show ?thesis using l(2) by simp
  qed
  have cp: "copy_ref n (length xs - off - 1) (length xs) out = Inr (copy_back off n xs @ drop (length xs + n) out)"
    using copy_ref_spec [of "length xs - off - 1" off "length xs" n out] l(2) out room Back by simp
  show ?thesis
  proof (cases "n < 9")
    case True
    let ?c = "of_nat (off div 256 + (n - 2) * 32) :: byte"
    have c: "unat ?c = off div 256 + (n - 2) * 32" "unat (drop_bit 5 ?c) = n - 2" "unat (?c AND 31) = off div 256"
      using ctrl_byte [of "off div 256" "n - 2"] l(1) True by simp_all
    have "\<not> ?c < 2 ^ 5" "n - 2 \<noteq> 7" "Suc (Suc (n - 2)) = n" "Suc (Suc (length xs + n - 2)) = length xs + n" using l(3) True c(1) by (simp_all add: word_less_nat_alt)
    then show ?thesis using inp c(2,3) ref cp room Back True
      by (simp add: unlz_step_def Let_def nth_append del: of_nat_add of_nat_mult)
  next
    case False
    let ?c = "of_nat (off div 256 + 7 * 32) :: byte"
    have c: "unat ?c = off div 256 + 7 * 32" "unat (drop_bit 5 ?c) = 7" "unat (?c AND 31) = off div 256"
      using ctrl_byte [of "off div 256" 7] l(1) by simp_all
    have u: "unat (of_nat (n - 9) :: byte) = n - 9" using l(4) by (simp add: unat_of_nat take_bit_nat_eq_self)
    have "\<not> ?c < 2 ^ 5" "7 + (n - 9) + 2 = n" "Suc (Suc (length xs + n - 2)) = length xs + n" using False c(1) by (simp_all add: word_less_nat_alt)
    then show ?thesis using inp c(2,3) u ref cp room Back False
      by (simp add: unlz_step_def Let_def nth_append del: of_nat_add of_nat_mult)
  qed
qed

lemma length_encode1_pos [simp]: "encode1 t \<noteq> []"
  by (cases t) simp_all

lemma unlz_loop_tokens:
  "tokens_from xs ts \<Longrightarrow> ts \<noteq> [] \<Longrightarrow> inp = pre @ encode ts \<Longrightarrow> take (length xs) out = xs
    \<Longrightarrow> length (foldl expand1 xs ts) \<le> out_len \<Longrightarrow> out_len \<le> length out
    \<Longrightarrow> \<exists>out'. unlz_loop inp out_len (length pre, length xs, out) = Inr (Inr (length (foldl expand1 xs ts), out'))
      \<and> take (length (foldl expand1 xs ts)) out' = foldl expand1 xs ts \<and> length out' = length out"
proof (induction ts arbitrary: xs pre out)
  case (Cons t ts)
  have longer: "length ys \<le> length (foldl expand1 ys us)" for ys us
  proof (induction us arbitrary: ys)
    case (Cons u us)
    have "length ys \<le> length (expand1 ys u)" by (cases u) simp_all
    then show ?case using Cons [of "expand1 ys u"] by simp
  qed simp
  have "length (expand1 xs t) \<le> out_len" using Cons.prems(5) longer [of "expand1 xs t" ts] by simp
  then obtain out1 where o1: "unlz_step inp out_len (length pre, length xs, out) = Inr (Inr (length (pre @ encode1 t), length (expand1 xs t), out1))"
    "take (length (expand1 xs t)) out1 = expand1 xs t" "length out1 = length out"
    using unlz_step_token [of inp pre t "encode ts" xs out out_len] Cons.prems(1,3,4,6) by auto
  show ?case
  proof (cases "ts = []")
    case True
    then have "\<not> length (pre @ encode1 t) < length inp" using Cons.prems(3) by simp
    then show ?thesis using o1 True by (subst unlz_loop.simps) simp
  next
    case False
    then have "length (pre @ encode1 t) < length inp" using Cons.prems(3) by (cases ts) auto
    then have run: "unlz_loop inp out_len (length pre, length xs, out) = unlz_loop inp out_len (length (pre @ encode1 t), length (expand1 xs t), out1)"
      using o1(1) by (subst unlz_loop.simps) simp
    show ?thesis using Cons.IH [of "expand1 xs t" "pre @ encode1 t" out1] False Cons.prems(1,3,5,6) o1(2,3) unfolding run by simp
  qed
qed simp

text \<open>On any input the decompressor stays inside its buffers.\<close>

lemma unlz_step_safe:
  assumes "ip < length inp" "op \<le> out_len" "out_len \<le> length out"
  shows "\<exists>r. unlz_step inp out_len (ip, op, out) = Inr r
    \<and> (case r of Inl e \<Rightarrow> True | Inr (ip', op', out') \<Rightarrow> ip < ip' \<and> op < op' \<and> op' \<le> out_len \<and> length out' = length out)"
proof -
  let ?c = "inp ! ip"
  show ?thesis
  proof (cases "?c < 2 ^ 5")
    case True
    then show ?thesis using assms copy_literals_spec [of "ip + 1" "unat ?c + 1" inp op out]
      by (simp add: unlz_step_def Let_def, intro impI, linarith)
  next
    case False
    let ?len = "unat (drop_bit 5 ?c)" and ?ref = "int op - int (unat (?c AND 31) * 2 ^ 8) - 1"
    have tail: "\<exists>r. (if op + l + 2 > out_len then Inr (Inl E2BIG)
        else if ?ref - int (unat b) < 0 then Inr (Inl EINVAL)
        else rbind (copy_ref (l + 2) (nat (?ref - int (unat b))) op out) (\<lambda>out. Inr (Inr (i, op + l + 2, out)))) = Inr r
      \<and> (case r of Inl e \<Rightarrow> True | Inr (ip', op', out') \<Rightarrow> ip < ip' \<and> op < op' \<and> op' \<le> out_len \<and> length out' = length out)"
      if "ip < i" for i l :: nat and b :: byte
    proof (cases "op + l + 2 > out_len \<or> ?ref - int (unat b) < 0")
      case True
      then show ?thesis by auto
    next
      case no: False
      define off where "off = unat (?c AND 31) * 2 ^ 8 + unat b"
      have "?ref - int (unat b) = int op - int off - 1" by (simp add: off_def)
      then have "nat (?ref - int (unat b)) + off + 1 = op" using no by linarith
      then show ?thesis using no that assms(2,3) copy_ref_spec [of "nat (?ref - int (unat b))" off op "l + 2" out]
        by (simp, arith)
    qed
    show ?thesis
    proof (cases "ip + 1 \<ge> length inp")
      case True
      then show ?thesis using False assms(1) by (simp add: unlz_step_def Let_def)
    next
      case more: False
      have run: "unlz_step inp out_len (ip, op, out) = (let i = (if ?len = 7 then ip + 2 else ip + 1); l = (if ?len = 7 then ?len + unat (inp ! (ip + 1)) else ?len)
          in if ?len = 7 \<and> i \<ge> length inp then Inr (Inl EINVAL)
             else if op + l + 2 > out_len then Inr (Inl E2BIG)
             else if ?ref - int (unat (inp ! i)) < 0 then Inr (Inl EINVAL)
             else rbind (copy_ref (l + 2) (nat (?ref - int (unat (inp ! i)))) op out) (\<lambda>out. Inr (Inr (i + 1, op + l + 2, out))))"
        using False more assms(1) by (simp add: unlz_step_def Let_def del: copy_ref.simps)
      show ?thesis unfolding run Let_def using tail by auto
    qed
  qed
qed

lemma unlz_loop_safe:
  "ip < length inp \<Longrightarrow> op \<le> out_len \<Longrightarrow> out_len \<le> length out
    \<Longrightarrow> \<exists>r. unlz_loop inp out_len (ip, op, out) = Inr r \<and> (case r of Inl e \<Rightarrow> True | Inr (n, out') \<Rightarrow> 0 < n \<and> n \<le> out_len \<and> length out' = length out)"
proof (induction "length inp - ip" arbitrary: ip op out rule: less_induct)
  case less
  obtain r where r: "unlz_step inp out_len (ip, op, out) = Inr r"
    "case r of Inl e \<Rightarrow> True | Inr (ip', op', out') \<Rightarrow> ip < ip' \<and> op < op' \<and> op' \<le> out_len \<and> length out' = length out"
    using unlz_step_safe [OF less.prems] by blast
  show ?case
  proof (cases r)
    case (Inl e)
    then show ?thesis using r(1) by (subst unlz_loop.simps) simp
  next
    case (Inr st)
    then obtain ip' op' out' where st: "r = Inr (ip', op', out')" "ip < ip'" "op < op'" "op' \<le> out_len" "length out' = length out"
      using r(2) by (cases st) auto
    show ?thesis
    proof (cases "ip' < length inp")
      case True
      then have "length inp - ip' < length inp - ip" using st(2) by simp
      from less.hyps [OF this True st(4), of out', unfolded st(5), OF less.prems(3)] show ?thesis using r(1) st(1) True by (subst unlz_loop.simps) simp
    next
      case False
      then show ?thesis using r(1) st by (subst unlz_loop.simps) simp
    qed
  qed
qed

lemma encode_Nil_iff: "encode ts = [] \<longleftrightarrow> ts = []"
  by (cases ts) simp_all

subsection \<open>Properties\<close>

text \<open>C23: What is compressed is decompressed to the same bytes. For every input of at least two bytes, whatever
  the uninitialised hash table holds, the compressor returns and stays inside its buffers if the
  output has one byte more than it is told (the way Redis calls it). If it does not give up, it
  returns how many of the bytes allowed it has used, and decompressing them into any buffer that is
  large enough gives the input back.\<close>
theorem lzf_round_trip:
  assumes "input_at A inp" "2 \<le> length inp" "out_len < length out"
  shows "\<exists>n out'. lzf_compress A inp htab out out_len = Inr (n, out') \<and> n \<le> out_len
    \<and> (n \<noteq> 0 \<longrightarrow> (\<forall>buf len. length inp \<le> len \<longrightarrow> len \<le> length buf \<longrightarrow>
          (\<exists>buf'. lzf_decompress (take n out') buf len = Inr (Inr (length inp, buf')) \<and> take (length inp) buf' = inp)))"
proof -
  obtain n out' where c: "lzf_compress A inp htab out out_len = Inr (n, out')"
    "n = 0 \<or> n \<le> out_len \<and> (\<exists>ts. tokens_ok ts \<and> expand ts = inp \<and> take n out' = encode ts)"
    using lzf_compress_spec [OF assms] by blast
  have "\<exists>buf'. lzf_decompress (take n out') buf len = Inr (Inr (length inp, buf')) \<and> take (length inp) buf' = inp"
    if n: "n \<noteq> 0" and len: "length inp \<le> len" "len \<le> length buf" for buf len
  proof -
    obtain ts where ts: "tokens_ok ts" "expand ts = inp" "take n out' = encode ts" using c(2) n by blast
    have "ts \<noteq> []" using ts(2) assms(2) by auto
    then show ?thesis using unlz_loop_tokens [of "[]" ts "take n out'" "[]" buf len] ts len
      by (auto simp: tokens_ok_def expand_def lzf_decompress_def)
  qed
  then show ?thesis using c by auto
qed

theorem lzf_round_trip_witness:
  "\<exists>out' buf'. lzf_compress 65536 (replicate 40 97) (\<lambda>_. 0) (replicate 37 0) 36 = Inr (9, out')
    \<and> lzf_decompress (take 9 out') (replicate 40 0) 40 = Inr (Inr (40, buf')) \<and> take 40 buf' = replicate 40 97"
proof -
  let ?inp = "replicate 40 97 :: byte list"
  have at: "input_at 65536 ?inp" by (simp add: input_at_def)
  have "case lzf_compress 65536 (replicate 40 97) (\<lambda>_. 0) (replicate 37 0) 36 of Inr (n, out) \<Rightarrow> n = 9 | _ \<Rightarrow> False" by code_simp
  then obtain out' where c: "lzf_compress 65536 ?inp (\<lambda>_. 0) (replicate 37 0) 36 = Inr (9, out')" by (auto split: sum.splits)
  obtain n out'' where r: "lzf_compress 65536 ?inp (\<lambda>_. 0) (replicate 37 0) 36 = Inr (n, out'')"
    "n \<noteq> 0 \<longrightarrow> (\<forall>buf len. length ?inp \<le> len \<longrightarrow> len \<le> length buf \<longrightarrow>
       (\<exists>buf'. lzf_decompress (take n out'') buf len = Inr (Inr (length ?inp, buf')) \<and> take (length ?inp) buf' = ?inp))"
    using lzf_round_trip [OF at, of 36 "replicate 37 0" "\<lambda>_. 0"] unfolding length_replicate by auto
  then have "\<exists>buf'. lzf_decompress (take 9 out') (replicate 40 0) 40 = Inr (Inr (length ?inp, buf')) \<and> take (length ?inp) buf' = ?inp"
    using c by simp
  then show ?thesis using c unfolding length_replicate by blast
qed

text \<open>C24: Decompressing any non-empty input, damaged or not, returns without an access outside the input or the
  output: with an error, or with the number of bytes, which is not 0 and not more than allowed.\<close>
theorem lzf_decompress_safe:
  assumes "inp \<noteq> []" "out_len \<le> length out"
  shows "\<exists>r. lzf_decompress inp out out_len = Inr r
    \<and> (case r of Inl e \<Rightarrow> True | Inr (n, out') \<Rightarrow> 0 < n \<and> n \<le> out_len \<and> length out' = length out)"
  using unlz_loop_safe [of 0 inp 0 out_len out] assms by (simp add: lzf_decompress_def)

theorem lzf_decompress_safe_witness:
  "\<exists>r. lzf_decompress [0xE0, 0xFF, 0] (replicate 8 0) 8 = Inr r \<and> (case r of Inl e \<Rightarrow> True | Inr (n, out') \<Rightarrow> 0 < n \<and> n \<le> 8 \<and> length out' = 8)"
  using lzf_decompress_safe [of "[0xE0, 0xFF, 0]" 8 "replicate 8 0"] unfolding length_replicate by simp


end
