(* ===== verification/Zipmap.thy ===== *)
theory Zipmap
  imports Memory Lzf
begin

text \<open>
  The compact maps of Redis, src/examples/redis-2.0.2/zipmap.c. A zipmap is one block of memory, here
  the list of its bytes; a pointer into it is an index, and an access outside the block is
  \<open>Wild_access\<close>. Lengths are 32-bit words. \<open>zrealloc\<close> succeeds; the bytes it adds are an argument.
  Loops take the number of rounds.
\<close>

subsection \<open>Blocks\<close>

definition buf_load :: "byte list \<Rightarrow> nat \<Rightarrow> nat \<Rightarrow> byte list result" where
  "buf_load xs p n = (if p + n \<le> length xs then Inr (take n (drop p xs)) else Inl Wild_access)"

definition buf_store :: "byte list \<Rightarrow> nat \<Rightarrow> byte list \<Rightarrow> byte list result" where
  "buf_store xs p bs = (if p + length bs \<le> length xs then Inr (take p xs @ bs @ drop (p + length bs) xs) else Inl Wild_access)"

definition buf_memmove :: "byte list \<Rightarrow> nat \<Rightarrow> nat \<Rightarrow> nat \<Rightarrow> byte list result" where
  "buf_memmove xs dst src n = rbind (buf_load xs src n) (buf_store xs dst)"

definition buf_realloc :: "(nat \<Rightarrow> byte) \<Rightarrow> byte list \<Rightarrow> nat \<Rightarrow> byte list" where
  "buf_realloc junk xs n = take n xs @ map junk [length xs..<n]"

subsection \<open>Lengths\<close>

definition ZIPMAP_BIGLEN :: u32 where "ZIPMAP_BIGLEN = 254"

definition ZIPMAP_END :: byte where "ZIPMAP_END = 255"

definition ZIPMAP_VALUE_MAX_FREE :: u32 where "ZIPMAP_VALUE_MAX_FREE = 4"

definition ZIPMAP_LEN_BYTES :: "u32 \<Rightarrow> u32" where
  "ZIPMAP_LEN_BYTES l = (if l < ZIPMAP_BIGLEN then 1 else 4 + 1)"

definition zipmapNew :: "byte list" where
  "zipmapNew = [0, ZIPMAP_END]"

definition zipmapDecodeLength :: "byte list \<Rightarrow> nat \<Rightarrow> u32 result" where
  "zipmapDecodeLength zm p =
     rbind (buf_get zm p) (\<lambda>b.
       if ucast b < ZIPMAP_BIGLEN then Inr (ucast b) else rbind (buf_load zm (p + 1) 4) (\<lambda>bs. Inr (of_bytes bs)))"

text \<open>With a pointer the length is written there; the result is the number of bytes.\<close>

definition zipmapEncodeLength :: "byte list \<Rightarrow> nat \<Rightarrow> u32 \<Rightarrow> (byte list \<times> u32) result" where
  "zipmapEncodeLength zm p len =
     (if len < ZIPMAP_BIGLEN then rbind (buf_set zm p (ucast len)) (\<lambda>zm. Inr (zm, 1))
      else rbind (buf_set zm p (ucast ZIPMAP_BIGLEN)) (\<lambda>zm. rbind (buf_store zm (p + 1) (bytes32 len)) (\<lambda>zm. Inr (zm, 1 + 4))))"

subsection \<open>Look-up\<close>

text \<open>
  The loop of \<open>zipmapLookupRaw\<close>: \<open>k\<close> is the entry found so far, \<open>whole\<close> tells whether the total length
  is wanted, which then comes with the result.
\<close>

fun lookup_loop :: "nat \<Rightarrow> byte list \<Rightarrow> byte list \<Rightarrow> u32 \<Rightarrow> bool \<Rightarrow> nat \<Rightarrow> nat option \<Rightarrow> (nat option \<times> u32) result" where
  "lookup_loop 0 zm key klen whole p k = Inl Out_of_fuel"
| "lookup_loop (Suc n) zm key klen whole p k =
     rbind (buf_get zm p) (\<lambda>b.
       if b = ZIPMAP_END then Inr (k, of_nat p + 1)
       else
         rbind (zipmapDecodeLength zm p) (\<lambda>l.
         let llen = ZIPMAP_LEN_BYTES l
         in rbind (if k = None \<and> l = klen then rbind (buf_load zm (p + unat llen) (unat l)) (\<lambda>bs. Inr (bs = take (unat l) key)) else Inr False) (\<lambda>found.
              if found \<and> \<not> whole then Inr (Some p, 0)
              else
                let k = (if found then Some p else k); p = p + unat (llen + l)
                in rbind (zipmapDecodeLength zm p) (\<lambda>l.
                   let p = p + unat (ZIPMAP_LEN_BYTES l)
                   in rbind (buf_get zm p) (\<lambda>free. lookup_loop n zm key klen whole (p + unat (l + 1 + ucast free)) k)))))"

definition zipmapLookupRaw :: "byte list \<Rightarrow> byte list \<Rightarrow> u32 \<Rightarrow> bool \<Rightarrow> (nat option \<times> u32) result" where
  "zipmapLookupRaw zm key klen whole = lookup_loop (length zm) zm key klen whole 1 None"

definition zipmapRequiredLength :: "u32 \<Rightarrow> u32 \<Rightarrow> u32" where
  "zipmapRequiredLength klen vlen =
     (let l = klen + vlen + 3;
          l = (if klen \<ge> ZIPMAP_BIGLEN then l + 4 else l)
      in if vlen \<ge> ZIPMAP_BIGLEN then l + 4 else l)"

definition zipmapRawKeyLength :: "byte list \<Rightarrow> nat \<Rightarrow> u32 result" where
  "zipmapRawKeyLength zm p = rbind (zipmapDecodeLength zm p) (\<lambda>l. Inr (ZIPMAP_LEN_BYTES l + l))"

definition zipmapRawValueLength :: "byte list \<Rightarrow> nat \<Rightarrow> u32 result" where
  "zipmapRawValueLength zm p =
     rbind (zipmapDecodeLength zm p) (\<lambda>l.
       let used = ZIPMAP_LEN_BYTES l
       in rbind (buf_get zm (p + unat used)) (\<lambda>free. Inr (used + (ucast free + 1 + l))))"

definition zipmapRawEntryLength :: "byte list \<Rightarrow> nat \<Rightarrow> u32 result" where
  "zipmapRawEntryLength zm p =
     rbind (zipmapRawKeyLength zm p) (\<lambda>l. rbind (zipmapRawValueLength zm (p + unat l)) (\<lambda>v. Inr (l + v)))"

definition zipmapResize :: "(nat \<Rightarrow> byte) \<Rightarrow> byte list \<Rightarrow> u32 \<Rightarrow> byte list result" where
  "zipmapResize junk zm len = buf_set (buf_realloc junk zm (unat len)) (unat (len - 1)) ZIPMAP_END"

subsection \<open>Updates\<close>

text \<open>\<open>if (zm[0] < ZIPMAP_BIGLEN) zm[0]++\<close>, and the same with \<open>--\<close>.\<close>

definition count_more :: "byte list \<Rightarrow> byte list result" where
  "count_more zm = rbind (buf_get zm 0) (\<lambda>c. if ucast c < ZIPMAP_BIGLEN then buf_set zm 0 (c + 1) else Inr zm)"

definition count_less :: "byte list \<Rightarrow> byte list result" where
  "count_less zm = rbind (buf_get zm 0) (\<lambda>c. if ucast c < ZIPMAP_BIGLEN then buf_set zm 0 (c - 1) else Inr zm)"

text \<open>
  The first part of \<open>zipmapSet\<close> finds the place for the entry: the block, the place, the length of the
  block, the room at the place, and whether the key was there.
\<close>

definition set_place :: "(nat \<Rightarrow> byte) \<Rightarrow> byte list \<Rightarrow> byte list \<Rightarrow> u32 \<Rightarrow> u32 \<Rightarrow> (byte list \<times> nat \<times> u32 \<times> u32 \<times> bool) result" where
  "set_place junk zm key klen reqlen =
     rbind (zipmapLookupRaw zm key klen True) (\<lambda>(k, zmlen).
       case k of
         None \<Rightarrow>
           rbind (zipmapResize junk zm (zmlen + reqlen)) (\<lambda>zm.
           rbind (count_more zm) (\<lambda>zm. Inr (zm, unat zmlen - 1, zmlen + reqlen, reqlen, False)))
       | Some p \<Rightarrow>
           rbind (zipmapRawEntryLength zm p) (\<lambda>freelen.
             if freelen < reqlen
             then
               rbind (zipmapResize junk zm (zmlen - freelen + reqlen)) (\<lambda>zm.
               rbind (buf_memmove zm (p + unat reqlen) (p + unat freelen) (unat (zmlen - (of_nat p + freelen + 1)))) (\<lambda>zm.
                 Inr (zm, p, zmlen - freelen + reqlen, reqlen, True)))
             else Inr (zm, p, zmlen, freelen, True)))"

text \<open>The second part gives room back when there is too much of it; \<open>vempty\<close> is what is left.\<close>

definition set_shrink :: "(nat \<Rightarrow> byte) \<Rightarrow> byte list \<Rightarrow> nat \<Rightarrow> u32 \<Rightarrow> u32 \<Rightarrow> u32 \<Rightarrow> (byte list \<times> u32) result" where
  "set_shrink junk zm p zmlen freelen reqlen =
     (let empty = freelen - reqlen
      in if empty \<ge> ZIPMAP_VALUE_MAX_FREE
         then
           rbind (buf_memmove zm (p + unat reqlen) (p + unat freelen) (unat (zmlen - (of_nat p + freelen + 1)))) (\<lambda>zm.
           rbind (zipmapResize junk zm (zmlen - empty)) (\<lambda>zm. Inr (zm, 0)))
         else Inr (zm, empty))"

text \<open>The third part writes the entry.\<close>

definition set_write :: "byte list \<Rightarrow> nat \<Rightarrow> byte list \<Rightarrow> u32 \<Rightarrow> byte list \<Rightarrow> u32 \<Rightarrow> u32 \<Rightarrow> byte list result" where
  "set_write zm p key klen val vlen vempty =
     rbind (zipmapEncodeLength zm p klen) (\<lambda>(zm, n).
     let p = p + unat n
     in rbind (buf_store zm p (take (unat klen) key)) (\<lambda>zm.
     let p = p + unat klen
     in rbind (zipmapEncodeLength zm p vlen) (\<lambda>(zm, n).
     let p = p + unat n
     in rbind (buf_set zm p (ucast vempty)) (\<lambda>zm. buf_store zm (p + 1) (take (unat vlen) val)))))"

definition zipmapSet :: "(nat \<Rightarrow> byte) \<Rightarrow> byte list \<Rightarrow> byte list \<Rightarrow> u32 \<Rightarrow> byte list \<Rightarrow> u32 \<Rightarrow> (byte list \<times> bool) result" where
  "zipmapSet junk zm key klen val vlen =
     (let reqlen = zipmapRequiredLength klen vlen
      in rbind (set_place junk zm key klen reqlen) (\<lambda>(zm, p, zmlen, freelen, update).
         rbind (set_shrink junk zm p zmlen freelen reqlen) (\<lambda>(zm, vempty).
         rbind (set_write zm p key klen val vlen vempty) (\<lambda>zm. Inr (zm, update)))))"

definition zipmapDel :: "(nat \<Rightarrow> byte) \<Rightarrow> byte list \<Rightarrow> byte list \<Rightarrow> u32 \<Rightarrow> (byte list \<times> bool) result" where
  "zipmapDel junk zm key klen =
     rbind (zipmapLookupRaw zm key klen True) (\<lambda>(k, zmlen).
       case k of
         None \<Rightarrow> Inr (zm, False)
       | Some p \<Rightarrow>
           rbind (zipmapRawEntryLength zm p) (\<lambda>freelen.
           rbind (buf_memmove zm p (p + unat freelen) (unat (zmlen - (of_nat p + freelen + 1)))) (\<lambda>zm.
           rbind (zipmapResize junk zm (zmlen - freelen)) (\<lambda>zm.
           rbind (count_less zm) (\<lambda>zm. Inr (zm, True))))))"

subsection \<open>Queries\<close>

definition zipmapRewind :: nat where
  "zipmapRewind = 1"

text \<open>Key and value are given as where they start and how long they are.\<close>

definition zipmapNext :: "byte list \<Rightarrow> nat \<Rightarrow> (nat \<times> (nat \<times> u32) \<times> (nat \<times> u32)) option result" where
  "zipmapNext zm p =
     rbind (buf_get zm p) (\<lambda>b.
       if b = ZIPMAP_END then Inr None
       else
         rbind (zipmapDecodeLength zm p) (\<lambda>klen.
         rbind (zipmapRawKeyLength zm p) (\<lambda>l.
         let q = p + unat l
         in rbind (zipmapDecodeLength zm q) (\<lambda>vlen.
            rbind (zipmapRawValueLength zm q) (\<lambda>v.
              Inr (Some (q + unat v, (p + unat (ZIPMAP_LEN_BYTES klen), klen), (q + 1 + unat (ZIPMAP_LEN_BYTES vlen), vlen))))))))"

definition zipmapGet :: "byte list \<Rightarrow> byte list \<Rightarrow> u32 \<Rightarrow> (nat \<times> u32) option result" where
  "zipmapGet zm key klen =
     rbind (zipmapLookupRaw zm key klen False) (\<lambda>(k, _).
       case k of
         None \<Rightarrow> Inr None
       | Some p \<Rightarrow>
           rbind (zipmapRawKeyLength zm p) (\<lambda>l.
           let p = p + unat l
           in rbind (zipmapDecodeLength zm p) (\<lambda>vlen. Inr (Some (p + unat (ZIPMAP_LEN_BYTES vlen) + 1, vlen)))))"

definition zipmapExists :: "byte list \<Rightarrow> byte list \<Rightarrow> u32 \<Rightarrow> bool result" where
  "zipmapExists zm key klen = rbind (zipmapLookupRaw zm key klen False) (\<lambda>(k, _). Inr (k \<noteq> None))"

fun len_loop :: "nat \<Rightarrow> byte list \<Rightarrow> nat \<Rightarrow> u32 \<Rightarrow> u32 result" where
  "len_loop 0 zm p len = Inl Out_of_fuel"
| "len_loop (Suc n) zm p len =
     rbind (zipmapNext zm p) (\<lambda>r. case r of None \<Rightarrow> Inr len | Some (p, _) \<Rightarrow> len_loop n zm p (len + 1))"

definition zipmapLen :: "byte list \<Rightarrow> (u32 \<times> byte list) result" where
  "zipmapLen zm =
     rbind (buf_get zm 0) (\<lambda>c.
       if ucast c < ZIPMAP_BIGLEN then Inr (ucast c, zm)
       else
         rbind (len_loop (length zm) zm zipmapRewind 0) (\<lambda>len.
           if len < ZIPMAP_BIGLEN then rbind (buf_set zm 0 (ucast len)) (\<lambda>zm. Inr (len, zm)) else Inr (len, zm)))"

end
