(* ===== verification/Zipmapok.thy ===== *)
theory Zipmapok
  imports Zipmap
begin

text \<open>
  A zipmap refines a map: its bytes are the encodings of a list of entries, each a key, a value and
  unused bytes (\<open>zipmap_ok\<close>).
\<close>

declare lookup_loop.simps [simp del] len_loop.simps [simp del]

subsection \<open>Encoded entries\<close>

type_synonym zentry = "byte list \<times> byte list \<times> byte list"

definition len_enc :: "nat \<Rightarrow> byte list" where
  "len_enc n = (if n < 254 then [of_nat n] else 254 # bytes32 (of_nat n))"

fun enc_key :: "zentry \<Rightarrow> byte list" where
  "enc_key (k, v, fs) = len_enc (length k) @ k"

fun enc_val :: "zentry \<Rightarrow> byte list" where
  "enc_val (k, v, fs) = len_enc (length v) @ of_nat (length fs) # v @ fs"

definition enc :: "zentry \<Rightarrow> byte list" where
  "enc e = enc_key e @ enc_val e"

definition encs :: "zentry list \<Rightarrow> byte list" where
  "encs es = concat (map enc es)"

lemma encs_simps [simp]: "encs [] = []" "encs (e # es) = enc e @ encs es" "encs (es @ es') = encs es @ encs es'"
  by (simp_all add: encs_def)

lemma unat_u32 [simp]: "n < 2 ^ 32 \<Longrightarrow> unat (of_nat n :: u32) = n"
  by (simp add: unat_of_nat take_bit_nat_eq_self)

lemma u32_less: "m < 2 ^ 32 \<Longrightarrow> n < 2 ^ 32 \<Longrightarrow> (of_nat m :: u32) < of_nat n \<longleftrightarrow> m < n"
  by (simp add: word_less_nat_alt)

lemma u32_eq: "m < 2 ^ 32 \<Longrightarrow> n < 2 ^ 32 \<Longrightarrow> (of_nat m :: u32) = of_nat n \<longleftrightarrow> m = n"
  by (metis unat_u32)

lemma biglen: "n < 2 ^ 32 \<Longrightarrow> (of_nat n :: u32) < ZIPMAP_BIGLEN \<longleftrightarrow> n < 254"
  using u32_less [of n 254] by (simp add: ZIPMAP_BIGLEN_def)

lemma LEN_BYTES_enc: "n < 2 ^ 32 \<Longrightarrow> ZIPMAP_LEN_BYTES (of_nat n) = of_nat (length (len_enc n))"
  by (simp add: ZIPMAP_LEN_BYTES_def biglen len_enc_def)

lemma length_len_enc: "length (len_enc n) = (if n < 254 then 1 else 5)"
  by (simp add: len_enc_def)

subsection \<open>Reading and writing in the middle\<close>

lemma buf_get_mid: "buf_get (A @ b # B) (length A) = Inr b"
  by (simp add: buf_get_def)

lemma buf_load_mid: "length M = n \<Longrightarrow> buf_load (A @ M @ B) (length A) n = Inr M"
  by (auto simp: buf_load_def)

lemma buf_store_mid: "length M = length bs \<Longrightarrow> buf_store (A @ M @ B) (length A) bs = Inr (A @ bs @ B)"
  by (simp add: buf_store_def)

lemma decode_len:
  assumes "n < 2 ^ 32"
  shows "zipmapDecodeLength (A @ len_enc n @ B) (length A) = Inr (of_nat n)"
proof (cases "n < 254")
  case True
  then have "(ucast (of_nat n :: byte) :: u32) = of_nat n"
    by (simp add: word_eq_iff_unsigned unsigned_ucast_eq unsigned_of_nat take_bit_nat_eq_self)
  then show ?thesis using True biglen [OF assms] by (simp add: zipmapDecodeLength_def len_enc_def buf_get_mid)
next
  case False
  have "buf_load (A @ 254 # bytes32 (of_nat n) @ B) (length (A @ [254])) 4 = Inr (bytes32 (of_nat n))"
    using buf_load_mid [of "bytes32 (of_nat n)" 4 "A @ [254]" B] by simp
  then show ?thesis using False by (simp add: zipmapDecodeLength_def len_enc_def buf_get_mid ZIPMAP_BIGLEN_def)
qed

lemma encode_len:
  assumes n: "n < 2 ^ 32" and M: "length M = length (len_enc n)"
  shows "zipmapEncodeLength (A @ M @ B) (length A) (of_nat n) = Inr (A @ len_enc n @ B, of_nat (length (len_enc n)))"
proof (cases "n < 254")
  case True
  then obtain m where "M = [m]" using M by (auto simp: length_len_enc length_Suc_conv)
  moreover have "(ucast (of_nat n :: u32) :: byte) = of_nat n" by (rule bit_word_eqI) (auto simp: bit_simps)
  ultimately show ?thesis using True biglen [OF n] by (simp add: zipmapEncodeLength_def buf_set_def len_enc_def)
next
  case False
  then obtain m M' where M': "M = m # M'" "length M' = 4" using M by (cases M) (auto simp: length_len_enc)
  have "buf_store ((A @ [254]) @ M' @ B) (length (A @ [254])) (bytes32 (of_nat n)) = Inr ((A @ [254]) @ bytes32 (of_nat n) @ B)"
    by (rule buf_store_mid) (simp add: M')
  then show ?thesis using False biglen [OF n] M' by (simp add: zipmapEncodeLength_def buf_set_def len_enc_def ZIPMAP_BIGLEN_def)
qed

subsection \<open>Going over an entry\<close>

lemma RawKeyLength_enc:
  assumes "length (A @ enc_key e @ B) < 2 ^ 32"
  shows "zipmapRawKeyLength (A @ enc_key e @ B) (length A) = Inr (of_nat (length (enc_key e)))"
proof (cases e)
  case (fields k v fs)
  then have n: "length k < 2 ^ 32" using assms by simp
  show ?thesis using decode_len [OF n, of A "k @ B"] LEN_BYTES_enc [OF n] fields by (simp add: zipmapRawKeyLength_def)
qed

lemma RawValueLength_enc:
  assumes "length (A @ enc_val e @ B) < 2 ^ 32" "length (snd (snd e)) < 256"
  shows "zipmapRawValueLength (A @ enc_val e @ B) (length A) = Inr (of_nat (length (enc_val e)))"
proof (cases e)
  case (fields k v fs)
  then have n: "length v < 2 ^ 32" using assms by simp
  have u: "unat (of_nat (length (len_enc (length v))) :: u32) = length (len_enc (length v))" by (simp add: length_len_enc)
  have g: "buf_get (A @ len_enc (length v) @ of_nat (length fs) # v @ fs @ B) (length (A @ len_enc (length v))) = Inr (of_nat (length fs))"
    using buf_get_mid [of "A @ len_enc (length v)" "of_nat (length fs)" "v @ fs @ B"] by simp
  then have g': "buf_get (A @ enc_val e @ B) (length A + length (len_enc (length v))) = Inr (of_nat (length fs))" by (simp add: fields)
  have d: "zipmapDecodeLength (A @ enc_val e @ B) (length A) = Inr (of_nat (length v))"
    using decode_len [OF n, of A "of_nat (length fs) # v @ fs @ B"] by (simp add: fields)
  have c: "(ucast (of_nat (length fs) :: byte) :: u32) = of_nat (length fs)"
    using assms(2) fields by (simp add: word_eq_iff_unsigned unsigned_ucast_eq unsigned_of_nat take_bit_nat_eq_self)
  have "zipmapRawValueLength (A @ enc_val e @ B) (length A) = Inr (of_nat (length (len_enc (length v))) + (of_nat (length fs) + 1 + of_nat (length v)))"
    unfolding zipmapRawValueLength_def d rbind_Inr Let_def LEN_BYTES_enc [OF n] u g' c ..
  also have "of_nat (length (len_enc (length v))) + (of_nat (length fs) + 1 + of_nat (length v)) = (of_nat (length (enc_val e)) :: u32)"
    by (simp add: fields)
  finally show ?thesis .
qed

lemma RawEntryLength_enc:
  assumes l: "length (A @ enc e @ B) < 2 ^ 32" and f: "length (snd (snd e)) < 256"
  shows "zipmapRawEntryLength (A @ enc e @ B) (length A) = Inr (of_nat (length (enc e)))"
proof -
  have "length (enc_key e) < 2 ^ 32" using l by (simp add: enc_def)
  then show ?thesis using RawKeyLength_enc [of A e "enc_val e @ B"] RawValueLength_enc [of "A @ enc_key e" e B] l f
    by (simp add: zipmapRawEntryLength_def enc_def)
qed

text \<open>An entry starts with the length of its key, so not with the mark of the end.\<close>

lemma enc_first: "\<exists>b bs. enc e = b # bs \<and> b \<noteq> ZIPMAP_END"
proof (cases e)
  case (fields k v fs)
  show ?thesis
  proof (cases "length k < 254")
    case True
    then have "unat (of_nat (length k) :: byte) = length k" by (simp add: unat_of_nat take_bit_nat_eq_self)
    then have "(of_nat (length k) :: byte) \<noteq> 255" using True by auto
    then show ?thesis using True fields by (simp add: enc_def len_enc_def ZIPMAP_END_def)
  next
    case False
    then show ?thesis using fields by (simp add: enc_def len_enc_def ZIPMAP_END_def)
  qed
qed

lemma length_enc: "3 \<le> length (enc e)"
  by (cases e) (simp add: enc_def length_len_enc)

text \<open>One round of the look-up.\<close>

lemma lookup_entry:
  assumes zm: "zm = A @ enc e @ B" "length zm < 2 ^ 32" and f: "length (snd (snd e)) < 256" and key: "length key < 2 ^ 32"
  shows "lookup_loop (Suc n) zm key (of_nat (length key)) whole (length A) kk
    = (if kk = None \<and> fst e = key
       then if whole then lookup_loop n zm key (of_nat (length key)) whole (length (A @ enc e)) (Some (length A)) else Inr (Some (length A), 0)
       else lookup_loop n zm key (of_nat (length key)) whole (length (A @ enc e)) kk)"
proof (cases e)
  case (fields k v fs)
  let ?lk = "len_enc (length k)" and ?lv = "len_enc (length v)"
  have zm': "zm = A @ ?lk @ k @ ?lv @ of_nat (length fs) # v @ fs @ B" using zm(1) fields by (simp add: enc_def)
  have lk: "length k < 2 ^ 32" and lv: "length v < 2 ^ 32" and fs: "length fs < 256" using zm(2) f fields unfolding zm' by simp_all
  obtain b bs where b: "enc e = b # bs" "b \<noteq> ZIPMAP_END" using enc_first by blast
  have g0: "buf_get zm (length A) = Inr b" unfolding zm(1) b(1) using buf_get_mid [of A b "bs @ B"] by simp
  have d1: "zipmapDecodeLength zm (length A) = Inr (of_nat (length k))" unfolding zm' by (rule decode_len [OF lk])
  have n1: "unat (ZIPMAP_LEN_BYTES (of_nat (length k))) = length ?lk" unfolding LEN_BYTES_enc [OF lk] by (simp add: length_len_enc)
  have "buf_load ((A @ ?lk) @ k @ ?lv @ of_nat (length fs) # v @ fs @ B) (length (A @ ?lk)) (length k) = Inr k" by (rule buf_load_mid) simp
  then have l1: "buf_load zm (length A + length ?lk) (length k) = Inr k" unfolding zm' by simp
  have "length ?lk + length k < 2 ^ 32" using zm(2) unfolding zm' by simp
  then have n2: "unat (ZIPMAP_LEN_BYTES (of_nat (length k)) + of_nat (length k)) = length ?lk + length k"
    unfolding LEN_BYTES_enc [OF lk] using unat_u32 [of "length ?lk + length k"] by simp
  let ?A = "A @ ?lk @ k"
  have d2: "zipmapDecodeLength zm (length ?A) = Inr (of_nat (length v))"
    using decode_len [OF lv, of ?A "of_nat (length fs) # v @ fs @ B"] unfolding zm' by simp
  have n3: "unat (ZIPMAP_LEN_BYTES (of_nat (length v))) = length ?lv" unfolding LEN_BYTES_enc [OF lv] by (simp add: length_len_enc)
  have g2: "buf_get zm (length ?A + length ?lv) = Inr (of_nat (length fs))"
    using buf_get_mid [of "?A @ ?lv" "of_nat (length fs)" "v @ fs @ B"] unfolding zm' by (simp add: add.assoc)
  have c: "(ucast (of_nat (length fs) :: byte) :: u32) = of_nat (length fs)"
    using fs by (simp add: word_eq_iff_unsigned unsigned_ucast_eq unsigned_of_nat take_bit_nat_eq_self)
  have "length v + 1 + length fs < 2 ^ 32" using zm(2) unfolding zm' by simp
  then have n4: "unat (of_nat (length v) + 1 + of_nat (length fs) :: u32) = length v + 1 + length fs"
    using unat_u32 [of "length v + 1 + length fs"] by (simp add: ac_simps)
  have p: "length ?A + length ?lv + (length v + 1 + length fs) = length (A @ enc e)" using fields by (simp add: enc_def)
  have A: "length A + (length ?lk + length k) = length ?A" by simp
  have m: "take (length k) key = k \<longleftrightarrow> k = key" if "length k = length key" using that by auto
  have "(if kk = None \<and> (of_nat (length k) :: u32) = of_nat (length key)
      then rbind (buf_load zm (length A + length ?lk) (unat (of_nat (length k) :: u32))) (\<lambda>bs. Inr (bs = take (unat (of_nat (length k) :: u32)) key)) else Inr False)
      = Inr (kk = None \<and> k = key)"
    using l1 m unat_u32 [OF lk] u32_eq [OF lk key] by (auto simp del: unat_u32)
  then show ?thesis
    unfolding lookup_loop.simps g0 rbind_Inr if_not_P [OF b(2)] d1 Let_def n1 n2 A d2 n3 g2 c n4 p
    using fields by simp
qed

lemma lookup_skip:
  "zm = A @ encs es @ B \<Longrightarrow> length zm < 2 ^ 32 \<Longrightarrow> \<forall>e \<in> set es. length (snd (snd e)) < 256 \<Longrightarrow> length key < 2 ^ 32
    \<Longrightarrow> kk \<noteq> None \<or> (\<forall>e \<in> set es. fst e \<noteq> key)
    \<Longrightarrow> lookup_loop (length es + n) zm key (of_nat (length key)) whole (length A) kk
      = lookup_loop n zm key (of_nat (length key)) whole (length (A @ encs es)) kk"
proof (induction es arbitrary: A)
  case (Cons e es)
  have zm: "zm = A @ enc e @ encs es @ B" "zm = (A @ enc e) @ encs es @ B" using Cons.prems(1) by simp_all
  have f: "length (snd (snd e)) < 256" using Cons.prems(3) by simp
  have no: "\<not> (kk = None \<and> fst e = key)" using Cons.prems(5) by auto
  have "lookup_loop (length (e # es) + n) zm key (of_nat (length key)) whole (length A) kk
      = lookup_loop (length es + n) zm key (of_nat (length key)) whole (length (A @ enc e)) kk"
    using lookup_entry [OF zm(1) Cons.prems(2) f Cons.prems(4), of "length es + n" whole kk] unfolding if_not_P [OF no] by simp
  also have "\<dots> = lookup_loop n zm key (of_nat (length key)) whole (length ((A @ enc e) @ encs es)) kk"
    using Cons.IH [OF zm(2) Cons.prems(2)] Cons.prems(3-5) by auto
  finally show ?case by simp
qed simp

lemma lookup_end: "zm = A @ [ZIPMAP_END] \<Longrightarrow> lookup_loop (Suc n) zm key klen whole (length A) kk = Inr (kk, of_nat (length zm))"
  by (simp add: lookup_loop.simps buf_get_mid [of A ZIPMAP_END "[]", simplified])

lemma length_encs: "3 * length es \<le> length (encs es)"
proof (induction es)
  case (Cons e es)
  then show ?case using length_enc [of e] by simp
qed simp

text \<open>The bytes of a zipmap with the count \<open>c\<close> and the entries \<open>es\<close>.\<close>

definition zm_bytes :: "byte \<Rightarrow> zentry list \<Rightarrow> byte list" where
  "zm_bytes c es = c # encs es @ [ZIPMAP_END]"

definition spare_ok :: "zentry list \<Rightarrow> bool" where
  "spare_ok es \<longleftrightarrow> (\<forall>e \<in> set es. length (snd (snd e)) < 256)"

lemma lookup_absent:
  assumes "length (zm_bytes c es) < 2 ^ 32" "spare_ok es" "length key < 2 ^ 32" "key \<notin> fst ` set es"
  shows "zipmapLookupRaw (zm_bytes c es) key (of_nat (length key)) whole = Inr (None, of_nat (length (zm_bytes c es)))"
proof -
  let ?zm = "zm_bytes c es"
  obtain n where n: "length ?zm = length es + Suc n"
    using length_encs [of es] by (intro that [of "length ?zm - length es - 1"]) (simp add: zm_bytes_def)
  have "lookup_loop (length es + Suc n) ?zm key (of_nat (length key)) whole (length [c]) None
      = lookup_loop (Suc n) ?zm key (of_nat (length key)) whole (length ([c] @ encs es)) None"
    by (rule lookup_skip [OF _ assms(1)]) (use assms in \<open>auto simp: zm_bytes_def spare_ok_def\<close>)
  also have "\<dots> = Inr (None, of_nat (length ?zm))" by (rule lookup_end) (simp add: zm_bytes_def)
  finally show ?thesis by (simp add: zipmapLookupRaw_def n)
qed

lemma lookup_present:
  assumes es: "es = es1 @ e # es2" "fst e = key" "key \<notin> fst ` set es1" and l: "length (zm_bytes c es) < 2 ^ 32" "spare_ok es" "length key < 2 ^ 32"
  shows "zipmapLookupRaw (zm_bytes c es) key (of_nat (length key)) whole
    = Inr (Some (length (c # encs es1)), if whole then of_nat (length (zm_bytes c es)) else 0)"
proof -
  let ?zm = "zm_bytes c es" and ?A = "c # encs es1"
  obtain n where n: "length ?zm = length es1 + Suc (length es2 + Suc n)"
    using length_encs [of es] es(1) by (intro that [of "length ?zm - length es - 1"]) (simp add: zm_bytes_def)
  have f: "length (snd (snd e)) < 256" "\<forall>e \<in> set es1. length (snd (snd e)) < 256" "\<forall>e \<in> set es2. length (snd (snd e)) < 256"
    using l(2) es(1) by (simp_all add: spare_ok_def)
  have ne: "\<forall>e \<in> set es1. fst e \<noteq> key" using es(3) by (metis image_eqI)
  have "lookup_loop (length ?zm) ?zm key (of_nat (length key)) whole (length [c]) None
      = lookup_loop (Suc (length es2 + Suc n)) ?zm key (of_nat (length key)) whole (length ([c] @ encs es1)) None"
    unfolding n by (rule lookup_skip [OF _ l(1) f(2) l(3) disjI2 [OF ne]]) (simp add: zm_bytes_def es(1))
  also have "\<dots> = (if whole then lookup_loop (length es2 + Suc n) ?zm key (of_nat (length key)) whole (length (?A @ enc e)) (Some (length ?A))
      else Inr (Some (length ?A), 0))"
    using lookup_entry [of ?zm ?A e "encs es2 @ [ZIPMAP_END]" key "length es2 + Suc n" whole None] l(1,3) f(1) es(1,2) by (simp add: zm_bytes_def)
  also have "lookup_loop (length es2 + Suc n) ?zm key (of_nat (length key)) whole (length (?A @ enc e)) (Some (length ?A))
      = lookup_loop (Suc n) ?zm key (of_nat (length key)) whole (length ((?A @ enc e) @ encs es2)) (Some (length ?A))"
    by (rule lookup_skip [OF _ l(1) f(3) l(3)]) (simp_all add: zm_bytes_def es(1))
  also have "\<dots> = Inr (Some (length ?A), of_nat (length ?zm))" by (rule lookup_end) (simp add: zm_bytes_def es(1))
  finally show ?thesis by (simp add: zipmapLookupRaw_def)
qed

subsection \<open>Moving and resizing\<close>

lemma memmove_eq:
  "dst + n \<le> length xs \<Longrightarrow> src + n \<le> length xs \<Longrightarrow> buf_memmove xs dst src n = Inr (take dst xs @ take n (drop src xs) @ drop (dst + n) xs)"
  by (simp add: buf_memmove_def buf_load_def buf_store_def)

lemma resize_eq:
  assumes "0 < n" "n < 2 ^ 32"
  shows "zipmapResize junk zm (of_nat n) = Inr (take (n - 1) zm @ map junk [length zm..<n - 1] @ [ZIPMAP_END])"
proof -
  let ?xs = "buf_realloc junk zm n"
  have l: "length ?xs = n" by (simp add: buf_realloc_def)
  have e: "(of_nat n :: u32) - 1 = of_nat (n - 1)" using assms(1) by (simp add: of_nat_diff Suc_le_eq)
  have u: "unat ((of_nat n :: u32) - 1) = n - 1" unfolding e by (rule unat_u32) (use assms(2) in simp)
  have "?xs[n - 1 := ZIPMAP_END] = take (n - 1) ?xs @ [ZIPMAP_END]"
    using l assms(1) by (simp add: upd_conv_take_nth_drop)
  also have "take (n - 1) ?xs = take (n - 1) zm @ map junk [length zm..<n - 1]"
    by (cases "length zm < n") (simp_all add: buf_realloc_def take_map)
  finally show ?thesis using u l assms by (simp add: zipmapResize_def buf_set_def)
qed

lemma RequiredLength_enc:
  assumes "length k < 2 ^ 32" "length v < 2 ^ 32"
  shows "zipmapRequiredLength (of_nat (length k)) (of_nat (length v)) = of_nat (length (enc (k, v, [])))"
proof -
  have "(ZIPMAP_BIGLEN \<le> of_nat n) = (254 \<le> n)" if "n < 2 ^ 32" for n using biglen [OF that] by (simp flip: not_less)
  then show ?thesis using assms by (simp add: zipmapRequiredLength_def enc_def length_len_enc Let_def)
qed

text \<open>A place of \<open>n\<close> bytes between the entries \<open>es1\<close> and \<open>es2\<close>.\<close>

definition zm_gap :: "byte \<Rightarrow> zentry list \<Rightarrow> byte list \<Rightarrow> zentry list \<Rightarrow> byte list" where
  "zm_gap c es1 M es2 = (c # encs es1) @ M @ encs es2 @ [ZIPMAP_END]"

lemma length_zm_gap: "length (zm_gap c es1 M es2) = length (c # encs es1) + length M + length (encs es2) + 1"
  by (simp add: zm_gap_def)

text \<open>Making room at a place: the bytes behind it move away, and the mark of the end with them.\<close>

lemma move_tail:
  assumes z: "z = A @ M @ B @ R @ [x]" and R: "length R = d"
  shows "\<exists>M'. length M' = length M + d \<and> buf_memmove z (length A + (length M + d)) (length A + length M) (length B) = Inr (A @ M' @ B @ [x])"
proof -
  let ?M = "take (length M + d) (M @ B @ R)"
  have "take (length A + (length M + d)) z = A @ ?M" using R by (simp add: z)
  moreover have "take (length B) (drop (length A + length M) z) = B" by (simp add: z)
  moreover have "drop (length A + (length M + d) + length B) z = [x]" using R by (simp add: z)
  moreover have "length z = length A + (length M + d) + length B + 1" using R by (simp add: z)
  ultimately have "buf_memmove z (length A + (length M + d)) (length A + length M) (length B) = Inr (A @ ?M @ B @ [x])"
    using memmove_eq [of "length A + (length M + d)" "length B" z "length A + length M"] by simp
  moreover have "length ?M = length M + d" using R by simp
  ultimately show ?thesis by blast
qed

lemma grow_gap:
  assumes l: "length (zm_gap c es1 M es2) + d < 2 ^ 32"
  shows "\<exists>M'. length M' = length M + d
    \<and> rbind (zipmapResize junk (zm_gap c es1 M es2) (of_nat (length (zm_gap c es1 M es2) + d)))
        (\<lambda>zm. buf_memmove zm (length (c # encs es1) + (length M + d)) (length (c # encs es1) + length M) (length (encs es2)))
      = Inr (zm_gap c es1 M' es2)"
proof -
  let ?zm = "zm_gap c es1 M es2" and ?A = "c # encs es1" and ?B = "encs es2"
  let ?z = "take (length ?zm + d - 1) ?zm @ map junk [length ?zm..<length ?zm + d - 1] @ [ZIPMAP_END]"
  have r: "zipmapResize junk ?zm (of_nat (length ?zm + d)) = Inr ?z" by (rule resize_eq) (use l in \<open>simp_all add: length_zm_gap\<close>)
  obtain R where R: "?z = ?A @ M @ ?B @ R @ [ZIPMAP_END]" "length R = d"
  proof (cases d)
    case 0
    then show ?thesis using that [of "[]"] by (simp add: zm_gap_def)
  next
    case (Suc d')
    then show ?thesis using that [of "ZIPMAP_END # map junk [length ?zm..<length ?zm + d - 1]"] by (simp add: zm_gap_def del: upt_Suc)
  qed
  obtain M' where M': "length M' = length M + d"
    "buf_memmove ?z (length ?A + (length M + d)) (length ?A + length M) (length ?B) = Inr (?A @ M' @ ?B @ [ZIPMAP_END])"
    using move_tail [OF R] by blast
  have "zm_gap c es1 M' es2 = ?A @ M' @ ?B @ [ZIPMAP_END]" by (rule zm_gap_def)
  then show ?thesis using M' unfolding r rbind_Inr by auto
qed

text \<open>Giving room back.\<close>

lemma shrink_gap:
  assumes l: "length (zm_gap c es1 (M @ fs) es2) < 2 ^ 32"
  shows "rbind (buf_memmove (zm_gap c es1 (M @ fs) es2) (length (c # encs es1) + length M) (length (c # encs es1) + length (M @ fs)) (length (encs es2)))
      (\<lambda>zm. zipmapResize junk zm (of_nat (length (zm_gap c es1 M es2)))) = Inr (zm_gap c es1 M es2)"
proof -
  let ?zm = "zm_gap c es1 (M @ fs) es2" and ?A = "c # encs es1" and ?B = "encs es2"
  have zm: "?zm = (?A @ M) @ fs @ ?B @ [ZIPMAP_END]" by (simp add: zm_gap_def)
  have "take (length ?A + length M) ?zm = ?A @ M" unfolding zm by simp
  moreover have "take (length ?B) (drop (length ?A + length (M @ fs)) ?zm) = ?B" unfolding zm by simp
  ultimately obtain rest where m: "buf_memmove ?zm (length ?A + length M) (length ?A + length (M @ fs)) (length ?B) = Inr ((?A @ M) @ ?B @ rest)"
    using memmove_eq [of "length ?A + length M" "length ?B" ?zm "length ?A + length (M @ fs)"] by (simp add: length_zm_gap)
  have n: "length (zm_gap c es1 M es2) = length ((?A @ M) @ ?B) + 1" by (simp add: zm_gap_def)
  have "zipmapResize junk ((?A @ M) @ ?B @ rest) (of_nat (length ((?A @ M) @ ?B) + 1)) = Inr ((?A @ M) @ ?B @ [ZIPMAP_END])"
    using resize_eq [of "length ((?A @ M) @ ?B) + 1" junk "(?A @ M) @ ?B @ rest"] l by (simp add: length_zm_gap)
  then show ?thesis unfolding m rbind_Inr n by (simp add: zm_gap_def)
qed

subsection \<open>Setting and deleting\<close>

lemma split_length: "length M = i + j \<Longrightarrow> \<exists>x y. M = x @ y \<and> length x = i \<and> length y = j"
  by (intro exI [of _ "take i M"] exI [of _ "drop i M"]) simp

text \<open>Writing an entry into a place; \<open>fs\<close> is left over.\<close>

lemma set_write_gap:
  assumes M: "length M = length (enc (key, val, []))" and n: "length key < 2 ^ 32" "length val < 2 ^ 32"
  shows "set_write (A @ M @ fs @ B) (length A) key (of_nat (length key)) val (of_nat (length val)) (of_nat (length fs))
    = Inr (A @ enc (key, val, fs) @ B)"
proof -
  let ?lk = "len_enc (length key)" and ?lv = "len_enc (length val)"
  obtain m1 m2 m3 m4 m5 where m: "M = m1 @ m2 @ m3 @ [m4] @ m5" "length m1 = length ?lk" "length m2 = length key" "length m3 = length ?lv" "length m5 = length val"
  proof -
    obtain m1 r1 where 1: "M = m1 @ r1" "length m1 = length ?lk" "length r1 = length key + (length ?lv + (1 + length val))"
      using split_length [of M "length ?lk" "length key + (length ?lv + (1 + length val))"] M by (auto simp: enc_def)
    obtain m2 r2 where 2: "r1 = m2 @ r2" "length m2 = length key" "length r2 = length ?lv + (1 + length val)" using split_length [OF 1(3)] by blast
    obtain m3 r3 where 3: "r2 = m3 @ r3" "length m3 = length ?lv" "length r3 = 1 + length val" using split_length [OF 2(3)] by blast
    obtain m4 m5 where 4: "r3 = m4 # m5" "length m5 = length val" using 3(3) by (cases r3) auto
    show ?thesis using that [of m1 m2 m3 m4 m5] 1 2 3 4 by simp
  qed
  have u: "unat (of_nat (length (len_enc i)) :: u32) = length (len_enc i)" for i by (simp add: length_len_enc)
  have e1: "zipmapEncodeLength (A @ M @ fs @ B) (length A) (of_nat (length key)) = Inr (A @ ?lk @ m2 @ m3 @ [m4] @ m5 @ fs @ B, of_nat (length ?lk))"
    using encode_len [OF n(1) m(2), of A "m2 @ m3 @ [m4] @ m5 @ fs @ B"] by (simp add: m(1))
  have s2: "buf_store (A @ ?lk @ m2 @ m3 @ [m4] @ m5 @ fs @ B) (length A + length ?lk) key = Inr (A @ ?lk @ key @ m3 @ [m4] @ m5 @ fs @ B)"
    using buf_store_mid [OF m(3), of "A @ ?lk" "m3 @ [m4] @ m5 @ fs @ B"] by simp
  have e3: "zipmapEncodeLength (A @ ?lk @ key @ m3 @ [m4] @ m5 @ fs @ B) (length A + length ?lk + length key) (of_nat (length val))
      = Inr (A @ ?lk @ key @ ?lv @ [m4] @ m5 @ fs @ B, of_nat (length ?lv))"
    using encode_len [OF n(2) m(4), of "A @ ?lk @ key" "[m4] @ m5 @ fs @ B"] by (simp add: add.assoc)
  have s4: "buf_set (A @ ?lk @ key @ ?lv @ [m4] @ m5 @ fs @ B) (length A + length ?lk + length key + length ?lv) x
      = Inr (A @ ?lk @ key @ ?lv @ [x] @ m5 @ fs @ B)" for x
    using list_update_length [of "A @ ?lk @ key @ ?lv" m4 "m5 @ fs @ B" x] by (simp add: buf_set_def add.assoc)
  have s5: "buf_store (A @ ?lk @ key @ ?lv @ [x] @ m5 @ fs @ B) (length A + length ?lk + length key + length ?lv + 1) val
      = Inr (A @ ?lk @ key @ ?lv @ [x] @ val @ fs @ B)" for x
    using buf_store_mid [OF m(5), of "A @ ?lk @ key @ ?lv @ [x]" "fs @ B"] by (simp add: add.assoc)
  have c: "(ucast (of_nat (length fs) :: u32) :: byte) = of_nat (length fs)" by (rule bit_word_eqI) (auto simp: bit_simps)
  show ?thesis
    unfolding set_write_def e1 rbind_Inr prod.case Let_def u unat_u32 [OF n(1)] unat_u32 [OF n(2)] take_all [OF order_refl] s2 e3 s4 c s5
    by (simp add: enc_def)
qed

text \<open>The second part of \<open>zipmapSet\<close>.\<close>

lemma set_shrink_gap:
  assumes M: "length M = n + k" and l: "length (zm_gap c es1 M es2) < 2 ^ 32"
  shows "\<exists>M' fs. set_shrink junk (zm_gap c es1 M es2) (length (c # encs es1)) (of_nat (length (zm_gap c es1 M es2))) (of_nat (n + k)) (of_nat n)
      = Inr (zm_gap c es1 (M' @ fs) es2, of_nat (length fs)) \<and> length M' = n \<and> length fs < 4 \<and> length fs \<le> k"
proof -
  let ?zm = "zm_gap c es1 M es2" and ?A = "c # encs es1"
  obtain M' fs where f: "M = M' @ fs" "length M' = n" "length fs = k" using split_length [OF M] by blast
  have k: "n + k < 2 ^ 32" "length ?A < 2 ^ 32" using l M by (simp_all add: length_zm_gap)
  have e: "of_nat (n + k) - of_nat n = (of_nat k :: u32)" by simp
  have big: "(of_nat k :: u32) \<ge> ZIPMAP_VALUE_MAX_FREE \<longleftrightarrow> 4 \<le> k"
    using u32_less [of k 4] k by (simp add: ZIPMAP_VALUE_MAX_FREE_def flip: not_less)
  show ?thesis
  proof (cases "4 \<le> k")
    case False
    then have "set_shrink junk ?zm (length ?A) (of_nat (length ?zm)) (of_nat (n + k)) (of_nat n) = Inr (?zm, of_nat k)"
      unfolding set_shrink_def e Let_def big by simp
    then show ?thesis using f False by (intro exI [of _ M'] exI [of _ fs]) simp
  next
    case True
    have tail: "of_nat (length ?zm) - (of_nat (length ?A) + of_nat (n + k) + 1) = (of_nat (length (encs es2)) :: u32)"
      by (simp add: length_zm_gap M)
    have un: "unat (of_nat (n + k) :: u32) = n + k" "unat (of_nat n :: u32) = n" "unat (of_nat (length (encs es2)) :: u32) = length (encs es2)"
      using k l by (simp_all only: unat_u32 length_zm_gap)
    have new: "of_nat (length ?zm) - of_nat k = (of_nat (length (zm_gap c es1 M' es2)) :: u32)" by (simp add: length_zm_gap f)
    have "length (zm_gap c es1 (M' @ fs) es2) < 2 ^ 32" using l f(1) by simp
    note sh = shrink_gap [OF this, of junk]
    have "set_shrink junk ?zm (length ?A) (of_nat (length ?zm)) (of_nat (n + k)) (of_nat n) = Inr (zm_gap c es1 M' es2, 0)"
      unfolding set_shrink_def e Let_def big tail un new if_P [OF True]
      using sh unfolding f(1) length_append f(2,3) rbind_assoc [symmetric] by simp
    then show ?thesis using f by (intro exI [of _ M'] exI [of _ "[]"]) simp
  qed
qed

text \<open>The first part of \<open>zipmapSet\<close>, for a new key and for one that is there.\<close>

lemma count_big: "(ucast c :: u32) < ZIPMAP_BIGLEN \<longleftrightarrow> unat c < 254" for c :: byte
proof -
  have "unat c < 2 ^ LENGTH(8)" by (rule unsigned_less)
  then have "unat c < 2 ^ 32" by simp
  then show ?thesis by (simp add: ZIPMAP_BIGLEN_def word_less_nat_alt unsigned_ucast_eq take_bit_nat_eq_self)
qed

lemma count_more_eq: "count_more (c # bs) = Inr ((if unat c < 254 then c + 1 else c) # bs)"
  unfolding count_more_def by (simp add: buf_get_def buf_set_def count_big)

lemma count_less_eq: "count_less (c # bs) = Inr ((if unat c < 254 then c - 1 else c) # bs)"
  unfolding count_less_def by (simp add: buf_get_def buf_set_def count_big)

lemma set_place_new:
  assumes l: "length (zm_bytes c es) + r < 2 ^ 32" "0 < r" and es: "spare_ok es" "length key < 2 ^ 32" "key \<notin> fst ` set es"
  shows "\<exists>M. length M = r \<and> set_place junk (zm_bytes c es) key (of_nat (length key)) (of_nat r)
    = Inr (zm_gap (if unat c < 254 then c + 1 else c) es M [], length (c # encs es), of_nat (length (zm_bytes c es) + r), of_nat r, False)"
proof -
  let ?zm = "zm_bytes c es" and ?A = "c # encs es"
  have len: "length ?zm < 2 ^ 32" using l(1) by simp
  let ?M = "ZIPMAP_END # map junk [length ?zm..<length ?zm + r - 1]"
  have "zipmapResize junk ?zm (of_nat (length ?zm + r)) = Inr (take (length ?zm + r - 1) ?zm @ map junk [length ?zm..<length ?zm + r - 1] @ [ZIPMAP_END])"
    by (rule resize_eq) (use l in simp_all)
  also have "take (length ?zm + r - 1) ?zm = ?zm" using l(2) by simp
  also have "?zm @ map junk [length ?zm..<length ?zm + r - 1] @ [ZIPMAP_END] = c # encs es @ ?M @ [ZIPMAP_END]" by (simp add: zm_bytes_def)
  finally have rs: "zipmapResize junk ?zm (of_nat (length ?zm) + of_nat r) = Inr (c # encs es @ ?M @ [ZIPMAP_END])" by simp
  have u: "unat (of_nat (length ?zm) :: u32) - 1 = length ?A" unfolding unat_u32 [OF len] by (simp add: zm_bytes_def)
  have "length ?M = r" using l(2) by simp
  moreover have "set_place junk ?zm key (of_nat (length key)) (of_nat r)
      = Inr (zm_gap (if unat c < 254 then c + 1 else c) es ?M [], length ?A, of_nat (length ?zm + r), of_nat r, False)"
    unfolding set_place_def lookup_absent [OF len es] rbind_Inr prod.case option.case rs count_more_eq u by (simp add: zm_gap_def)
  ultimately show ?thesis by blast
qed

lemma set_place_old:
  assumes es: "es = es1 @ e # es2" "fst e = key" "key \<notin> fst ` set es1" and l: "length (zm_bytes c es) + r < 2 ^ 32" "spare_ok es" "length key < 2 ^ 32"
  shows "\<exists>M. length M = max r (length (enc e)) \<and> set_place junk (zm_bytes c es) key (of_nat (length key)) (of_nat r)
    = Inr (zm_gap c es1 M es2, length (c # encs es1), of_nat (length (zm_gap c es1 M es2)), of_nat (length M), True)"
proof -
  let ?zm = "zm_bytes c es" and ?A = "c # encs es1"
  have zm: "?zm = zm_gap c es1 (enc e) es2" by (simp add: zm_bytes_def zm_gap_def es(1))
  have len: "length ?zm < 2 ^ 32" using l(1) by simp
  have el: "zipmapRawEntryLength ?zm (length ?A) = Inr (of_nat (length (enc e)))"
    using RawEntryLength_enc [of ?A e "encs es2 @ [ZIPMAP_END]"] len l(2) es(1) unfolding zm by (simp add: zm_gap_def spare_ok_def)
  have small: "length (enc e) < 2 ^ 32" "r < 2 ^ 32" using l(1) unfolding zm by (simp_all add: length_zm_gap)
  note start = lookup_present [OF es len l(2,3), where whole = True, unfolded if_True]
  show ?thesis
  proof (cases "length (enc e) < r")
    case False
    then have "set_place junk ?zm key (of_nat (length key)) (of_nat r) = Inr (?zm, length ?A, of_nat (length ?zm), of_nat (length (enc e)), True)"
      unfolding set_place_def start rbind_Inr prod.case option.case el u32_less [OF small] by simp
    then show ?thesis using False unfolding zm by (intro exI [of _ "enc e"]) simp
  next
    case True
    then obtain d where d: "r = length (enc e) + d" using less_imp_add_positive by blast
    have "length (zm_gap c es1 (enc e) es2) + d < 2 ^ 32" using l(1) d unfolding zm by simp
    then obtain M where M: "length M = length (enc e) + d"
      "rbind (zipmapResize junk ?zm (of_nat (length ?zm + d))) (\<lambda>zm. buf_memmove zm (length ?A + (length (enc e) + d)) (length ?A + length (enc e)) (length (encs es2)))
        = Inr (zm_gap c es1 M es2)" using grow_gap unfolding zm by blast
    obtain z where z: "zipmapResize junk ?zm (of_nat (length ?zm + d)) = Inr z"
      "buf_memmove z (length ?A + (length (enc e) + d)) (length ?A + length (enc e)) (length (encs es2)) = Inr (zm_gap c es1 M es2)"
      using M(2) by (auto simp: result_simps)
    have a: "of_nat (length ?zm) - of_nat (length (enc e)) + of_nat r = (of_nat (length ?zm + d) :: u32)" by (simp add: d)
    have b: "of_nat (length ?zm) - (of_nat (length ?A) + of_nat (length (enc e)) + 1) = (of_nat (length (encs es2)) :: u32)"
      unfolding zm by (simp add: length_zm_gap)
    have "length (encs es2) < 2 ^ 32" using len unfolding zm by (simp add: length_zm_gap)
    note un = unat_u32 [OF small(2)] unat_u32 [OF small(1)] unat_u32 [OF this]
    have "set_place junk ?zm key (of_nat (length key)) (of_nat r) = Inr (zm_gap c es1 M es2, length ?A, of_nat (length ?zm + d), of_nat r, True)"
      unfolding set_place_def start rbind_Inr prod.case option.case el u32_less [OF small] if_P [OF True] a z(1) b un
      using z(2) by (simp add: d)
    moreover have "length ?zm + d = length (zm_gap c es1 M es2)" "r = length M" unfolding zm using M(1) d by (simp_all add: length_zm_gap)
    ultimately show ?thesis using M(1) d by (intro exI [of _ M]) simp
  qed
qed

text \<open>What a call of \<open>zipmapSet\<close> leaves.\<close>

lemma zipmapSet_new:
  assumes l: "length (zm_bytes c es) + length (enc (key, val, [])) < 2 ^ 32" and es: "spare_ok es" "key \<notin> fst ` set es"
  shows "zipmapSet junk (zm_bytes c es) key (of_nat (length key)) val (of_nat (length val))
    = Inr (zm_bytes (if unat c < 254 then c + 1 else c) (es @ [(key, val, [])]), False)"
proof -
  let ?r = "length (enc (key, val, []))" and ?c = "if unat c < 254 then c + 1 else c"
  have n: "length key < 2 ^ 32" "length val < 2 ^ 32" using l by (simp_all add: enc_def)
  have "0 < ?r" using length_enc [of "(key, val, [])"] by linarith
  then obtain M where M: "length M = ?r" "set_place junk (zm_bytes c es) key (of_nat (length key)) (of_nat ?r)
    = Inr (zm_gap ?c es M [], length (c # encs es), of_nat (length (zm_bytes c es) + ?r), of_nat ?r, False)"
    using set_place_new [OF l _ es(1) n(1) es(2)] by blast
  have lg: "length (zm_bytes c es) + ?r = length (zm_gap ?c es M [])" using M(1) by (simp add: zm_bytes_def length_zm_gap)
  have gl: "length (zm_gap ?c es M []) < 2 ^ 32" using l lg by simp
  have "length M = ?r + 0" using M(1) by simp
  from set_shrink_gap [OF this gl, of junk] obtain M' fs where s: "set_shrink junk (zm_gap ?c es M []) (length (?c # encs es)) (of_nat (length (zm_gap ?c es M []))) (of_nat ?r) (of_nat ?r)
    = Inr (zm_gap ?c es (M' @ fs) [], of_nat (length fs))" "length M' = ?r" "length fs \<le> 0" by auto
  have w: "set_write (zm_gap ?c es (M' @ fs) []) (length (?c # encs es)) key (of_nat (length key)) val (of_nat (length val)) (of_nat (length fs))
      = Inr (zm_bytes ?c (es @ [(key, val, [])]))"
    using set_write_gap [OF s(2) n, of "?c # encs es" "[]" "[ZIPMAP_END]"] s(3) by (simp add: zm_gap_def zm_bytes_def)
  show ?thesis
    unfolding zipmapSet_def RequiredLength_enc [OF n] Let_def M(2) rbind_Inr prod.case lg using s(1) w by simp
qed

lemma zipmapSet_old:
  assumes es: "es = es1 @ e # es2" "fst e = key" "key \<notin> fst ` set es1" and l: "length (zm_bytes c es) + length (enc (key, val, [])) < 2 ^ 32" "spare_ok es"
  shows "\<exists>fs. zipmapSet junk (zm_bytes c es) key (of_nat (length key)) val (of_nat (length val)) = Inr (zm_bytes c (es1 @ (key, val, fs) # es2), True) \<and> length fs < 4"
proof -
  let ?r = "length (enc (key, val, []))" and ?A = "c # encs es1"
  have n: "length key < 2 ^ 32" "length val < 2 ^ 32" using l(1) by (simp_all add: enc_def)
  obtain M where M: "length M = max ?r (length (enc e))" "set_place junk (zm_bytes c es) key (of_nat (length key)) (of_nat ?r)
    = Inr (zm_gap c es1 M es2, length ?A, of_nat (length (zm_gap c es1 M es2)), of_nat (length M), True)"
    using set_place_old [OF es l n(1)] by blast
  have gl: "length (zm_gap c es1 M es2) < 2 ^ 32" using l(1) M(1) es(1) by (auto simp: zm_bytes_def length_zm_gap)
  obtain k where k: "length M = ?r + k" using M(1) by (metis le_add_diff_inverse max.cobounded1)
  from set_shrink_gap [OF k gl, of junk] obtain M' fs where s: "set_shrink junk (zm_gap c es1 M es2) (length ?A) (of_nat (length (zm_gap c es1 M es2))) (of_nat (length M)) (of_nat ?r)
    = Inr (zm_gap c es1 (M' @ fs) es2, of_nat (length fs))" "length M' = ?r" "length fs < 4" unfolding k by blast
  have w: "set_write (zm_gap c es1 (M' @ fs) es2) (length ?A) key (of_nat (length key)) val (of_nat (length val)) (of_nat (length fs))
      = Inr (zm_bytes c (es1 @ (key, val, fs) # es2))"
    using set_write_gap [OF s(2) n, of ?A fs "encs es2 @ [ZIPMAP_END]"] by (simp add: zm_gap_def zm_bytes_def)
  have "zipmapSet junk (zm_bytes c es) key (of_nat (length key)) val (of_nat (length val)) = Inr (zm_bytes c (es1 @ (key, val, fs) # es2), True)"
    unfolding zipmapSet_def RequiredLength_enc [OF n] Let_def M(2) rbind_Inr prod.case s(1) w ..
  then show ?thesis using s(3) by blast
qed

lemma zipmapDel_old:
  assumes es: "es = es1 @ e # es2" "fst e = key" "key \<notin> fst ` set es1" and l: "length (zm_bytes c es) < 2 ^ 32" "spare_ok es" "length key < 2 ^ 32"
  shows "zipmapDel junk (zm_bytes c es) key (of_nat (length key)) = Inr (zm_bytes (if unat c < 254 then c - 1 else c) (es1 @ es2), True)"
proof -
  let ?zm = "zm_bytes c es" and ?A = "c # encs es1"
  have zm: "?zm = zm_gap c es1 ([] @ enc e) es2" by (simp add: zm_bytes_def zm_gap_def es(1))
  have el: "zipmapRawEntryLength ?zm (length ?A) = Inr (of_nat (length (enc e)))"
    using RawEntryLength_enc [of ?A e "encs es2 @ [ZIPMAP_END]"] l es(1) unfolding zm by (simp add: zm_gap_def spare_ok_def)
  have small: "length (enc e) < 2 ^ 32" "length (encs es2) < 2 ^ 32" using l(1) unfolding zm by (simp_all add: length_zm_gap)
  have b: "of_nat (length ?zm) - (of_nat (length ?A) + of_nat (length (enc e)) + 1) = (of_nat (length (encs es2)) :: u32)"
    unfolding zm by (simp add: length_zm_gap)
  have d: "of_nat (length ?zm) - of_nat (length (enc e)) = (of_nat (length (zm_gap c es1 [] es2)) :: u32)"
    unfolding zm by (simp add: length_zm_gap)
  have "length (zm_gap c es1 ([] @ enc e) es2) < 2 ^ 32" using l(1) unfolding zm .
  from shrink_gap [OF this, of junk] obtain z where z: "buf_memmove ?zm (length ?A) (length ?A + length (enc e)) (length (encs es2)) = Inr z"
    "zipmapResize junk z (of_nat (length (zm_gap c es1 [] es2))) = Inr (zm_gap c es1 [] es2)"
    unfolding zm [symmetric] by (auto simp: result_simps)
  have cl: "count_less (zm_gap c es1 [] es2) = Inr (zm_bytes (if unat c < 254 then c - 1 else c) (es1 @ es2))"
    by (simp add: zm_gap_def zm_bytes_def count_less_eq)
  show ?thesis
    unfolding zipmapDel_def lookup_present [OF es l, where whole = True, unfolded if_True] rbind_Inr prod.case option.case el b d
      unat_u32 [OF small(1)] unat_u32 [OF small(2)] z cl ..
qed

subsection \<open>Queries\<close>

lemma value_in_entry:
  assumes "length (A @ enc (k, v, fs) @ B) < 2 ^ 32"
  shows "zipmapDecodeLength (A @ enc (k, v, fs) @ B) (length A + length (enc_key (k, v, fs))) = Inr (of_nat (length v))"
    "unat (of_nat (length v) :: u32) = length v" "unat (ZIPMAP_LEN_BYTES (of_nat (length v))) = length (len_enc (length v))"
    "take (length v) (drop (length A + length (enc_key (k, v, fs)) + (length (len_enc (length v)) + 1)) (A @ enc (k, v, fs) @ B)) = v"
proof -
  have n: "length v < 2 ^ 32" using assms by (simp add: enc_def)
  show "zipmapDecodeLength (A @ enc (k, v, fs) @ B) (length A + length (enc_key (k, v, fs))) = Inr (of_nat (length v))"
    using decode_len [OF n, of "A @ enc_key (k, v, fs)" "of_nat (length fs) # v @ fs @ B"] by (simp add: enc_def add.assoc)
  show "unat (of_nat (length v) :: u32) = length v" using n by simp
  show "unat (ZIPMAP_LEN_BYTES (of_nat (length v))) = length (len_enc (length v))" unfolding LEN_BYTES_enc [OF n] by (simp add: length_len_enc)
  show "take (length v) (drop (length A + length (enc_key (k, v, fs)) + (length (len_enc (length v)) + 1)) (A @ enc (k, v, fs) @ B)) = v"
    by (simp add: enc_def)
qed

lemma zipmapNext_entry:
  assumes l: "length (A @ enc (k, v, fs) @ B) < 2 ^ 32" "length fs < 256"
  shows "\<exists>kp vp. zipmapNext (A @ enc (k, v, fs) @ B) (length A) = Inr (Some (length (A @ enc (k, v, fs)), (kp, of_nat (length k)), (vp, of_nat (length v))))
    \<and> take (length k) (drop kp (A @ enc (k, v, fs) @ B)) = k \<and> take (length v) (drop vp (A @ enc (k, v, fs) @ B)) = v"
proof -
  let ?e = "(k, v, fs)"
  let ?zm = "A @ enc ?e @ B"
  have lk: "length k < 2 ^ 32" using l(1) by (simp add: enc_def)
  obtain b bs where b: "enc ?e = b # bs" "b \<noteq> ZIPMAP_END" using enc_first by blast
  have g: "buf_get ?zm (length A) = Inr b" using buf_get_mid [of A b "bs @ B"] b(1) by simp
  have dk: "zipmapDecodeLength ?zm (length A) = Inr (of_nat (length k))"
    using decode_len [OF lk, of A "k @ enc_val ?e @ B"] by (simp add: enc_def)
  have rk: "zipmapRawKeyLength ?zm (length A) = Inr (of_nat (length (enc_key ?e)))"
    using RawKeyLength_enc [of A ?e "enc_val ?e @ B"] l(1) by (simp add: enc_def)
  have rv: "zipmapRawValueLength ?zm (length A + length (enc_key ?e)) = Inr (of_nat (length (enc_val ?e)))"
    using RawValueLength_enc [of "A @ enc_key ?e" ?e B] l by (simp add: enc_def add.assoc)
  have small: "length (enc_key ?e) < 2 ^ 32" "length (enc_val ?e) < 2 ^ 32" using l(1) unfolding enc_def by simp_all
  note un = unat_u32 [OF small(1)] unat_u32 [OF small(2)]
  have nk: "unat (ZIPMAP_LEN_BYTES (of_nat (length k))) = length (len_enc (length k))" unfolding LEN_BYTES_enc [OF lk] by (simp add: length_len_enc)
  note v = value_in_entry [OF l(1)]
  have "take (length k) (drop (length A + length (len_enc (length k))) ?zm) = k" by (simp add: enc_def)
  moreover have "take (length v) (drop (length A + length (enc_key ?e) + 1 + length (len_enc (length v))) ?zm) = v"
    using v(4) by (simp only: add.assoc add.commute [of 1])
  moreover have "zipmapNext ?zm (length A) = Inr (Some (length A + length (enc_key ?e) + length (enc_val ?e), (length A + length (len_enc (length k)), of_nat (length k)),
      (length A + length (enc_key ?e) + 1 + length (len_enc (length v)), of_nat (length v))))"
    unfolding zipmapNext_def g rbind_Inr if_not_P [OF b(2)] dk rk Let_def un v(1,3) rv nk ..
  moreover have "length A + length (enc_key ?e) + length (enc_val ?e) = length (A @ enc ?e)" by (simp only: enc_def length_append add.assoc)
  ultimately show ?thesis by metis
qed

lemma zipmapGet_entry:
  assumes es: "es = es1 @ (key, v, fs) # es2" "key \<notin> fst ` set es1" and l: "length (zm_bytes c es) < 2 ^ 32" "spare_ok es" "length key < 2 ^ 32"
  shows "\<exists>p. zipmapGet (zm_bytes c es) key (of_nat (length key)) = Inr (Some (p, of_nat (length v))) \<and> take (length v) (drop p (zm_bytes c es)) = v
    \<and> p + length v \<le> length (zm_bytes c es)"
proof -
  let ?A = "c # encs es1" and ?e = "(key, v, fs)" and ?B = "encs es2 @ [ZIPMAP_END]"
  have zm: "zm_bytes c es = ?A @ enc ?e @ ?B" by (simp add: zm_bytes_def es(1))
  have ll: "length (?A @ enc ?e @ ?B) < 2 ^ 32" using l(1) unfolding zm .
  note v = value_in_entry [OF ll]
  have rk: "zipmapRawKeyLength (?A @ enc ?e @ ?B) (length ?A) = Inr (of_nat (length (enc_key ?e)))"
    using RawKeyLength_enc [of ?A ?e "enc_val ?e @ ?B"] ll by (simp add: enc_def)
  have u: "unat (of_nat (length (enc_key ?e)) :: u32) = length (enc_key ?e)" by (rule unat_u32) (use ll in \<open>simp add: enc_def\<close>)
  have "zipmapLookupRaw (?A @ enc ?e @ ?B) key (of_nat (length key)) False = Inr (Some (length ?A), 0)"
    using lookup_present [OF es(1) _ es(2) l, where whole = False] unfolding zm by simp
  then have "zipmapGet (zm_bytes c es) key (of_nat (length key))
      = Inr (Some (length ?A + length (enc_key ?e) + length (len_enc (length v)) + 1, of_nat (length v)))"
    unfolding zipmapGet_def zm by (simp only: rbind_Inr prod.case option.case rk u Let_def v(1,3))
  moreover have "take (length v) (drop (length ?A + length (enc_key ?e) + length (len_enc (length v)) + 1) (zm_bytes c es)) = v"
    unfolding zm using v(4) by (simp only: add.assoc)
  moreover have "length ?A + length (enc_key ?e) + length (len_enc (length v)) + 1 + length v \<le> length (zm_bytes c es)" unfolding zm by (simp add: enc_def)
  ultimately show ?thesis by blast
qed

lemma len_loop_entries:
  "zm = A @ encs es @ [ZIPMAP_END] \<Longrightarrow> length zm < 2 ^ 32 \<Longrightarrow> spare_ok es \<Longrightarrow> length es < n
    \<Longrightarrow> len_loop n zm (length A) (of_nat i) = Inr (of_nat (i + length es))"
proof (induction es arbitrary: A n i)
  case Nil
  then obtain n' where "n = Suc n'" by (cases n) auto
  then show ?case using Nil.prems(1) by (simp add: len_loop.simps zipmapNext_def buf_get_mid [of A ZIPMAP_END "[]", simplified])
next
  case (Cons e es)
  obtain k v fs where e: "e = (k, v, fs)" by (cases e)
  obtain n' where n': "n = Suc n'" "length es < n'" using Cons.prems(4) by (cases n) auto
  have zm: "zm = A @ enc (k, v, fs) @ encs es @ [ZIPMAP_END]" "zm = (A @ enc e) @ encs es @ [ZIPMAP_END]" using Cons.prems(1) e by simp_all
  have f: "length fs < 256" "spare_ok es" using Cons.prems(3) e by (simp_all add: spare_ok_def)
  obtain kp vp where "zipmapNext zm (length A) = Inr (Some (length (A @ enc e), kp, vp))"
    using zipmapNext_entry [of A k v fs "encs es @ [ZIPMAP_END]"] Cons.prems(2) f(1) zm(1) e by auto
  then have "len_loop n zm (length A) (of_nat i) = len_loop n' zm (length (A @ enc e)) (of_nat (i + 1))" unfolding n'(1) by (simp add: len_loop.simps add.commute)
  then show ?case using Cons.IH [OF zm(2) Cons.prems(2) f(2) n'(2), of "i + 1"] by simp
qed

subsection \<open>The map of a zipmap\<close>

definition entry_map :: "zentry list \<Rightarrow> byte list \<rightharpoonup> byte list" where
  "entry_map es = map_of (map (\<lambda>(k, v, fs). (k, v)) es)"

text \<open>
  \<open>zipmap_ok zm m\<close>: the bytes hold the map \<open>m\<close>. Keys are distinct, at most three bytes of a value are
  unused, and the first byte is the number of entries, or 254 when it has to be counted.
\<close>

definition entries_ok :: "zentry list \<Rightarrow> bool" where
  "entries_ok es \<longleftrightarrow> distinct (map fst es) \<and> (\<forall>e \<in> set es. length (snd (snd e)) < 4)"

definition count_ok :: "byte \<Rightarrow> nat \<Rightarrow> bool" where
  "count_ok c n \<longleftrightarrow> c = 254 \<or> (unat c = n \<and> n < 254)"

definition zipmap_ok :: "byte list \<Rightarrow> (byte list \<rightharpoonup> byte list) \<Rightarrow> bool" where
  "zipmap_ok zm m \<longleftrightarrow> (\<exists>c es. zm = zm_bytes c es \<and> entries_ok es \<and> count_ok c (length es) \<and> m = entry_map es)"

lemma entries_ok_spare: "entries_ok es \<Longrightarrow> spare_ok es"
  by (fastforce simp: entries_ok_def spare_ok_def)

lemma zipmap_okI: "entries_ok es \<Longrightarrow> count_ok c (length es) \<Longrightarrow> m = entry_map es \<Longrightarrow> zipmap_ok (zm_bytes c es) m"
  by (auto simp: zipmap_ok_def)

lemma entry_map_None: "entry_map es key = None \<longleftrightarrow> key \<notin> fst ` set es"
  by (force simp: entry_map_def map_of_eq_None_iff)

lemma entry_map_simps [simp]:
  "entry_map [] = Map.empty" "entry_map ((k, v, fs) # es) = (entry_map es)(k \<mapsto> v)" "entry_map (es @ es') = entry_map es' ++ entry_map es"
  by (simp_all add: entry_map_def)

lemma entry_map_Some:
  assumes "entries_ok es" "entry_map es key = Some v"
  obtains es1 fs es2 where "es = es1 @ (key, v, fs) # es2" "key \<notin> fst ` set es1" "key \<notin> fst ` set es2"
proof -
  have "(key, v) \<in> set (map (\<lambda>(k, v, fs). (k, v)) es)" using map_of_SomeD [OF assms(2) [unfolded entry_map_def]] .
  then obtain fs where "(key, v, fs) \<in> set es" by auto
  then obtain es1 es2 where "es = es1 @ (key, v, fs) # es2" by (meson split_list)
  moreover then have "key \<notin> fst ` set es1" "key \<notin> fst ` set es2" using assms(1) by (auto simp: entries_ok_def)
  ultimately show ?thesis by (rule that)
qed

lemma card_entry_map: "entries_ok es \<Longrightarrow> card (dom (entry_map es)) = length es"
proof -
  assume "entries_ok es"
  moreover have "dom (entry_map es) = set (map fst es)" by (force simp: entry_map_def dom_map_of_conv_image_fst)
  ultimately show ?thesis by (metis distinct_card entries_ok_def length_map)
qed

lemma entry_map_put: "key \<notin> fst ` set es1 \<Longrightarrow> entry_map (es1 @ (key, w, fs) # es2) = (entry_map (es1 @ (key, v, fs') # es2))(key \<mapsto> w)"
  using entry_map_None [of es1 key] by (auto simp: fun_eq_iff map_add_def split: option.splits)

lemma entry_map_drop: "key \<notin> fst ` set es1 \<Longrightarrow> key \<notin> fst ` set es2 \<Longrightarrow> entry_map (es1 @ es2) = (entry_map (es1 @ (key, v, fs) # es2))(key := None)"
  using entry_map_None [of es2 key] entry_map_None [of es1 key] by (auto simp: fun_eq_iff map_add_def split: option.splits)

lemma unat_inj_byte: "unat c = unat d \<Longrightarrow> c = d" for c d :: byte
  by (rule word_unat_eq_iff [THEN iffD2])

lemma count_ok_more: "count_ok c n \<Longrightarrow> count_ok (if unat c < 254 then c + 1 else c) (Suc n)"
  proof -
  assume a: "count_ok c n"
  show ?thesis
  proof (cases "c = 254 \<or> c = 253")
    case True
    then show ?thesis by (auto simp: count_ok_def)
  next
    case False
    then have "unat c \<noteq> 253" "unat c = n" "n < 254" using a unat_inj_byte [of c 253] by (auto simp: count_ok_def)
    then show ?thesis using a by (simp add: count_ok_def unat_word_ariths)
  qed
qed

lemma count_ok_less: "count_ok c (Suc n) \<Longrightarrow> count_ok (if unat c < 254 then c - 1 else c) n"
  using unat_minus_one [of c] by (cases "c = 0") (auto simp: count_ok_def)


lemma set_new_ok:
  assumes "entries_ok es" "count_ok c (length es)" "key \<notin> fst ` set es"
  shows "zipmap_ok (zm_bytes (if unat c < 254 then c + 1 else c) (es @ [(key, val, [])])) ((entry_map es)(key \<mapsto> val))"
  by (rule zipmap_okI) (use assms count_ok_more [OF assms(2)] entry_map_None [of es key] in \<open>auto simp: entries_ok_def map_add_def fun_eq_iff split: option.splits\<close>)

lemma set_old_ok:
  assumes "entries_ok (es1 @ (key, v, fs) # es2)" "count_ok c (length (es1 @ (key, v, fs) # es2))" "length fs' < 4"
  shows "zipmap_ok (zm_bytes c (es1 @ (key, w, fs') # es2)) ((entry_map (es1 @ (key, v, fs) # es2))(key \<mapsto> w))"
proof (rule zipmap_okI)
  show "(entry_map (es1 @ (key, v, fs) # es2))(key \<mapsto> w) = entry_map (es1 @ (key, w, fs') # es2)"
    by (rule entry_map_put [symmetric]) (use assms(1) in \<open>simp add: entries_ok_def\<close>)
qed (use assms in \<open>auto simp: entries_ok_def\<close>)

lemma del_ok:
  assumes "entries_ok (es1 @ (key, v, fs) # es2)" "count_ok c (length (es1 @ (key, v, fs) # es2))"
  shows "zipmap_ok (zm_bytes (if unat c < 254 then c - 1 else c) (es1 @ es2)) ((entry_map (es1 @ (key, v, fs) # es2))(key := None))"
proof (rule zipmap_okI)
  show "(entry_map (es1 @ (key, v, fs) # es2))(key := None) = entry_map (es1 @ es2)"
    by (rule entry_map_drop [symmetric]) (use assms(1) in \<open>simp_all add: entries_ok_def\<close>)
  show "count_ok (if unat c < 254 then c - 1 else c) (length (es1 @ es2))" by (rule count_ok_less) (use assms(2) in simp)
qed (use assms in \<open>auto simp: entries_ok_def\<close>)

lemma zipmapLen_entries:
  assumes l: "length (zm_bytes c es) < 2 ^ 32" and es: "entries_ok es" "count_ok c (length es)"
  shows "\<exists>c'. zipmapLen (zm_bytes c es) = Inr (of_nat (length es), zm_bytes c' es) \<and> count_ok c' (length es)"
proof (cases "unat c < 254")
  case True
  then have "(ucast c :: u32) = of_nat (length es)" using es(2) True by (auto simp: count_ok_def word_unat_eq_iff unsigned_ucast_eq unsigned_of_nat take_bit_nat_eq_self)
  then show ?thesis using True es(2) count_big [of c] by (intro exI [of _ c]) (simp add: zipmapLen_def zm_bytes_def buf_get_def)
next
  case False
  have n: "length es < 2 ^ 32" "length es < length (zm_bytes c es)" using l length_encs [of es] by (simp_all add: zm_bytes_def)
  have L: "len_loop (length (zm_bytes c es)) (zm_bytes c es) zipmapRewind 0 = Inr (of_nat (length es))"
    using len_loop_entries [of "zm_bytes c es" "[c]" es "length (zm_bytes c es)" 0] l n(2) entries_ok_spare [OF es(1)]
    by (simp add: zm_bytes_def zipmapRewind_def)
  have g: "buf_get (zm_bytes c es) 0 = Inr c" "\<not> (ucast c :: u32) < ZIPMAP_BIGLEN" using False count_big [of c] by (simp_all add: zm_bytes_def buf_get_def)
  show ?thesis
  proof (cases "length es < 254")
    case True
    have "buf_set (zm_bytes c es) 0 (ucast (of_nat (length es) :: u32)) = Inr (zm_bytes (of_nat (length es)) es)"
      by (simp add: buf_set_def zm_bytes_def) (rule bit_word_eqI, auto simp: bit_simps)
    moreover have "count_ok (of_nat (length es)) (length es)" using True by (simp add: count_ok_def unat_of_nat take_bit_nat_eq_self)
    ultimately show ?thesis using g L biglen [OF n(1)] True by (intro exI [of _ "of_nat (length es)"]) (simp add: zipmapLen_def)
  next
    case notless: False
    then show ?thesis using g L biglen [OF n(1)] es(2) by (intro exI [of _ c]) (simp add: zipmapLen_def)
  qed
qed


text \<open>C20: A zipmap is a map from keys to values in one block. Reading gives the value where the map has
  one, storing and deleting return the block of the changed map and whether the key was there, the length is
  the number of keys, and no access leaves the block, as long as the block stays below 4 GB.\<close>

theorem zipmap_refines:
  assumes ok: "zipmap_ok zm m" and l: "length zm + length key + length val + 11 < 2 ^ 32"
  shows "zipmapExists zm key (of_nat (length key)) = Inr (m key \<noteq> None)
    \<and> (case m key of
         None \<Rightarrow> zipmapGet zm key (of_nat (length key)) = Inr None
       | Some v \<Rightarrow> \<exists>p. zipmapGet zm key (of_nat (length key)) = Inr (Some (p, of_nat (length v))) \<and> p + length v \<le> length zm \<and> take (length v) (drop p zm) = v)
    \<and> (\<exists>zm'. zipmapSet junk zm key (of_nat (length key)) val (of_nat (length val)) = Inr (zm', m key \<noteq> None) \<and> zipmap_ok zm' (m(key \<mapsto> val)))
    \<and> (\<exists>zm'. zipmapDel junk zm key (of_nat (length key)) = Inr (zm', m key \<noteq> None) \<and> zipmap_ok zm' (m(key := None)))
    \<and> (\<exists>zm'. zipmapLen zm = Inr (of_nat (card (dom m)), zm') \<and> zipmap_ok zm' m)"
proof -
  obtain c es where zm: "zm = zm_bytes c es" and es: "entries_ok es" "count_ok c (length es)" and m: "m = entry_map es" using ok by (auto simp: zipmap_ok_def)
  have "length (enc (key, val, [])) \<le> length key + length val + 11" by (simp add: enc_def length_len_enc)
  then have big: "length (zm_bytes c es) + length (enc (key, val, [])) < 2 ^ 32" using l unfolding zm by simp
  have zl: "length (zm_bytes c es) < 2 ^ 32" "length key < 2 ^ 32" using l zm by simp_all
  note sp = entries_ok_spare [OF es(1)]
  have len: "\<exists>zm'. zipmapLen zm = Inr (of_nat (card (dom m)), zm') \<and> zipmap_ok zm' m"
    using zipmapLen_entries [OF zl(1) es] zipmap_okI [OF es(1) _ m] by (auto simp: zm m card_entry_map [OF es(1)])
  show ?thesis
  proof (cases "m key")
    case None
    then have k: "key \<notin> fst ` set es" by (simp add: m entry_map_None)
    note lk = lookup_absent [OF zl(1) sp zl(2) k]
    have "zipmapSet junk zm key (of_nat (length key)) val (of_nat (length val)) = Inr (zm_bytes (if unat c < 254 then c + 1 else c) (es @ [(key, val, [])]), False)"
      unfolding zm by (rule zipmapSet_new [OF big sp k])
    moreover have "m(key := None) = m" using None by auto
    ultimately show ?thesis using len None set_new_ok [OF es k, of val] ok
      by (simp add: zm [symmetric] m zipmapExists_def zipmapGet_def zipmapDel_def lk [folded zm])
  next
    case (Some v)
    then obtain es1 fs es2 where e: "es = es1 @ (key, v, fs) # es2" "key \<notin> fst ` set es1" using entry_map_Some [OF es(1)] m by metis
    obtain p where p: "zipmapGet zm key (of_nat (length key)) = Inr (Some (p, of_nat (length v)))" "take (length v) (drop p zm) = v" "p + length v \<le> length zm"
      using zipmapGet_entry [OF e zl(1) sp zl(2)] unfolding zm by blast
    have x: "zipmapExists zm key (of_nat (length key)) = Inr True"
      using lookup_present [OF e(1) _ e(2) zl(1) sp zl(2), where whole = False] by (simp add: zipmapExists_def zm)
    obtain fs' where s: "zipmapSet junk zm key (of_nat (length key)) val (of_nat (length val)) = Inr (zm_bytes c (es1 @ (key, val, fs') # es2), True)" "length fs' < 4"
      using zipmapSet_old [OF e(1) _ e(2) big sp] unfolding zm by auto
    have d: "zipmapDel junk zm key (of_nat (length key)) = Inr (zm_bytes (if unat c < 254 then c - 1 else c) (es1 @ es2), True)"
      unfolding zm by (rule zipmapDel_old [OF e(1) _ e(2) zl(1) sp zl(2)]) simp
    show ?thesis
      using len p x s(1) d Some set_old_ok [OF es [unfolded e(1)] s(2), of val] del_ok [OF es [unfolded e(1)]] by (auto simp: m e(1))
  qed
qed

lemma zipmapNew_ok: "zipmap_ok zipmapNew Map.empty"
  using zipmap_okI [of "[]" 0] by (simp add: entries_ok_def count_ok_def zm_bytes_def zipmapNew_def)

theorem zipmap_refines_witness:
  "\<exists>zm'. zipmapSet (\<lambda>_. 7) zipmapNew [102, 111] 2 [98] 1 = Inr (zm', False) \<and> zipmap_ok zm' [[102, 111] \<mapsto> [98]]"
  using zipmap_refines [of zipmapNew Map.empty "[102, 111]" "[98]" "\<lambda>_. 7"] zipmapNew_ok by (simp add: zipmapNew_def)

end
