(* ===== verification/Adlist.thy ===== *)
theory Adlist
  imports Uthash
begin

text \<open>
  The doubly linked lists of Redis, src/examples/redis-2.0.2/adlist.c and adlist.h. Nodes are records at addresses;
  a \<open>list\<close> is a record of its own, and so is an iterator. The address of a new node is an argument, 0 when
  \<open>zmalloc\<close> fails; allocating a \<open>list\<close> or an iterator succeeds. Loops along links return
  \<open>None\<close> when they do not return or follow NULL.
\<close>

subsection \<open>Data\<close>

record 'v listNode =
  node_prev :: addr
  node_next :: addr
  node_value :: 'v

record listIter =
  li_next :: addr
  direction :: i32

text \<open>The method \<open>dup\<close> may fail. What \<open>free\<close> is called for is recorded.\<close>

record 'v adlist =
  al_head :: addr
  al_tail :: addr
  al_dup :: "('v \<Rightarrow> 'v option) option"
  al_free :: bool
  al_match :: "('v \<Rightarrow> 'v \<Rightarrow> bool) option"
  al_len :: u32

datatype 'v list_event = Free_value 'v | Free_node addr | Free_list

record 'v list_mem =
  nodes :: "addr \<Rightarrow> 'v listNode"
  list_events :: "'v list_event list"

definition AL_START_HEAD :: i32 where "AL_START_HEAD = 0"

definition AL_START_TAIL :: i32 where "AL_START_TAIL = 1"

definition upd_node :: "addr \<Rightarrow> ('v listNode \<Rightarrow> 'v listNode) \<Rightarrow> 'v list_mem \<Rightarrow> 'v list_mem" where
  "upd_node p f m = m\<lparr>nodes := (nodes m)(p := f (nodes m p))\<rparr>"

definition list_event :: "'v list_event \<Rightarrow> 'v list_mem \<Rightarrow> 'v list_mem" where
  "list_event e m = m\<lparr>list_events := list_events m @ [e]\<rparr>"

subsection \<open>Macros\<close>

definition listLength :: "'v adlist \<Rightarrow> u32" where "listLength l = al_len l"

definition listFirst :: "'v adlist \<Rightarrow> addr" where "listFirst l = al_head l"

definition listLast :: "'v adlist \<Rightarrow> addr" where "listLast l = al_tail l"

definition listPrevNode :: "'v list_mem \<Rightarrow> addr \<Rightarrow> addr" where "listPrevNode m n = node_prev (nodes m n)"

definition listNextNode :: "'v list_mem \<Rightarrow> addr \<Rightarrow> addr" where "listNextNode m n = node_next (nodes m n)"

definition listNodeValue :: "'v list_mem \<Rightarrow> addr \<Rightarrow> 'v" where "listNodeValue m n = node_value (nodes m n)"

definition listSetDupMethod :: "'v adlist \<Rightarrow> ('v \<Rightarrow> 'v option) option \<Rightarrow> 'v adlist" where
  "listSetDupMethod l f = l\<lparr>al_dup := f\<rparr>"

definition listSetFreeMethod :: "'v adlist \<Rightarrow> bool \<Rightarrow> 'v adlist" where
  "listSetFreeMethod l f = l\<lparr>al_free := f\<rparr>"

definition listSetMatchMethod :: "'v adlist \<Rightarrow> ('v \<Rightarrow> 'v \<Rightarrow> bool) option \<Rightarrow> 'v adlist" where
  "listSetMatchMethod l f = l\<lparr>al_match := f\<rparr>"

subsection \<open>Making and releasing\<close>

definition listCreate :: "'v adlist" where
  "listCreate = \<lparr>al_head = 0, al_tail = 0, al_dup = None, al_free = False, al_match = None, al_len = 0\<rparr>"

definition free_value :: "'v adlist \<Rightarrow> addr \<Rightarrow> 'v list_mem \<Rightarrow> 'v list_mem" where
  "free_value l p m = (if al_free l then list_event (Free_value (node_value (nodes m p))) m else m)"

fun release_loop :: "nat \<Rightarrow> 'v adlist \<Rightarrow> addr \<Rightarrow> 'v list_mem \<Rightarrow> 'v list_mem option" where
  "release_loop 0 l current m = Some m"
| "release_loop (Suc len) l current m =
     (if current = 0 then None
      else
        let nxt = node_next (nodes m current);
            m = list_event (Free_node current) (free_value l current m)
        in release_loop len l nxt m)"

definition listRelease :: "'v adlist \<Rightarrow> 'v list_mem \<Rightarrow> 'v list_mem option" where
  "listRelease l m = Option.bind (release_loop (unat (al_len l)) l (al_head l) m) (\<lambda>m. Some (list_event Free_list m))"

subsection \<open>Adding and removing\<close>

definition listAddNodeHead :: "'v adlist \<Rightarrow> 'v \<Rightarrow> addr \<Rightarrow> 'v list_mem \<Rightarrow> ('v adlist \<times> 'v list_mem) option" where
  "listAddNodeHead l v node m =
     (if node = 0 then None
      else
        let m = upd_node node (\<lambda>n. n\<lparr>node_value := v\<rparr>) m;
            (l, m) =
              (if al_len l = 0 then (l\<lparr>al_head := node, al_tail := node\<rparr>, upd_node node (\<lambda>n. n\<lparr>node_prev := 0, node_next := 0\<rparr>) m)
               else
                 let m = upd_node node (\<lambda>n. n\<lparr>node_prev := 0, node_next := al_head l\<rparr>) m;
                     m = upd_node (al_head l) (\<lambda>n. n\<lparr>node_prev := node\<rparr>) m
                 in (l\<lparr>al_head := node\<rparr>, m))
        in Some (l\<lparr>al_len := al_len l + 1\<rparr>, m))"

definition listAddNodeTail :: "'v adlist \<Rightarrow> 'v \<Rightarrow> addr \<Rightarrow> 'v list_mem \<Rightarrow> ('v adlist \<times> 'v list_mem) option" where
  "listAddNodeTail l v node m =
     (if node = 0 then None
      else
        let m = upd_node node (\<lambda>n. n\<lparr>node_value := v\<rparr>) m;
            (l, m) =
              (if al_len l = 0 then (l\<lparr>al_head := node, al_tail := node\<rparr>, upd_node node (\<lambda>n. n\<lparr>node_prev := 0, node_next := 0\<rparr>) m)
               else
                 let m = upd_node node (\<lambda>n. n\<lparr>node_prev := al_tail l, node_next := 0\<rparr>) m;
                     m = upd_node (al_tail l) (\<lambda>n. n\<lparr>node_next := node\<rparr>) m
                 in (l\<lparr>al_tail := node\<rparr>, m))
        in Some (l\<lparr>al_len := al_len l + 1\<rparr>, m))"

definition listDelNode :: "'v adlist \<Rightarrow> addr \<Rightarrow> 'v list_mem \<Rightarrow> 'v adlist \<times> 'v list_mem" where
  "listDelNode l node m =
     (let (l, m) =
            (if node_prev (nodes m node) \<noteq> 0
             then (l, upd_node (node_prev (nodes m node)) (\<lambda>n. n\<lparr>node_next := node_next (nodes m node)\<rparr>) m)
             else (l\<lparr>al_head := node_next (nodes m node)\<rparr>, m));
          (l, m) =
            (if node_next (nodes m node) \<noteq> 0
             then (l, upd_node (node_next (nodes m node)) (\<lambda>n. n\<lparr>node_prev := node_prev (nodes m node)\<rparr>) m)
             else (l\<lparr>al_tail := node_prev (nodes m node)\<rparr>, m));
          m = list_event (Free_node node) (free_value l node m)
      in (l\<lparr>al_len := al_len l - 1\<rparr>, m))"

subsection \<open>Iterating\<close>

definition listGetIterator :: "'v adlist \<Rightarrow> i32 \<Rightarrow> listIter" where
  "listGetIterator l dir = \<lparr>li_next = (if dir = AL_START_HEAD then al_head l else al_tail l), direction = dir\<rparr>"

definition listRewind :: "'v adlist \<Rightarrow> listIter" where
  "listRewind l = \<lparr>li_next = al_head l, direction = AL_START_HEAD\<rparr>"

definition listRewindTail :: "'v adlist \<Rightarrow> listIter" where
  "listRewindTail l = \<lparr>li_next = al_tail l, direction = AL_START_TAIL\<rparr>"

definition listNext :: "listIter \<Rightarrow> 'v list_mem \<Rightarrow> addr \<times> listIter" where
  "listNext iter m =
     (let current = li_next iter
      in (current,
          if current \<noteq> 0
          then iter\<lparr>li_next := (if direction iter = AL_START_HEAD then node_next (nodes m current) else node_prev (nodes m current))\<rparr>
          else iter))"

text \<open>\<open>k\<close> counts the calls of \<open>zmalloc\<close>, and the result NULL is \<open>None\<close> inside \<open>Some\<close>.\<close>

partial_function (option) dup_loop ::
  "(nat \<Rightarrow> addr) \<Rightarrow> nat \<Rightarrow> listIter \<Rightarrow> 'v adlist \<Rightarrow> 'v list_mem \<Rightarrow> ('v adlist option \<times> 'v list_mem) option" where
  [code]: "dup_loop zmalloc k iter copy m =
     (let (node, iter) = listNext iter m
      in if node = 0 then Some (Some copy, m)
         else
           case (case al_dup copy of None \<Rightarrow> Some (node_value (nodes m node)) | Some f \<Rightarrow> f (node_value (nodes m node))) of
             None \<Rightarrow> Option.bind (listRelease copy m) (\<lambda>m. Some (None, m))
           | Some v \<Rightarrow>
               (case listAddNodeTail copy v (zmalloc k) m of
                  None \<Rightarrow> Option.bind (listRelease copy m) (\<lambda>m. Some (None, m))
                | Some (copy, m) \<Rightarrow> dup_loop zmalloc (Suc k) iter copy m))"

definition listDup :: "(nat \<Rightarrow> addr) \<Rightarrow> 'v adlist \<Rightarrow> 'v list_mem \<Rightarrow> ('v adlist option \<times> 'v list_mem) option" where
  "listDup zmalloc orig m =
     (let copy = listCreate\<lparr>al_dup := al_dup orig, al_free := al_free orig, al_match := al_match orig\<rparr>
      in dup_loop zmalloc 0 (listGetIterator orig AL_START_HEAD) copy m)"

definition list_matches :: "'v adlist \<Rightarrow> 'v \<Rightarrow> 'v \<Rightarrow> bool" where
  "list_matches l v key = (case al_match l of None \<Rightarrow> key = v | Some f \<Rightarrow> f v key)"

partial_function (option) search_loop :: "'v adlist \<Rightarrow> 'v \<Rightarrow> listIter \<Rightarrow> 'v list_mem \<Rightarrow> addr option" where
  [code]: "search_loop l key iter m =
     (let (node, iter) = listNext iter m
      in if node = 0 then Some 0
         else if list_matches l (node_value (nodes m node)) key then Some node
         else search_loop l key iter m)"

definition listSearchKey :: "'v adlist \<Rightarrow> 'v \<Rightarrow> 'v list_mem \<Rightarrow> addr option" where
  "listSearchKey l key m = search_loop l key (listGetIterator l AL_START_HEAD) m"

text \<open>\<open>while (index-- && n) n = n->prev\<close> (or \<open>next\<close>)\<close>

fun index_loop :: "nat \<Rightarrow> (addr \<Rightarrow> addr) \<Rightarrow> addr \<Rightarrow> addr" where
  "index_loop 0 link n = n"
| "index_loop (Suc i) link n = (if n = 0 then n else index_loop i link (link n))"

definition listIndex :: "'v adlist \<Rightarrow> i32 \<Rightarrow> 'v list_mem \<Rightarrow> addr" where
  "listIndex l index m =
     (if index <s 0 then index_loop (unat (- index - 1)) (\<lambda>n. node_prev (nodes m n)) (al_tail l)
      else index_loop (unat index) (\<lambda>n. node_next (nodes m n)) (al_head l))"

end
