(* ===== verification/Adlistok.thy ===== *)
theory Adlistok
  imports Adlist
begin

text \<open>
  A list of Redis refines a sequence of values: \<open>al_stands l m xs vs\<close> says that its nodes are at \<open>xs\<close>,
  linked both ways, and hold \<open>vs\<close>.
\<close>

subsection \<open>The sequence of a list\<close>

definition nlinks :: "(addr \<Rightarrow> 'v listNode) \<Rightarrow> addr \<Rightarrow> addr list \<Rightarrow> addr \<Rightarrow> bool" where
  "nlinks h p xs q \<longleftrightarrow> dls (\<lambda>p. node_next (h p)) (\<lambda>p. node_prev (h p)) p xs q"

definition al_rep :: "'v adlist \<Rightarrow> 'v list_mem \<Rightarrow> addr list \<Rightarrow> bool" where
  "al_rep l m xs \<longleftrightarrow> nlinks (nodes m) 0 xs 0 \<and> distinct xs
     \<and> al_head l = hd0 xs 0 \<and> al_tail l = last0 0 xs \<and> al_len l = of_nat (length xs) \<and> length xs < 2 ^ 32"

definition vals :: "'v list_mem \<Rightarrow> addr list \<Rightarrow> 'v list" where
  "vals m xs = map (\<lambda>p. node_value (nodes m p)) xs"

definition al_stands :: "'v adlist \<Rightarrow> 'v list_mem \<Rightarrow> addr list \<Rightarrow> 'v list \<Rightarrow> bool" where
  "al_stands l m xs vs \<longleftrightarrow> al_rep l m xs \<and> vals m xs = vs"

text \<open>An operation leaves the methods of the list alone, and changes nodes among \<open>S\<close> only.\<close>

definition methods :: "'v adlist \<Rightarrow> ('v \<Rightarrow> 'v option) option \<times> bool \<times> ('v \<Rightarrow> 'v \<Rightarrow> bool) option" where
  "methods l = (al_dup l, al_free l, al_match l)"

definition only_nodes :: "addr set \<Rightarrow> 'v list_mem \<Rightarrow> 'v list_mem \<Rightarrow> bool" where
  "only_nodes S m m' \<longleftrightarrow> (\<forall>p. p \<notin> S \<longrightarrow> nodes m' p = nodes m p)"

lemma nodes_simps [simp]:
  "nodes (upd_node p f m) = (nodes m)(p := f (nodes m p))" "list_events (upd_node p f m) = list_events m"
  "nodes (list_event e m) = nodes m" "list_events (list_event e m) = list_events m @ [e]" "nodes (free_value l p m) = nodes m"
  by (simp_all add: upd_node_def list_event_def free_value_def)

lemma nlinks_simps [simp]:
  "nlinks h p [] q" "nlinks h p (x # xs) q \<longleftrightarrow> x \<noteq> 0 \<and> node_prev (h x) = p \<and> node_next (h x) = hd0 xs q \<and> nlinks h x xs q"
  "nlinks h p (xs @ ys) q \<longleftrightarrow> nlinks h p xs (hd0 ys q) \<and> nlinks h (last0 p xs) ys q"
  by (simp_all add: nlinks_def dls_append)

lemma nlinks_cong: "(\<And>p. p \<in> set xs \<Longrightarrow> h' p = h p) \<Longrightarrow> nlinks h' p xs q = nlinks h p xs q"
  unfolding nlinks_def by (rule dls_cong) simp

lemma nlinks_upd [simp]: "y \<notin> set xs \<Longrightarrow> nlinks (h(y := n)) p xs q = nlinks h p xs q"
  by (rule nlinks_cong) auto

lemma vals_upd: "y \<notin> set xs \<Longrightarrow> nodes m' = h(y := n) \<Longrightarrow> vals m' xs = map (\<lambda>p. node_value (h p)) xs"
  by (auto simp: vals_def)

lemma vals_simps [simp]: "vals m [] = []" "vals m (p # xs) = node_value (nodes m p) # vals m xs" "vals m (xs @ ys) = vals m xs @ vals m ys"
  "length (vals m xs) = length xs"
  by (simp_all add: vals_def)

lemma vals_cong: "(\<And>p. p \<in> set xs \<Longrightarrow> node_value (nodes m' p) = node_value (nodes m p)) \<Longrightarrow> vals m' xs = vals m xs"
  by (simp add: vals_def)

lemma al_rep_nonzero: "al_rep l m xs \<Longrightarrow> p \<in> set xs \<Longrightarrow> p \<noteq> 0"
  by (auto simp: al_rep_def nlinks_def dest: dls_nonzero)

lemma al_len_zero: "al_rep l m xs \<Longrightarrow> al_len l = 0 \<longleftrightarrow> xs = []"
  by (auto simp: al_rep_def word_unat_eq_iff unat_of_nat take_bit_nat_eq_self)

lemma al_rep_frame:
  assumes "al_rep l m xs" "\<And>p. p \<in> set xs \<Longrightarrow> nodes m' p = nodes m p"
  shows "al_rep l m' xs \<and> vals m' xs = vals m xs"
  using assms nlinks_cong [of xs "nodes m'" "nodes m"] vals_cong [of xs m' m] by (simp add: al_rep_def)

subsection \<open>Adding and removing\<close>

lemma add_head_ok:
  assumes l: "al_rep l m xs" and n: "node \<noteq> 0" "node \<notin> set xs" "length xs + 1 < 2 ^ 32"
  shows "\<exists>l' m'. listAddNodeHead l v node m = Some (l', m') \<and> al_rep l' m' (node # xs) \<and> vals m' (node # xs) = v # vals m xs
    \<and> methods l' = methods l \<and> list_events m' = list_events m \<and> only_nodes (set (node # xs)) m m'"
proof (cases xs)
  case Nil
  then show ?thesis using l n al_len_zero [OF l] by (simp add: listAddNodeHead_def al_rep_def methods_def only_nodes_def)
next
  case (Cons x xs')
  then have x: "al_len l \<noteq> 0" "al_head l = x" "x \<noteq> 0" "x \<noteq> node" using l n(2) al_len_zero [OF l] by (auto simp: al_rep_def)
  have v: "vals m' xs' = vals m xs'" if "\<forall>p \<in> set xs'. nodes m' p = nodes m p" for m' using that by (intro vals_cong) simp
  show ?thesis using l n x by (auto simp: listAddNodeHead_def al_rep_def methods_def only_nodes_def Cons intro!: v)
qed

lemma add_tail_ok:
  assumes l: "al_rep l m xs" and n: "node \<noteq> 0" "node \<notin> set xs" "length xs + 1 < 2 ^ 32"
  shows "\<exists>l' m'. listAddNodeTail l v node m = Some (l', m') \<and> al_rep l' m' (xs @ [node]) \<and> vals m' (xs @ [node]) = vals m xs @ [v]
    \<and> methods l' = methods l \<and> list_events m' = list_events m \<and> only_nodes (set (node # xs)) m m'"
proof (cases xs rule: rev_cases)
  case Nil
  then show ?thesis using l n al_len_zero [OF l] by (simp add: listAddNodeTail_def al_rep_def methods_def only_nodes_def)
next
  case (snoc xs' x)
  then have x: "al_len l \<noteq> 0" "al_tail l = x" "x \<noteq> 0" "x \<noteq> node" using l n(2) al_len_zero [OF l] al_rep_nonzero [OF l, of x] by (auto simp: al_rep_def)
  have v: "vals m' xs' = vals m xs'" if "\<forall>p \<in> set xs'. nodes m' p = nodes m p" for m' using that by (intro vals_cong) simp
  show ?thesis using l n x by (auto simp: listAddNodeTail_def al_rep_def methods_def only_nodes_def snoc  intro!: v)
qed

lemma del_node_ok:
  assumes l: "al_rep l m (xs @ e # ys)"
  shows "\<exists>l' m'. listDelNode l e m = (l', m') \<and> al_rep l' m' (xs @ ys) \<and> (\<forall>p. node_value (nodes m' p) = node_value (nodes m p))
    \<and> methods l' = methods l \<and> list_events m' = list_events m @ (if al_free l then [Free_value (node_value (nodes m e))] else []) @ [Free_node e]"
proof -
  have d: "nlinks (nodes m) 0 (xs @ e # ys) 0" "distinct (xs @ e # ys)" using l by (simp_all add: al_rep_def)
  have e: "e \<noteq> 0" "node_prev (nodes m e) = last0 0 xs" "node_next (nodes m e) = hd0 ys 0" using d(1) by simp_all
  have z: "last0 0 xs = 0 \<longleftrightarrow> xs = []" "hd0 ys 0 = 0 \<longleftrightarrow> ys = []"
    using al_rep_nonzero [OF l] by (cases xs rule: rev_cases; cases ys; force)+
  show ?thesis
  proof (cases xs rule: rev_cases)
    case Nil
    then show ?thesis using l d e z by (cases ys) (auto simp: listDelNode_def al_rep_def methods_def free_value_def)
  next
    case (snoc xs' x)
    then show ?thesis using l d e z by (cases ys) (auto simp: listDelNode_def al_rep_def methods_def free_value_def )
  qed
qed

subsection \<open>Releasing, searching, indexing\<close>

text \<open>What releasing gives back, in its order.\<close>

definition released :: "'v adlist \<Rightarrow> 'v list_mem \<Rightarrow> addr list \<Rightarrow> 'v list_event list" where
  "released l m xs = concat (map (\<lambda>p. (if al_free l then [Free_value (node_value (nodes m p))] else []) @ [Free_node p]) xs)"

lemma released_simps [simp]:
  "released l m [] = []" "released l m (p # xs) = (if al_free l then [Free_value (node_value (nodes m p))] else []) @ Free_node p # released l m xs"
  by (simp_all add: released_def)

lemma released_cong: "methods l' = methods l \<Longrightarrow> nodes m' = nodes m \<Longrightarrow> released l' m' xs = released l m xs"
  by (simp add: released_def methods_def cong: if_cong)

lemma release_loop_ok:
  "nlinks (nodes m) p xs 0 \<Longrightarrow>
    \<exists>m'. release_loop (length xs) l (hd0 xs 0) m = Some m' \<and> nodes m' = nodes m \<and> list_events m' = list_events m @ released l m xs"
proof (induction xs arbitrary: p m)
  case (Cons x xs)
  let ?m = "list_event (Free_node x) (free_value l x m)"
  obtain m' where "release_loop (length xs) l (hd0 xs 0) ?m = Some m'" "nodes m' = nodes m" "list_events m' = list_events ?m @ released l ?m xs"
    using Cons.IH [of ?m x] Cons.prems by auto
  then show ?case using Cons.prems released_cong [of l l ?m m] by (auto simp: Let_def free_value_def)
qed simp

lemma listRelease_ok:
  assumes "al_rep l m xs"
  shows "\<exists>m'. listRelease l m = Some m' \<and> nodes m' = nodes m \<and> list_events m' = list_events m @ released l m xs @ [Free_list]"
proof -
  have "unat (al_len l) = length xs" using assms by (simp add: al_rep_def unat_of_nat take_bit_nat_eq_self)
  then show ?thesis using release_loop_ok [of m 0 xs l] assms by (auto simp: listRelease_def al_rep_def)
qed

lemma search_loop_ok:
  "nlinks (nodes m) p xs 0 \<Longrightarrow> search_loop l key \<lparr>li_next = hd0 xs 0, direction = AL_START_HEAD\<rparr> m
    = Some (case find (\<lambda>p. list_matches l (node_value (nodes m p)) key) xs of None \<Rightarrow> 0 | Some p \<Rightarrow> p)"
proof (induction xs arbitrary: p)
  case Nil
  then show ?case by (subst search_loop.simps) (simp add: listNext_def)
next
  case (Cons x xs)
  then show ?case using Cons.IH [of x] by (subst search_loop.simps) (simp add: listNext_def Let_def)
qed

lemma index_next: "nlinks h p xs 0 \<Longrightarrow> index_loop i (\<lambda>n. node_next (h n)) (hd0 xs 0) = (if i < length xs then xs ! i else 0)"
proof (induction xs arbitrary: i p)
  case (Cons x xs)
  then show ?case by (cases i) auto
next
  case Nil
  show ?case by (cases i) simp_all
qed

lemma index_prev: "nlinks h 0 xs q \<Longrightarrow> index_loop i (\<lambda>n. node_prev (h n)) (last0 0 xs) = (if i < length xs then rev xs ! i else 0)"
proof (induction xs arbitrary: i q rule: rev_induct)
  case (snoc x xs)
  then show ?case by (cases i) auto
next
  case Nil
  show ?case by (cases i) simp_all
qed

lemma listIndex_ok:
  assumes "al_rep l m xs"
  shows "listIndex l j m =
    (let i = (if sint j < 0 then int (length xs) + sint j else sint j) in if 0 \<le> i \<and> i < int (length xs) then xs ! nat i else 0)"
proof -
  have l: "nlinks (nodes m) 0 xs 0" "al_head l = hd0 xs 0" "al_tail l = last0 0 xs" using assms by (simp_all add: al_rep_def)
  show ?thesis
  proof (cases "sint j < 0")
    case True
    moreover have "- (2 ^ 31) \<le> sint j" using sint_greater_eq [of j] by simp
    moreover have "- j - 1 = of_nat (nat (- sint j - 1))" using True by simp
    ultimately have i: "unat (- j - 1) = nat (- sint j - 1)" using nonneg_i32_of_nat(2) [of "nat (- sint j - 1)"] by simp
    have "rev xs ! nat (- sint j - 1) = xs ! nat (int (length xs) + sint j)" if "- sint j \<le> int (length xs)"
      using that True by (subst rev_nth) (auto simp: nat_diff_distrib intro!: arg_cong [of _ _ "(!) xs"])
    then show ?thesis using True index_prev [OF l(1), of "nat (- sint j - 1)"] by (auto simp: listIndex_def word_sless_alt i l(3) Let_def)
  next
    case False
    moreover have "sint j < 2 ^ 31" using sint_less [of j] by simp
    moreover have "j = of_nat (nat (sint j))" using False by simp
    ultimately have "unat j = nat (sint j)" using nonneg_i32_of_nat(2) [of "nat (sint j)"] by simp
    then show ?thesis using False index_next [OF l(1), of "nat (sint j)"] by (auto simp: listIndex_def word_sless_alt l(2) Let_def)
  qed
qed

subsection \<open>Iterating and deleting\<close>

text \<open>
  What the comment at \<open>listNext\<close> allows: a loop that deletes some of the nodes it is given. The nodes it was
  given, and what it leaves.
\<close>

partial_function (option) list_sweep :: "('v \<Rightarrow> bool) \<Rightarrow> listIter \<Rightarrow> 'v adlist \<Rightarrow> 'v list_mem \<Rightarrow> (addr list \<times> 'v adlist \<times> 'v list_mem) option" where
  [code]: "list_sweep unwanted iter l m =
     (let (node, iter) = listNext iter m
      in if node = 0 then Some ([], l, m)
         else
           let (l, m) = (if unwanted (node_value (nodes m node)) then listDelNode l node m else (l, m))
           in Option.bind (list_sweep unwanted iter l m) (\<lambda>(ns, l, m). Some (node # ns, l, m)))"

definition unwanted_events :: "('v \<Rightarrow> bool) \<Rightarrow> 'v adlist \<Rightarrow> 'v list_mem \<Rightarrow> addr list \<Rightarrow> 'v list_event list" where
  "unwanted_events unwanted l m xs = released l m (filter (\<lambda>p. unwanted (node_value (nodes m p))) xs)"

lemma released_values:
  "methods l' = methods l \<Longrightarrow> (\<And>p. node_value (nodes m' p) = node_value (nodes m p)) \<Longrightarrow> released l' m' xs = released l m xs"
  by (simp add: released_def methods_def cong: if_cong)

text \<open>The list when an iteration has passed \<open>a\<close>, the last node first, and is to give \<open>ys\<close>.\<close>

definition arranged :: "i32 \<Rightarrow> addr list \<Rightarrow> addr list \<Rightarrow> addr list" where
  "arranged dir a ys = (if dir = AL_START_HEAD then rev a @ ys else rev ys @ a)"

lemma arranged_pass: "arranged dir (y # a) ys = arranged dir a (y # ys)"
  by (simp add: arranged_def)

lemma arranged_split:
  obtains xs zs where "arranged dir a (y # ys) = xs @ y # zs" "arranged dir a ys = xs @ zs"
  by (cases "dir = AL_START_HEAD") (simp_all add: arranged_def)

lemma arranged_next:
  assumes "al_rep l m (arranged dir a (y # ys))"
  shows "y \<noteq> 0" "listNext \<lparr>li_next = hd0 (y # ys) 0, direction = dir\<rparr> m = (y, \<lparr>li_next = hd0 ys 0, direction = dir\<rparr>)"
proof -
  have "last0 0 (rev ys) = hd0 ys 0" by (cases ys) simp_all
  then show "y \<noteq> 0" "listNext \<lparr>li_next = hd0 (y # ys) 0, direction = dir\<rparr> m = (y, \<lparr>li_next = hd0 ys 0, direction = dir\<rparr>)"
    using assms by (auto simp: al_rep_def arranged_def listNext_def split: if_splits)
qed

text \<open>What a sweep over \<open>ys\<close> leaves.\<close>

definition swept_list :: "('v \<Rightarrow> bool) \<Rightarrow> i32 \<Rightarrow> addr list \<Rightarrow> addr list \<Rightarrow> 'v adlist \<Rightarrow> 'v list_mem \<Rightarrow> 'v adlist \<Rightarrow> 'v list_mem \<Rightarrow> bool" where
  "swept_list unwanted dir a ys l m l' m' \<longleftrightarrow>
     al_rep l' m' (arranged dir a (filter (\<lambda>p. \<not> unwanted (node_value (nodes m p))) ys)) \<and> (\<forall>p. node_value (nodes m' p) = node_value (nodes m p))
     \<and> list_events m' = list_events m @ unwanted_events unwanted l m ys \<and> methods l' = methods l"

lemma list_sweep_spec:
  "al_rep l m (arranged dir a ys) \<Longrightarrow>
    \<exists>l' m'. list_sweep unwanted \<lparr>li_next = hd0 ys 0, direction = dir\<rparr> l m = Some (ys, l', m') \<and> swept_list unwanted dir a ys l m l' m'"
proof (induction ys arbitrary: a l m)
  case Nil
  then show ?case by (subst list_sweep.simps) (simp add: listNext_def unwanted_events_def swept_list_def)
next
  case (Cons y ys)
  note nx = arranged_next [OF Cons.prems]
  show ?case
  proof (cases "unwanted (node_value (nodes m y))")
    case True
    obtain xs zs where s: "arranged dir a (y # ys) = xs @ y # zs" "arranged dir a ys = xs @ zs" by (rule arranged_split)
    obtain l1 m1 where d: "listDelNode l y m = (l1, m1)" "al_rep l1 m1 (arranged dir a ys)" "\<And>p. node_value (nodes m1 p) = node_value (nodes m p)" "methods l1 = methods l"
      "list_events m1 = list_events m @ (if al_free l then [Free_value (node_value (nodes m y))] else []) @ [Free_node y]"
      using del_node_ok [OF Cons.prems [unfolded s(1)]] unfolding s(2) by blast
    from Cons.IH [OF d(2)] obtain l' m' where i: "list_sweep unwanted \<lparr>li_next = hd0 ys 0, direction = dir\<rparr> l1 m1 = Some (ys, l', m')"
      "swept_list unwanted dir a ys l1 m1 l' m'" by blast
    have "list_sweep unwanted \<lparr>li_next = hd0 (y # ys) 0, direction = dir\<rparr> l m = Some (y # ys, l', m')"
      using nx True d(1) i(1) by (subst list_sweep.simps) (simp add: Let_def)
    then show ?thesis using i(2) d(3-) True released_values [OF d(4,3)] by (simp add: swept_list_def unwanted_events_def)
  next
    case False
    from Cons.IH [of l m "y # a"] Cons.prems obtain l' m' where i: "list_sweep unwanted \<lparr>li_next = hd0 ys 0, direction = dir\<rparr> l m = Some (ys, l', m')"
      "swept_list unwanted dir (y # a) ys l m l' m'" unfolding arranged_pass by blast
    have "list_sweep unwanted \<lparr>li_next = hd0 (y # ys) 0, direction = dir\<rparr> l m = Some (y # ys, l', m')"
      using nx False i(1) by (subst list_sweep.simps) (simp add: Let_def)
    then show ?thesis using i(2) False by (simp add: swept_list_def unwanted_events_def arranged_pass)
  qed
qed

subsection \<open>Duplicating\<close>

definition dup_value :: "'v adlist \<Rightarrow> 'v \<Rightarrow> 'v option" where
  "dup_value l v = (case al_dup l of None \<Rightarrow> Some v | Some f \<Rightarrow> f v)"

text \<open>The loop from the \<open>k\<close>-th node on, when the copy is at \<open>cs\<close>, until it comes to \<open>zs\<close>.\<close>

definition copied :: "'v adlist \<Rightarrow> (nat \<Rightarrow> addr) \<Rightarrow> nat \<Rightarrow> nat \<Rightarrow> addr list \<Rightarrow> 'v list \<Rightarrow> 'v list_mem \<Rightarrow> 'v adlist \<Rightarrow> 'v list_mem \<Rightarrow> bool" where
  "copied orig zmalloc k n cs ws m copy' m' \<longleftrightarrow>
     al_rep copy' m' (cs @ map zmalloc [k..<k + n]) \<and> vals m' (cs @ map zmalloc [k..<k + n]) = vals m cs @ ws
     \<and> methods copy' = methods orig \<and> list_events m' = list_events m \<and> only_nodes (set cs \<union> zmalloc ` {k..<k + n}) m m'"

definition fresh_nodes :: "(nat \<Rightarrow> addr) \<Rightarrow> nat \<Rightarrow> nat \<Rightarrow> addr set \<Rightarrow> bool" where
  "fresh_nodes zmalloc k n S \<longleftrightarrow> (\<forall>j \<in> {k..<k + n}. zmalloc j \<noteq> 0 \<and> zmalloc j \<notin> S) \<and> inj_on zmalloc {k..<k + n}"

lemma fresh_nodes_Suc:
  assumes "fresh_nodes zmalloc k (Suc n) S"
  shows "zmalloc k \<noteq> 0" "zmalloc k \<notin> S" "fresh_nodes zmalloc (Suc k) n (insert (zmalloc k) S)"
proof -
  have i: "{k..<k + Suc n} = insert k {Suc k..<Suc k + n}" by auto
  have "zmalloc j \<noteq> zmalloc k" if "j \<in> {Suc k..<Suc k + n}" for j
    using inj_onD [of zmalloc "{k..<k + Suc n}" j k] that assms unfolding fresh_nodes_def i by auto
  with i show "zmalloc k \<noteq> 0" "zmalloc k \<notin> S" "fresh_nodes zmalloc (Suc k) n (insert (zmalloc k) S)"
    using assms unfolding fresh_nodes_def by auto
qed

lemma dup_loop_ok:
  assumes "al_rep orig m (a @ ys @ zs)" "al_rep copy m cs" "set (a @ ys @ zs) \<inter> set cs = {}" "methods copy = methods orig"
    "list_all2 (\<lambda>p w. dup_value orig (node_value (nodes m p)) = Some w) ys ws"
    "fresh_nodes zmalloc k (length ys) (set (a @ ys @ zs) \<union> set cs)" "length cs + length ys < 2 ^ 32"
  shows "\<exists>copy' m'. dup_loop zmalloc k \<lparr>li_next = hd0 (ys @ zs) 0, direction = AL_START_HEAD\<rparr> copy m
      = dup_loop zmalloc (k + length ys) \<lparr>li_next = hd0 zs 0, direction = AL_START_HEAD\<rparr> copy' m'
    \<and> copied orig zmalloc k (length ys) cs ws m copy' m'"
  using assms
proof (induction ys arbitrary: a copy m cs k ws)
  case Nil
  then show ?case by (intro exI [of _ copy] exI [of _ m]) (simp add: copied_def only_nodes_def)
next
  case (Cons y ys)
  obtain w ws' where w: "ws = w # ws'" "dup_value orig (node_value (nodes m y)) = Some w"
    "list_all2 (\<lambda>p w. dup_value orig (node_value (nodes m p)) = Some w) ys ws'" using Cons.prems(5) by (auto simp: list_all2_Cons1)
  let ?n = "zmalloc k" and ?it = "\<lambda>ys. \<lparr>li_next = hd0 ys 0, direction = AL_START_HEAD\<rparr>"
  note f = fresh_nodes_Suc [OF Cons.prems(6) [unfolded list.size add_Suc_right add_0_right]]
  have n: "?n \<noteq> 0" "?n \<notin> set cs" "?n \<notin> set (a @ (y # ys) @ zs)" using f(1,2) by simp_all
  have "length cs + 1 < 2 ^ 32" using Cons.prems(7) by simp
  from add_tail_ok [OF Cons.prems(2) n(1,2) this, of w] obtain c1 m1 where c: "listAddNodeTail copy w ?n m = Some (c1, m1)"
    "al_rep c1 m1 (cs @ [?n])" "vals m1 (cs @ [?n]) = vals m cs @ [w]" "methods c1 = methods copy" "list_events m1 = list_events m" "only_nodes (set (?n # cs)) m m1"
    by blast
  have old: "nodes m1 p = nodes m p" if "p \<in> set (a @ (y # ys) @ zs)" for p
  proof -
    have "p \<notin> set (?n # cs)" using n(3) Cons.prems(3) that by auto
    then show ?thesis using c(6) unfolding only_nodes_def by blast
  qed
  have rep: "al_rep orig m1 ((a @ [y]) @ ys @ zs)" using al_rep_frame [OF Cons.prems(1) old] by simp
  have "al_rep orig m (arranged AL_START_HEAD (rev a) (y # ys @ zs))" using Cons.prems(1) by (simp add: arranged_def)
  note nx = arranged_next [OF this]
  have "\<exists>copy' m'. dup_loop zmalloc (Suc k) (?it (ys @ zs)) c1 m1 = dup_loop zmalloc (Suc k + length ys) (?it zs) copy' m'
    \<and> copied orig zmalloc (Suc k) (length ys) (cs @ [?n]) ws' m1 copy' m'"
  proof (rule Cons.IH [OF rep c(2)])
    show "set ((a @ [y]) @ ys @ zs) \<inter> set (cs @ [?n]) = {}" using Cons.prems(3) n(3) by auto
    show "methods c1 = methods orig" using c(4) Cons.prems(4) by simp
    show "list_all2 (\<lambda>p w. dup_value orig (node_value (nodes m1 p)) = Some w) ys ws'"
      using w(3) by (rule list.rel_mono_strong) (use old in simp)
    show "fresh_nodes zmalloc (Suc k) (length ys) (set ((a @ [y]) @ ys @ zs) \<union> set (cs @ [?n]))" using f(3) by (simp add: insert_commute)
    show "length (cs @ [?n]) + length ys < 2 ^ 32" using Cons.prems(7) by simp
  qed
  then obtain copy' m' where r: "dup_loop zmalloc (Suc k) (?it (ys @ zs)) c1 m1 = dup_loop zmalloc (Suc k + length ys) (?it zs) copy' m'"
    "copied orig zmalloc (Suc k) (length ys) (cs @ [?n]) ws' m1 copy' m'" by blast
  have u: "map zmalloc [k..<k + length (y # ys)] = ?n # map zmalloc [Suc k..<Suc k + length ys]" "{k..<k + length (y # ys)} = insert k {Suc k..<Suc k + length ys}"
    by (auto simp: upt_rec)
  have "dup_loop zmalloc k (?it ((y # ys) @ zs)) copy m = dup_loop zmalloc (Suc k) (?it (ys @ zs)) c1 m1"
    using nx w(2) Cons.prems(4) c(1) by (subst dup_loop.simps) (simp add: dup_value_def methods_def)
  moreover have "copied orig zmalloc k (length (y # ys)) cs ws m copy' m'"
    using r(2) c(3,5,6) w(1) unfolding copied_def u by (simp add: only_nodes_def)
  ultimately show ?case using r(1) by auto
qed

text \<open>The whole duplication, and one for which \<open>zmalloc\<close> fails behind \<open>ys\<close>.\<close>

lemma listCreate_rep: "al_rep (listCreate\<lparr>al_dup := d, al_free := f, al_match := g\<rparr>) m []"
  by (simp add: al_rep_def listCreate_def)

lemma listDup_start:
  assumes "al_rep orig m (ys @ zs)" "list_all2 (\<lambda>p w. dup_value orig (node_value (nodes m p)) = Some w) ys ws" "fresh_nodes zmalloc 0 (length ys) (set (ys @ zs))"
  shows "\<exists>copy' m'. listDup zmalloc orig m = dup_loop zmalloc (length ys) \<lparr>li_next = hd0 zs 0, direction = AL_START_HEAD\<rparr> copy' m'
    \<and> copied orig zmalloc 0 (length ys) [] ws m copy' m'"
proof -
  let ?c = "listCreate\<lparr>al_dup := al_dup orig, al_free := al_free orig, al_match := al_match orig\<rparr>"
  have "length ys < 2 ^ 32" using assms(1) by (simp add: al_rep_def)
  then show ?thesis
    using dup_loop_ok [of orig m "[]" ys zs ?c "[]" ws zmalloc 0] assms listCreate_rep
    by (simp add: listDup_def listGetIterator_def al_rep_def methods_def)
qed

lemma listDup_ok:
  assumes "al_rep orig m ys" "list_all2 (\<lambda>p w. dup_value orig (node_value (nodes m p)) = Some w) ys ws" "fresh_nodes zmalloc 0 (length ys) (set ys)"
  shows "\<exists>copy' m'. listDup zmalloc orig m = Some (Some copy', m') \<and> copied orig zmalloc 0 (length ys) [] ws m copy' m'"
  using listDup_start [of orig m ys "[]" ws zmalloc] assms
  by (simp add: dup_loop.simps [of zmalloc "length ys" "\<lparr>li_next = 0, direction = AL_START_HEAD\<rparr>"] listNext_def)

lemma listDup_fails:
  assumes o: "al_rep orig m (ys @ z # zs)" "list_all2 (\<lambda>p w. dup_value orig (node_value (nodes m p)) = Some w) ys ws" "fresh_nodes zmalloc 0 (length ys) (set (ys @ z # zs))"
    and z: "zmalloc (length ys) = 0"
  shows "\<exists>m'. listDup zmalloc orig m = Some (None, m')
    \<and> list_events m' = list_events m @ concat (map2 (\<lambda>w j. (if al_free orig then [Free_value w] else []) @ [Free_node (zmalloc j)]) ws [0..<length ys]) @ [Free_list]"
proof -
  obtain c1 m1 where c: "listDup zmalloc orig m = dup_loop zmalloc (length ys) \<lparr>li_next = hd0 (z # zs) 0, direction = AL_START_HEAD\<rparr> c1 m1"
    "copied orig zmalloc 0 (length ys) [] ws m c1 m1" using listDup_start [OF o] by blast
  then have r: "al_rep c1 m1 (map zmalloc [0..<length ys])" "vals m1 (map zmalloc [0..<length ys]) = ws" "methods c1 = methods orig" "list_events m1 = list_events m"
    by (simp_all add: copied_def)
  obtain m' where m': "listRelease c1 m1 = Some m'" "list_events m' = list_events m1 @ released c1 m1 (map zmalloc [0..<length ys]) @ [Free_list]"
    using listRelease_ok [OF r(1)] by blast
  have "released c1 m1 (map zmalloc js) = concat (map2 (\<lambda>w j. (if al_free orig then [Free_value w] else []) @ [Free_node (zmalloc j)]) (vals m1 (map zmalloc js)) js)" for js
    using r(3) by (induction js) (simp_all add: methods_def)
  moreover have "z \<noteq> 0" using al_rep_nonzero [OF o(1)] by simp
  moreover have "listAddNodeTail c1 w (zmalloc (length ys)) m1 = None" for w using z by (simp add: listAddNodeTail_def)
  ultimately show ?thesis using c(1) m' r(2,4)
    by (intro exI [of _ m']) (simp add: dup_loop.simps [of zmalloc "length ys"] listNext_def split: option.split)
qed

subsection \<open>Properties\<close>

text \<open>C21: A list of Redis refines a sequence of values: adding at either end, deleting a node, searching, indexing
  from either end, duplicating and releasing do to the nodes what they do to the sequence; deleting and
  releasing give back each node and, if there is a free method, its value once.\<close>

theorem adlist_refines:
  assumes l: "al_stands l m xs vs" and n: "node \<noteq> 0" "node \<notin> set xs" "length xs + 1 < 2 ^ 32"
    and d: "list_all2 (\<lambda>v w. dup_value l v = Some w) vs ws" "fresh_nodes zmalloc 0 (length xs) (set xs)"
  shows "(\<exists>l' m'. listAddNodeHead l v node m = Some (l', m') \<and> al_stands l' m' (node # xs) (v # vs))
    \<and> (\<exists>l' m'. listAddNodeTail l v node m = Some (l', m') \<and> al_stands l' m' (xs @ [node]) (vs @ [v]))
    \<and> (\<forall>i < length xs. \<exists>l' m'. listDelNode l (xs ! i) m = (l', m') \<and> al_stands l' m' (take i xs @ drop (Suc i) xs) (take i vs @ drop (Suc i) vs)
        \<and> list_events m' = list_events m @ (if al_free l then [Free_value (vs ! i)] else []) @ [Free_node (xs ! i)])
    \<and> listSearchKey l key m = Some (case find (\<lambda>(p, v). list_matches l v key) (zip xs vs) of None \<Rightarrow> 0 | Some (p, v) \<Rightarrow> p)
    \<and> listIndex l j m = (let i = (if sint j < 0 then int (length xs) + sint j else sint j) in if 0 \<le> i \<and> i < int (length xs) then xs ! nat i else 0)
    \<and> (\<exists>copy m'. listDup zmalloc l m = Some (Some copy, m') \<and> al_stands copy m' (map zmalloc [0..<length xs]) ws \<and> al_stands l m' xs vs \<and> list_events m' = list_events m)
    \<and> (\<exists>m'. listRelease l m = Some m'
        \<and> list_events m' = list_events m @ concat (map2 (\<lambda>p v. (if al_free l then [Free_value v] else []) @ [Free_node p]) xs vs) @ [Free_list])"
proof -
  have r: "al_rep l m xs" "vals m xs = vs" using l by (simp_all add: al_stands_def)
  have lv: "length vs = length xs" using r(2) by auto
  have del: "\<exists>l' m'. listDelNode l (xs ! i) m = (l', m') \<and> al_stands l' m' (take i xs @ drop (Suc i) xs) (take i vs @ drop (Suc i) vs)
        \<and> list_events m' = list_events m @ (if al_free l then [Free_value (vs ! i)] else []) @ [Free_node (xs ! i)]" if "i < length xs" for i
  proof -
    have "xs = take i xs @ xs ! i # drop (Suc i) xs" using that by (simp add: id_take_nth_drop [symmetric])
    with r(1) have "al_rep l m (take i xs @ xs ! i # drop (Suc i) xs)" by simp
    from del_node_ok [OF this] show ?thesis using r(2) that vals_cong
      by (fastforce simp: al_stands_def vals_def take_map drop_map)
  qed
  have "(case find (\<lambda>p. list_matches l (node_value (nodes m p)) key) xs of None \<Rightarrow> 0 | Some p \<Rightarrow> p)
      = (case find (\<lambda>(p, v). list_matches l v key) (zip xs vs) of None \<Rightarrow> 0 | Some (p, v) \<Rightarrow> p)"
    unfolding r(2) [symmetric] by (induction xs) simp_all
  then have search: "listSearchKey l key m = Some (case find (\<lambda>(p, v). list_matches l v key) (zip xs vs) of None \<Rightarrow> 0 | Some (p, v) \<Rightarrow> p)"
    using search_loop_ok [of m 0 xs l key] r(1) by (simp add: listSearchKey_def listGetIterator_def al_rep_def)
  have "list_all2 (\<lambda>p w. dup_value l (node_value (nodes m p)) = Some w) xs ws" using d(1) r(2) by (auto simp: vals_def list_all2_map1)
  from listDup_ok [OF r(1) this d(2)] obtain copy m' where c: "listDup zmalloc l m = Some (Some copy, m')" "copied l zmalloc 0 (length xs) [] ws m copy m'" by blast
  have "nodes m' p = nodes m p" if "p \<in> set xs" for p
  proof -
    have "p \<notin> set [] \<union> zmalloc ` {0..<0 + length xs}" using d(2) that unfolding fresh_nodes_def by auto
    then show ?thesis using c(2) unfolding copied_def only_nodes_def by blast
  qed
  from al_rep_frame [OF r(1) this] have dup: "al_stands copy m' (map zmalloc [0..<length xs]) ws \<and> al_stands l m' xs vs \<and> list_events m' = list_events m"
    using c(2) r(2) by (simp add: al_stands_def copied_def)
  have "released l m xs = concat (map2 (\<lambda>p v. (if al_free l then [Free_value v] else []) @ [Free_node p]) xs vs)"
    unfolding r(2) [symmetric] by (induction xs) simp_all
  then have rel: "\<exists>m'. listRelease l m = Some m'
        \<and> list_events m' = list_events m @ concat (map2 (\<lambda>p v. (if al_free l then [Free_value v] else []) @ [Free_node p]) xs vs) @ [Free_list]"
    using listRelease_ok [OF r(1)] by auto
  have "\<exists>l' m'. listAddNodeHead l v node m = Some (l', m') \<and> al_stands l' m' (node # xs) (v # vs)"
    "\<exists>l' m'. listAddNodeTail l v node m = Some (l', m') \<and> al_stands l' m' (xs @ [node]) (vs @ [v])"
    using add_head_ok [OF r(1) n, of v] add_tail_ok [OF r(1) n, of v] r(2) unfolding al_stands_def by auto
  moreover have "\<exists>copy m'. listDup zmalloc l m = Some (Some copy, m') \<and> al_stands copy m' (map zmalloc [0..<length xs]) ws \<and> al_stands l m' xs vs \<and> list_events m' = list_events m"
    using c(1) dup by blast
  ultimately show ?thesis using search listIndex_ok [OF r(1), of j] rel by (intro conjI allI impI del)
qed

text \<open>C22: A loop with an iterator that deletes nodes it has just been given is given every node of the list once, in
  order from the head or backwards from the tail, and leaves a list of exactly the other nodes.\<close>

theorem list_sweep_visits_all:
  assumes "al_stands l m xs vs"
  shows "\<exists>l' m'. list_sweep unwanted (listGetIterator l dir) l m = Some (if dir = AL_START_HEAD then xs else rev xs, l', m')
    \<and> al_stands l' m' (filter (\<lambda>p. \<not> unwanted (node_value (nodes m p))) xs) (filter (\<lambda>v. \<not> unwanted v) vs)
    \<and> list_events m' = list_events m @ released l m (filter (\<lambda>p. unwanted (node_value (nodes m p))) (if dir = AL_START_HEAD then xs else rev xs))"
proof -
  have r: "al_rep l m xs" "vals m xs = vs" using assms by (simp_all add: al_stands_def)
  let ?ys = "if dir = AL_START_HEAD then xs else rev xs"
  have "last0 0 xs = hd0 (rev xs) 0" by (cases xs rule: rev_cases) simp_all
  then have it: "listGetIterator l dir = \<lparr>li_next = hd0 ?ys 0, direction = dir\<rparr>" using r(1) by (simp add: listGetIterator_def al_rep_def)
  have a: "arranged dir [] ?ys = xs" "arranged dir [] (filter P ?ys) = filter P xs" for P by (simp_all add: arranged_def rev_filter)
  have v: "vals m' (filter (\<lambda>p. \<not> unwanted (node_value (nodes m p))) xs) = filter (\<lambda>v. \<not> unwanted v) vs"
    if "\<forall>p. node_value (nodes m' p) = node_value (nodes m p)" for m' using that unfolding r(2) [symmetric] by (simp add: vals_def filter_map o_def)
  have "al_rep l m (arranged dir [] ?ys)" using r(1) unfolding a .
  from list_sweep_spec [OF this, of unwanted] show ?thesis
    unfolding it swept_list_def unwanted_events_def al_stands_def a using v by blast
qed

text \<open>C36: When \<open>zmalloc\<close> fails during a duplication, the part of the copy is released; of a list with a free method
  and no dup method this frees values that the original still holds, which the comment at \<open>listDup\<close> excludes.\<close>

theorem list_dup_frees_shared:
  assumes l: "al_stands l m xs vs" and d: "al_dup l = None" "al_free l"
    and z: "k < length xs" "fresh_nodes zmalloc 0 k (set xs)" "zmalloc k = 0"
  shows "\<exists>m'. listDup zmalloc l m = Some (None, m')
    \<and> list_events m' = list_events m @ concat (map (\<lambda>j. [Free_value (vs ! j), Free_node (zmalloc j)]) [0..<k]) @ [Free_list]"
proof -
  have r: "al_rep l m xs" "vals m xs = vs" using l by (simp_all add: al_stands_def)
  have x: "xs = take k xs @ xs ! k # drop (Suc k) xs" "length (take k xs) = k" using z(1) by (simp_all add: id_take_nth_drop [symmetric])
  have "list_all2 (\<lambda>p w. dup_value l (node_value (nodes m p)) = Some w) (take k xs) (take k vs)"
    unfolding r(2) [symmetric] using d(1) by (simp add: vals_def dup_value_def take_map list_all2_map2 list.rel_refl)
  moreover have "map2 (\<lambda>w j. (if al_free l then [Free_value w] else []) @ [Free_node (zmalloc j)]) (take k vs) [0..<k]
      = map (\<lambda>j. [Free_value (vs ! j), Free_node (zmalloc j)]) [0..<k]"
    using d(2) z(1) r(2) by (intro nth_equalityI) auto
  ultimately show ?thesis using listDup_fails [of l m "take k xs" "xs ! k" "drop (Suc k) xs" "take k vs" zmalloc] r(1) x z(2,3) by simp
qed

subsection \<open>Two nodes\<close>

definition two_mem :: "nat list_mem" where
  "two_mem = \<lparr>nodes = (\<lambda>_. \<lparr>node_prev = 0, node_next = 0, node_value = 0\<rparr>)
     (8 := \<lparr>node_prev = 0, node_next = 16, node_value = 5\<rparr>, 16 := \<lparr>node_prev = 8, node_next = 0, node_value = 7\<rparr>), list_events = []\<rparr>"

definition two_list :: "nat adlist" where
  "two_list = \<lparr>al_head = 8, al_tail = 16, al_dup = None, al_free = True, al_match = None, al_len = 2\<rparr>"

lemma two_ok: "al_stands two_list two_mem [8, 16] [5, 7]"
  by (simp add: al_stands_def al_rep_def two_list_def two_mem_def nlinks_def vals_def hd0_def last0_def)

definition two_fresh :: "nat \<Rightarrow> addr" where "two_fresh k = (if k = 0 then 24 else if k = 1 then 32 else 0)"

lemma two_fresh_ok: "n \<le> 2 \<Longrightarrow> fresh_nodes two_fresh 0 n (set [8, 16])"
  by (auto simp: fresh_nodes_def two_fresh_def inj_on_def)

theorem adlist_refines_witness:
  "listIndex two_list (- 1) two_mem = 16
    \<and> (\<exists>copy m'. listDup two_fresh two_list two_mem = Some (Some copy, m') \<and> al_stands copy m' [24, 32] [5, 7] \<and> al_stands two_list m' [8, 16] [5, 7])"
proof -
  have "list_all2 (\<lambda>v w. dup_value two_list v = Some w) [5, 7] [5, 7]" by (simp add: dup_value_def two_list_def)
  moreover have "fresh_nodes two_fresh 0 (length [8, 16 :: addr]) (set [8, 16])" by (rule two_fresh_ok) simp
  ultimately show ?thesis using adlist_refines [OF two_ok, of 40 "[5, 7]" two_fresh 0 0 "- 1"] by (auto simp: two_fresh_def Let_def upt_rec)
qed

theorem list_sweep_visits_all_witness:
  "\<exists>l' m'. list_sweep (\<lambda>v. v = 7) (listGetIterator two_list AL_START_TAIL) two_list two_mem = Some ([16, 8], l', m') \<and> al_stands l' m' [8] [5]"
  using list_sweep_visits_all [OF two_ok, of "\<lambda>v. v = 7" AL_START_TAIL] by (auto simp: AL_START_TAIL_def AL_START_HEAD_def two_mem_def)

theorem list_dup_frees_shared_witness:
  "\<exists>m'. listDup (\<lambda>k. if k = 0 then 24 else 0) two_list two_mem = Some (None, m') \<and> Free_value 5 \<in> set (list_events m')"
proof -
  have "fresh_nodes (\<lambda>k. if k = 0 then 24 else 0) 0 1 (set [8, 16])" by (simp add: fresh_nodes_def)
  with list_dup_frees_shared [OF two_ok, of 1 "\<lambda>k. if k = 0 then 24 else 0"] show ?thesis by (auto simp: two_list_def)
qed

end
