(* ===== verification/Spec2Isabelle.thy ===== *)
theory Spec2Isabelle
  imports Scheduler Split Nxhash Hashsort Hashselect Figures Redis Dictiter Lzfok Zipmapok Adlistok
begin

text \<open>
  Verification of C-strider, a framework for type-aware traversals of the heap of a C program,
  of the hash tables it is built on, and of the services that come with it.

  The program. A service consists of four callbacks (\<open>perfaction_prim\<close>, \<open>perfaction_struct\<close>,
  \<open>perfaction_ptr\<close>, \<open>perfaction_ptr_mapped\<close>; src/src/cstrider_api.h). A generator writes,
  for every structure of the traversed program, a function that visits its fields, and tables of
  types, sizes and names. \<open>init\<close> makes the type table (src/src/cstrider_api.c) from the
  generated arrays, \<open>visit_all\<close> calls \<open>visit\<close> (src/src/transform.c) on every root, and \<open>visit\<close>
  calls the callback for the type of the location: a pointer is looked up in the mapping table
  (from addresses of the old heap to addresses of the new one), recorded there when it is new, and
  the object behind it becomes a task in one of the work queues (src/src/queue.c).
  \<open>processqueue\<close> takes tasks out, in one thread or in several that steal from each other, until
  \<open>allqempty\<close> finds nothing left; then the delayed frees are carried out and the tables are
  taken down. The tables are uthash tables (src/contrib/uthash): \<open>uthash.h\<close> for data of one
  thread, \<open>uthash_xform.h\<close> with locks for the type table, \<open>uthash_nxform.h\<close> with one lock per
  bucket for the mapping table.

  Theories and sources.
  \<^item> \<open>Prelude\<close>: results of C functions (\<open>c_abort\<close>, \<open>rbind\<close>), widths of the scalars, generic lemmas.
  \<^item> \<open>Memory\<close>: bytes by address, loads and stores, C strings. \<open>Blocks\<close>: allocated blocks and what
    \<open>malloc\<close> and \<open>realloc\<close> promise (\<open>malloc_ok\<close>, \<open>realloc_ok\<close>).
  \<^item> \<open>Queue\<close>: queue.c, queue.h, function by function; the contract \<open>bounded_fifo\<close>.
  \<^item> \<open>Scheduler\<close>: \<open>processqueue\<close>, \<open>launch_helpers\<close> and the queue operations as the step relation
    \<open>sched_step\<close> of any number of threads (\<open>sched\<close>), with the mutexes explicit; a step is what a
    thread does between two accesses that others can see.
  \<^item> \<open>Hash\<close>: \<open>SuperFastHash\<close> (cstrider_api.c) and the hash functions of uthash.h.
  \<^item> \<open>Table\<close>: what the runtime needs of a hash table, as a list of entries, newest first.
    \<open>Uthash\<close>, \<open>Xhash\<close>, \<open>Nxhash\<close>: the three families of macros on their pointers, locks
    included, all instances of the contract \<open>element_table\<close>, which gives the refinement of the list.
    With two entries of the same key the list returns the newest; the pointers do so only until
    an expansion, which reverses chains, and the refinement asks for distinct keys.
    \<open>Hashsort\<close>, \<open>Hashselect\<close>: \<open>HASH_SRT\<close> and \<open>HASH_SELECT\<close>.
  \<^item> \<open>Types\<close>: the type table (\<open>cstrider_type_init\<close>, \<open>mktypptr\<close>, \<open>mktyparr\<close>,
    \<open>mktypfromgenargs\<close>, the queries and the memoized queries of transform.c).
  \<^item> \<open>Runtime\<close>: the state \<open>cstate\<close> of the runtime; mapping table, symbols and roots (cstrider_api.c),
    delayed frees (transform.c); the contract \<open>pointer_map\<close>.
  \<^item> \<open>Transform\<close>: \<open>visit\<close>, arrays and their splitting, tasks, the sequential loop, \<open>init\<close>,
    \<open>visit_all\<close>, \<open>finish\<close> (transform.c, cstrider_api.c). \<open>traverse\<close> is a whole traversal.
  \<^item> \<open>Coverage\<close>: whole traversals by services that only observe; \<open>Split\<close>: \<open>transform_split_array\<close>;
    \<open>Respects\<close>: relations that every visit respects (\<open>visit_relation\<close>).
  \<^item> \<open>Serial\<close> (examples/heap_serialize/serial.c), \<open>Figures\<close> (examples/figure10), \<open>Profile\<close>
    (heap_profile/profile.c and the profiling services of Redis), \<open>Update\<close> (redis-2.0.2/update.c),
    \<open>Redis\<close> (the other services of redis-2.0.2), \<open>Sds\<close> (its strings and their allocation).
  \<^item> \<open>Dict\<close>: dict.c and dict.h of redis-2.0.2, function by function, on entries at addresses.
    \<open>Dictmap\<close>: the invariant \<open>dict_rep\<close>, rehashing, growing, finding and adding, under the contract
    \<open>dict_type\<close> of keys; \<open>Dictdel\<close>: deleting, emptying and the refinement of maps; \<open>Dictiter\<close>: iterators.
  \<^item> \<open>Lzf\<close>: lzf_c.c and lzf_d.c of redis-2.0.2, on buffers with checked bounds; \<open>Lzfok\<close>: their format as
    a list of tokens (\<open>encode\<close>, \<open>expand\<close>), which the compressor writes and the decompressor reads.
  \<^item> \<open>Zipmap\<close>: zipmap.c of redis-2.0.2, a map in one block of bytes; \<open>Zipmapok\<close>: its entries and their
    encodings, and the relation \<open>zipmap_ok\<close> of blocks and maps.
  \<^item> \<open>Adlist\<close>: adlist.c and adlist.h of redis-2.0.2 on nodes at addresses; \<open>Adlistok\<close>: the sequence of a list
    (\<open>al_stands\<close>) and loops that delete while they iterate (\<open>list_sweep\<close>).

  What is shown.
  \<^item> A sequential traversal by an observing service ends, changes no memory, and visits every
    location that can be reached from the roots (\<open>traversal_complete\<close>).
  \<^item> In every interleaving of the threads no task is lost or done twice, at most one thread is in
    the critical section of a queue, no thread leaves early, some thread can always go on; but a
    second traversal of the same process can leave a task behind (\<open>stale_done_loses_task\<close>).
  \<^item> The ring buffers are bounded FIFO queues; \<open>enqueue\<close> takes the emptiest queue; the parts of a
    split array cover it exactly.
  \<^item> The hash tables refine a table of entries, keep their links and counts through adding,
    deleting, expanding, sorting and selecting, and the mapping table is freed once by all threads.
  \<^item> Constructed types are found again, operations keep the table well formed; collisions and
    unknown types do what they do (\<open>mktypptr_collision\<close>).
  \<^item> What the serialization services write they read back: pointers, strings, objects of Redis, and
    two globals through two whole traversals. Updates keep sharing. Counters count the visits.
  \<^item> A dictionary of Redis implements a map while it is being rehashed step by step; rehashing ends;
    an iteration sees every entry once although it deletes some; releasing frees everything once.
  \<^item> What \<open>lzf_compress\<close> writes \<open>lzf_decompress\<close> turns back into the input; any input can be decompressed
    without an access outside the buffers, but compressing needs one spare byte of output.
  \<^item> A zipmap of Redis refines a map, whether its count or its lengths fit a byte or not.
  \<^item> A list of Redis refines a sequence, also under deletion while iterating; a duplication that runs out of
    memory frees values of the original (\<open>list_dup_frees_shared\<close>).
  \<^item> The findings of the manifest name the places where the code does something else than it is
    meant to; most have a theorem that shows the behaviour.

  Bounds and fuel. \<open>visit\<close> takes the number of nested calls and \<open>process_loop\<close> the number of
  rounds; \<open>Out_of_fuel\<close> is their only effect. \<open>traversal_complete\<close> shows that the total weight of
  roots and objects is enough for both, for any weight of types that exceeds the work in an object. Loops along
  links and trylock loops are partial functions; that they return is part of every theorem about them.
  Integers have their width. Where a theorem needs that nothing overflows (fewer than \<open>2 ^ 32\<close>
  elements, fewer than \<open>2 ^ 31\<close> buckets, strings below two gigabytes, dictionaries with
  fewer than \<open>2 ^ 28\<close> entries and at most \<open>2 ^ 30\<close> buckets, zipmaps below four gigabytes), it is a hypothesis.

  Parameters. The generated code (fields of a structure, roots, type numbers) is a field of \<open>env\<close>;
  \<open>malloc\<close> and \<open>realloc\<close>, Kitsune's look-ups and modes, \<open>fcntl\<close>, \<open>time\<close> and the contents of
  uninitialised memory are arguments, and what is asked of them is a named hypothesis that a witness
  satisfies.

  Not modelled. Interleavings inside one callback: \<open>Scheduler\<close> treats processing a task as one
  step that submits tasks, and the theorems on memory are about sequential traversals. Allocation of
  entries of the runtime's own tables succeeds. The memory model is sequentially consistent. The
  generator and CIL (src/tools) are OCaml programs and third-party code. The example programs
  themselves (the \<open>main\<close> functions and the server of Redis 2.0.2: redis.c and the libraries it
  links beside sds.c, zmalloc.c, dict.c, lzf_c.c, lzf_d.c, zipmap.c, adlist.c and the services) are what the services traverse; they reach the model as
  generated parameters. \<open>uthash_bgxform.h\<close> is \<open>uthash_xform.h\<close> with more initial buckets and the
  freeing loop of \<open>uthash_nxform.h\<close>.
\<close>

end
